(* ===== verification/Prelude.thy ===== *)
theory Prelude
  imports "HOL-Library.Word"
begin

section \<open>Prelude: machine integers, byte memory and byte order\<close>

text \<open>
  What every component shares: the C integer types as words, the bytes of one C object as a
  function from offsets to bytes, the transfer of words to \<open>nat\<close> for bounds arguments
  (collection \<open>unat_simps\<close>), and the little- and big-endian codecs as instances of one
  interface, the locale \<open>byte_codec\<close>.
\<close>

unbundle bit_operations_syntax

type_synonym u8 = "8 word"
type_synonym u16 = "16 word"
type_synonym u32 = "32 word"
type_synonym u64 = "64 word"

text \<open>
  The bytes of one C object (a window, a receive ring), by offset from its base. A pointer
  \<open>base + off\<close> of the source is the offset \<open>off\<close> into the object's memory; distinct
  objects are distinct memories.
\<close>

type_synonym mem = "nat \<Rightarrow> u8"

named_theorems unat_simps \<open>word arithmetic carried to the natural numbers\<close>
named_theorems mem_simps \<open>reading after writing byte memory\<close>

subsection \<open>Words as natural numbers\<close>

lemma unat_lt_64: "unat (a :: u64) < 18446744073709551616"
  using unsigned_less [of a] by simp

lemma unat_lt_32: "unat (a :: u32) < 4294967296"
  using unsigned_less [of a] by simp

lemma unat_lt_16: "unat (a :: u16) < 65536"
  using unsigned_less [of a] by simp

lemma unat_lt_8: "unat (a :: u8) < 256"
  using unsigned_less [of a] by simp

lemma unat_add_small [unat_simps]:
  fixes a b :: "'a :: len word"
  assumes "unat a + unat b < 2 ^ LENGTH('a)"
  shows "unat (a + b) = unat a + unat b"
  using assms by (simp add: unat_word_ariths)

lemma unat_sub_le [unat_simps]:
  fixes a b :: "'a :: len word"
  assumes "b \<le> a"
  shows "unat (a - b) = unat a - unat b"
  using assms by (simp add: unat_sub)

lemma unat_min [unat_simps]: "unat (min a b :: 'a :: len word) = min (unat a) (unat b)"
  by (simp add: min_def word_le_nat_alt)

lemma unat_if [unat_simps]: "unat (if p then a else b) = (if p then unat a else unat b)"
  by simp

lemmas unat_divmod [unat_simps] = unat_div unat_mod

lemma ucast_u32_of_u64 [unat_simps]:
  "unat (a :: u64) < 4294967296 \<Longrightarrow> unat (ucast a :: u32) = unat a"
  by (simp add: unsigned_ucast_eq take_bit_eq_mod)

lemma unat_ucast_u64_of_u32 [simp]: "unat (ucast (a :: u32) :: u64) = unat a"
  using unat_lt_32 [of a] by (simp add: unsigned_ucast_eq take_bit_eq_mod)

lemma unat_ucast_u64_of_u16 [simp]: "unat (ucast (a :: u16) :: u64) = unat a"
  using unat_lt_16 [of a] by (simp add: unsigned_ucast_eq take_bit_eq_mod)

subsection \<open>Byte memory\<close>

text \<open>\<open>mem_read\<close> is what \<open>memcpy\<close> reads, \<open>mem_write\<close> what it leaves.\<close>

definition mem_read :: "mem \<Rightarrow> nat \<Rightarrow> nat \<Rightarrow> u8 list" where
  "mem_read m a n = map (\<lambda>i. m (a + i)) [0..<n]"

definition mem_write :: "mem \<Rightarrow> nat \<Rightarrow> u8 list \<Rightarrow> mem" where
  "mem_write m a bs = (\<lambda>i. if a \<le> i \<and> i < a + length bs then bs ! (i - a) else m i)"

lemma length_mem_read [simp]: "length (mem_read m a n) = n"
  by (simp add: mem_read_def)

lemma nth_mem_read [simp]: "i < n \<Longrightarrow> mem_read m a n ! i = m (a + i)"
  by (simp add: mem_read_def)

lemma mem_read_0 [simp]: "mem_read m a 0 = []"
  by (simp add: mem_read_def)

lemma mem_write_Nil [simp]: "mem_write m a [] = m"
  by (rule ext) (auto simp: mem_write_def)

lemma mem_write_apply [mem_simps]:
  "mem_write m a bs i = (if a \<le> i \<and> i < a + length bs then bs ! (i - a) else m i)"
  by (simp add: mem_write_def)

lemma mem_write_outside: "i < a \<or> a + length bs \<le> i \<Longrightarrow> mem_write m a bs i = m i"
  by (auto simp: mem_write_def)

lemma mem_read_write_same [mem_simps]: "mem_read (mem_write m a bs) a (length bs) = bs"
  by (rule nth_equalityI) (auto simp: mem_write_def)

lemma mem_read_write_disjoint:
  "b + n \<le> a \<or> a + length bs \<le> b \<Longrightarrow> mem_read (mem_write m a bs) b n = mem_read m b n"
  by (rule nth_equalityI) (auto simp: mem_write_def)

lemma mem_read_append: "mem_read m a (n + k) = mem_read m a n @ mem_read m (a + n) k"
  by (rule nth_equalityI) (auto simp: nth_append)

lemma mem_write_append:
  "mem_write m a (xs @ ys) = mem_write (mem_write m a xs) (a + length xs) ys"
  by (rule ext) (auto simp: mem_write_def nth_append)

lemma mem_write_cong: "(\<And>i. i < length bs \<Longrightarrow> bs ! i = bs' ! i) \<Longrightarrow> length bs = length bs' \<Longrightarrow>
    mem_write m a bs = mem_write m a bs'"
  by (rule ext) (auto simp: mem_write_def)

lemma take_mem_read: "k \<le> n \<Longrightarrow> take k (mem_read m a n) = mem_read m a k"
  by (rule nth_equalityI) auto

lemma drop_mem_read: "drop k (mem_read m a n) = mem_read m (a + k) (n - k)"
  by (rule nth_equalityI) (auto simp: ac_simps)

subsection \<open>Byte order\<close>

text \<open>
  \<open>put_le n v\<close> is the loop \<open>p[i] = (uint8_t)(v >> (8 * i))\<close> and \<open>get_le\<close> the loop
  \<open>v = v << 8 | p[i]\<close> from the last byte down. They are also what \<open>memcpy\<close> of an integer
  stores and loads on the little-endian machines the code runs on (arm64, x86-64).
\<close>

definition put_le :: "nat \<Rightarrow> 'a :: len word \<Rightarrow> u8 list" where
  "put_le n v = map (\<lambda>i. ucast (drop_bit (8 * i) v)) [0..<n]"

definition get_le :: "u8 list \<Rightarrow> 'a :: len word" where
  "get_le bs = foldr (\<lambda>b v. push_bit 8 v OR ucast b) bs 0"

definition put_be :: "nat \<Rightarrow> 'a :: len word \<Rightarrow> u8 list" where
  "put_be n v = rev (put_le n v)"

definition get_be :: "u8 list \<Rightarrow> 'a :: len word" where
  "get_be bs = get_le (rev bs)"

lemma length_put_le [simp]: "length (put_le n v) = n"
  by (simp add: put_le_def)

lemma length_put_be [simp]: "length (put_be n v) = n"
  by (simp add: put_be_def)

lemma put_le_0 [simp]: "put_le 0 v = []"
  by (simp add: put_le_def)

lemma put_le_Suc: "put_le (Suc n) v = ucast v # put_le n (drop_bit 8 v)"
  by (simp add: put_le_def upt_conv_Cons map_Suc_upt [symmetric] ac_simps del: upt_Suc)

lemma get_le_Nil [simp]: "get_le [] = 0"
  by (simp add: get_le_def)

lemma get_le_Cons [simp]: "get_le (b # bs) = push_bit 8 (get_le bs) OR ucast b"
  by (simp add: get_le_def)

lemma get_le_put_le: "get_le (put_le n v) = (take_bit (8 * n) v :: 'a :: len word)"
proof (induction n arbitrary: v)
  case 0
  show ?case by simp
next
  case (Suc n)
  have "get_le (put_le (Suc n) v) = push_bit 8 (take_bit (8 * n) (drop_bit 8 v)) OR ucast (ucast v :: u8)"
    by (simp only: put_le_Suc get_le_Cons Suc.IH)
  also have "\<dots> = take_bit (8 * Suc n) v"
    by (rule bit_word_eqI) (auto simp: bit_simps)
  finally show ?case .
qed

lemma bit_get_le:
  "bit (get_le bs :: 'a :: len word) k \<longleftrightarrow> k < LENGTH('a) \<and> k div 8 < length bs \<and> bit (bs ! (k div 8)) (k mod 8)"
proof (induction bs arbitrary: k)
  case (Cons b bs)
  show ?case
  proof (cases "k < 8")
    case True
    then show ?thesis by (auto simp: bit_simps)
  next
    case False
    then have "k div 8 = Suc ((k - 8) div 8)" "(k - 8) mod 8 = k mod 8" by (simp_all add: le_div_geq le_mod_geq)
    with False show ?thesis by (auto simp: bit_simps Cons.IH dest: bit_imp_le_length)
  qed
qed simp

lemma put_le_get_le:
  assumes "length bs = n" and "8 * n \<le> LENGTH('a)"
  shows "put_le n (get_le bs :: 'a :: len word) = bs"
proof (rule nth_equalityI)
  fix i assume "i < length (put_le n (get_le bs :: 'a word))"
  then have i: "i < n" by simp
  show "put_le n (get_le bs :: 'a word) ! i = bs ! i"
  proof (rule bit_word_eqI)
    fix j assume "j < LENGTH(8)"
    then have j: "j < 8" by simp
    then have "(8 * i + j) div 8 = i" "(8 * i + j) mod 8 = j" by simp_all
    with i j assms show "bit (put_le n (get_le bs :: 'a word) ! i) j = bit (bs ! i) j"
      by (simp add: put_le_def bit_simps bit_get_le)
  qed
qed (use assms in simp)

text \<open>The contract of a fixed-width integer codec: what is read back is what was stored.\<close>

locale byte_codec =
  fixes put :: "'a :: len word \<Rightarrow> u8 list"
    and get :: "u8 list \<Rightarrow> 'a word"
    and width :: nat
  assumes length_put [simp]: "length (put v) = width"
    and get_put [simp]: "get (put v) = v"
begin

lemma put_inj: "put v = put v' \<longleftrightarrow> v = v'"
  by (metis get_put)

lemma get_take_put: "get (take width (put v @ rest)) = v"
  by simp

lemma get_stored:
  assumes "a + width \<le> n"
  shows "get (take width (drop a (mem_read (mem_write m a (put v)) 0 n))) = v"
  using assms by (simp add: drop_mem_read take_mem_read mem_read_write_same [of m a "put v", simplified])

end

text \<open>A codec that also loses nothing of what it reads: every block of its width is a stored integer.\<close>

locale byte_codec_onto = byte_codec +
  assumes put_get [simp]: "length bs = width \<Longrightarrow> put (get bs) = bs"
begin

lemma get_inj: "length bs = width \<Longrightarrow> length bs' = width \<Longrightarrow> get bs = get bs' \<longleftrightarrow> bs = bs'"
  by (metis put_get)

end

interpretation le16: byte_codec_onto "put_le 2 :: u16 \<Rightarrow> u8 list" get_le 2
  by unfold_locales (simp_all add: get_le_put_le take_bit_word_eq_self put_le_get_le)

interpretation le32: byte_codec_onto "put_le 4 :: u32 \<Rightarrow> u8 list" get_le 4
  by unfold_locales (simp_all add: get_le_put_le take_bit_word_eq_self put_le_get_le)

interpretation le64: byte_codec_onto "put_le 8 :: u64 \<Rightarrow> u8 list" get_le 8
  by unfold_locales (simp_all add: get_le_put_le take_bit_word_eq_self put_le_get_le)

interpretation be32: byte_codec_onto "put_be 4 :: u32 \<Rightarrow> u8 list" get_be 4
  by unfold_locales (simp_all add: put_be_def get_be_def get_le_put_le take_bit_word_eq_self put_le_get_le)

interpretation be64: byte_codec_onto "put_be 8 :: u64 \<Rightarrow> u8 list" get_be 8
  by unfold_locales (simp_all add: put_be_def get_be_def get_le_put_le take_bit_word_eq_self put_le_get_le)

text \<open>An array of 32-bit counts, as \<open>memcpy\<close> moves it.\<close>

definition put_words :: "u32 list \<Rightarrow> u8 list" where
  "put_words ws = concat (map (put_le 4) ws)"

fun get_words :: "nat \<Rightarrow> u8 list \<Rightarrow> u32 list" where
  "get_words 0 bs = []"
| "get_words (Suc n) bs = get_le (take 4 bs) # get_words n (drop 4 bs)"

lemma length_put_words [simp]: "length (put_words ws) = 4 * length ws"
  by (induction ws) (simp_all add: put_words_def)

lemma length_get_words [simp]: "length (get_words n bs) = n"
  by (induction n arbitrary: bs) simp_all

lemma get_put_words [simp]: "get_words (length ws) (put_words ws @ rest) = ws"
  by (induction ws) (simp_all add: put_words_def)

lemma put_get_words:
  "length bs = 4 * n \<Longrightarrow> put_words (get_words n bs) = bs"
proof (induction n arbitrary: bs)
  case (Suc n)
  have "put_words (get_words n (drop 4 bs)) = drop 4 bs" using Suc by simp
  with Suc.prems show ?case by (simp add: put_words_def)
qed (simp add: put_words_def)

subsection \<open>Bounded queues\<close>

text \<open>
  One end puts, the other gets, in any interleaving. \<open>queue_run\<close> gives what was accepted, what was
  taken out and the state after the operations.
\<close>

datatype 'a queue_op = Put 'a | Get

fun queue_run :: "('a \<Rightarrow> 's \<Rightarrow> 's option) \<Rightarrow> ('s \<Rightarrow> ('a \<times> 's) option) \<Rightarrow> 'a queue_op list \<Rightarrow> 's \<Rightarrow> 'a list \<times> 'a list \<times> 's" where
  "queue_run put get [] s = ([], [], s)"
| "queue_run put get (Put x # ops) s =
     (case put x s of
        None \<Rightarrow> queue_run put get ops s
      | Some s1 \<Rightarrow> (case queue_run put get ops s1 of (ins, outs, s2) \<Rightarrow> (x # ins, outs, s2)))"
| "queue_run put get (Get # ops) s =
     (case get s of
        None \<Rightarrow> queue_run put get ops s
      | Some (x, s1) \<Rightarrow> (case queue_run put get ops s1 of (ins, outs, s2) \<Rightarrow> (ins, x # outs, s2)))"

locale bounded_queue =
  fixes items :: "'s \<Rightarrow> 'a list" and ok :: "'s \<Rightarrow> bool"
    and put :: "'a \<Rightarrow> 's \<Rightarrow> 's option" and get :: "'s \<Rightarrow> ('a \<times> 's) option" and cap :: nat
  assumes put_items: "ok s \<Longrightarrow> put x s = Some s' \<Longrightarrow> ok s' \<and> items s' = items s @ [x]"
    and put_full: "ok s \<Longrightarrow> put x s = None \<longleftrightarrow> cap \<le> length (items s)"
    and get_items: "ok s \<Longrightarrow> get s = Some (x, s') \<Longrightarrow> ok s' \<and> items s = x # items s'"
    and get_empty: "ok s \<Longrightarrow> get s = None \<longleftrightarrow> items s = []"
begin

lemma run_keeps:
  assumes "queue_run put get ops s = (ins, outs, s')" and "ok s"
  shows "ok s' \<and> items s @ ins = outs @ items s' \<and> (length (items s) \<le> cap \<longrightarrow> length (items s') \<le> cap)"
  using assms
proof (induction ops arbitrary: s ins outs s')
  case (Cons op ops)
  show ?case
  proof (cases op)
    case (Put x)
    show ?thesis
    proof (cases "put x s")
      case (Some s1)
      obtain ins1 outs1 s2 where r: "queue_run put get ops s1 = (ins1, outs1, s2)" by (cases "queue_run put get ops s1")
      have e: "ins = x # ins1" "outs = outs1" "s' = s2" using Cons.prems(1) Put Some r by simp_all
      have p: "ok s1" "items s1 = items s @ [x]" using put_items [OF Cons.prems(2) Some] by simp_all
      have "length (items s1) \<le> cap" if "length (items s) \<le> cap"
        using that p(2) put_full [OF Cons.prems(2), of x] Some by simp
      with Cons.IH [OF r p(1)] p(2) show ?thesis by (simp add: e)
    qed (use Cons Put in simp)
  next
    case Get
    show ?thesis
    proof (cases "get s")
      case (Some y)
      obtain x s1 where y: "y = (x, s1)" by (cases y)
      obtain ins1 outs1 s2 where r: "queue_run put get ops s1 = (ins1, outs1, s2)" by (cases "queue_run put get ops s1")
      have e: "ins = ins1" "outs = x # outs1" "s' = s2" using Cons.prems(1) Get Some y r by simp_all
      have p: "ok s1" "items s = x # items s1" using get_items [OF Cons.prems(2)] Some y by simp_all
      with Cons.IH [OF r p(1)] show ?thesis by (simp add: e)
    qed (use Cons Get in simp)
  qed
qed simp

lemma run_fifo: "queue_run put get ops s = (ins, outs, s') \<Longrightarrow> ok s \<Longrightarrow> items s @ ins = outs @ items s'"
  using run_keeps by blast

lemma run_bounded:
  "queue_run put get ops s = (ins, outs, s') \<Longrightarrow> ok s \<Longrightarrow> length (items s) \<le> cap \<Longrightarrow> length (items s') \<le> cap"
  using run_keeps by blast

end

end
