(* ===== verification/Link_Types.thy ===== *)
theory Link_Types
  imports Prelude
begin

section \<open>The shared link header (rpc/link.h)\<close>

text \<open>
  The constants and structures of \<open>rpc/link.h\<close> that the exchange, the verbs endpoints and the
  Thunderbolt link share. A C macro has no type of its own, so each one is a numeral of whatever
  type its use has. Handles of the verbs library (context, protection domain, queue pair) are
  opaque to the code and are left out of the records.
\<close>

subsection \<open>Constants\<close>

abbreviation (input) LINK_ROCE :: "'a :: numeral" where "LINK_ROCE \<equiv> 1"
abbreviation (input) LINK_TB :: "'a :: numeral" where "LINK_TB \<equiv> 2"
abbreviation (input) LINK_SEG :: "'a :: numeral" where "LINK_SEG \<equiv> 4194304"
abbreviation (input) TB_SEG :: "'a :: numeral" where "TB_SEG \<equiv> 12582912"
abbreviation (input) TB_PACKET :: "'a :: numeral" where "TB_PACKET \<equiv> 4096"
abbreviation (input) TB_RING :: "'a :: numeral" where "TB_RING \<equiv> 2048"
abbreviation (input) TB_STAGE :: "'a :: numeral" where "TB_STAGE \<equiv> 64"
abbreviation (input) TB_SEND_WR :: "'a :: numeral" where "TB_SEND_WR \<equiv> 1024"
abbreviation (input) TB_BOND_MAX :: "'a :: numeral" where "TB_BOND_MAX \<equiv> 24"
abbreviation (input) TB_MSG :: "'a :: numeral" where "TB_MSG \<equiv> 4194304"
abbreviation (input) TB_DEPTH :: "'a :: numeral" where "TB_DEPTH \<equiv> 4095"
abbreviation (input) TB_TRY_MAX :: "'a :: numeral" where "TB_TRY_MAX \<equiv> 262144"
abbreviation (input) TB_REPOST_WAIT_NS :: "'a :: numeral" where "TB_REPOST_WAIT_NS \<equiv> 5000"
abbreviation (input) TB_RECV_BATCH :: "'a :: numeral" where "TB_RECV_BATCH \<equiv> 2"
abbreviation (input) LINK_REGION_MAX :: "'a :: numeral" where "LINK_REGION_MAX \<equiv> 128"
abbreviation (input) LINK_MRS :: "'a :: numeral" where "LINK_MRS \<equiv> 132"
abbreviation (input) MODE_DIRECT :: "'a :: numeral" where "MODE_DIRECT \<equiv> 1"
abbreviation (input) MODE_PULL :: "'a :: numeral" where "MODE_PULL \<equiv> 2"

subsection \<open>Registrations and regions\<close>

text \<open>
  \<open>struct ibv_mr\<close> as the code uses it: its keys, and the range and access it was asked for
  (which the code never reads back, but which say what the registration covers).
\<close>

record mr =
  mr_off :: u64
  mr_len :: u64
  mr_access :: u32
  mr_lkey :: u32
  mr_rkey :: u32

text \<open>
  \<open>struct region\<close>: \<open>r_base\<close> is the address of its first byte, and \<open>r_mr\<close> holds the
  first \<open>n\<close> entries of the array \<open>mr\<close>, so \<open>n\<close> is its length.
\<close>

record region =
  r_base :: u64
  r_length :: u64
  r_seg :: u64
  r_split :: u64
  r_below :: u32
  r_above :: u32
  r_mr :: "mr list"

text \<open>\<open>struct table\<close>: the peer's region; \<open>rkey\<close> is its array of LINK\_REGION\_MAX keys.\<close>

record table =
  tab_base :: u64
  tab_length :: u64
  tab_seg :: u64
  tab_n :: u32
  tab_rkey :: "u32 list"

record xinfo =
  xi_transport :: u8
  xi_mode :: u8
  xi_lid :: u16
  xi_qpn :: u32
  xi_qpn2 :: u32
  xi_psn :: u32
  xi_frames :: u32
  xi_gid :: "u8 list"
  xi_req :: u64
  xi_rep :: u64
  xi_table :: table

text \<open>One RDMA request: its local and remote range (\<open>struct piece\<close>).\<close>

record piece =
  pc_local :: u64
  pc_lkey :: u32
  pc_remote :: u64
  pc_rkey :: u32
  pc_len :: u32

end
