(* ===== verification/Link_Cut.thy ===== *)
theory Link_Cut
  imports Link_Types
begin

section \<open>Cutting a range into pieces\<close>

text \<open>
  Every transfer loop of the link code (\<open>tb_write\<close>, \<open>tb_bond_write_n\<close>, \<open>tb_can_write\<close>,
  \<open>tb_write_try\<close>, \<open>cut\<close>, \<open>roce_range\<close>) walks a range by taking, at offset \<open>off\<close> with
  \<open>len\<close> bytes left, the next piece a rule allows. The locale \<open>cutter\<close> is the contract such
  a rule keeps (the piece is not empty and not longer than what is left), \<open>chop\<close> is the
  sequence of pieces, and the lemmas show that the pieces tile the range.
\<close>

function chop :: "(u64 \<Rightarrow> u64 \<Rightarrow> u64) \<Rightarrow> u64 \<Rightarrow> u64 \<Rightarrow> (u64 \<times> u64) list" where
  "chop tk off len =
     (if len = 0 \<or> tk off len = 0 \<or> len < tk off len then []
      else (off, tk off len) # chop tk (off + tk off len) (len - tk off len))"
  by pat_completeness auto
termination
proof (relation "measure (\<lambda>(tk, off, len). unat len)", goal_cases)
  case 1
  show ?case by simp
next
  case (2 tk off len)
  then have "unat (len - tk off len) = unat len - unat (tk off len)" "unat (tk off len) \<noteq> 0"
    "unat len \<noteq> 0"
    by (auto simp: unat_sub_le not_less unat_eq_zero)
  then show ?case by simp
qed

declare chop.simps [simp del]

lemma chop_0 [simp]: "chop tk off 0 = []"
  by (subst chop.simps) simp

text \<open>A range given by a first offset and lengths that follow each other without a gap.\<close>

fun tiles :: "u64 \<Rightarrow> (u64 \<times> u64) list \<Rightarrow> bool" where
  "tiles off [] = True"
| "tiles off ((o', k) # ps) = (o' = off \<and> k \<noteq> 0 \<and> tiles (off + k) ps)"

locale cutter =
  fixes tk :: "u64 \<Rightarrow> u64 \<Rightarrow> u64"
  assumes tk_pos: "len \<noteq> 0 \<Longrightarrow> tk off len \<noteq> 0"
    and tk_le: "len \<noteq> 0 \<Longrightarrow> tk off len \<le> len"
begin

lemma chop_step:
  "len \<noteq> 0 \<Longrightarrow> chop tk off len = (off, tk off len) # chop tk (off + tk off len) (len - tk off len)"
  by (subst chop.simps) (simp add: tk_pos tk_le not_less)

lemma rest_less:
  assumes "len \<noteq> 0"
  shows "unat (len - tk off len) < unat len"
proof -
  have "unat (len - tk off len) = unat len - unat (tk off len)"
    using tk_le [OF assms] by (rule unat_sub_le)
  moreover have "0 < unat (tk off len)" "0 < unat len"
    using tk_pos [OF assms] assms by (simp_all add: unat_gt_0)
  ultimately show ?thesis by simp
qed

lemma chop_induct [case_names Done Step]:
  assumes "\<And>off. P off 0"
    and "\<And>off len. len \<noteq> 0 \<Longrightarrow> P (off + tk off len) (len - tk off len) \<Longrightarrow> P off len"
  shows "P off len"
proof (induction "unat len" arbitrary: off len rule: less_induct)
  case less
  show ?case
  proof (cases "len = 0")
    case True
    with assms(1) show ?thesis by simp
  next
    case False
    with less rest_less have "P (off + tk off len) (len - tk off len)" by blast
    with False assms(2) show ?thesis by blast
  qed
qed

lemma chop_tiles: "tiles off (chop tk off len)"
  by (induction off len rule: chop_induct) (simp_all add: chop_step tk_pos)

lemma chop_nonempty: "len \<noteq> 0 \<Longrightarrow> chop tk off len \<noteq> []"
  by (simp add: chop_step)

lemma chop_total: "sum_list (map (unat \<circ> snd) (chop tk off len)) = unat len"
proof (induction off len rule: chop_induct)
  case (Step off len)
  have "unat (tk off len) \<le> unat len" using tk_le [OF Step(1)] by (simp add: word_le_nat_alt)
  then show ?case
    using Step tk_le [OF Step(1)] by (simp add: chop_step unat_sub_le)
qed simp

text \<open>Every piece lies inside the range, when the range itself does not wrap.\<close>

lemma chop_within:
  assumes "(o', k) \<in> set (chop tk off len)" and "unat off + unat len \<le> 2 ^ 64"
  shows "unat off \<le> unat o' \<and> unat o' + unat k \<le> unat off + unat len \<and> k \<noteq> 0"
  using assms
proof (induction off len rule: chop_induct)
  case (Step off len)
  let ?k = "tk off len"
  have k: "unat ?k \<le> unat len" "?k \<noteq> 0"
    using tk_le [OF Step(1)] tk_pos [OF Step(1)] by (simp_all add: word_le_nat_alt)
  show ?case
  proof (cases "unat off + unat ?k < 2 ^ 64")
    case True
    then have a: "unat (off + ?k) = unat off + unat ?k" by (simp add: unat_add_small)
    moreover have "unat (len - ?k) = unat len - unat ?k"
      using tk_le [OF Step(1)] by (rule unat_sub_le)
    ultimately show ?thesis using Step k by (auto simp: chop_step)
  next
    case False
    with k Step(4) have "unat ?k = unat len" by simp
    then have "?k = len" by (simp add: word_unat_eq_iff)
    with Step k show ?thesis by (auto simp: chop_step)
  qed
qed simp

text \<open>Copying piece by piece is copying the range.\<close>

lemma chop_read:
  assumes "unat off + unat len \<le> 2 ^ 64"
  shows "concat (map (\<lambda>(o', k). mem_read m (unat o') (unat k)) (chop tk off len)) =
         mem_read m (unat off) (unat len)"
  using assms
proof (induction off len rule: chop_induct)
  case (Step off len)
  let ?k = "tk off len"
  have k: "unat ?k \<le> unat len" using tk_le [OF Step(1)] by (simp add: word_le_nat_alt)
  have r: "unat (len - ?k) = unat len - unat ?k" using tk_le [OF Step(1)] by (rule unat_sub_le)
  show ?case
  proof (cases "unat off + unat ?k < 2 ^ 64")
    case True
    then have "unat (off + ?k) = unat off + unat ?k" by (simp add: unat_add_small)
    then show ?thesis
      using Step k r mem_read_append [of m "unat off" "unat ?k" "unat len - unat ?k"]
      by (simp add: chop_step)
  next
    case False
    with k Step(3) have "unat ?k = unat len" by simp
    then have "?k = len" by (simp add: word_unat_eq_iff)
    with Step(1) show ?thesis by (simp add: chop_step)
  qed
qed simp

end

subsection \<open>The rule of the Thunderbolt loops and of \<open>cut\<close>\<close>

text \<open>
  \<open>take = len < max ? len : max, lroom = src->seg - off % src->seg; take = take < lroom ? take : lroom\<close>:
  the next piece is at most \<open>max\<close> bytes and stays inside one registration.
\<close>

definition take_in :: "u64 \<Rightarrow> u64 \<Rightarrow> u64 \<Rightarrow> u64 \<Rightarrow> u64" where
  "take_in mx seg off len =
     (let take = (if len < mx then len else mx); lroom = seg - off mod seg
      in if take < lroom then take else lroom)"

lemma seg_room:
  fixes seg off :: u64
  assumes "seg \<noteq> 0"
  shows "unat (seg - off mod seg) = unat seg - unat off mod unat seg"
    and "0 < unat seg - unat off mod unat seg"
proof -
  have "0 < unat seg" using assms by (simp add: unat_gt_0)
  then have m: "unat off mod unat seg < unat seg" by simp
  then have "off mod seg \<le> seg" by (simp add: word_le_nat_alt unat_mod)
  then show "unat (seg - off mod seg) = unat seg - unat off mod unat seg"
    by (simp add: unat_sub_le unat_mod)
  from m show "0 < unat seg - unat off mod unat seg" by simp
qed

lemma unat_take_in:
  assumes "seg \<noteq> 0"
  shows "unat (take_in mx seg off len) =
         min (min (unat len) (unat mx)) (unat seg - unat off mod unat seg)"
  using seg_room [OF assms, of off]
  by (auto simp: take_in_def Let_def word_less_nat_alt)

lemma take_in_seg:
  assumes "seg \<noteq> 0"
  shows "unat off mod unat seg + unat (take_in mx seg off len) \<le> unat seg"
proof -
  have "unat off mod unat seg \<le> unat seg" using assms by (simp add: unat_gt_0 order_less_imp_le)
  then show ?thesis using unat_take_in [OF assms, of mx off len] by simp
qed

lemma take_in_max: "seg \<noteq> 0 \<Longrightarrow> take_in mx seg off len \<le> mx"
  by (simp add: word_le_nat_alt unat_take_in)

lemma cutter_take_in: "mx \<noteq> 0 \<Longrightarrow> seg \<noteq> 0 \<Longrightarrow> cutter (take_in mx seg)"
proof unfold_locales
  fix off len :: u64
  assume nz: "mx \<noteq> 0" "seg \<noteq> 0" "len \<noteq> 0"
  then have "unat (take_in mx seg off len) \<noteq> 0"
    using seg_room(2) [of seg off] by (simp add: unat_take_in unat_gt_0 unat_eq_zero)
  then show "take_in mx seg off len \<noteq> 0" by (simp add: unat_eq_zero)
  show "take_in mx seg off len \<le> len"
    using nz by (simp add: word_le_nat_alt unat_take_in)
qed

text \<open>
  A transfer's limits: the largest message and the registration size, both positive. Such limits
  make \<open>take_in\<close> a cutting rule; the two link kinds' windows are instances.
\<close>

locale transfer_limits =
  fixes mx seg :: u64
  assumes mx_pos: "mx \<noteq> 0" and seg_pos: "seg \<noteq> 0"

sublocale transfer_limits \<subseteq> cutter "take_in mx seg"
  by (rule cutter_take_in [OF mx_pos seg_pos])

interpretation tb_window: transfer_limits TB_MSG TB_SEG
  by unfold_locales simp_all

interpretation roce_window: transfer_limits LINK_SEG LINK_SEG
  by unfold_locales simp_all

text \<open>
  The registration an offset falls in is its quotient by the registration size; a piece cut by
  \<open>take_in\<close> never leaves the one it starts in.
\<close>

lemma same_registration:
  assumes "0 < s" and "a mod s + k \<le> s" and "0 < (k :: nat)"
  shows "(a + k - 1) div s = a div s"
proof -
  have "a + k - 1 = a div s * s + (a mod s + k - 1)"
    using div_mult_mod_eq [of a s] assms(3) by simp
  moreover have "a mod s + k - 1 < s" using assms by simp
  ultimately show ?thesis using assms(1) by simp
qed

end
