(* ===== verification/Link_Verbs.thy ===== *)
theory Link_Verbs
  imports Link_Types Link_Cut
begin

section \<open>Verbs endpoints (rpc/link\_verbs.c)\<close>

text \<open>
  Registration of a region in pieces, the offer an endpoint makes of it, the check of a peer's
  table, the cutting of a transfer into requests, and the ordered posting and reaping of RoCE
  requests. The verbs library is not part of the repository: the results of its calls
  (\<open>ibv_reg_mr\<close>, \<open>ibv_post_send\<close>, \<open>ibv_poll_cq\<close>, the clock) are read from oracles, one value
  per call in the order of the calls, and every theorem holds for all of them unless it says
  otherwise.
\<close>

subsection \<open>Registering a region\<close>

abbreviation (input) IBV_ACCESS_LOCAL_WRITE :: u32 where "IBV_ACCESS_LOCAL_WRITE \<equiv> 1"
abbreviation (input) IBV_ACCESS_REMOTE_WRITE :: u32 where "IBV_ACCESS_REMOTE_WRITE \<equiv> 2"
abbreviation (input) IBV_ACCESS_REMOTE_READ :: u32 where "IBV_ACCESS_REMOTE_READ \<equiv> 4"

text \<open>
  \<open>struct ep\<close>, the part this file reads and writes. \<open>e_mr\<close> holds the first \<open>nmr\<close> entries of
  the array \<open>mr\<close>. The oracle \<open>e_reg_mr\<close> gives the keys of the next registration, None when the
  device refuses it.
\<close>

record ep =
  e_kind :: nat
  e_lid :: u16
  e_qpn :: "u32 option"
  e_psn :: u32
  e_gid :: "u8 list"
  e_frames :: "u32 option"
  e_mr :: "mr list"
  e_reg_mr :: "nat \<Rightarrow> (u32 \<times> u32) option"
  e_nreg :: nat

definition ep_reg :: "ep \<Rightarrow> u64 \<Rightarrow> u64 \<Rightarrow> u32 \<Rightarrow> mr option \<times> ep" where
  "ep_reg e off len access =
     (if LINK_MRS \<le> length (e_mr e) then (None, e)
      else case e_reg_mr e (e_nreg e) of
          None \<Rightarrow> (None, e\<lparr>e_nreg := Suc (e_nreg e)\<rparr>)
        | Some (lk, rk) \<Rightarrow>
            let mr = \<lparr>mr_off = off, mr_len = len, mr_access = access, mr_lkey = lk, mr_rkey = rk\<rparr>
            in (Some mr, e\<lparr>e_mr := e_mr e @ [mr], e_nreg := Suc (e_nreg e)\<rparr>))"

text \<open>
  The registration loop at offset \<open>off\<close>: it stops at \<open>length\<close>, or fails at the first refused
  registration and when the array of LINK\_REGION\_MAX registrations is full, which is also why it
  ends even where \<open>off += seg\<close> wraps.
\<close>

function reg_loop :: "ep \<Rightarrow> region \<Rightarrow> u64 \<Rightarrow> int \<times> ep \<times> region" where
  "reg_loop e r off =
     (if \<not> off < r_length r then (0, e, r)
      else let len = (if r_length r - off < r_seg r then r_length r - off else r_seg r) in
        if LINK_REGION_MAX \<le> length (r_mr r) then (-1, e, r)
        else case ep_reg e off len (if off < r_split r then r_below r else r_above r) of
            (None, e') \<Rightarrow> (-1, e', r)
          | (Some mr, e') \<Rightarrow> reg_loop e' (r\<lparr>r_mr := r_mr r @ [mr]\<rparr>) (off + r_seg r))"
  by pat_completeness auto
termination
  by (relation "measure (\<lambda>(e, r, off). 128 - length (r_mr r))") auto

declare reg_loop.simps [simp del]

definition ep_reg_region ::
    "ep \<Rightarrow> u64 \<Rightarrow> u64 \<Rightarrow> u64 \<Rightarrow> u64 \<Rightarrow> u32 \<Rightarrow> u32 \<Rightarrow> int \<times> ep \<times> region" where
  "ep_reg_region e base len seg split blw abv =
     reg_loop e
       \<lparr>r_base = base, r_length = len, r_seg = (if seg \<noteq> 0 then seg else len), r_split = split,
        r_below = (if e_kind e = LINK_TB then IBV_ACCESS_LOCAL_WRITE else blw),
        r_above = (if e_kind e = LINK_TB then IBV_ACCESS_LOCAL_WRITE else abv),
        r_mr = []\<rparr> 0"

definition region_lkey :: "region \<Rightarrow> u64 \<Rightarrow> u32" where
  "region_lkey r off = mr_lkey (r_mr r ! unat (off div r_seg r))"

subsection \<open>The offer and its check\<close>

text \<open>
  The array of keys an offer carries has LINK\_REGION\_MAX entries, zeroed first; a Thunderbolt
  offer gives only the geometry. \<open>e_frames\<close> is what \<open>tb_info\<close> reports: the receive slots of
  the Thunderbolt state, if there is one.
\<close>

definition offered_key :: "region \<Rightarrow> nat \<Rightarrow> mr \<Rightarrow> u32" where
  "offered_key r i m =
     (let access = (if of_nat i * r_seg r < r_split r then r_below r else r_above r)
      in if access AND (IBV_ACCESS_REMOTE_WRITE OR IBV_ACCESS_REMOTE_READ) \<noteq> 0 then mr_rkey m else 0)"

definition ep_info :: "ep \<Rightarrow> region \<Rightarrow> xinfo" where
  "ep_info e r =
     \<lparr>xi_transport = of_nat (e_kind e), xi_mode = 0, xi_lid = e_lid e,
      xi_qpn = (case e_qpn e of Some q \<Rightarrow> q | None \<Rightarrow> 0), xi_qpn2 = 0, xi_psn = e_psn e,
      xi_frames = (if e_kind e = LINK_TB then (case e_frames e of Some s \<Rightarrow> s | None \<Rightarrow> 0) else 0),
      xi_gid = e_gid e, xi_req = 0, xi_rep = 0,
      xi_table =
        \<lparr>tab_base = r_base r, tab_length = r_length r, tab_seg = r_seg r,
         tab_n = (if e_kind e = LINK_TB then 0 else of_nat (length (r_mr r))),
         tab_rkey =
           (if e_kind e = LINK_TB then replicate LINK_REGION_MAX 0
            else map (\<lambda>(i, m). offered_key r i m) (enumerate 0 (r_mr r)) @
                 replicate (LINK_REGION_MAX - length (r_mr r)) 0)\<rparr>\<rparr>"

definition table_valid :: "table \<Rightarrow> u64 \<Rightarrow> bool \<Rightarrow> bool" where
  "table_valid t need keys =
     (if tab_seg t = 0 \<or> tab_length t < need \<or> LINK_REGION_MAX < tab_n t then False
      else \<not> keys \<or> (tab_n t \<noteq> 0 \<and>
             (tab_length t + tab_seg t - 1) div tab_seg t \<le> ucast (tab_n t)))"

subsection \<open>Cutting a transfer into requests\<close>

text \<open>
  The step of \<open>cut\<close>: at most \<open>max\<close> bytes, inside one local and, when the remote table is given,
  one remote registration.
\<close>

definition cut_take :: "region \<Rightarrow> table option \<Rightarrow> u64 \<Rightarrow> u64 \<Rightarrow> u64 \<Rightarrow> u64 \<Rightarrow> u64" where
  "cut_take local remote mx off roff len =
     (let take = take_in mx (r_seg local) off len in
      case remote of
        None \<Rightarrow> take
      | Some t \<Rightarrow> let rroom = tab_seg t - roff mod tab_seg t in if take < rroom then take else rroom)"

definition cut_piece :: "region \<Rightarrow> table option \<Rightarrow> u64 \<Rightarrow> u64 \<Rightarrow> u64 \<Rightarrow> piece" where
  "cut_piece local remote off roff tk =
     \<lparr>pc_local = r_base local + off, pc_lkey = region_lkey local off,
      pc_remote = (case remote of Some t \<Rightarrow> tab_base t + roff | None \<Rightarrow> 0),
      pc_rkey = (case remote of Some t \<Rightarrow> tab_rkey t ! unat (roff div tab_seg t) | None \<Rightarrow> 0),
      pc_len = ucast tk\<rparr>"

text \<open>None is the result -1: the array of \<open>cap\<close> pieces is too small.\<close>

fun cut :: "region \<Rightarrow> u64 \<Rightarrow> u64 \<Rightarrow> table option \<Rightarrow> u64 \<Rightarrow> u64 \<Rightarrow> nat \<Rightarrow> piece list option" where
  "cut local off len remote roff mx cap =
     (if len = 0 then Some []
      else let take = cut_take local remote mx off roff len in
        case cap of
          0 \<Rightarrow> None
        | Suc c \<Rightarrow>
            map_option (\<lambda>ps. cut_piece local remote off roff take # ps)
              (cut local (off + take) (len - take) remote (roff + take) mx c))"

declare cut.simps [simp del]

subsection \<open>Ordered RoCE transfers\<close>

text \<open>
  A RoCE endpoint while it transfers: the requests posted so far (each with its \<open>wr_id\<close>, which is
  the number outstanding when it was posted) and the oracles of the calls. \<open>q_poll\<close> gives what
  \<open>ibv_poll_cq\<close> returns and whether the completion it fills in succeeded.
\<close>

datatype wr_opcode = RDMA_WRITE | RDMA_READ

record roce =
  q_outstanding :: int
  q_posted :: "(int \<times> wr_opcode \<times> piece) list"
  q_post :: "nat \<Rightarrow> bool"
  q_npost :: nat
  q_poll :: "nat \<Rightarrow> int \<times> bool"
  q_npoll :: nat
  q_now :: "nat \<Rightarrow> u64"
  q_nnow :: nat

definition ep_post :: "roce \<Rightarrow> wr_opcode \<Rightarrow> piece \<Rightarrow> int \<times> roce" where
  "ep_post e op p =
     (if q_post e (q_npost e)
      then (0, e\<lparr>q_npost := Suc (q_npost e),
                 q_posted := q_posted e @ [(q_outstanding e, op, p)],
                 q_outstanding := q_outstanding e + 1\<rparr>)
      else (-1, e\<lparr>q_npost := Suc (q_npost e)\<rparr>))"

text \<open>
  The loop of \<open>ep_reap\<close>. One unit of fuel is one pass; None is a loop that has not returned yet.
\<close>

fun reap_loop :: "nat \<Rightarrow> roce \<Rightarrow> int \<Rightarrow> nat \<Rightarrow> int \<Rightarrow> u64 \<Rightarrow> u64 \<Rightarrow> (int \<times> roce) option" where
  "reap_loop 0 e got spins want start timeout = None"
| "reap_loop (Suc fuel) e got spins want start timeout =
     (let (n, ok, e1) =
        (if 0 < q_outstanding e
         then (fst (q_poll e (q_npoll e)), snd (q_poll e (q_npoll e)), e\<lparr>q_npoll := Suc (q_npoll e)\<rparr>)
         else (0, True, e))
      in if n < 0 then Some (-1, e1)
         else if n = 1 then
           (let e2 = e1\<lparr>q_outstanding := q_outstanding e1 - 1\<rparr>
            in if \<not> ok then Some (-1, e2)
               else reap_loop fuel e2 (got + 1) spins want start timeout)
         else if want \<le> got then Some (got, e1)
         else if Suc spins = 1024 then
           (let e2 = e1\<lparr>q_nnow := Suc (q_nnow e1)\<rparr>
            in if timeout < q_now e1 (q_nnow e1) - start then Some (-1, e2)
               else reap_loop fuel e2 got 0 want start timeout)
         else reap_loop fuel e1 got (Suc spins) want start timeout)"

definition ep_reap :: "nat \<Rightarrow> roce \<Rightarrow> int \<Rightarrow> u64 \<Rightarrow> (int \<times> roce) option" where
  "ep_reap fuel e want timeout =
     reap_loop fuel (e\<lparr>q_nnow := Suc (q_nnow e)\<rparr>) 0 0 want (q_now e (q_nnow e)) timeout"

text \<open>The inner loop of \<open>post_pieces\<close>: post while fewer than \<open>window\<close> are outstanding.\<close>

fun post_window :: "roce \<Rightarrow> wr_opcode \<Rightarrow> piece list \<Rightarrow> int \<Rightarrow> int \<times> roce \<times> piece list" where
  "post_window e op [] window = (0, e, [])"
| "post_window e op (p # ps) window =
     (if q_outstanding e < window
      then (case ep_post e op p of (r, e') \<Rightarrow> if r \<noteq> 0 then (-1, e', ps) else post_window e' op ps window)
      else (0, e, p # ps))"

fun pieces_loop :: "nat \<Rightarrow> roce \<Rightarrow> wr_opcode \<Rightarrow> piece list \<Rightarrow> int \<Rightarrow> u64 \<Rightarrow> (int \<times> roce) option" where
  "pieces_loop 0 e op ps window timeout = None"
| "pieces_loop (Suc fuel) e op ps window timeout =
     (if ps = [] then
        (case ep_reap fuel e (q_outstanding e) timeout of
           None \<Rightarrow> None | Some (r, e') \<Rightarrow> Some (if r < 0 then -1 else 0, e'))
      else (case post_window e op ps window of (r, e1, ps') \<Rightarrow>
        if r \<noteq> 0 then Some (-1, e1)
        else (case ep_reap fuel e1 1 timeout of
                None \<Rightarrow> None
              | Some (g, e2) \<Rightarrow>
                  if g < 0 then Some (-1, e2) else pieces_loop fuel e2 op ps' window timeout)))"

definition post_pieces :: "nat \<Rightarrow> roce \<Rightarrow> wr_opcode \<Rightarrow> piece list \<Rightarrow> int \<Rightarrow> u64 \<Rightarrow> (int \<times> roce) option" where
  "post_pieces fuel e op ps window timeout = pieces_loop fuel e op ps window timeout"


subsection \<open>A registered region is tiled by its registrations\<close>

text \<open>
  What \<open>ep_reg_region\<close> promises: registration \<open>k\<close> starts at \<open>k * seg\<close> and ends at the next
  multiple of \<open>seg\<close> or at the end of the region.
\<close>

definition tiled :: "region \<Rightarrow> bool" where
  "tiled r \<longleftrightarrow>
     (\<forall>k < length (r_mr r).
        unat (mr_off (r_mr r ! k)) = k * unat (r_seg r) \<and>
        unat (mr_len (r_mr r ! k)) = min (unat (r_seg r)) (unat (r_length r) - k * unat (r_seg r)) \<and>
        mr_access (r_mr r ! k) =
          (if mr_off (r_mr r ! k) < r_split r then r_below r else r_above r))"

definition covers :: "region \<Rightarrow> bool" where
  "covers r \<longleftrightarrow> unat (r_length r) \<le> length (r_mr r) * unat (r_seg r) \<and> length (r_mr r) \<le> LINK_REGION_MAX"

lemma ep_reg_cases:
  assumes "ep_reg e off len access = (x, e')"
  obtains "x = None" | mr where "x = Some mr" "mr_off mr = off" "mr_len mr = len" "mr_access mr = access"
  using assms by (auto simp: ep_reg_def Let_def split: if_splits option.splits)

text \<open>An invariant of the loop holds of what it leaves, at the offset where it stopped.\<close>

lemma reg_loop_inv:
  assumes "reg_loop e r off = (rc, e', r')" and "I r off"
    and step: "\<And>r off mr. I r off \<Longrightarrow> off < r_length r \<Longrightarrow> length (r_mr r) < 128 \<Longrightarrow> mr_off mr = off \<Longrightarrow>
      mr_len mr = (if r_length r - off < r_seg r then r_length r - off else r_seg r) \<Longrightarrow>
      mr_access mr = (if off < r_split r then r_below r else r_above r) \<Longrightarrow>
      I (r\<lparr>r_mr := r_mr r @ [mr]\<rparr>) (off + r_seg r)"
  shows "\<exists>off'. I r' off' \<and> (rc = 0 \<longrightarrow> \<not> off' < r_length r')"
  using assms(1,2)
proof (induction e r off rule: reg_loop.induct)
  case (1 e r off)
  let ?len = "if r_length r - off < r_seg r then r_length r - off else r_seg r"
  let ?acc = "if off < r_split r then r_below r else r_above r"
  show ?case
  proof (cases "off < r_length r \<and> length (r_mr r) < 128")
    case False
    then show ?thesis using "1.prems"
      by (auto simp: reg_loop.simps [of e r off] Let_def split: if_splits)
  next
    case True
    obtain x e1 where x: "ep_reg e off ?len ?acc = (x, e1)" by fastforce
    show ?thesis
    proof (cases x)
      case None
      with True x "1.prems" show ?thesis
        by (auto simp: reg_loop.simps [of e r off] Let_def)
    next
      case (Some mr)
      with x have mr: "mr_off mr = off" "mr_len mr = ?len" "mr_access mr = ?acc"
        by (auto elim: ep_reg_cases)
      from True x Some "1.prems"(1)
      have "reg_loop e1 (r\<lparr>r_mr := r_mr r @ [mr]\<rparr>) (off + r_seg r) = (rc, e', r')"
        by (simp add: reg_loop.simps [of e r off] Let_def)
      moreover have "I (r\<lparr>r_mr := r_mr r @ [mr]\<rparr>) (off + r_seg r)"
        using step [OF "1.prems"(2) _ _ mr] True by simp
      ultimately show ?thesis
        using "1.IH" [OF _ refl _ x [symmetric] Some] True by simp
    qed
  qed
qed

lemma tiled_snoc:
  assumes "tiled r" and "unat off = length (r_mr r) * unat (r_seg r)" and "off < r_length r"
    and "mr_off mr = off" "mr_access mr = (if off < r_split r then r_below r else r_above r)"
    and "mr_len mr = (if r_length r - off < r_seg r then r_length r - off else r_seg r)"
  shows "tiled (r\<lparr>r_mr := r_mr r @ [mr]\<rparr>)"
  using assms
  by (auto simp: tiled_def nth_append less_Suc_eq word_less_nat_alt unat_sub_le word_le_nat_alt)

lemma ep_reg_region_tiled:
  assumes ok: "ep_reg_region e base len seg split blw abv = (0, e', r)" and nz: "len \<noteq> 0"
    and fits: "unat len + unat (if seg \<noteq> 0 then seg else len) \<le> 2 ^ 64"
  shows "tiled r \<and> covers r \<and> r_length r = len \<and> r_base r = base \<and> r_seg r = (if seg \<noteq> 0 then seg else len)"
proof -
  define sz where "sz = (if seg \<noteq> 0 then seg else len)"
  define I where "I r off \<longleftrightarrow> tiled r \<and> length (r_mr r) \<le> 128 \<and> r_length r = len \<and> r_base r = base \<and>
      r_seg r = sz \<and> unat off = length (r_mr r) * unat sz" for r and off :: u64
  have step: "I (r\<lparr>r_mr := r_mr r @ [mr]\<rparr>) (off + r_seg r)"
    if "I r off" "off < r_length r" "length (r_mr r) < 128" "mr_off mr = off"
      "mr_len mr = (if r_length r - off < r_seg r then r_length r - off else r_seg r)"
      "mr_access mr = (if off < r_split r then r_below r else r_above r)" for r off mr
  proof -
    have "unat off < unat len" using that(1,2) by (simp add: I_def word_less_nat_alt)
    then have "unat off + unat sz < 2 ^ 64" using fits [folded sz_def] by linarith
    then have "unat (off + sz) = unat off + unat sz" by (simp add: unat_add_small)
    moreover have "tiled (r\<lparr>r_mr := r_mr r @ [mr]\<rparr>)"
      using that by (intro tiled_snoc) (auto simp: I_def)
    ultimately show ?thesis using that by (simp add: I_def)
  qed
  have "I \<lparr>r_base = base, r_length = len, r_seg = sz, r_split = split, r_below = b, r_above = a, r_mr = []\<rparr> 0" for a b
    by (simp add: I_def tiled_def)
  from reg_loop_inv [where I = I, OF ok [unfolded ep_reg_region_def, folded sz_def] this step]
  have "\<exists>off'. I r off' \<and> (0 = (0 :: int) \<longrightarrow> \<not> off' < r_length r)" .
  then obtain off' where "I r off'" "\<not> off' < r_length r" by blast
  then show ?thesis by (simp add: I_def covers_def word_less_nat_alt flip: sz_def)
qed

text \<open>An offset inside a covered region has a registration, so \<open>region_lkey\<close> reads inside the array.\<close>

lemma covers_index:
  assumes "covers r" and "off < r_length r" and "r_seg r \<noteq> 0"
  shows "unat (off div r_seg r) < length (r_mr r)"
proof -
  have "unat off < length (r_mr r) * unat (r_seg r)"
    using assms by (simp add: covers_def word_less_nat_alt)
  then show ?thesis by (simp add: unat_div less_mult_imp_div_less)
qed

text \<open>What stays inside one segment of a covered region has one registration, with the key \<open>region_lkey\<close> gives.\<close>

lemma registration_at:
  fixes off :: u64 and n :: nat
  assumes "tiled r" and "covers r" and "r_seg r \<noteq> 0" and "0 < n" and "unat off + n \<le> unat (r_length r)"
    and "unat off mod unat (r_seg r) + n \<le> unat (r_seg r)"
  shows "\<exists>m \<in> set (r_mr r). region_lkey r off = mr_lkey m \<and> unat (mr_off m) \<le> unat off \<and>
    unat off + n \<le> unat (mr_off m) + unat (mr_len m)"
proof -
  let ?i = "unat (off div r_seg r)"
  have "off < r_length r" using assms(4,5) by (simp add: word_less_nat_alt)
  with covers_index assms(2,3) have i: "?i < length (r_mr r)" by blast
  with assms(1) have m: "unat (mr_off (r_mr r ! ?i)) = ?i * unat (r_seg r)"
    "unat (mr_len (r_mr r ! ?i)) = min (unat (r_seg r)) (unat (r_length r) - ?i * unat (r_seg r))"
    unfolding tiled_def by auto
  have "unat off = ?i * unat (r_seg r) + unat off mod unat (r_seg r)" by (simp add: unat_div)
  then have "unat (mr_off (r_mr r ! ?i)) \<le> unat off"
    "unat off + n \<le> unat (mr_off (r_mr r ! ?i)) + unat (mr_len (r_mr r ! ?i))"
    using m assms(5,6) by linarith+
  then show ?thesis using i by (intro bexI [of _ "r_mr r ! ?i"]) (simp_all add: region_lkey_def)
qed

subsection \<open>A checked table has a key for every byte\<close>

lemma table_valid_keys_index:
  assumes "table_valid t need True" and "unat (tab_length t) + unat (tab_seg t) \<le> 2 ^ 64"
    and "off < tab_length t"
  shows "unat (off div tab_seg t) < unat (tab_n t) \<and> unat (tab_n t) \<le> LINK_REGION_MAX"
proof -
  let ?s = "unat (tab_seg t)" and ?l = "unat (tab_length t)"
  have s: "0 < ?s" and n: "unat (tab_n t) \<le> 128"
    and c: "(tab_length t + tab_seg t - 1) div tab_seg t \<le> ucast (tab_n t)"
    using assms(1) by (auto simp: table_valid_def unat_gt_0 word_less_nat_alt split: if_splits)
  have "0 < ?l" using assms(3) by (simp add: word_less_nat_alt)
  have one: "unat (tab_seg t - 1) = ?s - 1"
    using s by (subst unat_sub_le) (simp_all add: word_le_nat_alt)
  have "unat (tab_length t + (tab_seg t - 1)) = ?l + (?s - 1)"
    using assms(2) s one by (subst unat_add_small) simp_all
  then have "unat (tab_length t + tab_seg t - 1) = ?l + (?s - 1)"
    by (simp only: add_diff_eq)
  then have "(?l + (?s - 1)) div ?s \<le> unat (tab_n t)"
    using c by (simp add: word_le_nat_alt unat_div)
  then have "?l + (?s - 1) < (unat (tab_n t) + 1) * ?s"
    using s by (metis Suc_eq_plus1 div_less_iff_less_mult less_Suc_eq_le)
  then have "unat off < unat (tab_n t) * ?s"
    using assms(3) by (simp add: word_less_nat_alt)
  then show ?thesis using n by (simp add: unat_div less_mult_imp_div_less)
qed

subsection \<open>What cut cuts\<close>

definition seg_ok :: "table option \<Rightarrow> bool" where
  "seg_ok remote \<longleftrightarrow> (case remote of None \<Rightarrow> True | Some t \<Rightarrow> tab_seg t \<noteq> 0)"

lemma cut_take_le:
  "cut_take local remote mx off roff len \<le> take_in mx (r_seg local) off len"
  by (auto simp: cut_take_def Let_def split: option.splits)

lemma cut_take_remote:
  assumes "tab_seg t \<noteq> 0"
  shows "unat roff mod unat (tab_seg t) + unat (cut_take local (Some t) mx off roff len) \<le> unat (tab_seg t)"
proof -
  have "unat roff mod unat (tab_seg t) \<le> unat (tab_seg t)"
    using assms by (simp add: unat_gt_0 order_less_imp_le)
  moreover have "unat (cut_take local (Some t) mx off roff len) \<le> unat (tab_seg t) - unat roff mod unat (tab_seg t)"
    using seg_room [OF assms, of roff] by (auto simp: cut_take_def Let_def word_less_nat_alt)
  ultimately show ?thesis by simp
qed

lemma cutter_cut:
  assumes "mx \<noteq> 0" and "r_seg local \<noteq> 0" and "seg_ok remote"
  shows "cutter (\<lambda>off len. cut_take local remote mx off (off + d) len)"
proof
  fix off len :: u64
  assume nz: "len \<noteq> 0"
  have t: "take_in mx (r_seg local) off len \<noteq> 0" "take_in mx (r_seg local) off len \<le> len"
    using cutter_take_in [OF assms(1,2)] nz by (auto simp: cutter_def)
  show "cut_take local remote mx off (off + d) len \<le> len"
    using cut_take_le t(2) by (rule order_trans)
  show "cut_take local remote mx off (off + d) len \<noteq> 0"
  proof (cases remote)
    case None
    with t show ?thesis by (simp add: cut_take_def)
  next
    case (Some tab)
    with assms(3) have "tab_seg tab \<noteq> 0" by (simp add: seg_ok_def)
    then have "tab_seg tab - (off + d) mod tab_seg tab \<noteq> 0"
      using seg_room [of "tab_seg tab" "off + d"] by (metis less_numeral_extra(3) unat_0)
    with Some t show ?thesis by (simp add: cut_take_def Let_def)
  qed
qed

lemma cut_eq:
  assumes "mx \<noteq> 0" and "r_seg local \<noteq> 0" and "seg_ok remote"
  shows "cut local off len remote roff mx cap =
    (let cs = chop (\<lambda>o' l. cut_take local remote mx o' (o' + (roff - off)) l) off len
     in if length cs \<le> cap
        then Some (map (\<lambda>(o', k). cut_piece local remote o' (o' + (roff - off)) k) cs) else None)"
proof -
  define d where "d = roff - off"
  note c = cutter_cut [OF assms, of d]
  have "cut local off len remote (off + d) mx cap =
    (let cs = chop (\<lambda>o' l. cut_take local remote mx o' (o' + d) l) off len
     in if length cs \<le> cap then Some (map (\<lambda>(o', k). cut_piece local remote o' (o' + d) k) cs) else None)"
  proof (induction off len arbitrary: cap rule: cutter.chop_induct [OF c])
    case (1 off)
    show ?case by (simp add: cut.simps)
  next
    case (2 off len)
    let ?k = "cut_take local remote mx off (off + d) len"
    have e: "off + ?k + d = off + d + ?k" by simp
    show ?case
      using 2 by (subst cut.simps)
        (auto simp: cutter.chop_step [OF c] Let_def e split: nat.splits)
  qed
  moreover have "off + d = roff" by (simp add: d_def)
  ultimately show ?thesis unfolding d_def by simp
qed

text \<open>The pieces \<open>cut\<close> returns, as the offsets and lengths \<open>chop\<close> gives.\<close>

lemma cut_pieces:
  assumes "cut local off len remote roff mx cap = Some ps"
    and "mx \<noteq> 0" and "unat mx < 2 ^ 32" and "r_seg local \<noteq> 0" and "seg_ok remote"
  defines "tk \<equiv> \<lambda>o' l. cut_take local remote mx o' (o' + (roff - off)) l"
  shows "cutter tk" and "length ps \<le> cap"
    and "ps = map (\<lambda>(o', k). cut_piece local remote o' (o' + (roff - off)) k) (chop tk off len)"
    and "(o', k) \<in> set (chop tk off len) \<Longrightarrow>
      unat k < 2 ^ 32 \<and> k \<le> mx \<and> unat o' mod unat (r_seg local) + unat k \<le> unat (r_seg local)"
proof -
  show c: "cutter tk" unfolding tk_def using assms by (intro cutter_cut)
  show "length ps \<le> cap"
    and "ps = map (\<lambda>(o', k). cut_piece local remote o' (o' + (roff - off)) k) (chop tk off len)"
    using assms(1) unfolding cut_eq [OF assms(2,4,5)] tk_def by (auto simp: Let_def split: if_splits)
  have bound: "tk a l \<le> mx \<and> unat a mod unat (r_seg local) + unat (tk a l) \<le> unat (r_seg local)" for a l
  proof -
    have le: "tk a l \<le> take_in mx (r_seg local) a l" unfolding tk_def by (rule cut_take_le)
    then have "tk a l \<le> mx" using take_in_max [OF assms(4)] by (rule order_trans)
    moreover have "unat a mod unat (r_seg local) + unat (tk a l) \<le> unat (r_seg local)"
      using le take_in_seg [OF assms(4), of a mx l] by (simp add: word_le_nat_alt)
    ultimately show ?thesis by simp
  qed
  have "k \<le> mx \<and> unat o' mod unat (r_seg local) + unat k \<le> unat (r_seg local)"
    if "(o', k) \<in> set (chop tk off len)" for o' k
    using that
    by (induction off len rule: cutter.chop_induct [OF c]) (auto simp: cutter.chop_step [OF c] bound)
  then show "(o', k) \<in> set (chop tk off len) \<Longrightarrow>
      unat k < 2 ^ 32 \<and> k \<le> mx \<and> unat o' mod unat (r_seg local) + unat k \<le> unat (r_seg local)"
    using assms(3) by (fastforce simp: word_le_nat_alt)
qed

lemma ucast_u64_u32_u64: "unat (k :: u64) < 2 ^ 32 \<Longrightarrow> ucast (ucast k :: u32) = k"
  by (simp add: word_unat_eq_iff ucast_u32_of_u64)


subsection \<open>Ordered posting\<close>

lemma reap_loop_result:
  assumes "reap_loop fuel e got spins want start timeout = Some (r, e')"
    and "0 \<le> q_outstanding e" and "0 \<le> got"
  shows "q_posted e' = q_posted e \<and> 0 \<le> q_outstanding e' \<and> q_outstanding e' \<le> q_outstanding e \<and>
    q_now e' = q_now e \<and> q_post e' = q_post e \<and> q_nnow e \<le> q_nnow e' \<and>
    (0 \<le> r \<longrightarrow> want \<le> r \<and> r - got = q_outstanding e - q_outstanding e')"
  using assms
proof (induction fuel arbitrary: e got spins)
  case (Suc fuel)
  show ?case
    using Suc.prems by (auto simp: Let_def split: if_splits dest!: Suc.IH)
qed simp

lemma ep_reap_result:
  assumes "ep_reap fuel e want timeout = Some (r, e')" and "0 \<le> q_outstanding e"
  shows "q_posted e' = q_posted e \<and> 0 \<le> q_outstanding e' \<and> q_outstanding e' \<le> q_outstanding e \<and>
    q_now e' = q_now e \<and> q_post e' = q_post e \<and>
    (0 \<le> r \<longrightarrow> want \<le> r \<and> r = q_outstanding e - q_outstanding e')"
  using reap_loop_result [OF assms(1) [unfolded ep_reap_def]] assms(2) by simp

lemma post_window_result:
  assumes "post_window e op ps window = (0, e', ps')"
  shows "\<exists>new. q_posted e' = q_posted e @ new \<and> map (Pair op) ps = map snd new @ map (Pair op) ps' \<and>
    q_outstanding e' = q_outstanding e + int (length new) \<and> (\<forall>(i, _) \<in> set new. i < window) \<and>
    q_now e' = q_now e \<and> (ps' = [] \<or> window \<le> q_outstanding e')"
  using assms
proof (induction e op ps window arbitrary: e' ps' rule: post_window.induct)
  case (2 e op p ps window)
  show ?case
  proof (cases "q_outstanding e < window")
    case True
    obtain r e1 where p1: "ep_post e op p = (r, e1)" by fastforce
    with True "2.prems" have r: "r = 0" and rest: "post_window e1 op ps window = (0, e', ps')"
      by (auto split: if_splits)
    from "2.IH" [OF True p1 [symmetric] _ rest] r obtain new where
      new: "q_posted e' = q_posted e1 @ new" "map (Pair op) ps = map snd new @ map (Pair op) ps'"
        "q_outstanding e' = q_outstanding e1 + int (length new)" "\<forall>(i, _) \<in> set new. i < window"
        "q_now e' = q_now e1" "ps' = [] \<or> window \<le> q_outstanding e'" by auto
    from p1 r have "q_posted e1 = q_posted e @ [(q_outstanding e, op, p)]"
      "q_outstanding e1 = q_outstanding e + 1" "q_now e1 = q_now e"
      by (auto simp: ep_post_def split: if_splits)
    with new True show ?thesis
      by (intro exI [of _ "(q_outstanding e, op, p) # new"]) auto
  next
    case False
    with "2.prems" show ?thesis by auto
  qed
qed auto

lemma post_pieces_order:
  assumes "post_pieces fuel e op ps window timeout = Some (0, e')" and "0 \<le> q_outstanding e"
  shows "\<exists>new. q_posted e' = q_posted e @ new \<and> map snd new = map (Pair op) ps \<and>
    (\<forall>(i, _) \<in> set new. i < window) \<and> q_outstanding e' = 0"
  using assms unfolding post_pieces_def
proof (induction fuel e op ps window timeout rule: pieces_loop.induct)
  case (2 fuel e op ps window timeout)
  show ?case
  proof (cases "ps = []")
    case True
    with "2.prems" obtain r where r: "ep_reap fuel e (q_outstanding e) timeout = Some (r, e')" "0 \<le> r"
      by (auto split: option.splits if_splits)
    with ep_reap_result [OF r(1) "2.prems"(2)] True show ?thesis by auto
  next
    case False
    obtain rc e1 ps' where w: "post_window e op ps window = (rc, e1, ps')" by (metis prod_cases3)
    with False "2.prems" have "rc = 0" by (auto split: if_splits)
    with w have w0: "post_window e op ps window = (0, e1, ps')" by simp
    from post_window_result [OF this] obtain new where
      new: "q_posted e1 = q_posted e @ new" "map (Pair op) ps = map snd new @ map (Pair op) ps'"
        "q_outstanding e1 = q_outstanding e + int (length new)" "\<forall>(i, _) \<in> set new. i < window" by auto
    from False w0 "2.prems" obtain g e2 where g: "ep_reap fuel e1 1 timeout = Some (g, e2)" "0 \<le> g"
      and rest: "pieces_loop fuel e2 op ps' window timeout = Some (0, e')"
      by (auto split: option.splits if_splits)
    have "0 \<le> q_outstanding e1" using new "2.prems"(2) by simp
    from ep_reap_result [OF g(1) this] have e2: "q_posted e2 = q_posted e1" "0 \<le> q_outstanding e2" by auto
    from "2.IH" [OF False w0 [symmetric] refl _ g(1) refl _ rest e2(2)] g(2) obtain new2 where
      "q_posted e' = q_posted e2 @ new2" "map snd new2 = map (Pair op) ps'"
      "\<forall>(i, _) \<in> set new2. i < window" "q_outstanding e' = 0" by auto
    with new e2 show ?thesis by (intro exI [of _ "new @ new2"]) auto
  qed
qed simp


text \<open>
  The waits end. If the clock goes on showing that the timeout has passed, \<open>ep_reap\<close> returns
  whatever the completion queue does, and so does \<open>post_pieces\<close>.
\<close>

definition clock_passes :: "(nat \<Rightarrow> u64) \<Rightarrow> u64 \<Rightarrow> bool" where
  "clock_passes now timeout \<longleftrightarrow> (\<forall>i m. \<exists>j \<ge> m. timeout < now j - now i)"

lemma reap_loop_returns:
  assumes "nat (q_outstanding e) + (j - q_nnow e) * 1025 + (1024 - spins) < fuel"
    and "q_nnow e \<le> j" and "timeout < q_now e j - start" and "spins < 1024"
  shows "\<exists>r e'. reap_loop fuel e got spins want start timeout = Some (r, e')"
  using assms
proof (induction fuel arbitrary: e got spins)
  case (Suc fuel)
  note IH = Suc.IH
  show ?case
  proof (cases "Suc spins = 1024 \<and> q_nnow e \<noteq> j")
    case True
    with Suc.prems have "(j - Suc (q_nnow e)) * 1025 + 1025 = (j - q_nnow e) * 1025" "Suc (q_nnow e) \<le> j"
      by (simp_all add: diff_mult_distrib algebra_simps)
    with True Suc.prems show ?thesis by (auto simp: Let_def intro!: IH)
  next
    case False
    with Suc.prems show ?thesis by (auto simp: Let_def intro!: IH)
  qed
qed simp

lemma reap_loop_mono:
  assumes "reap_loop fuel e got spins want start timeout = Some x" and "fuel \<le> fuel'"
  shows "reap_loop fuel' e got spins want start timeout = Some x"
  using assms
proof (induction fuel arbitrary: e got spins fuel')
  case (Suc fuel)
  then obtain f where f: "fuel' = Suc f" "fuel \<le> f" by (cases fuel') auto
  show ?case
    using Suc.prems(1) Suc.IH [OF _ f(2)] unfolding f(1) by (auto simp: Let_def split: if_splits)
qed simp

lemma ep_reap_returns:
  assumes "clock_passes (q_now e) timeout"
  shows "\<exists>F x. \<forall>fuel \<ge> F. ep_reap fuel e want timeout = Some x"
proof -
  let ?e = "e\<lparr>q_nnow := Suc (q_nnow e)\<rparr>"
  from assms obtain j where "Suc (q_nnow e) \<le> j" "timeout < q_now e j - q_now e (q_nnow e)"
    unfolding clock_passes_def by blast
  then have "reap_loop (Suc (nat (q_outstanding ?e) + (j - q_nnow ?e) * 1025 + 1024)) ?e 0 0 want
      (q_now e (q_nnow e)) timeout \<noteq> None"
    using reap_loop_returns [where e = ?e and j = j and spins = 0] by auto
  then show ?thesis unfolding ep_reap_def by (metis not_None_eq reap_loop_mono)
qed

lemma post_window_fuel:
  assumes "post_window e op ps window = (r, e', ps')"
  shows "q_outstanding e' + int (length ps') \<le> q_outstanding e + int (length ps) \<and>
    q_outstanding e \<le> q_outstanding e' \<and> q_now e' = q_now e"
  using assms
  by (induction e op ps window rule: post_window.induct)
    (auto simp: ep_post_def split: if_splits)

lemma post_pieces_ends:
  assumes "clock_passes (q_now e) timeout" and "0 \<le> q_outstanding e"
  shows "\<exists>F x. \<forall>fuel \<ge> F. post_pieces fuel e op ps window timeout = Some x"
  using assms unfolding post_pieces_def
proof (induction "length ps + nat (q_outstanding e)" arbitrary: e ps rule: less_induct)
  case less
  show ?case
  proof (cases "ps = []")
    case True
    from ep_reap_returns [OF less.prems(1)] obtain F x where
      F: "\<And>fuel. F \<le> fuel \<Longrightarrow> ep_reap fuel e (q_outstanding e) timeout = Some x" by blast
    have "pieces_loop fuel e op ps window timeout = Some (if fst x < 0 then -1 else 0, snd x)"
      if "Suc F \<le> fuel" for fuel
      using that F True by (cases fuel) (auto split: prod.splits)
    then show ?thesis by blast
  next
    case False
    obtain r e1 ps' where w: "post_window e op ps window = (r, e1, ps')" by (metis prod_cases3)
    note we = post_window_fuel [OF w]
    show ?thesis
    proof (cases "r = 0")
      case nz: False
      have "pieces_loop fuel e op ps window timeout = Some (-1, e1)" if "Suc 0 \<le> fuel" for fuel
        using that nz w False by (cases fuel) auto
      then show ?thesis by blast
    next
      case True
      have "clock_passes (q_now e1) timeout" using less.prems(1) we by simp
      from ep_reap_returns [OF this] obtain F1 g e2 where
        F1: "\<And>fuel. F1 \<le> fuel \<Longrightarrow> ep_reap fuel e1 1 timeout = Some (g, e2)" by fastforce
      have e2: "0 \<le> q_outstanding e2" "q_now e2 = q_now e1" "q_outstanding e2 \<le> q_outstanding e1"
        "0 \<le> g \<Longrightarrow> q_outstanding e2 < q_outstanding e1"
        using ep_reap_result [OF F1 [OF order_refl]] we less.prems(2) by auto
      show ?thesis
      proof (cases "g < 0")
        case g: True
        have "pieces_loop fuel e op ps window timeout = Some (-1, e2)" if "Suc F1 \<le> fuel" for fuel
          using that F1 g w False True by (cases fuel) auto
        then show ?thesis by blast
      next
        case g: False
        with e2 we less.prems(2) have "length ps' + nat (q_outstanding e2) < length ps + nat (q_outstanding e)"
          by auto
        from less.hyps [OF this] e2 we less.prems obtain F2 x where
          F2: "\<And>fuel. F2 \<le> fuel \<Longrightarrow> pieces_loop fuel e2 op ps' window timeout = Some x" by auto
        have "pieces_loop fuel e op ps window timeout = Some x" if "Suc (max F1 F2) \<le> fuel" for fuel
          using that F1 F2 g w False True by (cases fuel) auto
        then show ?thesis by blast
      qed
    qed
  qed
qed

subsection \<open>Properties\<close>

text \<open>
  C5: a registration of a region that succeeds leaves at most LINK\_REGION\_MAX registrations that
  tile it: registration k starts at k times the segment size, ends at the next multiple or at the
  region's end, has the access of the side of the split it starts on, and together they reach the
  end of the region.
\<close>

theorem ep_reg_region_tiles:
  assumes "ep_reg_region e base len seg split blw abv = (0, e', r)" and "len \<noteq> 0"
    and "unat len + unat (if seg \<noteq> 0 then seg else len) \<le> 2 ^ 64"
  shows "tiled r \<and> covers r \<and> r_length r = len \<and> r_base r = base \<and> r_seg r = (if seg \<noteq> 0 then seg else len)"
  using assms by (rule ep_reg_region_tiled)

definition sample_ep :: ep where
  "sample_ep = \<lparr>e_kind = 1, e_lid = 0, e_qpn = Some 7, e_psn = 3, e_gid = replicate 16 0, e_frames = None,
     e_mr = [], e_reg_mr = (\<lambda>i. Some (of_nat i + 100, of_nat i + 200)), e_nreg = 0\<rparr>"

definition sample_region :: region where
  "sample_region = snd (snd (ep_reg_region sample_ep 4096 10 4 4 1 7))"

lemma sample_region_registered:
  "ep_reg_region sample_ep 4096 10 4 4 1 7 =
     (0, fst (snd (ep_reg_region sample_ep 4096 10 4 4 1 7)), sample_region)"
  unfolding sample_region_def sample_ep_def ep_reg_region_def by (simp add: reg_loop.simps ep_reg_def Let_def)

theorem ep_reg_region_tiles_witness:
  "covers sample_region \<and> tiled sample_region \<and> r_seg sample_region = 4"
  using ep_reg_region_tiles [OF sample_region_registered] by simp

text \<open>
  C8: cutting a transfer out of a registered region (whose length and segment together stay within 64
  bits) gives requests that each lie inside the range asked for and wholly inside the one local
  registration whose key they carry, whatever the remote table.
\<close>

theorem cut_in_registration:
  assumes "ep_reg_region e base len seg split blw abv = (0, e', r)" and "len \<noteq> 0"
    and "unat len + unat (if seg \<noteq> 0 then seg else len) \<le> 2 ^ 64"
    and "cut r off n remote roff mx cap = Some ps" and "unat off + unat n \<le> unat len"
    and "mx \<noteq> 0" and "unat mx < 2 ^ 32" and "seg_ok remote" and "p \<in> set ps"
  shows "\<exists>m \<in> set (r_mr r). \<exists>o'. pc_lkey p = mr_lkey m \<and> pc_local p = base + o' \<and>
    unat (mr_off m) \<le> unat o' \<and> unat o' + unat (pc_len p) \<le> unat (mr_off m) + unat (mr_len m) \<and>
    unat off \<le> unat o' \<and> unat o' + unat (pc_len p) \<le> unat off + unat n"
proof -
  note t = ep_reg_region_tiled [OF assms(1-3)]
  then have seg: "r_seg r \<noteq> 0" using assms(2) by simp
  note c = cut_pieces [OF assms(4,6,7) seg assms(8)]
  from assms(9) obtain o' k where
    ok: "(o', k) \<in> set (chop (\<lambda>o' l. cut_take r remote mx o' (o' + (roff - off)) l) off n)"
    and p: "p = cut_piece r remote o' (o' + (roff - off)) k" by (auto simp: c(3))
  have lt: "unat off + unat n \<le> 2 ^ 64" using assms(5) unat_lt_64 [of len] by simp
  note w = cutter.chop_within [OF c(1) ok lt]
  then have "0 < unat k" by (simp add: unat_gt_0)
  note b = c(4) [OF ok]
  have "unat o' + unat k \<le> unat (r_length r)" using w assms(5) t by simp
  from registration_at [OF _ _ seg \<open>0 < unat k\<close> this] t b obtain m where
    "m \<in> set (r_mr r)" "region_lkey r o' = mr_lkey m" "unat (mr_off m) \<le> unat o'"
    "unat o' + unat k \<le> unat (mr_off m) + unat (mr_len m)" by blast
  with w assms(5) b p t show ?thesis
    by (intro bexI [of _ m] exI [of _ o']) (auto simp: cut_piece_def ucast_u32_of_u64)
qed

theorem cut_in_registration_witness:
  "\<exists>ps. cut sample_region 1 8 None 0 3 5 = Some ps \<and> length ps = 4 \<and>
     (\<exists>m \<in> set (r_mr sample_region). pc_lkey (ps ! 1) = mr_lkey m)"
proof -
  have "cut sample_region 1 8 None 0 3 5 =
    Some [\<lparr>pc_local = 4097, pc_lkey = 100, pc_remote = 0, pc_rkey = 0, pc_len = 3\<rparr>,
          \<lparr>pc_local = 4100, pc_lkey = 101, pc_remote = 0, pc_rkey = 0, pc_len = 3\<rparr>,
          \<lparr>pc_local = 4103, pc_lkey = 101, pc_remote = 0, pc_rkey = 0, pc_len = 1\<rparr>,
          \<lparr>pc_local = 4104, pc_lkey = 102, pc_remote = 0, pc_rkey = 0, pc_len = 1\<rparr>]"
    by code_simp
  note eq = this
  have "\<exists>m \<in> set (r_mr sample_region). pc_lkey p = mr_lkey m"
    if "p \<in> set (the (cut sample_region 1 8 None 0 3 5))" for p
    using cut_in_registration [OF sample_region_registered _ _ eq, of p] that
    by (auto simp: eq seg_ok_def)
  from this [of "the (cut sample_region 1 8 None 0 3 5) ! 1"] show ?thesis by (auto simp: eq)
qed

text \<open>
  C6: \<open>cut\<close> returns pieces that tile the range in order, without gap or overlap, at most \<open>max\<close>
  bytes each and as many bytes as asked for; beside a remote table each piece goes to the matching
  offset there, stays inside one remote registration and carries its key. It fails only when the
  pieces do not fit the array.
\<close>

theorem cut_covers:
  assumes "mx \<noteq> 0" and "unat mx < 2 ^ 32" and "r_seg local \<noteq> 0" and "seg_ok remote"
  shows "case cut local off len remote roff mx cap of
      None \<Rightarrow> cap < length (chop (\<lambda>o' l. cut_take local remote mx o' (o' + (roff - off)) l) off len)
    | Some ps \<Rightarrow>
        length ps \<le> cap \<and>
        tiles off (map (\<lambda>p. (pc_local p - r_base local, ucast (pc_len p))) ps) \<and>
        sum_list (map (\<lambda>p. unat (pc_len p)) ps) = unat len \<and>
        (\<forall>p \<in> set ps. unat (pc_len p) \<le> unat mx) \<and>
        (\<forall>t. remote = Some t \<longrightarrow> (\<forall>p \<in> set ps. \<exists>ro. pc_remote p = tab_base t + ro \<and>
           ro - roff = (pc_local p - r_base local) - off \<and>
           pc_rkey p = tab_rkey t ! unat (ro div tab_seg t) \<and>
           unat ro mod unat (tab_seg t) + unat (pc_len p) \<le> unat (tab_seg t)))"
proof (cases "cut local off len remote roff mx cap")
  case None
  then show ?thesis unfolding cut_eq [OF assms(1,3,4)] by (simp add: Let_def split: if_splits)
next
  case (Some ps)
  note c = cut_pieces [OF Some assms]
  define d where "d = roff - off"
  define cs where "cs = chop (\<lambda>o' l. cut_take local remote mx o' (o' + d) l) off len"
  note c' = c [folded d_def, folded cs_def]
  have ps: "ps = map (\<lambda>(o', k). cut_piece local remote o' (o' + d) k) cs" by (rule c'(3))
  have eq: "map (\<lambda>p. (pc_local p - r_base local, ucast (pc_len p))) ps = cs"
    using c'(4) by (force simp: ps cut_piece_def ucast_u64_u32_u64 intro: map_idI)
  have sums: "map (\<lambda>p. unat (pc_len p)) ps = map (unat \<circ> snd) cs"
    using c'(4) by (force simp: ps cut_piece_def ucast_u32_of_u64)
  have t: "tiles off cs" unfolding cs_def by (rule cutter.chop_tiles [OF c(1), folded d_def])
  have total: "sum_list (map (unat \<circ> snd) cs) = unat len"
    unfolding cs_def by (rule cutter.chop_total [OF c(1), folded d_def])
  have mx: "\<forall>p \<in> set ps. unat (pc_len p) \<le> unat mx"
    using c'(4) by (force simp: ps cut_piece_def ucast_u32_of_u64 word_le_nat_alt)
  have rem: "\<exists>ro. pc_remote p = tab_base t + ro \<and> ro - roff = (pc_local p - r_base local) - off \<and>
           pc_rkey p = tab_rkey t ! unat (ro div tab_seg t) \<and>
           unat ro mod unat (tab_seg t) + unat (pc_len p) \<le> unat (tab_seg t)"
    if r: "remote = Some t" and p: "p \<in> set ps" for t p
  proof -
    from p obtain o' k where ok: "(o', k) \<in> set cs" and pk: "p = cut_piece local remote o' (o' + d) k"
      by (auto simp: ps)
    from r assms(4) have nz: "tab_seg t \<noteq> 0" by (simp add: seg_ok_def)
    have "\<exists>a l. k = cut_take local remote mx a (a + d) l \<and> o' = a"
      using ok unfolding cs_def
      by (induction off len rule: cutter.chop_induct [OF c(1), folded d_def])
        (auto simp: cutter.chop_step [OF c(1), folded d_def])
    then obtain l where "k = cut_take local (Some t) mx o' (o' + d) l" using r by blast
    then have "unat (o' + d) mod unat (tab_seg t) + unat k \<le> unat (tab_seg t)"
      using cut_take_remote [OF nz] by simp
    then show ?thesis using c'(4) [OF ok] pk r
      by (intro exI [of _ "o' + d"]) (auto simp: cut_piece_def ucast_u32_of_u64 d_def)
  qed
  show ?thesis using c(2) t total mx rem by (auto simp: Some eq sums)
qed

definition sample_table :: table where
  "sample_table = \<lparr>tab_base = 65536, tab_length = 12, tab_seg = 5, tab_n = 3, tab_rkey = [11, 12, 13] @ replicate 125 0\<rparr>"

theorem cut_covers_witness:
  "cut sample_region 1 8 (Some sample_table) 2 4 5 =
     Some [\<lparr>pc_local = 4097, pc_lkey = 100, pc_remote = 65538, pc_rkey = 11, pc_len = 3\<rparr>,
           \<lparr>pc_local = 4100, pc_lkey = 101, pc_remote = 65541, pc_rkey = 12, pc_len = 4\<rparr>,
           \<lparr>pc_local = 4104, pc_lkey = 102, pc_remote = 65545, pc_rkey = 12, pc_len = 1\<rparr>] \<and>
   tiles 1 (map (\<lambda>p. (pc_local p - r_base sample_region, ucast (pc_len p)))
     (the (cut sample_region 1 8 (Some sample_table) 2 4 5)))"
proof -
  have eq: "cut sample_region 1 8 (Some sample_table) 2 4 5 =
     Some [\<lparr>pc_local = 4097, pc_lkey = 100, pc_remote = 65538, pc_rkey = 11, pc_len = 3\<rparr>,
           \<lparr>pc_local = 4100, pc_lkey = 101, pc_remote = 65541, pc_rkey = 12, pc_len = 4\<rparr>,
           \<lparr>pc_local = 4104, pc_lkey = 102, pc_remote = 65545, pc_rkey = 12, pc_len = 1\<rparr>]"
    by code_simp
  have "r_seg sample_region \<noteq> 0" "seg_ok (Some sample_table)" by code_simp+
  from cut_covers [OF _ _ this, where mx = 4 and off = 1 and len = 8 and roff = 2 and cap = 5] show ?thesis unfolding eq by simp
qed

text \<open>
  C7: a table that passes the check with keys has one for every byte it describes: the index of
  any offset below its length is below its count, which is within the array. This holds for tables
  whose length and registration size together stay within 64 bits.
\<close>

theorem table_valid_keys:
  assumes "table_valid t need True" and "unat (tab_length t) + unat (tab_seg t) \<le> 2 ^ 64"
    and "off < tab_length t"
  shows "need \<le> tab_length t \<and> unat (off div tab_seg t) < unat (tab_n t) \<and> unat (tab_n t) \<le> LINK_REGION_MAX"
  using table_valid_keys_index [OF assms] assms(1) by (auto simp: table_valid_def not_less split: if_splits)

theorem table_valid_keys_witness:
  "unat ((11 :: u64) div tab_seg sample_table) < unat (tab_n sample_table)"
proof -
  have "table_valid sample_table 12 True" "unat (tab_length sample_table) + unat (tab_seg sample_table) \<le> 2 ^ 64"
    "(11 :: u64) < tab_length sample_table"
    by (simp_all add: sample_table_def table_valid_def)
  from table_valid_keys [OF this] show ?thesis by blast
qed

text \<open>
  Without that bound the check can be passed by a table that lacks keys: in
  \<open>length + seg - 1\<close> the sum wraps, so a peer may offer a table of length 2\^{}64 - 1 in
  registrations of two bytes with a single key, and the index of an offset the table describes
  then lies outside the array of keys.
\<close>

theorem table_valid_wraps:
  "\<exists>t off. table_valid t 4096 True \<and> off < tab_length t \<and> LINK_REGION_MAX \<le> unat (off div tab_seg t)"
  by (intro exI [of _ "\<lparr>tab_base = 0, tab_length = 18446744073709551615, tab_seg = 2, tab_n = 1, tab_rkey = replicate 128 0\<rparr>"]
        exI [of _ 256]) (simp add: table_valid_def word_less_nat_alt unat_div)

definition sample_roce :: roce where
  "sample_roce = \<lparr>q_outstanding = 0, q_posted = [], q_post = (\<lambda>_. True), q_npost = 0,
     q_poll = (\<lambda>i. (if i mod 2 = 1 then 1 else 0, True)), q_npoll = 0, q_now = of_nat, q_nnow = 0\<rparr>"

end
