(* ===== verification/Link_Tb.thy ===== *)
theory Link_Tb
  imports Link_Verbs
begin

section \<open>The Thunderbolt link: state, sends and receives (rpc/link\_tb.c)\<close>

text \<open>
  The state of one Thunderbolt link and everything \<open>tb_progress\<close> does: posting sends and
  receives, the room checks, taking messages from the receive ring, reposting and handling
  completions. The sending operations built on it are in theory \<open>Link_Tb_Send\<close>.

  The window both ends register (\<open>src\<close> when sending, \<open>rx\<close> when receiving) is one memory,
  \<open>w_win\<close>, addressed by offset from its base. The device, the clock, the owner's \<open>gone\<close>
  callback and the \<open>wanted\<close> flag are oracles, one value per call. Tracing is off
  (\<open>t->trace\<close> is NULL, as it is unless a test installs it) and log lines are left out.
\<close>

subsection \<open>Constants and the wire header\<close>

abbreviation (input) MAGIC :: "'a :: numeral" where "MAGIC \<equiv> 1112818509"
abbreviation (input) HEAD :: "'a :: numeral" where "HEAD \<equiv> 32"
abbreviation (input) INLINE_MAX :: "'a :: numeral" where "INLINE_MAX \<equiv> 4064"
abbreviation (input) C_WRITE :: "'a :: numeral" where "C_WRITE \<equiv> 1"
abbreviation (input) C_INLINE :: "'a :: numeral" where "C_INLINE \<equiv> 2"
abbreviation (input) C_SIGNAL :: "'a :: numeral" where "C_SIGNAL \<equiv> 3"
abbreviation (input) C_FENCE :: "'a :: numeral" where "C_FENCE \<equiv> 4"
abbreviation (input) C_FENCE_ACK :: "'a :: numeral" where "C_FENCE_ACK \<equiv> 5"
abbreviation (input) C_WRITE_SIGNAL :: "'a :: numeral" where "C_WRITE_SIGNAL \<equiv> 6"
abbreviation (input) C_BOND_SIGNAL :: "'a :: numeral" where "C_BOND_SIGNAL \<equiv> 7"
abbreviation (input) C_BOND_WRITE_SIGNAL :: "'a :: numeral" where "C_BOND_WRITE_SIGNAL \<equiv> 8"
abbreviation (input) C_BOND_SIGNAL_N :: "'a :: numeral" where "C_BOND_SIGNAL_N \<equiv> 9"
abbreviation (input) C_BOND_WRITE_N :: "'a :: numeral" where "C_BOND_WRITE_N \<equiv> 10"
abbreviation (input) C_BOND_INLINE_N :: "'a :: numeral" where "C_BOND_INLINE_N \<equiv> 11"
abbreviation (input) WS_HEAD :: "'a :: numeral" where "WS_HEAD \<equiv> 48"
abbreviation (input) BOND_SIGNAL_HEAD :: "'a :: numeral" where "BOND_SIGNAL_HEAD \<equiv> 48"
abbreviation (input) BOND_WS_HEAD :: "'a :: numeral" where "BOND_WS_HEAD \<equiv> 64"
abbreviation (input) TB_STALL_NS :: "'a :: numeral" where "TB_STALL_NS \<equiv> 10000000000"
abbreviation (input) TB_RATE_MIN :: "'a :: numeral" where "TB_RATE_MIN \<equiv> 65536"
abbreviation (input) TB_RECV_BULK :: "'a :: numeral" where "TB_RECV_BULK \<equiv> 8"
abbreviation (input) BOND_WAIT_LINK :: "'a :: numeral" where "BOND_WAIT_LINK \<equiv> 1"
abbreviation (input) BOND_WAIT_SIGNALS :: "'a :: numeral" where "BOND_WAIT_SIGNALS \<equiv> 2"

record head =
  h_magic :: u32
  h_seq :: u32
  h_kind :: u16
  h_pad :: u16
  h_len :: u32
  h_off :: u64
  h_value :: u64

text \<open>The bytes of a \<open>struct head\<close> in memory (little-endian, no padding: the source asserts its size).\<close>

definition put_head :: "head \<Rightarrow> u8 list" where
  "put_head h = put_le 4 (h_magic h) @ put_le 4 (h_seq h) @ put_le 2 (h_kind h) @ put_le 2 (h_pad h) @
     put_le 4 (h_len h) @ put_le 8 (h_off h) @ put_le 8 (h_value h)"

definition get_head :: "u8 list \<Rightarrow> head" where
  "get_head bs =
     \<lparr>h_magic = get_le (take 4 bs), h_seq = get_le (take 4 (drop 4 bs)),
      h_kind = get_le (take 2 (drop 8 bs)), h_pad = get_le (take 2 (drop 10 bs)),
      h_len = get_le (take 4 (drop 12 bs)), h_off = get_le (take 8 (drop 16 bs)),
      h_value = get_le (take 8 (drop 24 bs))\<rparr>"

lemma length_put_head [simp]: "length (put_head h) = HEAD"
  by (simp add: put_head_def)

lemma get_put_head [simp]: "get_head (put_head h @ rest) = h"
  by (simp add: put_head_def get_head_def)

lemma get_put_head_exact [simp]: "get_head (put_head h) = h"
  using get_put_head [of h "[]"] by simp

subsection \<open>The link's state\<close>

text \<open>
  The receive hooks of a bond. A hook runs on the bond's state \<open>'b\<close> and may store to the window
  (a published signal). A hook the bond does not install is None, as a NULL pointer.
\<close>

record 'b tb_bond =
  b_lane :: u32
  b_placed :: "(u64 \<Rightarrow> mem \<times> 'b \<Rightarrow> mem \<times> 'b) option"
  b_signal :: "(u64 \<Rightarrow> u32 list \<Rightarrow> u64 \<Rightarrow> u64 \<Rightarrow> mem \<times> 'b \<Rightarrow> int \<times> mem \<times> 'b) option"
  b_ready :: "(u64 \<Rightarrow> u32 \<Rightarrow> u32 \<Rightarrow> mem \<times> 'b \<Rightarrow> int \<times> mem \<times> 'b) option"
  b_announce :: "(u64 \<Rightarrow> u32 \<Rightarrow> u32 \<Rightarrow> mem \<times> 'b \<Rightarrow> int \<times> mem \<times> 'b) option"
  b_tail :: "(mem \<times> 'b \<Rightarrow> (u64 \<times> u32 \<times> u32) option \<times> mem \<times> 'b) option"
  b_links :: u32
  b_ready_n :: "(u64 \<Rightarrow> u32 \<Rightarrow> u32 list \<Rightarrow> mem \<times> 'b \<Rightarrow> int \<times> mem \<times> 'b) option"

definition no_bond :: "'b tb_bond" where
  "no_bond = \<lparr>b_lane = 0, b_placed = None, b_signal = None, b_ready = None, b_announce = None,
     b_tail = None, b_links = 0, b_ready_n = None\<rparr>"

text \<open>\<open>struct tb\<close>. An array of the structure is a function from its index.\<close>

record 'b tb =
  t_ring :: mem
  t_ring_lkey :: u32
  t_slots :: u32
  t_depth :: u32
  t_peer_slots :: u32
  t_tx_seq :: u32
  t_packets :: u32
  t_fences :: u32
  t_fence_acked :: u32
  t_tx_posted :: u64
  t_tx_done :: u64
  t_staged :: u64
  t_unstaged :: u64
  t_tx_packets :: "nat \<Rightarrow> u16"
  t_tx_staged :: "nat \<Rightarrow> u8"
  t_tx_bytes :: "nat \<Rightarrow> u32"
  t_tx_payload :: "nat \<Rightarrow> u32"
  t_sent_bytes :: u64
  t_completed_bytes :: u64
  t_writes_posted :: u64
  t_writes_placed :: u64
  t_sent_payload :: u64
  t_completed_payload :: u64
  t_tx_ns :: "nat \<Rightarrow> u64"
  t_done_ns :: u64
  t_rate :: u64
  t_bond :: "'b tb_bond"
  t_stalled :: u64
  t_taken_ns :: u64
  t_filled :: u64
  t_used :: u64
  t_posted :: u64
  t_rx_len :: "nat \<Rightarrow> u16"
  t_rx_last :: "nat \<Rightarrow> bool"
  t_rx_seq :: u32
  t_want_len :: u32
  t_want_off :: u64
  t_rx :: "region option"
  t_lo :: u64
  t_hi :: u64
  t_poisoned :: bool
  t_why :: string
  t_watch :: bool

text \<open>
  A posted SEND: its request id, where its bytes are, the bytes at the time of posting, the key,
  and the two arguments that are only bookkeeping. A completion as \<open>struct ibv_wc\<close>.
\<close>

datatype src = InRing nat | InWin nat

record send =
  sd_id :: u64
  sd_src :: src
  sd_bytes :: "u8 list"
  sd_lkey :: u32
  sd_staged :: bool
  sd_payload :: u32

datatype wc_status = WC_SUCCESS | WC_LOC_LEN_ERR | WC_OTHER nat

record wc =
  wc_id :: u64
  wc_status :: wc_status
  wc_len :: u32

text \<open>
  The link with its surroundings. \<open>l_tb\<close> says that \<open>e->tb\<close> is not NULL. \<open>w_sends\<close> and
  \<open>w_recvs\<close> are the requests the queue pair accepted, in order. What \<open>ibv_poll_cq\<close> returns at
  its \<open>i\<close>th call is \<open>w_poll i\<close>: the count (negative for a failure), the completions, and what
  the device did to the receive ring before.
\<close>

record 'b link = "'b tb" +
  l_tb :: bool
  w_win :: mem
  w_bond :: 'b
  w_sends :: "send list"
  w_recvs :: "u64 list"
  w_now :: "nat \<Rightarrow> u64"
  w_nnow :: nat
  w_post_send :: "nat \<Rightarrow> bool"
  w_npost :: nat
  w_post_recv :: "nat \<Rightarrow> bool"
  w_nrecv :: nat
  w_poll :: "nat \<Rightarrow> wc list option \<times> (mem \<Rightarrow> mem)"
  w_npoll :: nat
  w_gone :: "nat \<Rightarrow> bool"
  w_ngone :: nat
  w_wanted :: "nat \<Rightarrow> bool"
  w_nwanted :: nat

definition now_ns :: "'b link \<Rightarrow> u64 \<times> 'b link" where
  "now_ns s = (w_now s (w_nnow s), s\<lparr>w_nnow := Suc (w_nnow s)\<rparr>)"

subsection \<open>Posting\<close>

definition packets :: "u64 \<Rightarrow> u32" where
  "packets len = ucast ((len + TB_PACKET - 1) div TB_PACKET)"

text \<open>The first failure is kept: its reason is written once, into 112 bytes with the terminator.\<close>

definition poison :: "string \<Rightarrow> 'b link \<Rightarrow> 'b link" where
  "poison why s = (if t_poisoned s then s else s\<lparr>t_why := take 111 why, t_poisoned := True\<rparr>)"

definition tb_failure :: "'b link \<Rightarrow> string option" where
  "tb_failure s = (if l_tb s \<and> t_poisoned s then Some (t_why s) else None)"

definition tb_watch :: "bool \<Rightarrow> 'b link \<Rightarrow> 'b link" where
  "tb_watch w s = s\<lparr>t_watch := w\<rparr>"

definition gone :: "'b link \<Rightarrow> u64 \<Rightarrow> u64 \<Rightarrow> bool \<times> u64 \<times> 'b link" where
  "gone s now nxt =
     (if \<not> t_watch s \<or> now < nxt then (False, nxt, s)
      else (w_gone s (w_ngone s), now + 1000000, s\<lparr>w_ngone := Suc (w_ngone s)\<rparr>))"

definition TAG :: "u64 \<Rightarrow> u64 \<Rightarrow> u64" where
  "TAG kind index = push_bit 56 kind OR index"

abbreviation (input) T_SEND :: "'a :: numeral" where "T_SEND \<equiv> 1"
abbreviation (input) T_RECV :: "'a :: numeral" where "T_RECV \<equiv> 2"

definition post_recv :: "'b link \<Rightarrow> u64 \<Rightarrow> int \<times> 'b link" where
  "post_recv s slot =
     (let s1 = s\<lparr>w_nrecv := Suc (w_nrecv s)\<rparr> in
      if w_post_recv s (w_nrecv s) then (0, s1\<lparr>w_recvs := w_recvs s @ [TAG T_RECV slot]\<rparr>)
      else (-1, poison ''posting a receive failed'' s1))"

definition post_recvs :: "'b link \<Rightarrow> u64 \<Rightarrow> u32 \<Rightarrow> int \<times> 'b link" where
  "post_recvs s first n0 =
     (let n = (if 64 < n0 then 64 else n0);
          wr = map (\<lambda>i. TAG T_RECV ((first + of_nat i) mod ucast (t_slots s))) [0..<unat n];
          s1 = s\<lparr>w_nrecv := Suc (w_nrecv s)\<rparr>
      in if n = 0 then (0, s)
         else if w_post_recv s (w_nrecv s) then (int (unat n), s1\<lparr>w_recvs := w_recvs s @ wr\<rparr>)
         else (-1, poison ''posting a receive failed'' s1))"

text \<open>The bytes a SEND would carry: from the ring (with its staging slots) or from the window.\<close>

fun src_bytes :: "'b link \<Rightarrow> src \<Rightarrow> nat \<Rightarrow> u8 list" where
  "src_bytes s (InRing a) n = mem_read (t_ring s) a n"
| "src_bytes s (InWin a) n = mem_read (w_win s) a n"

definition post_send :: "'b link \<Rightarrow> src \<Rightarrow> u32 \<Rightarrow> u32 \<Rightarrow> bool \<Rightarrow> u32 \<Rightarrow> int \<times> 'b link" where
  "post_send s addr len lkey staged payload =
     (let i = unat (t_tx_posted s mod TB_SEND_WR);
          n = packets (ucast len);
          wr = \<lparr>sd_id = TAG T_SEND (of_nat i), sd_src = addr, sd_bytes = src_bytes s addr (unat len),
                sd_lkey = lkey, sd_staged = staged, sd_payload = payload\<rparr>;
          s1 = s\<lparr>w_npost := Suc (w_npost s)\<rparr>
      in if len = 0 then (-1, poison ''posting a send failed'' s)
         else if \<not> w_post_send s (w_npost s) then (-1, poison ''posting a send failed'' s1)
         else
           let (ns, s2) = (if TB_RATE_MIN \<le> len then now_ns (s1\<lparr>w_sends := w_sends s1 @ [wr]\<rparr>)
                           else (0, s1\<lparr>w_sends := w_sends s1 @ [wr]\<rparr>))
           in (0, s2\<lparr>t_tx_packets := (t_tx_packets s2)(i := ucast n),
                     t_tx_staged := (t_tx_staged s2)(i := (if staged then 1 else 0)),
                     t_tx_ns := (t_tx_ns s2)(i := ns),
                     t_tx_bytes := (t_tx_bytes s2)(i := len),
                     t_sent_bytes := t_sent_bytes s2 + ucast len,
                     t_tx_payload := (t_tx_payload s2)(i := payload),
                     t_sent_payload := t_sent_payload s2 + ucast payload,
                     t_packets := t_packets s2 + n,
                     t_tx_posted := t_tx_posted s2 + 1\<rparr>))"

subsection \<open>Counters, rate and room\<close>

definition tb_accept :: "region \<Rightarrow> u64 \<Rightarrow> u64 \<Rightarrow> 'b link \<Rightarrow> 'b link" where
  "tb_accept rx lo hi s =
     s\<lparr>t_rx := Some rx, t_lo := lo, t_hi := (if hi < r_length rx then hi else r_length rx)\<rparr>"

definition tb_bond_hooks :: "'b tb_bond option \<Rightarrow> 'b link \<Rightarrow> 'b link" where
  "tb_bond_hooks hooks s = s\<lparr>t_bond := (case hooks of Some h \<Rightarrow> h | None \<Rightarrow> no_bond)\<rparr>"

definition tb_writes_posted :: "'b link \<Rightarrow> u64" where
  "tb_writes_posted s = (if l_tb s then t_writes_posted s else 0)"

definition tb_writes_placed :: "'b link \<Rightarrow> u64" where
  "tb_writes_placed s = (if l_tb s then t_writes_placed s else 0)"

definition tb_posted_bytes :: "'b link \<Rightarrow> u64" where
  "tb_posted_bytes s = (if l_tb s then t_sent_bytes s else 0)"

definition tb_completed_bytes :: "'b link \<Rightarrow> u64" where
  "tb_completed_bytes s = (if l_tb s then t_completed_bytes s else 0)"

definition tb_posted_payload :: "'b link \<Rightarrow> u64" where
  "tb_posted_payload s = (if l_tb s then t_sent_payload s else 0)"

definition tb_completed_payload :: "'b link \<Rightarrow> u64" where
  "tb_completed_payload s = (if l_tb s then t_completed_payload s else 0)"

definition tb_unposted :: "'b link \<Rightarrow> u64" where
  "tb_unposted s = (if l_tb s then t_used s + ucast (t_slots s) - t_posted s else 0)"

definition tb_rate :: "'b link \<Rightarrow> u64" where
  "tb_rate s = (if l_tb s then t_rate s else 0)"

definition placed :: "'b link \<Rightarrow> 'b link" where
  "placed s =
     (let s1 = s\<lparr>t_writes_placed := t_writes_placed s + 1\<rparr> in
      case b_placed (t_bond s1) of
        None \<Rightarrow> s1
      | Some f \<Rightarrow> (case f (t_writes_placed s1) (w_win s1, w_bond s1) of
            (win, b) \<Rightarrow> s1\<lparr>w_win := win, w_bond := b\<rparr>))"

definition measure_rate :: "'b link \<Rightarrow> nat \<Rightarrow> u64 \<Rightarrow> 'b link" where
  "measure_rate s i now =
     (let start = (if t_done_ns s < t_tx_ns s i then t_tx_ns s i else t_done_ns s);
          s1 = (if t_tx_ns s i \<noteq> 0 \<and> start < now then
                  let sample = ucast (t_tx_bytes s i) * 1000 div (now - start);
                      sample = (if t_rate s \<noteq> 0 \<and> 4 * t_rate s < sample then 4 * t_rate s else sample);
                      sample = (if t_rate s \<noteq> 0 \<and> sample < t_rate s div 4 then t_rate s div 4 else sample)
                  in s\<lparr>t_rate := (if t_rate s \<noteq> 0 then t_rate s - t_rate s div 8 + sample div 8 else sample)\<rparr>
                else s)
      in s1\<lparr>t_done_ns := now\<rparr>)"

definition has_room :: "'b link \<Rightarrow> u32 \<Rightarrow> u32 \<Rightarrow> bool \<Rightarrow> bool" where
  "has_room s n sends reply =
     (let spare = (if reply then 0 else 1) :: u32 in
      t_packets s + n + spare \<le> t_depth s \<and>
      t_tx_posted s - t_tx_done s + ucast sends + ucast spare \<le> TB_SEND_WR \<and>
      t_staged s - t_unstaged s + ucast spare < TB_STAGE)"

text \<open>The staging slot the next header message uses, as an offset into the ring.\<close>

definition stage_slot :: "'b link \<Rightarrow> nat" where
  "stage_slot s = (TB_RING + unat (t_staged s mod TB_STAGE)) * TB_PACKET"

definition send_head :: "'b link \<Rightarrow> u16 \<Rightarrow> u64 \<Rightarrow> u32 \<Rightarrow> u64 \<Rightarrow> u8 list option \<Rightarrow> int \<times> 'b link" where
  "send_head s kind off len value bytes =
     (let slot = stage_slot s;
          h = \<lparr>h_magic = MAGIC, h_seq = t_tx_seq s, h_kind = kind, h_pad = 0, h_len = len, h_off = off, h_value = value\<rparr>;
          s1 = s\<lparr>t_ring := mem_write (t_ring s) slot (put_head h)\<rparr>;
          s2 = (case bytes of None \<Rightarrow> s1
                | Some bs \<Rightarrow> s1\<lparr>t_ring := mem_write (t_ring s1) (slot + HEAD) (take (unat len) bs)\<rparr>)
      in case post_send s2 (InRing slot) (HEAD + (if bytes \<noteq> None then len else 0)) (t_ring_lkey s2) True
             (if kind = C_INLINE then len else 0) of
           (r, s3) \<Rightarrow> if r \<noteq> 0 then (-1, s3)
                      else (0, s3\<lparr>t_tx_seq := t_tx_seq s3 + 1, t_staged := t_staged s3 + 1\<rparr>))"

definition msg_max :: "'b link \<Rightarrow> u64" where
  "msg_max s =
     (let mx = ucast (t_peer_slots s div 2) * TB_PACKET; depth = ucast (t_depth s div 2) * TB_PACKET;
          mx = (if mx < depth then mx else depth)
      in if TB_MSG < mx then TB_MSG else mx)"

subsection \<open>Taking messages from the ring\<close>

text \<open>
  \<open>copy_out\<close> and \<open>copy_skip\<close> give the bytes they copy; the caller's destination is a store to
  the window.
\<close>

definition copy_out :: "'b link \<Rightarrow> u64 \<Rightarrow> u64 \<Rightarrow> u8 list" where
  "copy_out s first len =
     (let at = (first mod ucast (t_slots s)) * TB_PACKET;
          room = ucast (t_slots s) * TB_PACKET - at;
          head = (if len < room then len else room)
      in mem_read (t_ring s) (unat at) (unat head) @
         (if head < len then mem_read (t_ring s) 0 (unat (len - head)) else []))"

definition copy_skip :: "'b link \<Rightarrow> u64 \<Rightarrow> u64 \<Rightarrow> u64 \<Rightarrow> u8 list" where
  "copy_skip s first skip len =
     (let ring = ucast (t_slots s) * TB_PACKET;
          at = ((first mod ucast (t_slots s)) * TB_PACKET + skip) mod ring;
          head = (if len < ring - at then len else ring - at)
      in mem_read (t_ring s) (unat at) (unat head) @
         (if head < len then mem_read (t_ring s) 0 (unat (len - head)) else []))"

definition store_win :: "'b link \<Rightarrow> u64 \<Rightarrow> u8 list \<Rightarrow> 'b link" where
  "store_win s off bs = s\<lparr>w_win := mem_write (w_win s) (unat off) bs\<rparr>"

definition inside :: "'b link \<Rightarrow> u64 \<Rightarrow> u64 \<Rightarrow> bool" where
  "inside s off len \<longleftrightarrow> t_lo s \<le> off \<and> off \<le> t_hi s \<and> len \<le> t_hi s - off"

definition stall :: "'b link \<Rightarrow> string \<Rightarrow> int \<times> 'b link" where
  "stall s why =
     (case now_ns s of (now, s1) \<Rightarrow>
        if t_stalled s1 = 0 then (0, s1\<lparr>t_stalled := now\<rparr>)
        else if TB_STALL_NS < now - t_stalled s1 then (-1, poison why s1)
        else (0, s1))"

text \<open>The packet a message starts with, and a hook's call with its effect on the window and the bond.\<close>

definition packet_at :: "'b link \<Rightarrow> u64 \<Rightarrow> nat" where
  "packet_at s first = unat ((first mod ucast (t_slots s)) * TB_PACKET)"

definition call_hook :: "(mem \<times> 'b \<Rightarrow> 'r \<times> mem \<times> 'b) \<Rightarrow> 'b link \<Rightarrow> 'r \<times> 'b link" where
  "call_hook f s = (case f (w_win s, w_bond s) of (r, win, b) \<Rightarrow> (r, s\<lparr>w_win := win, w_bond := b\<rparr>))"

definition take_tail :: "'b link \<Rightarrow> u64 \<Rightarrow> u64 \<Rightarrow> int \<times> 'b link" where
  "take_tail s first bytes =
     (case b_tail (t_bond s) of
        None \<Rightarrow> (0, s)
      | Some f \<Rightarrow> (case call_hook f s of
            (None, s1) \<Rightarrow> stall s1 ''a message with no head waited 10 s for the other link to announce it''
          | (Some (off, len, ordinal), s1) \<Rightarrow>
              if bytes \<noteq> ucast len \<or> ordinal \<noteq> ucast (t_writes_placed s1 + 1) \<or> \<not> inside s1 off (ucast len)
              then (-1, poison ''a joined write's tail differs from what its head announced'' s1)
              else let s2 = s1\<lparr>t_rx_seq := t_rx_seq s1 + 1\<rparr>
                   in (1, placed (store_win s2 off (copy_out s2 first bytes)))))"

definition take_joined :: "'b link \<Rightarrow> u64 \<Rightarrow> u64 \<Rightarrow> head \<Rightarrow> int \<times> 'b link" where
  "take_joined s first bytes h =
     (let m = mem_read (t_ring s) (packet_at s first) 64;
          ok = BOND_WS_HEAD \<le> bytes;
          soff = (if ok then get_le (take 8 (drop 32 m)) else 0) :: u64;
          seq = (if ok then get_le (take 8 (drop 40 m)) else 0) :: u64;
          need = (if ok then get_words 2 (drop 48 m) else [0, 0]);
          tail = (if ok then get_le (take 4 (drop 56 m)) else 0) :: u32;
          wait = (if ok then get_le (take 4 (drop 60 m)) else 0) :: u32;
          me = unat (b_lane (t_bond s) AND 1)
      in if 2 < b_links (t_bond s) then (-1, poison ''two-link joined message on an N-link bond'' s)
         else if bytes \<noteq> BOND_WS_HEAD + ucast (h_len h) \<or> h_len h = 0 \<or> soff mod 8 \<noteq> 0 \<or>
             \<not> inside s (h_off h) (ucast (h_len h)) \<or> \<not> inside s soff 8 \<or>
             (tail \<noteq> 0 \<and> \<not> inside s (h_off h + ucast (h_len h)) (ucast tail)) \<or> seq = 0 \<or>
             b_signal (t_bond s) = None \<or>
             h_pad h AND NOT (BOND_WAIT_LINK OR BOND_WAIT_SIGNALS) \<noteq> 0 \<or>
             need ! me \<noteq> ucast (t_writes_placed s + 1)
         then (-1, poison ''a malformed bonded write-and-signal message'' s)
         else case call_hook (the (b_ready (t_bond s)) seq (ucast (h_pad h)) wait) s of (ready, s1) \<Rightarrow>
           if ready < 0 then (-1, poison ''a bonded write-and-signal out of sequence'' s1)
           else if ready = 0 then stall s1 ''a joined write waited 10 s for the other link's earlier writes''
           else case (if tail \<noteq> 0
                      then call_hook (the (b_announce (t_bond s1)) (h_off h + ucast (h_len h)) tail (need ! (1 - me))) s1
                      else (0, s1)) of (full, s2) \<Rightarrow>
             if full \<noteq> 0 then stall s2 ''a joined write waited 10 s to announce its tail''
             else
               let s3 = s2\<lparr>t_rx_seq := t_rx_seq s2 + 1\<rparr>;
                   s4 = placed (store_win s3 (h_off h) (copy_skip s3 first BOND_WS_HEAD (ucast (h_len h))))
               in case call_hook (the (b_signal (t_bond s4)) seq need soff (h_value h)) s4 of (r, s5) \<Rightarrow>
                    if r \<noteq> 0 then (-1, poison ''the bonded signal was refused'' s5) else (1, s5))"

text \<open>The branches of \<open>take\<close>, in its order; each one is a message kind.\<close>

definition take_bytes :: "'b link \<Rightarrow> u64 \<Rightarrow> u64 \<Rightarrow> int \<times> 'b link" where
  "take_bytes s first bytes =
     (if bytes \<noteq> ucast (t_want_len s) then (-1, poison ''a write's bytes differ in length from its header'' s)
      else (1, placed ((store_win s (t_want_off s) (copy_out s first bytes))\<lparr>t_want_len := 0\<rparr>)))"

definition take_write_signal :: "'b link \<Rightarrow> u64 \<Rightarrow> u64 \<Rightarrow> head \<Rightarrow> int \<times> 'b link" where
  "take_write_signal s first bytes h =
     (let soff = (if WS_HEAD \<le> bytes then get_le (mem_read (t_ring s) (packet_at s first + HEAD) 8) else 0) :: u64
      in if bytes \<noteq> WS_HEAD + ucast (h_len h) \<or> h_len h = 0 \<or> soff mod 8 \<noteq> 0 \<or>
            \<not> inside s (h_off h) (ucast (h_len h)) \<or> \<not> inside s soff 8
         then (-1, poison ''a malformed write-and-signal message'' s)
         else let s1 = s\<lparr>t_rx_seq := t_rx_seq s + 1\<rparr>;
                  s2 = placed (store_win s1 (h_off h) (copy_skip s1 first WS_HEAD (ucast (h_len h))))
              in (1, store_win s2 soff (put_le 8 (h_value h))))"

definition take_bond_signal :: "'b link \<Rightarrow> u64 \<Rightarrow> u64 \<Rightarrow> u64 \<Rightarrow> head \<Rightarrow> int \<times> 'b link" where
  "take_bond_signal s first count bytes h =
     (let links = (if h_kind h = C_BOND_SIGNAL then 2 else ucast (h_pad h)) :: u32;
          expected = (if b_links (t_bond s) \<noteq> 0 then b_links (t_bond s) else 2);
          size = ucast (HEAD + 8 + links * 4) :: u64;
          ok = (2 \<le> links \<and> links \<le> TB_BOND_MAX \<and> links = expected \<and> bytes = size);
          m = mem_read (t_ring s) (packet_at s first) (40 + 4 * unat links);
          seq = (if ok then get_le (take 8 (drop 32 m)) else 0) :: u64;
          need = (if ok then get_words (unat links) (drop 40 m) else [])
      in if links < 2 \<or> TB_BOND_MAX < links \<or> links \<noteq> expected \<or> count \<noteq> 1 \<or> bytes \<noteq> size \<or> h_len h \<noteq> 8 \<or>
            h_off h mod 8 \<noteq> 0 \<or> \<not> inside s (h_off h) 8 \<or> seq = 0 \<or> b_signal (t_bond s) = None
         then (-1, poison ''a malformed bonded signal message'' s)
         else let s1 = s\<lparr>t_rx_seq := t_rx_seq s + 1\<rparr>
              in case call_hook (the (b_signal (t_bond s1)) seq need (h_off h) (h_value h)) s1 of (r, s2) \<Rightarrow>
                   if r \<noteq> 0 then (-1, poison ''the bonded signal was refused'' s2) else (1, s2))"

definition take_bond_inline :: "'b link \<Rightarrow> u64 \<Rightarrow> u64 \<Rightarrow> u64 \<Rightarrow> head \<Rightarrow> int \<times> 'b link" where
  "take_bond_inline s first count bytes h =
     (let links = ucast (drop_bit 8 (h_pad h)) :: u32; flags = ucast (h_pad h AND 255) :: u32;
          size = HEAD + 16 + links * 8
      in if links < 2 \<or> TB_BOND_MAX < links \<or> links \<noteq> b_links (t_bond s) \<or> count \<noteq> 1 \<or> TB_PACKET < size \<or>
            TB_PACKET - size < h_len h \<or> bytes \<noteq> ucast size + ucast (h_len h) \<or>
            flags AND NOT BOND_WAIT_SIGNALS \<noteq> 0 \<or> h_len h = 0 \<or> \<not> inside s (h_off h) (ucast (h_len h)) \<or>
            b_ready_n (t_bond s) = None \<or> b_signal (t_bond s) = None
         then (-1, poison ''a malformed N-link inline message'' s)
         else
           let at = packet_at s first;
               soff = get_le (mem_read (t_ring s) (at + HEAD) 8) :: u64;
               seq = get_le (mem_read (t_ring s) (at + HEAD + 8) 8) :: u64;
               need = get_words (unat links) (mem_read (t_ring s) (at + HEAD + 16) (unat links * 4));
               wait = get_words (unat links) (mem_read (t_ring s) (at + HEAD + 16 + unat links * 4) (unat links * 4))
           in if seq = 0 \<or> soff mod 8 \<noteq> 0 \<or> \<not> inside s soff 8 \<or>
                 need ! unat (b_lane (t_bond s)) \<noteq> ucast (t_writes_placed s + 1)
              then (-1, poison ''an N-link inline watermark is invalid'' s)
              else case call_hook (the (b_ready_n (t_bond s)) seq flags wait) s of (ready, s1) \<Rightarrow>
                if ready < 0 then (-1, poison ''an N-link inline message is out of sequence'' s1)
                else if ready = 0 then stall s1 ''an N-link inline message waited for prior placements''
                else
                  let s2 = placed (store_win s1 (h_off h) (mem_read (t_ring s1) (at + unat size) (unat (h_len h))));
                      s3 = s2\<lparr>t_rx_seq := t_rx_seq s2 + 1\<rparr>
                  in case call_hook (the (b_signal (t_bond s3)) seq need soff (h_value h)) s3 of (r, s4) \<Rightarrow>
                       if r \<noteq> 0 then (-1, poison ''an N-link inline signal was refused'' s4) else (1, s4))"

definition take_bond_write :: "'b link \<Rightarrow> u64 \<Rightarrow> u64 \<Rightarrow> u64 \<Rightarrow> head \<Rightarrow> int \<times> 'b link" where
  "take_bond_write s first count bytes h =
     (let links = ucast (drop_bit 8 (h_pad h)) :: u32; flags = ucast (h_pad h AND 255) :: u32
      in if links < 2 \<or> TB_BOND_MAX < links \<or> links \<noteq> b_links (t_bond s) \<or> count \<noteq> 1 \<or>
            bytes \<noteq> ucast (HEAD + links * 4) \<or> flags AND NOT BOND_WAIT_SIGNALS \<noteq> 0 \<or> h_value h = 0 \<or>
            h_len h = 0 \<or> TB_MSG < h_len h \<or> \<not> inside s (h_off h) (ucast (h_len h)) \<or> b_ready_n (t_bond s) = None
         then (-1, poison ''a malformed N-link write header'' s)
         else
           let wait = get_words (unat links) (mem_read (t_ring s) (packet_at s first + HEAD) (unat links * 4))
           in case call_hook (the (b_ready_n (t_bond s)) (h_value h) flags wait) s of (ready, s1) \<Rightarrow>
                if ready < 0 then (-1, poison ''an N-link write is out of sequence'' s1)
                else if ready = 0 then stall s1 ''an N-link write waited for earlier placements''
                else (1, s1\<lparr>t_rx_seq := t_rx_seq s1 + 1, t_want_off := h_off h, t_want_len := h_len h\<rparr>))"

definition head_fault :: "'b link \<Rightarrow> u64 \<Rightarrow> head \<Rightarrow> string option" where
  "head_fault s bytes h =
     (if h_magic h \<noteq> MAGIC then Some ''a malformed header message''
      else if h_seq h \<noteq> t_rx_seq s then Some ''a message was lost or reordered''
      else if t_rx s = None \<and> h_kind h \<noteq> C_FENCE_ACK then Some ''the peer wrote before this end accepted''
      else if h_kind h = C_INLINE \<and> ucast (h_len h) \<noteq> bytes - HEAD then Some ''an inline write of the wrong length''
      else if h_kind h = C_WRITE \<and> (h_len h = 0 \<or> TB_MSG < h_len h) then Some ''a write of an impossible size''
      else if h_kind h = C_SIGNAL \<and> h_off h mod 8 \<noteq> 0 then Some ''an unaligned signal''
      else if h_kind h < C_WRITE \<or> C_FENCE_ACK < h_kind h then Some ''an unknown message''
      else if h_kind h \<le> C_INLINE \<and> \<not> inside s (h_off h) (ucast (h_len h))
        then Some ''a write outside what the peer may write''
      else if h_kind h = C_SIGNAL \<and> \<not> inside s (h_off h) 8 then Some ''a signal outside what the peer may write''
      else None)"

definition take_plain :: "'b link \<Rightarrow> u64 \<Rightarrow> u64 \<Rightarrow> u64 \<Rightarrow> head \<Rightarrow> int \<times> 'b link" where
  "take_plain s first count bytes h =
     (if count \<noteq> 1 then (-1, poison ''a malformed header message'' s)
      else case head_fault s bytes h of
        Some why \<Rightarrow> (-1, poison why s)
      | None \<Rightarrow>
          (case (if h_kind h = C_FENCE
                 then if \<not> has_room s 1 1 True then (Some 0, s)
                      else case send_head s C_FENCE_ACK 0 0 (h_value h) None of
                        (r, s1) \<Rightarrow> if r \<noteq> 0 then (Some (-1), s1) else (None, s1)
                 else (None, s)) of
             (Some r, s1) \<Rightarrow> (r, s1)
           | (None, s1) \<Rightarrow>
               let s2 = s1\<lparr>t_rx_seq := t_rx_seq s1 + 1\<rparr>;
                   s3 = (if h_kind h = C_INLINE
                         then placed (store_win s2 (h_off h)
                                (mem_read (t_ring s2) (packet_at s2 first + HEAD) (unat (h_len h))))
                         else s2);
                   s4 = (if h_kind h = C_WRITE then s3\<lparr>t_want_off := h_off h, t_want_len := h_len h\<rparr> else s3);
                   s5 = (if h_kind h = C_SIGNAL then store_win s4 (h_off h) (put_le 8 (h_value h)) else s4);
                   s6 = (if h_kind h = C_FENCE_ACK then s5\<lparr>t_fence_acked := ucast (h_value h)\<rparr> else s5)
               in (1, s6)))"

text \<open>The head of the message at slot counter \<open>first\<close>: zeroes where the message is shorter.\<close>

definition read_head :: "'b link \<Rightarrow> u64 \<Rightarrow> u64 \<Rightarrow> head" where
  "read_head s first bytes =
     (let n = unat (if bytes < HEAD then bytes else HEAD)
      in get_head (mem_read (t_ring s) (packet_at s first) n @ replicate (HEAD - n) 0))"

definition take_msg :: "'b link \<Rightarrow> u64 \<Rightarrow> u64 \<Rightarrow> u64 \<Rightarrow> int \<times> 'b link" where
  "take_msg s first count bytes =
     (if t_want_len s \<noteq> 0 then take_bytes s first bytes
      else
        let h = read_head s first bytes;
            mine = (h_magic h = MAGIC \<and> h_seq h = t_rx_seq s \<and> t_rx s \<noteq> None)
        in if b_tail (t_bond s) \<noteq> None \<and> t_rx s \<noteq> None \<and> (bytes < 4 \<or> h_magic h \<noteq> MAGIC)
             then take_tail s first bytes
           else if bytes < HEAD then (-1, poison ''a malformed header message'' s)
           else if mine \<and> h_kind h = C_BOND_WRITE_SIGNAL \<and> b_ready (t_bond s) \<noteq> None
             then take_joined s first bytes h
           else if mine \<and> h_kind h = C_WRITE_SIGNAL then take_write_signal s first bytes h
           else if mine \<and> (h_kind h = C_BOND_SIGNAL \<or> h_kind h = C_BOND_SIGNAL_N)
             then take_bond_signal s first count bytes h
           else if mine \<and> h_kind h = C_BOND_INLINE_N then take_bond_inline s first count bytes h
           else if mine \<and> h_kind h = C_BOND_WRITE_N then take_bond_write s first count bytes h
           else take_plain s first count bytes h)"

subsection \<open>What taking a message leaves alone\<close>

text \<open>
  The receive ring's bookkeeping, the limits of what the peer may write, the hooks and the oracles
  of the receive side: no message changes them. The sends' bookkeeping changes only when a fence is
  answered.
\<close>

definition rx_part where
  "rx_part s = (t_slots s, t_depth s, t_peer_slots s, t_filled s, t_used s, t_posted s, t_rx_len s, t_rx_last s,
     t_rx s, t_lo s, t_hi s, t_bond s, l_tb s, t_watch s, w_recvs s, (w_poll s, w_npoll s, w_post_recv s,
     w_nrecv s, w_wanted s, w_nwanted s, w_gone s, w_ngone s, w_now s))"

definition tx_part where
  "tx_part s = (t_ring s, t_ring_lkey s, t_tx_seq s, t_packets s, t_fences s, t_tx_posted s, t_tx_done s, t_staged s,
     t_unstaged s, t_tx_packets s, t_tx_staged s, t_tx_bytes s, t_tx_payload s, t_sent_bytes s, t_completed_bytes s,
     (t_writes_posted s, t_sent_payload s, t_completed_payload s, t_tx_ns s, t_done_ns s, t_rate s, w_sends s,
     w_post_send s, w_npost s))"

lemma poison_parts [simp]:
  "rx_part (poison why s) = rx_part s" "tx_part (poison why s) = tx_part s" "w_win (poison why s) = w_win s"
  "t_poisoned (poison why s)" "w_bond (poison why s) = w_bond s"
  by (simp_all add: poison_def rx_part_def tx_part_def)

lemma now_ns_parts:
  assumes "now_ns s = (t, s')"
  shows "rx_part s' = rx_part s" "tx_part s' = tx_part s" "w_win s' = w_win s" "t_poisoned s' = t_poisoned s"
    "t_want_len s' = t_want_len s" "t_want_off s' = t_want_off s" "w_bond s' = w_bond s"
  using assms by (auto simp: now_ns_def rx_part_def tx_part_def)

lemma stall_parts:
  assumes "stall s why = (r, s')"
  shows "rx_part s' = rx_part s" "tx_part s' = tx_part s" "w_win s' = w_win s" "w_bond s' = w_bond s"
  using assms
  by (auto simp: stall_def now_ns_def poison_def rx_part_def tx_part_def split: if_splits)

lemma placed_parts [simp]:
  "rx_part (placed s) = rx_part s" "tx_part (placed s) = tx_part s" "t_poisoned (placed s) = t_poisoned s"
  "t_want_len (placed s) = t_want_len s" "t_want_off (placed s) = t_want_off s"
  by (simp_all add: placed_def Let_def rx_part_def tx_part_def split: option.splits prod.splits)

lemma store_win_parts [simp]:
  "rx_part (store_win s off bs) = rx_part s" "tx_part (store_win s off bs) = tx_part s"
  "t_poisoned (store_win s off bs) = t_poisoned s" "t_want_len (store_win s off bs) = t_want_len s"
  "t_want_off (store_win s off bs) = t_want_off s" "w_bond (store_win s off bs) = w_bond s"
  by (simp_all add: store_win_def rx_part_def tx_part_def)

lemma call_hook_parts:
  assumes "call_hook f s = (r, s')"
  shows "rx_part s' = rx_part s" "tx_part s' = tx_part s" "t_poisoned s' = t_poisoned s"
    "t_want_len s' = t_want_len s" "t_want_off s' = t_want_off s"
  using assms by (auto simp: call_hook_def rx_part_def tx_part_def split: prod.splits)

lemma update_parts [simp]:
  "rx_part (s\<lparr>t_rx_seq := a\<rparr>) = rx_part s" "tx_part (s\<lparr>t_rx_seq := a\<rparr>) = tx_part s"
  "rx_part (s\<lparr>t_want_len := b\<rparr>) = rx_part s" "tx_part (s\<lparr>t_want_len := b\<rparr>) = tx_part s"
  "rx_part (s\<lparr>t_want_off := c\<rparr>) = rx_part s" "tx_part (s\<lparr>t_want_off := c\<rparr>) = tx_part s"
  "rx_part (s\<lparr>t_fence_acked := a\<rparr>) = rx_part s" "tx_part (s\<lparr>t_fence_acked := a\<rparr>) = tx_part s"
  "rx_part (s\<lparr>t_ring := m\<rparr>) = rx_part s" "rx_part (s\<lparr>t_tx_seq := a\<rparr>) = rx_part s"
  "rx_part (s\<lparr>t_staged := c\<rparr>) = rx_part s" "rx_part (s\<lparr>t_writes_posted := c\<rparr>) = rx_part s"
  "rx_part (s\<lparr>t_stalled := c\<rparr>) = rx_part s" "tx_part (s\<lparr>t_stalled := c\<rparr>) = tx_part s"
  "rx_part (s\<lparr>t_taken_ns := c\<rparr>) = rx_part s" "tx_part (s\<lparr>t_taken_ns := c\<rparr>) = tx_part s"
  "tx_part (s\<lparr>t_used := c\<rparr>) = tx_part s" "tx_part (s\<lparr>t_filled := c\<rparr>) = tx_part s"
  "tx_part (s\<lparr>t_posted := c\<rparr>) = tx_part s"
  by (simp_all add: rx_part_def tx_part_def)

lemma post_send_rx_part:
  assumes "post_send s addr len lkey staged payload = (r, s')"
  shows "rx_part s' = rx_part s"
  using assms by (auto simp: post_send_def Let_def now_ns_def poison_def rx_part_def split: if_splits prod.splits)

lemma send_head_rx_part:
  assumes "send_head s kind off len value bytes = (r, s')"
  shows "rx_part s' = rx_part s"
  using assms
  by (auto simp: send_head_def Let_def split: if_splits prod.splits option.splits dest!: post_send_rx_part)

lemmas taking_defs = take_tail_def take_joined_def take_bytes_def take_write_signal_def take_bond_signal_def
  take_bond_inline_def take_bond_write_def

lemma take_msg_rx_part:
  assumes "take_msg s first count bytes = (r, s')"
  shows "rx_part s' = rx_part s"
proof -
  have tail: "rx_part s' = rx_part s" if "take_tail s first bytes = (r, s')" for s' r
    using that by (auto simp: take_tail_def Let_def split: if_splits option.splits prod.splits
        dest!: call_hook_parts(1) stall_parts(1))
  have joined: "rx_part s' = rx_part s" if "take_joined s first bytes h = (r, s')" for s' r h
    using that by (auto simp: take_joined_def Let_def split: if_splits prod.splits
        dest!: call_hook_parts(1) stall_parts(1))
  have inl: "rx_part s' = rx_part s" if "take_bond_inline s first count bytes h = (r, s')" for s' r h
    using that by (auto simp: take_bond_inline_def Let_def split: if_splits prod.splits
        dest!: call_hook_parts(1) stall_parts(1))
  have wr: "rx_part s' = rx_part s" if "take_bond_write s first count bytes h = (r, s')" for s' r h
    using that by (auto simp: take_bond_write_def Let_def split: if_splits prod.splits
        dest!: call_hook_parts(1) stall_parts(1))
  have sig: "rx_part s' = rx_part s" if "take_bond_signal s first count bytes h = (r, s')" for s' r h
    using that by (auto simp: take_bond_signal_def Let_def split: if_splits prod.splits
        dest!: call_hook_parts(1))
  have plain: "rx_part s' = rx_part s" if "take_plain s first count bytes h = (r, s')" for s' r h
    using that by (auto simp: take_plain_def Let_def split: if_splits option.splits prod.splits
        dest!: send_head_rx_part)
  show ?thesis using assms
    by (auto simp: take_msg_def take_bytes_def take_write_signal_def Let_def split: if_splits
        dest!: tail joined inl wr sig plain)
qed

subsection \<open>Reposting, draining and progress\<close>

lemma post_recvs_got:
  assumes "post_recvs s first n = (got, s')" and "0 < got"
  shows "got \<le> int (unat n)" and "got \<le> 64"
  using assms
  by (auto simp: post_recvs_def Let_def word_less_nat_alt uint_nat simp del: of_nat_unat split: if_splits)

lemma repost_step:
  assumes "post_recvs s first (if want < ucast most then ucast want else most) = (got, s')" and "0 < got"
  shows "unat (of_int got :: u64) = nat got" and "nat got \<le> unat (want :: u64)"
    and "unat (want - of_int got) = unat want - nat got"
proof -
  let ?n = "if want < ucast most then ucast want else most"
  note g = post_recvs_got [OF assms]
  have "unat ?n \<le> unat want"
  proof (cases "want < ucast most")
    case True
    then have "unat want < 4294967296" using unat_lt_32 [of most] by (simp add: word_less_nat_alt)
    with True show ?thesis by (simp add: ucast_u32_of_u64)
  next
    case False
    then show ?thesis by (simp add: word_less_nat_alt not_less)
  qed
  then show le: "nat got \<le> unat want" using g(1) by linarith
  have w: "(of_int got :: u64) = of_nat (nat got)" using assms(2) by simp
  show u: "unat (of_int got :: u64) = nat got"
    unfolding w using g(2) by (simp add: unat_of_nat take_bit_nat_eq_self nat_less_iff)
  then show "unat (want - of_int got) = unat want - nat got"
    using le by (simp add: unat_sub_le word_le_nat_alt)
qed

text \<open>\<open>wanted\<close> says whether the caller passed the flag; each load of it is read from its oracle.\<close>

function repost_loop :: "'b link \<Rightarrow> bool \<Rightarrow> u64 \<Rightarrow> u32 \<Rightarrow> 'b link" where
  "repost_loop s wanted want most =
     (if want = 0 \<or> t_poisoned s then s
      else
        let stop = wanted \<and> w_wanted s (w_nwanted s);
            s1 = (if wanted then s\<lparr>w_nwanted := Suc (w_nwanted s)\<rparr> else s)
        in if stop then s1
           else
             let n = (if want < ucast most then ucast want else most)
             in case post_recvs s1 (t_posted s1) n of (got, s2) \<Rightarrow>
                  if got \<le> 0 then s2
                  else repost_loop (s2\<lparr>t_posted := t_posted s2 + of_int got\<rparr>) wanted (want - of_int got) most)"
  by pat_completeness auto
termination
proof (relation "measure (\<lambda>(s, wanted, want, most). unat want)", goal_cases)
  case 1
  show ?case by simp
next
  case (2 s wanted want most stop s1 n got s2)
  then have "post_recvs s1 (t_posted s1) (if want < ucast most then ucast want else most) = (got, s2)" "0 < got"
    by auto
  from repost_step [OF this] \<open>0 < got\<close> show ?case by simp
qed

declare repost_loop.simps [simp del]

definition repost :: "'b link \<Rightarrow> bool \<Rightarrow> 'b link" where
  "repost s wanted =
     (let want = t_used s + ucast (t_slots s) - t_posted s in
      if want = 0 then s
      else if \<not> wanted then repost_loop s False want 64
      else
        let low = t_posted s - t_filled s < ucast (t_slots s) * 3 div 4;
            (now, s1) = (if low then (0, s) else now_ns s)
        in if \<not> low \<and> now - t_taken_ns s1 < TB_REPOST_WAIT_NS then s1
           else
             let most = (if low then TB_RECV_BULK else TB_RECV_BATCH);
                 want = (if \<not> low \<and> ucast most < want then ucast most else want)
             in repost_loop s1 True want most)"

lemma unat_Suc_lt: "(a :: u64) < b \<Longrightarrow> unat (a + 1) = unat a + 1"
  using unat_lt_64 [of b] by (subst unat_add_small) (simp_all add: word_less_nat_alt)

text \<open>The slot counter of the next message's last packet, or \<open>filled\<close> when it has not arrived.\<close>

function find_end :: "'b link \<Rightarrow> u64 \<Rightarrow> u64" where
  "find_end s end =
     (if end < t_filled s \<and> \<not> t_rx_last s (unat (end mod ucast (t_slots s))) then find_end s (end + 1) else end)"
  by pat_completeness auto
termination
proof (relation "measure (\<lambda>(s, end). unat (t_filled s) - unat end)", goal_cases)
  case (2 s "end")
  then show ?case by (auto simp: word_less_nat_alt unat_Suc_lt [of "end" "t_filled s"])
qed simp

declare find_end.simps [simp del]

lemma find_end_bounds:
  "end \<le> t_filled s \<Longrightarrow> end \<le> find_end s end \<and> find_end s end \<le> t_filled s \<and>
    (find_end s end < t_filled s \<longrightarrow> t_rx_last s (unat (find_end s end mod ucast (t_slots s))))"
proof (induction s "end" rule: find_end.induct)
  case (1 s "end")
  show ?case
  proof (cases "end < t_filled s \<and> \<not> t_rx_last s (unat (end mod ucast (t_slots s)))")
    case True
    then have "end + 1 \<le> t_filled s" "end \<le> end + 1"
      by (auto simp: inc_le word_le_nat_alt word_less_nat_alt unat_Suc_lt [of "end" "t_filled s"])
    with 1 True show ?thesis by (subst (1 2 3 4) find_end.simps) auto
  next
    case False
    with 1 show ?thesis by (subst (1 2 3 4) find_end.simps) auto
  qed
qed

function drain_loop :: "'b link \<Rightarrow> 'b link" where
  "drain_loop s =
     (if t_used s < t_filled s \<and> \<not> t_poisoned s then
        let end = find_end s (t_used s)
        in if end = t_filled s then
             (if t_filled s - t_used s = ucast (t_slots s) then poison ''a message larger than the receive ring'' s else s)
           else
             let count = end - t_used s + 1;
                 bytes = (count - 1) * TB_PACKET + ucast (t_rx_len s (unat (end mod ucast (t_slots s))))
             in case take_msg s (t_used s) count bytes of (r, s1) \<Rightarrow>
                  if r \<le> 0 then s1
                  else case now_ns (s1\<lparr>t_used := end + 1, t_stalled := 0\<rparr>) of (now, s2) \<Rightarrow>
                         drain_loop (s2\<lparr>t_taken_ns := now\<rparr>)
      else s)"
  by pat_completeness auto
termination
proof (relation "measure (\<lambda>s. unat (t_filled s) - unat (t_used s))", goal_cases)
  case 1
  show ?case by simp
next
  case (2 s "end" count bytes r s1 now s2)
  have e: "t_used s \<le> end" "end < t_filled s"
    using find_end_bounds [of "t_used s" s] 2(1,2,3) by (auto simp: order_less_imp_le intro: order_neq_le_trans)
  have "rx_part s1 = rx_part s" using take_msg_rx_part [OF 2(6) [symmetric]] .
  then have "t_filled s2 = t_filled s" "t_used s2 = end + 1"
    using 2(8) by (auto simp: now_ns_def rx_part_def)
  then show ?case using e by (simp add: word_less_nat_alt word_le_nat_alt unat_Suc_lt [OF e(2)])
qed

declare drain_loop.simps [simp del]

definition drain :: "'b link \<Rightarrow> bool \<Rightarrow> 'b link" where
  "drain s wanted = repost (drain_loop s) wanted"


text \<open>Decimal digits, as \<open>printf\<close> writes them.\<close>

fun dec :: "nat \<Rightarrow> string" where
  "dec n = (if n < 10 then [char_of (48 + n)] else dec (n div 10) @ [char_of (48 + n mod 10)])"

declare dec.simps [simp del]

fun status_code :: "wc_status \<Rightarrow> nat" where
  "status_code WC_SUCCESS = 0"
| "status_code WC_LOC_LEN_ERR = 1"
| "status_code (WC_OTHER n) = n"

definition complete :: "'b link \<Rightarrow> wc \<Rightarrow> u64 \<Rightarrow> 'b link" where
  "complete s wc now =
     (let kind = drop_bit 56 (wc_id wc);
          index = wc_id wc AND (2 ^ 56 - 1);
          i = unat index
      in if kind = T_RECV \<and> index = t_filled s mod ucast (t_slots s) \<and> t_filled s < t_posted s \<and>
            ((wc_status wc = WC_SUCCESS \<and> 1 \<le> wc_len wc \<and> wc_len wc \<le> TB_PACKET) \<or>
             (wc_status wc = WC_LOC_LEN_ERR \<and> wc_len wc = TB_PACKET))
         then s\<lparr>t_rx_len := (t_rx_len s)(i := ucast (wc_len wc)),
                t_rx_last := (t_rx_last s)(i := (wc_status wc = WC_SUCCESS)),
                t_filled := t_filled s + 1\<rparr>
         else if kind = T_SEND \<and> wc_status wc = WC_SUCCESS \<and> index = t_tx_done s mod TB_SEND_WR \<and>
            t_tx_done s < t_tx_posted s
         then
           let s1 = s\<lparr>t_packets := t_packets s - ucast (t_tx_packets s i),
                      t_unstaged := t_unstaged s + ucast (t_tx_staged s i),
                      t_completed_bytes := t_completed_bytes s + ucast (t_tx_bytes s i),
                      t_completed_payload := t_completed_payload s + ucast (t_tx_payload s i)\<rparr>;
               s2 = measure_rate s1 i now
           in s2\<lparr>t_tx_done := t_tx_done s2 + 1\<rparr>
         else poison (''an unexpected completion (status '' @ dec (status_code (wc_status wc)) @ '', '' @
                dec (unat (wc_len wc)) @ '' bytes)'') s)"

fun complete_all :: "'b link \<Rightarrow> wc list \<Rightarrow> u64 \<Rightarrow> 'b link" where
  "complete_all s [] now = s"
| "complete_all s (wc # wcs) now = (if t_poisoned s then s else complete_all (complete s wc now) wcs now)"

text \<open>One \<open>ibv_poll_cq\<close> for at most 32 completions; the device has written the ring before.\<close>

definition poll_cq :: "'b link \<Rightarrow> wc list option \<times> 'b link" where
  "poll_cq s = (case w_poll s (w_npoll s) of (r, dma) \<Rightarrow>
     (map_option (take 32) r, s\<lparr>w_npoll := Suc (w_npoll s), t_ring := dma (t_ring s)\<rparr>))"

text \<open>\<open>rounds\<close> is the number of polls left of the eight.\<close>

fun poll_loop :: "nat \<Rightarrow> 'b link \<Rightarrow> int \<Rightarrow> int \<times> 'b link" where
  "poll_loop 0 s handled = (handled, s)"
| "poll_loop (Suc rounds) s handled =
     (if t_poisoned s then (handled, s)
      else case poll_cq s of
        (None, s1) \<Rightarrow> (handled, poison ''polling the completion queue failed'' s1)
      | (Some wcs, s1) \<Rightarrow>
          let (now, s2) = (if wcs \<noteq> [] \<and> t_tx_posted s1 \<noteq> t_tx_done s1 then now_ns s1 else (0, s1));
              s3 = complete_all s2 wcs now;
              handled' = handled + int (length wcs)
          in if length wcs < 32 then (handled', s3) else poll_loop rounds s3 handled')"

definition tb_progress_some :: "'b link \<Rightarrow> bool \<Rightarrow> int \<times> 'b link" where
  "tb_progress_some s wanted =
     (if \<not> l_tb s then (-1, s)
      else case poll_loop 8 s 0 of (handled, s1) \<Rightarrow>
        let s2 = (if \<not> t_poisoned s1 then drain s1 wanted else s1)
        in (if t_poisoned s2 then -1 else handled, s2))"

definition tb_progress :: "'b link \<Rightarrow> int \<times> 'b link" where
  "tb_progress s = tb_progress_some s False"

definition tb_busy :: "'b link \<Rightarrow> bool" where
  "tb_busy s \<longleftrightarrow> l_tb s \<and> (t_tx_posted s \<noteq> t_tx_done s \<or> t_used s \<noteq> t_filled s \<or> t_want_len s \<noteq> 0)"

end
