(* ===== verification/Link_Tb_Send.thy ===== *)
theory Link_Tb_Send
  imports Link_Tb
begin

section \<open>The Thunderbolt link: setup and sending operations (rpc/link\_tb.c)\<close>

text \<open>
  Setting a link up, and every operation that sends: writes, signals, fences and the messages of a
  bond. An operation that waits for room runs \<open>tb_progress\<close> in a loop; such a loop takes fuel,
  one unit a pass, and None is a loop that has not returned yet. A pointer the code tests for NULL
  is an option.
\<close>

subsection \<open>Setting up\<close>

definition tb_destroy :: "'b link \<Rightarrow> 'b link" where
  "tb_destroy s = s\<lparr>l_tb := False\<rparr>"

definition fresh_tb :: "'b link \<Rightarrow> 'b link" where
  "fresh_tb s = s\<lparr>l_tb := True, t_ring := (\<lambda>_. 0), t_slots := 0, t_depth := 0, t_peer_slots := 0, t_tx_seq := 0,
     t_packets := 0, t_fences := 0, t_fence_acked := 0, t_tx_posted := 0, t_tx_done := 0, t_staged := 0,
     t_unstaged := 0, t_tx_packets := (\<lambda>_. 0), t_tx_staged := (\<lambda>_. 0), t_tx_bytes := (\<lambda>_. 0),
     t_tx_payload := (\<lambda>_. 0), t_sent_bytes := 0, t_completed_bytes := 0, t_writes_posted := 0,
     t_writes_placed := 0, t_sent_payload := 0, t_completed_payload := 0, t_tx_ns := (\<lambda>_. 0), t_done_ns := 0,
     t_rate := 0, t_bond := no_bond, t_stalled := 0, t_taken_ns := 0, t_filled := 0, t_used := 0, t_posted := 0,
     t_rx_len := (\<lambda>_. 0), t_rx_last := (\<lambda>_. False), t_rx_seq := 0, t_want_len := 0, t_want_off := 0,
     t_rx := None, t_lo := 0, t_hi := 0, t_poisoned := False, t_why := [], t_watch := False,
     w_sends := [], w_recvs := []\<rparr>"

fun init_recvs :: "nat \<Rightarrow> 'b link \<Rightarrow> int \<times> 'b link" where
  "init_recvs 0 s = (0, s)"
| "init_recvs (Suc k) s =
     (case post_recv s (t_posted s) of (r, s1) \<Rightarrow>
        if r \<noteq> 0 then (-1, tb_destroy s1) else init_recvs k (s1\<lparr>t_posted := t_posted s1 + 1\<rparr>))"

text \<open>
  \<open>ok\<close> says that the registration and the queues were granted, with these depths. The queue
  pair is new, so no request is posted on it yet.
\<close>

definition tb_init :: "'b link \<Rightarrow> bool \<Rightarrow> bool \<Rightarrow> u32 \<Rightarrow> u32 \<Rightarrow> u32 \<Rightarrow> int \<times> 'b link" where
  "tb_init s alloc ok lkey max_send_wr max_recv_wr =
     (if \<not> alloc then (-1, s)
      else
        let s1 = (fresh_tb s)\<lparr>t_ring_lkey := lkey, t_depth := (if ok then max_send_wr else 0),
               t_slots := (if ok then (if max_recv_wr < TB_RING then max_recv_wr else TB_RING) else 0)\<rparr>
        in if \<not> ok \<or> t_depth s1 < 4 \<or> t_slots s1 < 4 then (-1, tb_destroy s1)
           else init_recvs (unat (t_slots s1)) s1)"

definition tb_connect :: "'b link \<Rightarrow> xinfo \<Rightarrow> bool \<Rightarrow> bool \<Rightarrow> int \<times> 'b link" where
  "tb_connect s peer rtr rts =
     (if \<not> l_tb s \<or> xi_frames peer < 4 \<or> \<not> rtr \<or> \<not> rts then (-1, s)
      else (0, s\<lparr>t_peer_slots := xi_frames peer\<rparr>))"

definition tb_info :: "'b link \<Rightarrow> u32" where
  "tb_info s = (if l_tb s then t_slots s else 0)"

subsection \<open>Waiting for room\<close>

text \<open>\<open>if (f()) return -1;\<close> and what follows.\<close>

definition and_then ::
    "(int \<times> 's) option \<Rightarrow> ('s \<Rightarrow> (int \<times> 's) option) \<Rightarrow> (int \<times> 's) option" where
  "and_then x k = (case x of None \<Rightarrow> None | Some (r, s) \<Rightarrow> if r \<noteq> 0 then Some (-1, s) else k s)"

text \<open>
  The wait the three waiting operations share: while the condition does not hold, make progress,
  give up at the deadline with \<open>why\<close> as the link's failure, and ask every millisecond whether the
  peer has gone.
\<close>

fun wait_loop :: "nat \<Rightarrow> ('b link \<Rightarrow> bool) \<Rightarrow> string \<Rightarrow> u64 \<Rightarrow> u64 \<Rightarrow> 'b link \<Rightarrow> (int \<times> 'b link) option" where
  "wait_loop 0 done why deadline nxt s = None"
| "wait_loop (Suc fuel) done why deadline nxt s =
     (if done s then Some (0, s)
      else case tb_progress s of (r, s1) \<Rightarrow>
        if r < 0 then Some (-1, s1)
        else case now_ns s1 of (now, s2) \<Rightarrow>
          if deadline < now then Some (-1, poison why s2)
          else case gone s2 now nxt of (g, nxt', s3) \<Rightarrow>
            if g then Some (-1, s3) else wait_loop fuel done why deadline nxt' s3)"

definition room :: "nat \<Rightarrow> 'b link \<Rightarrow> u32 \<Rightarrow> u32 \<Rightarrow> u64 \<Rightarrow> (int \<times> 'b link) option" where
  "room fuel s n sends deadline =
     and_then (wait_loop fuel (\<lambda>s. has_room s n sends False)
         ''no room to send within the timeout: the peer stopped taking messages'' deadline 0 s)
       (\<lambda>s. Some (if t_poisoned s then -1 else 0, s))"

definition tb_message_max :: "'b link \<Rightarrow> u64" where
  "tb_message_max s = (if l_tb s then msg_max s else 0)"

definition tb_write_limit :: "'b link \<Rightarrow> u64" where
  "tb_write_limit s =
     (let mx = (if l_tb s then msg_max s else 0) in if mx < TB_TRY_MAX then mx else TB_TRY_MAX)"

subsection \<open>Writes and signals\<close>

definition post_window_send :: "'b link \<Rightarrow> region \<Rightarrow> u64 \<Rightarrow> u64 \<Rightarrow> int \<times> 'b link" where
  "post_window_send s src off tk =
     post_send s (InWin (unat off)) (ucast tk) (region_lkey src off) False (ucast tk)"

text \<open>One piece of a write: inline in its header, or a header and then the bytes.\<close>

definition send_piece :: "'b link \<Rightarrow> region \<Rightarrow> u64 \<Rightarrow> u64 \<Rightarrow> u64 \<Rightarrow> (int \<times> 'b link) option" where
  "send_piece s src off roff tk =
     (if tk \<le> INLINE_MAX
      then Some (send_head s C_INLINE roff (ucast tk) 0 (Some (mem_read (w_win s) (unat off) (unat tk))))
      else and_then (Some (send_head s C_WRITE roff (ucast tk) 0 None))
             (\<lambda>s1. Some (post_window_send s1 src off tk)))"

definition piece_room :: "nat \<Rightarrow> 'b link \<Rightarrow> u64 \<Rightarrow> u64 \<Rightarrow> (int \<times> 'b link) option" where
  "piece_room fuel s tk deadline =
     (if tk \<le> INLINE_MAX then room fuel s 1 1 deadline else room fuel s (1 + packets tk) 2 deadline)"

fun write_loop :: "nat \<Rightarrow> 'b link \<Rightarrow> region \<Rightarrow> u64 \<Rightarrow> u64 \<Rightarrow> u64 \<Rightarrow> u64 \<Rightarrow> u64 \<Rightarrow> (int \<times> 'b link) option" where
  "write_loop 0 s src off roff len mx deadline = None"
| "write_loop (Suc fuel) s src off roff len mx deadline =
     (if len = 0 then Some (0, s)
      else
        let take = take_in mx (r_seg src) off len
        in and_then (and_then (piece_room fuel s take deadline) (\<lambda>s1. send_piece s1 src off roff take))
             (\<lambda>s2. write_loop fuel (s2\<lparr>t_writes_posted := t_writes_posted s2 + 1\<rparr>) src (off + take) (roff + take)
                      (len - take) mx deadline))"

definition tb_write :: "nat \<Rightarrow> 'b link \<Rightarrow> region \<Rightarrow> u64 \<Rightarrow> u64 \<Rightarrow> u64 \<Rightarrow> u64 \<Rightarrow> (int \<times> 'b link) option" where
  "tb_write fuel s src off roff len timeout =
     (case now_ns s of (now, s1) \<Rightarrow>
        if r_length src < off \<or> r_length src - off < len then Some (-1, s1)
        else write_loop fuel s1 src off roff len (msg_max s1) (now + timeout))"

definition tb_signal :: "nat \<Rightarrow> 'b link \<Rightarrow> u64 \<Rightarrow> u64 \<Rightarrow> u64 \<Rightarrow> (int \<times> 'b link) option" where
  "tb_signal fuel s roff value timeout =
     (case now_ns s of (now, s1) \<Rightarrow>
        and_then (room fuel s1 1 1 (now + timeout)) (\<lambda>s2. Some (send_head s2 C_SIGNAL roff 8 value None)))"

definition wrote :: "'b link \<Rightarrow> 'b link" where
  "wrote s = s\<lparr>t_writes_posted := t_writes_posted s + 1\<rparr>"

text \<open>
  A message sent from the window as one piece: its head is stored in the bytes just before \<open>off\<close>,
  and head and bytes are posted together.
\<close>

definition post_headed :: "'b link \<Rightarrow> region \<Rightarrow> u64 \<Rightarrow> u8 list \<Rightarrow> u64 \<Rightarrow> int \<times> 'b link" where
  "post_headed s src off bs len =
     (let size = of_nat (length bs); at = off - size; s1 = store_win s at bs
      in case post_send s1 (InWin (unat at)) (ucast (size + len)) (region_lkey src at) False (ucast len) of
           (r, s2) \<Rightarrow> if r \<noteq> 0 then (-1, s2) else (0, wrote (s2\<lparr>t_tx_seq := t_tx_seq s2 + 1\<rparr>)))"

text \<open>The 48 bytes before a write-and-signal message's bytes.\<close>

definition ws_head :: "'b link \<Rightarrow> u64 \<Rightarrow> u64 \<Rightarrow> u64 \<Rightarrow> u64 \<Rightarrow> u8 list" where
  "ws_head s roff len soff value =
     put_head \<lparr>h_magic = MAGIC, h_seq = t_tx_seq s, h_kind = C_WRITE_SIGNAL, h_pad = 0, h_len = ucast len,
               h_off = roff, h_value = value\<rparr> @ put_le 8 soff @ replicate 8 0"

definition tb_write_signal ::
    "nat \<Rightarrow> 'b link \<Rightarrow> region \<Rightarrow> u64 \<Rightarrow> u64 \<Rightarrow> u64 \<Rightarrow> u64 \<Rightarrow> u64 \<Rightarrow> u64 \<Rightarrow> (int \<times> 'b link) option" where
  "tb_write_signal fuel s src off roff len soff value timeout =
     (if off < WS_HEAD \<or> r_length src < off \<or> r_length src - off < len \<or> len = 0 then Some (-1, s)
      else if msg_max s < len + WS_HEAD \<or> (off - WS_HEAD) div r_seg src \<noteq> (off + len - 1) div r_seg src
      then and_then (tb_write fuel s src off roff len timeout) (\<lambda>s1.
             and_then (tb_signal fuel s1 soff value timeout) (\<lambda>s2. Some (0, s2)))
      else case now_ns s of (now, s1) \<Rightarrow>
        and_then (room fuel s1 (packets (WS_HEAD + len)) 1 (now + timeout)) (\<lambda>s2.
          Some (post_headed s2 src off (ws_head s2 roff len soff value) len)))"

subsection \<open>Writes that never wait\<close>

text \<open>The counting loop of \<open>tb_can_write\<close>: it stops at the latest when 64 headers are counted.\<close>

function can_loop ::
    "'b link \<Rightarrow> u64 \<Rightarrow> u64 \<Rightarrow> u64 \<Rightarrow> u64 \<Rightarrow> u32 \<Rightarrow> u32 \<Rightarrow> u32 \<Rightarrow> (u32 \<times> u32 \<times> u32) option" where
  "can_loop s seg mx off len n sends stages =
     (if len = 0 then Some (n, sends, stages)
      else
        let take = take_in mx seg off len;
            n' = n + (if take \<le> INLINE_MAX then 1 else 1 + packets take);
            sends' = sends + (if take \<le> INLINE_MAX then 1 else 2);
            stages' = stages + 1
        in if t_depth s \<le> n' \<or> TB_SEND_WR \<le> sends' \<or> TB_STAGE \<le> stages' then None
           else can_loop s seg mx (off + take) (len - take) n' sends' stages')"
  by pat_completeness auto
termination
proof (relation "measure (\<lambda>(s, seg, mx, off, len, n, sends, stages). unat (63 - stages))", goal_cases)
  case 1
  show ?case by simp
next
  case (2 s seg mx off len n sends stages take n' sends' stages')
  then have "stages \<noteq> 63" by auto
  then have nz: "0 < unat (63 - stages)" by (simp add: unat_gt_0)
  have "unat (63 - stages - 1) = unat (63 - stages) - 1"
    using nz by (subst unat_sub_le) (simp_all add: word_le_nat_alt)
  moreover have "63 - stages' = 63 - stages - 1" using 2 by simp
  ultimately have "unat (63 - stages') = unat (63 - stages) - 1" by (simp only:)
  then show ?case using nz by simp
qed

declare can_loop.simps [simp del]

definition tb_can_write :: "'b link \<Rightarrow> region option \<Rightarrow> u64 \<Rightarrow> u64 \<Rightarrow> int" where
  "tb_can_write s src off len =
     (case src of None \<Rightarrow> -1 | Some src \<Rightarrow>
        if \<not> l_tb s \<or> t_poisoned s \<or> r_seg src = 0 \<or> r_length src < off \<or> r_length src - off < len \<or> TB_TRY_MAX < len
        then -1
        else if msg_max s = 0 then -1
        else (case can_loop s (r_seg src) (msg_max s) off len 0 0 0 of
          None \<Rightarrow> 0
        | Some (n, sends, stages) \<Rightarrow>
            if t_packets s + n + 1 \<le> t_depth s \<and>
               t_tx_posted s - t_tx_done s + ucast sends + 1 \<le> TB_SEND_WR \<and>
               t_staged s - t_unstaged s + ucast stages + 1 \<le> TB_STAGE then 1 else 0))"

fun try_loop :: "nat \<Rightarrow> 'b link \<Rightarrow> region \<Rightarrow> u64 \<Rightarrow> u64 \<Rightarrow> u64 \<Rightarrow> u64 \<Rightarrow> (int \<times> 'b link) option" where
  "try_loop 0 s src off roff len mx = None"
| "try_loop (Suc fuel) s src off roff len mx =
     (if len = 0 then Some (0, s)
      else
        let take = take_in mx (r_seg src) off len
        in and_then (send_piece s src off roff take)
             (\<lambda>s1. try_loop fuel (s1\<lparr>t_writes_posted := t_writes_posted s1 + 1\<rparr>) src (off + take) (roff + take)
                      (len - take) mx))"

definition tb_write_try :: "nat \<Rightarrow> 'b link \<Rightarrow> region option \<Rightarrow> u64 \<Rightarrow> u64 \<Rightarrow> u64 \<Rightarrow> (int \<times> 'b link) option" where
  "tb_write_try fuel s src off roff len =
     (if - 1 - roff < len then Some (-1, s)
      else let can = tb_can_write s src off len
        in if can \<le> 0 then Some (if can < 0 then -1 else 1, s)
           else try_loop fuel s (the src) off roff len (msg_max s))"

subsection \<open>Messages of a bond\<close>

text \<open>A header message written into the next staging slot and posted; then its counters.\<close>

definition post_slot :: "'b link \<Rightarrow> u8 list \<Rightarrow> u32 \<Rightarrow> int \<times> 'b link" where
  "post_slot s bs payload =
     (let slot = stage_slot s; s1 = s\<lparr>t_ring := mem_write (t_ring s) slot bs\<rparr>
      in post_send s1 (InRing slot) (of_nat (length bs)) (t_ring_lkey s1) True payload)"

definition staged_sent :: "'b link \<Rightarrow> 'b link" where
  "staged_sent s = s\<lparr>t_tx_seq := t_tx_seq s + 1, t_staged := t_staged s + 1\<rparr>"

definition low_words :: "u64 list \<Rightarrow> u32 list" where
  "low_words = map ucast"

fun bond_write_loop ::
    "nat \<Rightarrow> 'b link \<Rightarrow> region \<Rightarrow> u64 \<Rightarrow> u64 \<Rightarrow> u64 \<Rightarrow> u64 \<Rightarrow> u64 list \<Rightarrow> u32 \<Rightarrow> u32 \<Rightarrow> u64 \<Rightarrow> u64 \<Rightarrow>
     (int \<times> 'b link) option" where
  "bond_write_loop 0 s src off roff len seq wait links flags mx deadline = None"
| "bond_write_loop (Suc fuel) s src off roff len seq wait links flags mx deadline =
     (if len = 0 then Some (0, s)
      else
        let take = take_in mx (r_seg src) off len
        in and_then (room fuel s (1 + packets take) 2 deadline) (\<lambda>s1.
             let h = \<lparr>h_magic = MAGIC, h_seq = t_tx_seq s1, h_kind = C_BOND_WRITE_N,
                      h_pad = ucast (push_bit 8 links OR flags), h_len = ucast take, h_off = roff, h_value = seq\<rparr>
             in and_then (Some (post_slot s1 (put_head h @ put_words (low_words (List.take (unat links) wait))) 0))
                  (\<lambda>s2. and_then (Some (post_window_send s2 src off take))
                  (\<lambda>s3. bond_write_loop fuel (wrote (staged_sent s3)) src (off + take) (roff + take) (len - take)
                           seq wait links flags mx deadline))))"

definition tb_bond_write_n ::
    "nat \<Rightarrow> 'b link \<Rightarrow> region option \<Rightarrow> u64 \<Rightarrow> u64 \<Rightarrow> u64 \<Rightarrow> u64 \<Rightarrow> u64 list option \<Rightarrow> u32 \<Rightarrow> u32 \<Rightarrow> u64 \<Rightarrow>
     (int \<times> 'b link) option" where
  "tb_bond_write_n fuel s src off roff len seq wait links flags timeout =
     (case (src, wait) of
        (Some src, Some wait) \<Rightarrow>
          if \<not> l_tb s \<or> seq = 0 \<or> links < 2 \<or> TB_BOND_MAX < links \<or> flags AND NOT BOND_WAIT_SIGNALS \<noteq> 0 \<or>
             r_length src < off \<or> r_length src - off < len \<or> - 1 - roff < len then Some (-1, s)
          else (case now_ns s of (now, s1) \<Rightarrow>
            if msg_max s1 = 0 then Some (-1, s1)
            else bond_write_loop fuel s1 src off roff len seq wait links flags (msg_max s1) (now + timeout))
      | _ \<Rightarrow> Some (-1, s))"

definition tb_can_bond_signal :: "'b link \<Rightarrow> int" where
  "tb_can_bond_signal s =
     (if \<not> l_tb s \<or> t_poisoned s \<or> t_peer_slots s = 0 then -1 else if has_room s 1 1 False then 1 else 0)"

definition tb_bond_signal ::
    "nat \<Rightarrow> 'b link \<Rightarrow> u64 \<Rightarrow> u64 \<Rightarrow> u64 \<Rightarrow> u64 list option \<Rightarrow> u64 \<Rightarrow> (int \<times> 'b link) option" where
  "tb_bond_signal fuel s soff value seq need timeout =
     (case need of None \<Rightarrow> Some (-1, s) | Some need \<Rightarrow>
        if \<not> l_tb s \<or> seq = 0 \<or> soff mod 8 \<noteq> 0 \<or> - 1 - 8 < soff then Some (-1, s)
        else case now_ns s of (now, s1) \<Rightarrow>
          and_then (room fuel s1 1 1 (now + timeout)) (\<lambda>s2.
            let h = \<lparr>h_magic = MAGIC, h_seq = t_tx_seq s2, h_kind = C_BOND_SIGNAL, h_pad = 0, h_len = 8,
                     h_off = soff, h_value = value\<rparr>
            in and_then (Some (post_slot s2 (put_head h @ put_le 8 seq @ put_words (low_words (take 2 need))) 0))
                 (\<lambda>s3. Some (0, staged_sent s3))))"

definition tb_bond_signal_n ::
    "nat \<Rightarrow> 'b link \<Rightarrow> u64 \<Rightarrow> u64 \<Rightarrow> u64 \<Rightarrow> u64 list option \<Rightarrow> u32 \<Rightarrow> u64 \<Rightarrow> (int \<times> 'b link) option" where
  "tb_bond_signal_n fuel s soff value seq need links timeout =
     (case need of None \<Rightarrow> Some (-1, s) | Some need \<Rightarrow>
        if \<not> l_tb s \<or> seq = 0 \<or> links < 2 \<or> TB_BOND_MAX < links \<or> soff mod 8 \<noteq> 0 \<or> - 1 - 8 < soff then Some (-1, s)
        else case now_ns s of (now, s1) \<Rightarrow>
          and_then (room fuel s1 1 1 (now + timeout)) (\<lambda>s2.
            let h = \<lparr>h_magic = MAGIC, h_seq = t_tx_seq s2, h_kind = C_BOND_SIGNAL_N, h_pad = ucast links, h_len = 8,
                     h_off = soff, h_value = value\<rparr>
            in and_then (Some (post_slot s2
                   (put_head h @ put_le 8 seq @ put_words (low_words (take (unat links) need))) 0))
                 (\<lambda>s3. Some (0, staged_sent s3))))"

definition tb_bond_inline_n ::
    "nat \<Rightarrow> 'b link \<Rightarrow> region option \<Rightarrow> u64 \<Rightarrow> u64 \<Rightarrow> u64 \<Rightarrow> u64 \<Rightarrow> u64 \<Rightarrow> u64 \<Rightarrow> u64 list option \<Rightarrow>
     u64 list option \<Rightarrow> u32 \<Rightarrow> u32 \<Rightarrow> u64 \<Rightarrow> (int \<times> 'b link) option" where
  "tb_bond_inline_n fuel s src off roff len soff value seq need wait links flags timeout =
     (case (src, need, wait) of
        (Some src, Some need, Some wait) \<Rightarrow>
          let size = HEAD + 16 + links * 8
          in if \<not> l_tb s \<or> seq = 0 \<or> links < 2 \<or> TB_BOND_MAX < links \<or> flags AND NOT BOND_WAIT_SIGNALS \<noteq> 0 \<or>
                len = 0 \<or> ucast (TB_PACKET - size) < len \<or> soff mod 8 \<noteq> 0 \<or> r_length src < off \<or>
                r_length src - off < len \<or> - 1 - roff < len then Some (-1, s)
             else (case now_ns s of (now, s1) \<Rightarrow>
               and_then (room fuel s1 1 1 (now + timeout)) (\<lambda>s2.
                 let h = \<lparr>h_magic = MAGIC, h_seq = t_tx_seq s2, h_kind = C_BOND_INLINE_N,
                          h_pad = ucast (push_bit 8 links OR flags), h_len = ucast len, h_off = roff, h_value = value\<rparr>
                 in and_then (Some (post_slot s2
                        (put_head h @ put_le 8 soff @ put_le 8 seq @
                         put_words (low_words (take (unat links) need)) @
                         put_words (low_words (take (unat links) wait)) @
                         mem_read (w_win s2) (unat off) (unat len)) (ucast len)))
                      (\<lambda>s3. Some (0, wrote (staged_sent s3)))))
      | _ \<Rightarrow> Some (-1, s))"

definition tb_can_bond_write_signal :: "'b link \<Rightarrow> region option \<Rightarrow> u64 \<Rightarrow> u64 \<Rightarrow> int" where
  "tb_can_bond_write_signal s src off len =
     (case src of None \<Rightarrow> -1 | Some src \<Rightarrow>
        if \<not> l_tb s \<or> t_poisoned s \<or> r_seg src = 0 \<or> r_length src < off \<or> len = 0 \<or> r_length src - off < len \<or>
           msg_max s = 0 then -1
        else if off < BOND_WS_HEAD \<or> msg_max s < len \<or> msg_max s - len < BOND_WS_HEAD \<or>
           (off - BOND_WS_HEAD) div r_seg src \<noteq> (off + len - 1) div r_seg src then 2
        else if t_packets s + packets (BOND_WS_HEAD + len) + 1 \<le> t_depth s \<and>
           t_tx_posted s - t_tx_done s + 2 \<le> TB_SEND_WR \<and> t_staged s - t_unstaged s + 1 \<le> TB_STAGE then 1 else 0)"

text \<open>The 64 bytes before a joined write's part.\<close>

definition bond_ws_head ::
    "'b link \<Rightarrow> u64 \<Rightarrow> u64 \<Rightarrow> u64 \<Rightarrow> u64 \<Rightarrow> u64 \<Rightarrow> u64 list \<Rightarrow> u32 \<Rightarrow> u32 \<Rightarrow> u64 \<Rightarrow> u8 list" where
  "bond_ws_head s roff len soff value seq need tail flags wait =
     put_head \<lparr>h_magic = MAGIC, h_seq = t_tx_seq s, h_kind = C_BOND_WRITE_SIGNAL, h_pad = ucast flags,
               h_len = ucast len, h_off = roff, h_value = value\<rparr> @
     put_le 8 soff @ put_le 8 seq @ put_words (low_words (take 2 need)) @ put_le 4 tail @ put_le 4 (ucast wait :: u32)"

text \<open>
  \<open>tb_bond_write_signal\<close> waits like the others, but fails when the room check itself does:
  the wait's condition is that the check no longer answers 0.
\<close>

definition tb_bond_write_signal ::
    "nat \<Rightarrow> 'b link \<Rightarrow> region option \<Rightarrow> u64 \<Rightarrow> u64 \<Rightarrow> u64 \<Rightarrow> u64 \<Rightarrow> u64 \<Rightarrow> u64 \<Rightarrow> u64 list option \<Rightarrow> u32 \<Rightarrow>
     u32 \<Rightarrow> u64 \<Rightarrow> u64 \<Rightarrow> (int \<times> 'b link) option" where
  "tb_bond_write_signal fuel s src off roff len soff value seq need tail flags wait timeout =
     (case (src, need) of
        (Some reg, Some need) \<Rightarrow>
          if \<not> l_tb s \<or> t_poisoned s \<or> r_seg reg = 0 \<or> seq = 0 \<or> soff mod 8 \<noteq> 0 \<or> - 1 - 8 < soff \<or>
             r_length reg < off \<or> len = 0 \<or> r_length reg - off < len \<or> - 1 - roff < len \<or>
             - 1 - roff - len < ucast tail \<or> flags AND NOT (BOND_WAIT_LINK OR BOND_WAIT_SIGNALS) \<noteq> 0
          then Some (-1, s)
          else let can = tb_can_bond_write_signal s src off len
            in if can < 0 then Some (-1, s)
               else if can = 2 then Some (1, s)
               else (case now_ns s of (now, s1) \<Rightarrow>
                 and_then (wait_loop fuel (\<lambda>s. tb_can_bond_write_signal s src off len \<noteq> 0)
                     ''no room for a bonded write-and-signal within the timeout'' (now + timeout) 0 s1) (\<lambda>s2.
                   if tb_can_bond_write_signal s2 src off len < 0 then Some (-1, s2)
                   else
                     Some (post_headed s2 reg off
                       (bond_ws_head s2 roff len soff value seq need tail flags wait) len)))
      | _ \<Rightarrow> Some (-1, s))"

definition tb_tail_clean :: "'b link \<Rightarrow> region option \<Rightarrow> u64 \<Rightarrow> bool" where
  "tb_tail_clean s src off =
     (case src of None \<Rightarrow> True | Some src \<Rightarrow>
        r_length src < off \<or> r_length src - off < 4 \<or> mem_read (w_win s) (unat off) 4 \<noteq> put_le 4 (MAGIC :: u32))"

definition tb_can_bond_tail :: "'b link \<Rightarrow> region option \<Rightarrow> u64 \<Rightarrow> u64 \<Rightarrow> int" where
  "tb_can_bond_tail s src off len =
     (case src of None \<Rightarrow> -1 | Some reg \<Rightarrow>
        if \<not> l_tb s \<or> t_poisoned s \<or> r_seg reg = 0 \<or> r_length reg < off \<or> len = 0 \<or> r_length reg - off < len \<or>
           msg_max s = 0 then -1
        else if msg_max s < len \<or> off div r_seg reg \<noteq> (off + len - 1) div r_seg reg \<or> \<not> tb_tail_clean s src off
        then 2
        else if t_packets s + packets len + 1 \<le> t_depth s \<and> t_tx_posted s - t_tx_done s + 2 \<le> TB_SEND_WR \<and>
           t_staged s - t_unstaged s + 1 \<le> TB_STAGE then 1 else 0)"

definition tb_bond_tail :: "'b link \<Rightarrow> region option \<Rightarrow> u64 \<Rightarrow> u64 \<Rightarrow> int \<times> 'b link" where
  "tb_bond_tail s src off len =
     (let can = tb_can_bond_tail s src off len
      in if can \<noteq> 1 then (if can < 0 then -1 else if can \<noteq> 0 then 2 else 1, s)
         else case post_window_send s (the src) off len of (r, s1) \<Rightarrow>
           if r \<noteq> 0 then (-1, s1) else (0, wrote (s1\<lparr>t_tx_seq := t_tx_seq s1 + 1\<rparr>)))"

subsection \<open>Fences\<close>

definition tb_fence :: "nat \<Rightarrow> 'b link \<Rightarrow> u64 \<Rightarrow> (int \<times> 'b link) option" where
  "tb_fence fuel s timeout =
     (case now_ns s of (now, s1) \<Rightarrow>
        let mine = t_fences s1 + 1; s2 = s1\<lparr>t_fences := mine\<rparr>
        in and_then (room fuel s2 1 1 (now + timeout)) (\<lambda>s3.
             and_then (Some (send_head s3 C_FENCE 0 0 (ucast mine) None)) (\<lambda>s4.
               wait_loop fuel (\<lambda>s. \<not> sint (t_fence_acked s - mine) < 0)
                 ''the peer did not acknowledge a fence within the timeout'' (now + timeout) 0 s4)))"

end
