(* ===== verification/Link_Tb_Flow.thy ===== *)
theory Link_Tb_Flow
  imports Link_Tb_Send "HOL-Library.Sublist"
begin

section \<open>Flow control of the Thunderbolt link\<close>

text \<open>
  The counters a link keeps of its sends (packets, requests, staging slots in flight) are compared
  with the requests the queue pair accepted. The invariant \<open>flow_inv\<close> says that they agree, that
  nothing exceeds what the queue pair and the staging ring hold, and that a staging slot keeps its
  message until the send from it completes. Every operation preserves it, whatever the device
  reports and whatever the peer sends.
\<close>

subsection \<open>The invariant\<close>

definition npk :: "send \<Rightarrow> nat" where
  "npk sd = (length (sd_bytes sd) + 4095) div 4096"

definition nst :: "send list \<Rightarrow> nat" where
  "nst sds = length (filter sd_staged sds)"

definition slot_of :: "nat \<Rightarrow> nat" where
  "slot_of k = (TB_RING + k mod TB_STAGE) * TB_PACKET"

text \<open>What the arrays hold for request \<open>i\<close>, and, when it was staged, where its message still is.\<close>

definition entry_ok :: "'b link \<Rightarrow> nat \<Rightarrow> bool" where
  "entry_ok s i \<longleftrightarrow>
     (let sd = w_sends s ! i; j = i mod TB_SEND_WR in
      unat (t_tx_packets s j) = npk sd \<and>
      unat (t_tx_staged s j) = (if sd_staged sd then 1 else 0) \<and>
      unat (t_tx_bytes s j) = length (sd_bytes sd) \<and>
      t_tx_payload s j = sd_payload sd \<and>
      sd_id sd = TAG T_SEND (of_nat j) \<and>
      (sd_staged sd \<longrightarrow>
         sd_src sd = InRing (slot_of (nst (take i (w_sends s)))) \<and> length (sd_bytes sd) \<le> TB_PACKET \<and>
         mem_read (t_ring s) (slot_of (nst (take i (w_sends s)))) (length (sd_bytes sd)) = sd_bytes sd))"

definition flow_inv :: "'b link \<Rightarrow> bool" where
  "flow_inv s \<longleftrightarrow>
     (let S = w_sends s; D = unat (t_tx_done s) in
      unat (t_tx_posted s) = length S \<and> D \<le> length S \<and> length S - D \<le> TB_SEND_WR \<and>
      unat (t_packets s) = sum_list (map npk (drop D S)) \<and>
      unat (t_packets s) \<le> unat (t_depth s) \<and> unat (t_depth s) \<le> 2 ^ 30 \<and>
      unat (t_staged s) = nst S \<and> unat (t_unstaged s) = nst (take D S) \<and>
      nst (drop D S) \<le> TB_STAGE \<and>
      (\<forall>i. D \<le> i \<and> i < length S \<longrightarrow> entry_ok s i))"

text \<open>
  A failed link keeps no invariant but its failure, and the counters are compared with the log of
  sends while that is shorter than 2\^{}64.
\<close>

definition flow_ok :: "'b link \<Rightarrow> bool" where
  "flow_ok s \<longleftrightarrow> (\<not> t_poisoned s \<and> length (w_sends s) < 2 ^ 64 \<longrightarrow> flow_inv s)"

text \<open>The device writes only receive slots of the ring, never a staging slot.\<close>

definition nic_ok :: "'b link \<Rightarrow> bool" where
  "nic_ok s \<longleftrightarrow> (\<forall>i m a. TB_RING * TB_PACKET \<le> a \<longrightarrow> snd (w_poll s i) m a = m a)"

lemma nst_append [simp]: "nst (xs @ ys) = nst xs + nst ys"
  by (simp add: nst_def)

lemma nst_simps [simp]: "nst [] = 0" "nst (x # xs) = (if sd_staged x then 1 else 0) + nst xs"
  by (simp_all add: nst_def)

lemma nst_le: "nst xs \<le> length xs"
  by (simp add: nst_def)

lemma nst_split: "nst xs = nst (take d xs) + nst (drop d xs)"
  by (metis append_take_drop_id nst_append)

lemma nst_take_mono: "i \<le> j \<Longrightarrow> nst (take i xs) \<le> nst (take j xs)"
  using nst_split [of "take j xs" i] by (simp add: min_def)

lemma nst_take_Suc: "i < length xs \<Longrightarrow> nst (take (Suc i) xs) = nst (take i xs) + (if sd_staged (xs ! i) then 1 else 0)"
  by (simp add: take_Suc_conv_app_nth)

text \<open>A staging slot in flight is never the next one to be written.\<close>

lemma slot_free:
  assumes "d \<le> i" and "i < length xs" and "sd_staged (xs ! i)" and "nst (drop d xs) < 64"
  shows "nst (take i xs) mod 64 \<noteq> nst xs mod 64"
proof -
  have a: "nst (take i xs) < nst xs"
    using nst_take_Suc [OF assms(2)] nst_take_mono [of "Suc i" "length xs" xs] assms(2,3) by simp
  have "nst xs = nst (take d xs) + nst (drop d xs)" by (rule nst_split)
  moreover have "nst (take d xs) \<le> nst (take i xs)" using assms(1) by (rule nst_take_mono)
  ultimately have b: "nst xs - nst (take i xs) < 64" using assms(4) by linarith
  show ?thesis
  proof
    assume "nst (take i xs) mod 64 = nst xs mod 64"
    then have "(64 :: nat) dvd nst xs - nst (take i xs)" using a by (metis mod_eq_dvd_iff_nat order_less_imp_le)
    with a b show False by (auto dest: dvd_imp_le)
  qed
qed

lemma slot_disjoint:
  assumes "a mod 64 \<noteq> b mod 64" and "n \<le> 4096" and "length bs \<le> 4096"
  shows "mem_read (mem_write m (slot_of a) bs) (slot_of b) n = mem_read m (slot_of b) n"
proof -
  have "a mod 64 < b mod 64 \<or> b mod 64 < a mod 64" using assms(1) by linarith
  then have "(2048 + b mod 64) * 4096 + n \<le> (2048 + a mod 64) * 4096 \<or>
      (2048 + a mod 64) * 4096 + length bs \<le> (2048 + b mod 64) * 4096"
    using assms(2,3) by (elim disjE) simp_all
  then show ?thesis unfolding slot_of_def by (intro mem_read_write_disjoint)
qed

lemma mod_distinct:
  assumes "d \<le> i" and "i < p" and "p - d < (n :: nat)"
  shows "i mod n \<noteq> p mod n"
proof
  assume "i mod n = p mod n"
  then have "n dvd p - i" using assms(2) by (metis mod_eq_dvd_iff_nat order_less_imp_le)
  with assms show False by (auto dest: dvd_imp_le)
qed

text \<open>The room check, without wrap-around.\<close>

lemma unat_packets:
  assumes "unat len < 2 ^ 27"
  shows "unat (packets len) = (unat len + 4095) div 4096"
proof -
  have "unat (len + 4095) = unat len + 4095" using assms by (subst unat_add_small) simp_all
  then have "unat ((len + 4095) div 4096) = (unat len + 4095) div 4096" by (simp add: unat_div)
  moreover have "(unat len + 4095) div 4096 < 2 ^ 32" using assms by simp
  ultimately show ?thesis by (simp add: packets_def ucast_u32_of_u64 add_diff_eq [symmetric])
qed


lemma has_room_nat:
  assumes "flow_inv s" and "length (w_sends s) < 2 ^ 64" and "has_room s n sends reply"
    and "unat n \<le> 2 ^ 20" and "unat sends \<le> 2"
  defines "d \<equiv> unat (t_tx_done s)" and "sp \<equiv> (if reply then 0 else 1 :: nat)"
  shows "unat (t_packets s) + unat n + sp \<le> unat (t_depth s)"
    and "length (w_sends s) - d + unat sends + sp \<le> 1024"
    and "nst (drop d (w_sends s)) + sp < 64"
proof -
  let ?S = "w_sends s"
  have inv: "unat (t_tx_posted s) = length ?S" "d \<le> length ?S" "length ?S - d \<le> 1024"
    "unat (t_packets s) \<le> unat (t_depth s)" "unat (t_depth s) \<le> 2 ^ 30"
    "unat (t_staged s) = nst ?S" "unat (t_unstaged s) = nst (take d ?S)" "nst (drop d ?S) \<le> 64"
    using assms(1) by (simp_all add: flow_inv_def Let_def d_def)
  define q where "q = (if reply then 0 else 1 :: u32)"
  have q: "unat q = sp" "unat (ucast q :: u64) = sp" by (simp_all add: q_def sp_def)
  have sp: "sp \<le> 1" by (simp add: sp_def)
  have r: "t_packets s + n + q \<le> t_depth s" "t_tx_posted s - t_tx_done s + ucast sends + ucast q \<le> 1024"
    "t_staged s - t_unstaged s + ucast q < 64"
    using assms(3) by (simp_all add: has_room_def Let_def q_def)
  have "unat (t_packets s + n) = unat (t_packets s) + unat n"
    using inv assms(4) by (subst unat_add_small) simp_all
  moreover from this have "unat (t_packets s + n + q) = unat (t_packets s) + unat n + sp"
    using inv assms(4) q by (subst unat_add_small) (simp_all add: sp_def)
  ultimately show "unat (t_packets s) + unat n + sp \<le> unat (t_depth s)"
    using r(1) by (simp add: word_le_nat_alt)
  have a: "unat (t_tx_posted s - t_tx_done s) = length ?S - d"
    using inv by (subst unat_sub_le) (simp_all add: word_le_nat_alt d_def)
  moreover have "unat (t_tx_posted s - t_tx_done s + ucast sends) = length ?S - d + unat sends"
    using inv a assms(5) by (subst unat_add_small) simp_all
  moreover from this have "unat (t_tx_posted s - t_tx_done s + ucast sends + ucast q) = length ?S - d + unat sends + sp"
    using inv assms(5) q sp by (subst unat_add_small) simp_all
  ultimately show "length ?S - d + unat sends + sp \<le> 1024"
    using r(2) by (simp add: word_le_nat_alt)
  have "nst (take d ?S) \<le> nst ?S" using nst_split [of ?S d] by simp
  then have "unat (t_staged s - t_unstaged s) = nst ?S - nst (take d ?S)"
    using inv by (subst unat_sub_le) (simp_all add: word_le_nat_alt)
  then have b: "unat (t_staged s - t_unstaged s) = nst (drop d ?S)" using nst_split [of ?S d] by simp
  then have "unat (t_staged s - t_unstaged s + ucast q) = nst (drop d ?S) + sp"
    using inv q by (subst unat_add_small) (simp_all add: sp_def)
  then show "nst (drop d ?S) + sp < 64" using r(3) by (simp add: word_less_nat_alt)
qed

subsection \<open>Posting a send\<close>

text \<open>
  A send posted with room keeps the invariant once the staging counter has followed. Writing the
  next staging slot disturbs no message in flight.
\<close>

lemma stage_write_flow:
  assumes "flow_inv s" and "nst (drop (unat (t_tx_done s)) (w_sends s)) < 64" and "length bs \<le> 4096"
  shows "flow_inv (s\<lparr>t_ring := mem_write (t_ring s) (stage_slot s) bs\<rparr>)"
    and "stage_slot s = slot_of (nst (w_sends s))"
proof -
  have st: "unat (t_staged s) = nst (w_sends s)" using assms(1) by (simp add: flow_inv_def Let_def)
  then show slot: "stage_slot s = slot_of (nst (w_sends s))"
    by (simp add: stage_slot_def slot_of_def unat_mod)
  have "entry_ok (s\<lparr>t_ring := mem_write (t_ring s) (slot_of (nst (w_sends s))) bs\<rparr>) i"
    if "unat (t_tx_done s) \<le> i" "i < length (w_sends s)" for i
  proof -
    have e: "entry_ok s i" using assms(1) that by (simp add: flow_inv_def Let_def)
    show ?thesis
    proof (cases "sd_staged (w_sends s ! i)")
      case True
      note slot_free [OF that True assms(2)]
      then have "mem_read (mem_write (t_ring s) (slot_of (nst (w_sends s))) bs)
          (slot_of (nst (take i (w_sends s)))) n = mem_read (t_ring s) (slot_of (nst (take i (w_sends s)))) n"
        if "n \<le> 4096" for n
        using that assms(3) by (intro slot_disjoint) auto
      with e True show ?thesis by (simp add: entry_ok_def Let_def)
    next
      case False
      with e show ?thesis by (simp add: entry_ok_def Let_def)
    qed
  qed
  then show "flow_inv (s\<lparr>t_ring := mem_write (t_ring s) (stage_slot s) bs\<rparr>)"
    using assms(1) by (simp add: flow_inv_def Let_def slot)
qed

lemma post_send_sends:
  assumes "post_send s addr len lkey st payload = (r, s')"
  shows "(r = 0 \<longrightarrow> w_sends s' = w_sends s @ [\<lparr>sd_id = TAG T_SEND (of_nat (unat (t_tx_posted s mod TB_SEND_WR))),
      sd_src = addr, sd_bytes = src_bytes s addr (unat len), sd_lkey = lkey, sd_staged = st, sd_payload = payload\<rparr>]) \<and>
    (r \<noteq> 0 \<longrightarrow> w_sends s' = w_sends s \<and> t_poisoned s' \<and> r = -1) \<and>
    (t_poisoned s \<longrightarrow> t_poisoned s' \<and> t_why s' = t_why s) \<and> (r = 0 \<longrightarrow> t_poisoned s' = t_poisoned s) \<and>
    w_poll s' = w_poll s \<and> t_depth s' = t_depth s \<and> w_win s' = w_win s \<and> t_ring s' = t_ring s \<and>
    t_tx_seq s' = t_tx_seq s \<and> t_staged s' = t_staged s \<and> w_now s' = w_now s \<and> t_peer_slots s' = t_peer_slots s \<and>
    (r = 0 \<longrightarrow> len \<noteq> 0) \<and> t_ring_lkey s' = t_ring_lkey s"
  using assms
  by (auto simp: post_send_def Let_def now_ns_def poison_def split: if_splits prod.splits)

lemma post_send_flow:
  assumes p: "post_send s addr len lkey st payload = (0, s')" and inv: "flow_inv s"
    and small: "unat len < 2 ^ 27" and long: "length (w_sends s) < 2 ^ 64 - 1"
    and pk: "unat (t_packets s) + (unat len + 4095) div 4096 \<le> unat (t_depth s)"
    and wr: "length (w_sends s) - unat (t_tx_done s) < 1024"
    and stg: "st \<Longrightarrow> addr = InRing (slot_of (nst (w_sends s))) \<and> unat len \<le> 4096 \<and>
           nst (drop (unat (t_tx_done s)) (w_sends s)) < 64"
  shows "flow_inv (s'\<lparr>t_staged := t_staged s' + (if st then 1 else 0)\<rparr>)"
proof -
  let ?S = "w_sends s" and ?D = "unat (t_tx_done s)"
  let ?P = "length ?S"
  let ?sd = "\<lparr>sd_id = TAG T_SEND (of_nat (unat (t_tx_posted s mod TB_SEND_WR))),
      sd_src = addr, sd_bytes = src_bytes s addr (unat len), sd_lkey = lkey, sd_staged = st, sd_payload = payload\<rparr>"
  have i: "unat (t_tx_posted s) = ?P" "?D \<le> ?P" "unat (t_packets s) = sum_list (map npk (drop ?D ?S))"
    "unat (t_depth s) \<le> 2 ^ 30" "unat (t_staged s) = nst ?S" "unat (t_unstaged s) = nst (take ?D ?S)"
    "nst (drop ?D ?S) \<le> 64" "\<And>i. ?D \<le> i \<Longrightarrow> i < ?P \<Longrightarrow> entry_ok s i"
    using inv by (simp_all add: flow_inv_def Let_def)
  have j: "unat (t_tx_posted s mod 1024) = ?P mod 1024" by (simp add: unat_mod i)
  have lb: "length (src_bytes s addr (unat len)) = unat len" by (cases addr) simp_all
  have n: "unat (packets (ucast len)) = (unat len + 4095) div 4096" using small by (subst unat_packets) simp_all
  then have n16: "unat (ucast (packets (ucast len)) :: u16) = (unat len + 4095) div 4096"
    using small by (simp add: unsigned_ucast_eq take_bit_nat_eq_self)
  have posted: "unat (t_tx_posted s + 1) = ?P + 1"
    using long i(1) by (subst unat_add_small) simp_all
  have pkts: "unat (t_packets s + packets (ucast len)) = unat (t_packets s) + (unat len + 4095) div 4096"
    using n pk i(4) by (subst unat_add_small) simp_all
  have staged: "unat (t_staged s + (if st then 1 else 0)) = nst ?S + (if st then 1 else 0)"
    using long i(5) nst_le [of ?S] by (subst unat_add_small) simp_all
  have fields: "w_sends s' = ?S @ [?sd]" "t_tx_done s' = t_tx_done s" "t_tx_posted s' = t_tx_posted s + 1"
    "t_packets s' = t_packets s + packets (ucast len)" "t_depth s' = t_depth s" "t_staged s' = t_staged s"
    "t_unstaged s' = t_unstaged s" "t_ring s' = t_ring s"
    "t_tx_packets s' = (t_tx_packets s)(?P mod 1024 := ucast (packets (ucast len)))"
    "t_tx_staged s' = (t_tx_staged s)(?P mod 1024 := (if st then 1 else 0))"
    "t_tx_bytes s' = (t_tx_bytes s)(?P mod 1024 := len)"
    "t_tx_payload s' = (t_tx_payload s)(?P mod 1024 := payload)"
    using p by (auto simp: post_send_def Let_def now_ns_def j split: if_splits prod.splits)
  have old: "entry_ok (s'\<lparr>t_staged := x\<rparr>) i" if "?D \<le> i" "i < ?P" for i x
  proof -
    have "i mod 1024 \<noteq> ?P mod 1024" using that wr by (rule mod_distinct)
    then show ?thesis using i(8) [OF that] that
      by (simp add: entry_ok_def Let_def fields nth_append)
  qed
  have new: "entry_ok (s'\<lparr>t_staged := x\<rparr>) ?P" for x
    using stg lb by (auto simp: entry_ok_def Let_def fields npk_def n16 j)
  have "nst (drop ?D (?S @ [?sd])) \<le> 64" using i stg by auto
  moreover have "entry_ok (s'\<lparr>t_staged := x\<rparr>) k" if "?D \<le> k" "k < Suc ?P" for k x
    using that old new by (cases "k = ?P") auto
  ultimately show ?thesis
    using i posted pkts staged pk wr lb
    by (auto simp: flow_inv_def Let_def fields npk_def)
qed


text \<open>Room left, in numbers: packets, requests and staging slots.\<close>

definition roomy :: "'b link \<Rightarrow> nat \<Rightarrow> nat \<Rightarrow> nat \<Rightarrow> bool" where
  "roomy s n k m \<longleftrightarrow> unat (t_packets s) + n \<le> unat (t_depth s) \<and>
     length (w_sends s) - unat (t_tx_done s) + k \<le> TB_SEND_WR \<and>
     nst (drop (unat (t_tx_done s)) (w_sends s)) + m \<le> TB_STAGE"

lemma has_room_roomy:
  assumes "flow_inv s" and "length (w_sends s) < 2 ^ 64" and "has_room s n sends reply"
    and "unat n \<le> 2 ^ 20" and "unat sends \<le> 2"
  shows "roomy s (unat n) (unat sends) 1"
  using has_room_nat [OF assms] by (auto simp: roomy_def split: if_splits)

lemma post_slot_step:
  assumes p: "post_slot s bs pl = (0, s')" and inv: "flow_inv s" and long: "length (w_sends s) < 2 ^ 64 - 1"
    and room: "roomy s (Suc n) (Suc k) (Suc m)" and bs: "length bs \<le> 4096"
  shows "flow_inv (staged_sent s') \<and> roomy (staged_sent s') n k m"
proof -
  let ?s = "s\<lparr>t_ring := mem_write (t_ring s) (stage_slot s) bs\<rparr>"
  have m: "nst (drop (unat (t_tx_done s)) (w_sends s)) < 64" using room by (simp add: roomy_def)
  note w = stage_write_flow [OF inv m bs]
  have len: "unat (of_nat (length bs) :: u32) = length bs"
    using bs by (simp add: unat_of_nat take_bit_nat_eq_self)
  have p': "post_send ?s (InRing (slot_of (nst (w_sends s)))) (of_nat (length bs)) (t_ring_lkey s) True pl = (0, s')"
    using p by (simp add: post_slot_def Let_def w(2))
  have nz: "0 < length bs" using p' post_send_sends [OF p'] by (auto intro: gr0I)
  have pk: "(length bs + 4095) div 4096 = 1" using bs nz by (intro div_nat_eqI) (simp_all add: Suc_le_eq)
  have f: "flow_inv (s'\<lparr>t_staged := t_staged s' + (if True then 1 else 0)\<rparr>)"
    by (rule post_send_flow [OF p' w(1)]) (use room long bs len pk m in \<open>auto simp: roomy_def\<close>)
  have fields: "t_packets s' = t_packets s + packets (ucast (of_nat (length bs) :: u32))" "t_tx_done s' = t_tx_done s"
    "t_depth s' = t_depth s"
    using p' by (auto simp: post_send_def Let_def now_ns_def split: if_splits prod.splits)
  have "unat (packets (ucast (of_nat (length bs) :: u32))) = 1"
    using pk len bs by (subst unat_packets) simp_all
  then have "unat (t_packets s') = unat (t_packets s) + 1"
    using fields(1) room unat_lt_32 [of "t_depth s"] by (simp add: roomy_def unat_add_small)
  moreover obtain sd where "w_sends s' = w_sends s @ [sd]" "sd_staged sd" using post_send_sends [OF p'] by auto
  moreover have "unat (t_tx_done s) \<le> length (w_sends s)" using inv by (simp add: flow_inv_def Let_def)
  ultimately show ?thesis using f room fields
    by (auto simp: staged_sent_def roomy_def flow_inv_def entry_ok_def Let_def)
qed

lemma post_win_step:
  assumes p: "post_send s (InWin a) len lkey False pl = (0, s')" and inv: "flow_inv s"
    and long: "length (w_sends s) < 2 ^ 64 - 1" and small: "unat len < 2 ^ 27"
    and room: "roomy s ((unat len + 4095) div 4096 + n) (Suc k) m"
  shows "flow_inv s' \<and> roomy s' n k m"
proof -
  have "flow_inv (s'\<lparr>t_staged := t_staged s' + (if False then 1 else 0)\<rparr>)"
    by (rule post_send_flow [OF p inv small long]) (use room in \<open>auto simp: roomy_def\<close>)
  then have f: "flow_inv s'" by simp
  have fields: "t_packets s' = t_packets s + packets (ucast len)" "t_tx_done s' = t_tx_done s"
    "t_depth s' = t_depth s"
    using p by (auto simp: post_send_def Let_def now_ns_def split: if_splits prod.splits)
  have "unat (packets (ucast len)) = (unat len + 4095) div 4096" using small by (subst unat_packets) simp_all
  then have "unat (t_packets s') = unat (t_packets s) + (unat len + 4095) div 4096"
    using fields(1) room unat_lt_32 [of "t_depth s"] by (simp add: roomy_def unat_add_small)
  moreover obtain sd where "w_sends s' = w_sends s @ [sd]" "\<not> sd_staged sd" using post_send_sends [OF p] by auto
  moreover have "unat (t_tx_done s) \<le> length (w_sends s)" using inv by (simp add: flow_inv_def Let_def)
  ultimately show ?thesis using f room fields by (auto simp: roomy_def)
qed

subsection \<open>How a link evolves\<close>

text \<open>
  What every operation does to a link: a failure and its reason stay, requests are only added, and
  the flow invariant is kept.
\<close>

definition evolves :: "'b link \<Rightarrow> 'b link \<Rightarrow> bool" where
  "evolves s s' \<longleftrightarrow>
     (t_poisoned s \<longrightarrow> t_poisoned s' \<and> t_why s' = t_why s) \<and> prefix (w_sends s) (w_sends s') \<and>
     w_poll s' = w_poll s \<and> (t_depth s' = t_depth s \<and> t_peer_slots s' = t_peer_slots s) \<and>
     (flow_ok s \<and> nic_ok s \<longrightarrow> flow_ok s')"

lemma evolvesI:
  assumes "t_poisoned s \<Longrightarrow> t_poisoned s' \<and> t_why s' = t_why s" and "prefix (w_sends s) (w_sends s')"
    and "w_poll s' = w_poll s" and "t_depth s' = t_depth s \<and> t_peer_slots s' = t_peer_slots s"
    and "flow_inv s \<Longrightarrow> nic_ok s \<Longrightarrow> \<not> t_poisoned s' \<Longrightarrow> length (w_sends s') < 2 ^ 64 \<Longrightarrow> flow_inv s'"
  shows "evolves s s'"
proof -
  have "length (w_sends s) \<le> length (w_sends s')" using assms(2) by (rule prefix_length_le)
  with assms show ?thesis by (auto simp: evolves_def flow_ok_def)
qed

lemma evolves_refl [simp, intro]: "evolves s s"
  by (simp add: evolves_def)

lemma evolves_trans [trans]: "evolves a b \<Longrightarrow> evolves b c \<Longrightarrow> evolves a c"
  by (auto simp: evolves_def nic_ok_def intro: prefix_order.trans)

lemma evolves_nic: "evolves s s' \<Longrightarrow> nic_ok s' = nic_ok s"
  by (simp add: evolves_def nic_ok_def)

text \<open>A step that touches neither the sends nor the limits.\<close>

lemma flow_inv_cong:
  assumes "tx_part s' = tx_part s" and "t_depth s' = t_depth s"
  shows "flow_inv s' = flow_inv s"
  using assms by (simp add: flow_inv_def entry_ok_def Let_def tx_part_def)

lemma evolves_tx:
  assumes "tx_part s' = tx_part s" and "rx_part s' = rx_part s"
    and "t_poisoned s \<Longrightarrow> t_poisoned s' \<and> t_why s' = t_why s"
  shows "evolves s s'"
proof (rule evolvesI)
  show "flow_inv s'" if "flow_inv s" using that flow_inv_cong [OF assms(1)] assms(2) by (simp add: rx_part_def)
qed (use assms in \<open>simp_all add: rx_part_def tx_part_def\<close>)

lemma evolves_poison [simp]: "evolves s (poison why s)"
  by (rule evolves_tx) (simp_all add: poison_def rx_part_def tx_part_def)

lemma evolves_updates [simp]:
  "evolves s (s\<lparr>t_writes_posted := a\<rparr>)" "evolves s (wrote s)" "evolves s (s\<lparr>t_tx_seq := b\<rparr>)"
  "evolves s (s\<lparr>t_fences := b\<rparr>)" "evolves s (store_win s a bs)" "evolves s (s\<lparr>t_used := a\<rparr>)"
  "evolves s (s\<lparr>t_posted := a\<rparr>)" "evolves s (s\<lparr>t_taken_ns := a\<rparr>)" "evolves s (s\<lparr>t_stalled := a\<rparr>)"
  "evolves s (s\<lparr>w_nwanted := n\<rparr>)" "evolves s (s\<lparr>w_nnow := n\<rparr>)" "evolves s (s\<lparr>t_rx_seq := b\<rparr>)" "evolves s (s\<lparr>t_fence_acked := b\<rparr>)"
  "evolves s (s\<lparr>t_want_len := b\<rparr>)" "evolves s (s\<lparr>t_want_off := a\<rparr>)"
  by (auto intro!: evolvesI simp: wrote_def store_win_def flow_inv_def entry_ok_def Let_def)

lemma now_ns_evolves: "now_ns s = (t, s') \<Longrightarrow> evolves s s'"
  by (rule evolves_tx) (auto simp: now_ns_def rx_part_def tx_part_def)

lemma gone_evolves: "gone s now nxt = (g, nxt', s') \<Longrightarrow> evolves s s'"
  by (auto intro!: evolvesI simp: gone_def flow_inv_def entry_ok_def Let_def split: if_splits)

lemma post_recvs_evolves: "post_recvs s first n = (got, s') \<Longrightarrow> evolves s s'"
  by (auto intro!: evolvesI simp: post_recvs_def poison_def flow_inv_def entry_ok_def Let_def split: if_splits)

lemma call_hook_evolves: "call_hook f s = (r, s') \<Longrightarrow> evolves s s'"
  by (rule evolves_tx) (auto simp: call_hook_def rx_part_def tx_part_def split: prod.splits)

lemma stall_evolves: "stall s why = (r, s') \<Longrightarrow> evolves s s'"
  by (rule evolves_tx [OF stall_parts(2,1)])
    (auto simp: stall_def now_ns_def poison_def split: if_splits)

lemma placed_evolves [simp]: "evolves s (placed s)"
  by (rule evolves_tx [OF placed_parts(2,1)])
    (auto simp: placed_def Let_def split: option.splits prod.splits)

lemma post_send_fails: "post_send s addr len lkey st pl = (r, s') \<Longrightarrow> r \<noteq> 0 \<Longrightarrow> evolves s s'"
  by (rule evolvesI) (auto dest: post_send_sends)


subsection \<open>Sending a message\<close>

definition plain_head :: "'b link \<Rightarrow> u16 \<Rightarrow> u64 \<Rightarrow> u32 \<Rightarrow> u64 \<Rightarrow> head" where
  "plain_head s kind off len value =
     \<lparr>h_magic = MAGIC, h_seq = t_tx_seq s, h_kind = kind, h_pad = 0, h_len = len, h_off = off, h_value = value\<rparr>"

lemma send_head_post_slot:
  assumes "case bytes of None \<Rightarrow> True | Some bs \<Rightarrow> unat len = length bs"
  shows "send_head s kind off len value bytes =
    (case post_slot s (put_head (plain_head s kind off len value) @ (case bytes of None \<Rightarrow> [] | Some bs \<Rightarrow> bs))
            (if kind = C_INLINE then len else 0) of
       (r, s3) \<Rightarrow> if r \<noteq> 0 then (-1, s3) else (0, staged_sent s3))"
proof (cases bytes)
  case None
  then show ?thesis
    by (simp add: send_head_def post_slot_def plain_head_def staged_sent_def Let_def split: prod.splits)
next
  case (Some bs)
  have "(of_nat (unat len) :: u32) = len" by simp
  with Some assms have len: "(of_nat (length bs) :: u32) = len" "unat len = length bs" by simp_all
  from Some len show ?thesis
    by (simp add: send_head_def post_slot_def plain_head_def staged_sent_def Let_def mem_write_append
        split: prod.splits)
qed

lemma post_slot_sends:
  assumes "post_slot s bs pl = (r, s')"
  shows "(r = 0 \<longrightarrow> (\<exists>sd. w_sends s' = w_sends s @ [sd])) \<and>
    (r \<noteq> 0 \<longrightarrow> w_sends s' = w_sends s \<and> t_poisoned s' \<and> r = -1) \<and>
    (t_poisoned s \<longrightarrow> t_poisoned s' \<and> t_why s' = t_why s) \<and> (r = 0 \<longrightarrow> t_poisoned s' = t_poisoned s) \<and>
    w_poll s' = w_poll s \<and> t_depth s' = t_depth s \<and> t_peer_slots s' = t_peer_slots s \<and> w_win s' = w_win s"
  using post_send_sends [OF assms [unfolded post_slot_def Let_def]] by auto

text \<open>
  A staged message with room for it. The hypothesis about room is only needed while the link works
  and its log is short enough for the counters.
\<close>

lemma stage_evolves:
  assumes "post_slot s bs pl = (r, s')" and "length bs \<le> 4096"
    and "flow_inv s \<Longrightarrow> length (w_sends s) < 2 ^ 64 \<Longrightarrow> roomy s 1 1 1"
  shows "r = 0 \<Longrightarrow> evolves s (staged_sent s')" and "r \<noteq> 0 \<Longrightarrow> evolves s s'"
proof -
  note p = post_slot_sends [OF assms(1)]
  show "evolves s (staged_sent s')" if "r = 0"
  proof (rule evolvesI)
    assume a: "flow_inv s" "length (w_sends (staged_sent s')) < 2 ^ 64"
    with p that have "length (w_sends s) < 2 ^ 64 - 1" by (auto simp: staged_sent_def)
    with post_slot_step [of s bs pl s' 0 0 0] assms a that show "flow_inv (staged_sent s')" by auto
  qed (use p that in \<open>auto simp: staged_sent_def\<close>)
  show "evolves s s'" if "r \<noteq> 0"
    by (rule evolvesI) (use p that in auto)
qed

lemma send_head_evolves:
  assumes "send_head s kind off len value bytes = (r, s')"
    and "case bytes of None \<Rightarrow> True | Some bs \<Rightarrow> unat len = length bs \<and> length bs \<le> INLINE_MAX"
    and "flow_inv s \<Longrightarrow> length (w_sends s) < 2 ^ 64 \<Longrightarrow> roomy s 1 1 1"
  shows "evolves s s'"
proof -
  let ?bs = "put_head (plain_head s kind off len value) @ (case bytes of None \<Rightarrow> [] | Some bs \<Rightarrow> bs)"
  have c: "case bytes of None \<Rightarrow> True | Some bs \<Rightarrow> unat len = length bs" and l: "length ?bs \<le> 4096"
    using assms(2) by (auto split: option.splits)
  obtain r1 s1 where p: "post_slot s ?bs (if kind = C_INLINE then len else 0) = (r1, s1)" by fastforce
  from assms(1) p have "(r, s') = (if r1 \<noteq> 0 then (-1, s1) else (0, staged_sent s1))"
    by (simp add: send_head_post_slot [OF c])
  then show ?thesis using stage_evolves [OF p l assms(3)] by (auto split: if_splits)
qed

text \<open>A staged header and then the bytes from the window, in either order of the counters.\<close>

lemma post_send_staged_sent:
  "post_send (staged_sent s) (InWin a) len lkey st pl =
     (case post_send s (InWin a) len lkey st pl of (r, s') \<Rightarrow> (r, staged_sent s'))"
  by (auto simp: post_send_def staged_sent_def Let_def now_ns_def poison_def split: prod.splits)

lemma stage_data_evolves:
  assumes p: "post_slot s bs pl = (0, s1)" and q: "post_send (staged_sent s1) (InWin a) len lkey False pl' = (r, s')"
    and bs: "length bs \<le> 4096" and small: "unat len < 2 ^ 27"
    and room: "flow_inv s \<Longrightarrow> length (w_sends s) < 2 ^ 64 \<Longrightarrow> roomy s (1 + (unat len + 4095) div 4096) 2 1"
  shows "evolves s s'"
proof (cases "r = 0")
  case True
  note a = post_slot_sends [OF p] and b = post_send_sends [OF q]
  show ?thesis
  proof (rule evolvesI)
    assume f: "flow_inv s" "length (w_sends s') < 2 ^ 64"
    with a b True have l: "length (w_sends s) < 2 ^ 64 - 1" "length (w_sends (staged_sent s1)) < 2 ^ 64 - 1"
      by (auto simp: staged_sent_def)
    have "roomy s (Suc ((unat len + 4095) div 4096)) (Suc 1) (Suc 0)"
      using room f l by (simp add: numeral_2_eq_2)
    from post_slot_step [OF p f(1) l(1) this bs]
    have g: "flow_inv (staged_sent s1)" "roomy (staged_sent s1) ((unat len + 4095) div 4096 + 0) (Suc 0) 0" by auto
    show "flow_inv s'" using post_win_step [OF _ g(1) l(2) small g(2)] q True by auto
  qed (use a b True in \<open>auto simp: staged_sent_def\<close>)
next
  case False
  have "evolves s (staged_sent s1)"
  proof (rule stage_evolves(1) [OF p bs])
    show "roomy s 1 1 1" if "flow_inv s" "length (w_sends s) < 2 ^ 64"
      using room [OF that] by (auto simp: roomy_def)
  qed simp
  also have "evolves (staged_sent s1) s'" using post_send_fails [OF q False] .
  finally show ?thesis .
qed


subsection \<open>Completions and taking messages\<close>

lemma complete_send_flow:
  assumes inv: "flow_inv s" and d: "t_tx_done s < t_tx_posted s" and i: "i = unat (t_tx_done s) mod 1024"
    and f: "w_sends s' = w_sends s" "t_tx_posted s' = t_tx_posted s" "t_tx_done s' = t_tx_done s + 1"
      "t_packets s' = t_packets s - ucast (t_tx_packets s i)" "t_depth s' = t_depth s"
      "t_staged s' = t_staged s" "t_unstaged s' = t_unstaged s + ucast (t_tx_staged s i)" "t_ring s' = t_ring s"
      "t_tx_packets s' = t_tx_packets s" "t_tx_staged s' = t_tx_staged s" "t_tx_bytes s' = t_tx_bytes s"
      "t_tx_payload s' = t_tx_payload s"
  shows "flow_inv s'"
proof -
  let ?S = "w_sends s" and ?D = "unat (t_tx_done s)"
  have v: "unat (t_tx_posted s) = length ?S" "unat (t_packets s) = sum_list (map npk (drop ?D ?S))"
    "unat (t_unstaged s) = nst (take ?D ?S)" "unat (t_packets s) \<le> unat (t_depth s)" "unat (t_depth s) \<le> 2 ^ 30"
    "unat (t_staged s) = nst ?S" "nst (drop ?D ?S) \<le> 64" "length ?S - ?D \<le> 1024"
    and e: "\<And>i. ?D \<le> i \<Longrightarrow> i < length ?S \<Longrightarrow> entry_ok s i"
    using inv by (simp_all add: flow_inv_def Let_def)
  have D: "?D < length ?S" using d v(1) by (simp add: word_less_nat_alt)
  have D1: "unat (t_tx_done s + 1) = Suc ?D" using d by (simp add: unat_Suc_lt)
  have cons: "drop ?D ?S = ?S ! ?D # drop (Suc ?D) ?S" using D by (simp add: Cons_nth_drop_Suc)
  have n: "unat (t_tx_packets s i) = npk (?S ! ?D)" and
    st: "unat (t_tx_staged s i) = (if sd_staged (?S ! ?D) then 1 else 0)"
    using e [of ?D] D by (simp_all add: entry_ok_def Let_def i)
  have pk: "unat (t_packets s) = npk (?S ! ?D) + sum_list (map npk (drop (Suc ?D) ?S))" using v(2) cons by simp
  have "unat (ucast (t_tx_packets s i) :: u32) = npk (?S ! ?D)"
    using n unat_lt_16 [of "t_tx_packets s i"] by (simp add: unsigned_ucast_eq take_bit_nat_eq_self)
  then have "unat (t_packets s - ucast (t_tx_packets s i)) = sum_list (map npk (drop (Suc ?D) ?S))"
    using pk by (subst unat_sub_le) (simp_all add: word_le_nat_alt)
  moreover have "unat (ucast (t_tx_staged s i) :: u64) = (if sd_staged (?S ! ?D) then 1 else 0)"
    using st unat_lt_8 [of "t_tx_staged s i"] by (simp add: unsigned_ucast_eq take_bit_nat_eq_self)
  then have "unat (t_unstaged s + ucast (t_tx_staged s i)) = nst (take (Suc ?D) ?S)"
    using v(1,3) D nst_take_Suc [OF D] nst_le [of "take ?D ?S"] unat_lt_64 [of "t_tx_posted s"]
    by (subst unat_add_small) (simp_all split: if_splits)
  moreover have "entry_ok s' k" if "Suc ?D \<le> k" "k < length ?S" for k
    using e [of k] that by (simp add: entry_ok_def Let_def f)
  moreover have "nst (drop (Suc ?D) ?S) \<le> 64" using v(7) cons by simp
  ultimately show ?thesis using v D D1 pk unfolding flow_inv_def Let_def f by simp
qed

lemma measure_rate_fields [simp]:
  "w_sends (measure_rate s i now) = w_sends s" "t_tx_posted (measure_rate s i now) = t_tx_posted s"
  "t_tx_done (measure_rate s i now) = t_tx_done s" "t_packets (measure_rate s i now) = t_packets s"
  "t_depth (measure_rate s i now) = t_depth s" "t_staged (measure_rate s i now) = t_staged s"
  "t_unstaged (measure_rate s i now) = t_unstaged s" "t_ring (measure_rate s i now) = t_ring s"
  "t_tx_packets (measure_rate s i now) = t_tx_packets s" "t_tx_staged (measure_rate s i now) = t_tx_staged s"
  "t_tx_bytes (measure_rate s i now) = t_tx_bytes s" "t_tx_payload (measure_rate s i now) = t_tx_payload s"
  "t_poisoned (measure_rate s i now) = t_poisoned s" "t_why (measure_rate s i now) = t_why s"
  "w_poll (measure_rate s i now) = w_poll s" "t_peer_slots (measure_rate s i now) = t_peer_slots s" "rx_part (measure_rate s i now) = rx_part s"
  "t_completed_bytes (measure_rate s i now) = t_completed_bytes s"
  "t_completed_payload (measure_rate s i now) = t_completed_payload s"
  by (simp_all add: measure_rate_def Let_def rx_part_def)

lemma complete_evolves: "evolves s (complete s wc now)"
proof -
  let ?index = "wc_id wc AND (2 ^ 56 - 1)"
  let ?recv = "drop_bit 56 (wc_id wc) = T_RECV \<and> ?index = t_filled s mod ucast (t_slots s) \<and> t_filled s < t_posted s \<and>
            ((wc_status wc = WC_SUCCESS \<and> 1 \<le> wc_len wc \<and> wc_len wc \<le> TB_PACKET) \<or>
             (wc_status wc = WC_LOC_LEN_ERR \<and> wc_len wc = TB_PACKET))"
  let ?send = "drop_bit 56 (wc_id wc) = T_SEND \<and> wc_status wc = WC_SUCCESS \<and> ?index = t_tx_done s mod TB_SEND_WR \<and>
            t_tx_done s < t_tx_posted s"
  consider (recv) ?recv | (send) "\<not> ?recv" ?send | (bad) "\<not> ?recv" "\<not> ?send" by blast
  then show ?thesis
  proof cases
    case recv
    then show ?thesis
      by (auto intro!: evolvesI simp: complete_def Let_def flow_inv_def entry_ok_def)
  next
    case send
    let ?s = "complete s wc now"
    have i: "unat ?index = unat (t_tx_done s) mod 1024" using send(2) by (simp add: unat_mod)
    have f: "w_sends ?s = w_sends s" "t_tx_posted ?s = t_tx_posted s" "t_tx_done ?s = t_tx_done s + 1"
      "t_packets ?s = t_packets s - ucast (t_tx_packets s (unat ?index))" "t_depth ?s = t_depth s"
      "t_staged ?s = t_staged s" "t_unstaged ?s = t_unstaged s + ucast (t_tx_staged s (unat ?index))"
      "t_ring ?s = t_ring s" "t_tx_packets ?s = t_tx_packets s" "t_tx_staged ?s = t_tx_staged s"
      "t_tx_bytes ?s = t_tx_bytes s" "t_tx_payload ?s = t_tx_payload s"
      "w_poll ?s = w_poll s" "t_poisoned ?s = t_poisoned s" "t_why ?s = t_why s" "t_peer_slots ?s = t_peer_slots s"
      unfolding complete_def Let_def if_not_P [OF send(1)] if_P [OF send(2)] by simp_all
    show ?thesis
    proof (rule evolvesI)
      show "flow_inv ?s" if "flow_inv s"
        using complete_send_flow [OF that _ i f(1-12)] send(2) by blast
    qed (simp_all add: f)
  next
    case bad
    then show ?thesis unfolding complete_def Let_def by (simp only: if_False evolves_poison)
  qed
qed

lemma complete_all_evolves: "evolves s (complete_all s wcs now)"
  by (induction s wcs now rule: complete_all.induct) (auto intro: evolves_trans [OF complete_evolves])

lemma poll_cq_evolves:
  assumes "poll_cq s = (r, s')"
  shows "evolves s s'"
proof (rule evolvesI)
  assume a: "flow_inv s" "nic_ok s"
  obtain q dma where w: "w_poll s (w_npoll s) = (q, dma)" by fastforce
  have s': "s' = s\<lparr>w_npoll := Suc (w_npoll s), t_ring := dma (t_ring s)\<rparr>"
    using assms w by (simp add: poll_cq_def)
  have key: "dma m i = m i" if "2048 * 4096 \<le> i" for m i
    using a(2) that w unfolding nic_ok_def by (metis snd_conv)
  have "2048 * 4096 \<le> slot_of k" for k unfolding slot_of_def by (intro mult_le_mono1) simp
  then have "mem_read (dma (t_ring s)) (slot_of k) n = mem_read (t_ring s) (slot_of k) n" for k n
    unfolding mem_read_def by (intro map_cong key refl) (rule trans_le_add1)
  then show "flow_inv s'" using a(1) by (simp add: flow_inv_def entry_ok_def Let_def s')
qed (use assms in \<open>auto simp: poll_cq_def split: prod.splits\<close>)

lemma poll_loop_evolves:
  assumes "poll_loop n s h = (r, s')"
  shows "evolves s s'"
  using assms
proof (induction n s h rule: poll_loop.induct)
  case (2 rounds s handled)
  show ?case
  proof (cases "t_poisoned s")
    case False
    obtain q s1 where p: "poll_cq s = (q, s1)" by fastforce
    note e1 = poll_cq_evolves [OF p]
    show ?thesis
    proof (cases q)
      case None
      with 2 False p e1 show ?thesis by (auto intro: evolves_trans)
    next
      case (Some wcs)
      obtain now s2 where n: "(if wcs \<noteq> [] \<and> t_tx_posted s1 \<noteq> t_tx_done s1 then now_ns s1 else (0, s1)) = (now, s2)"
        by fastforce
      then have "evolves s1 s2" by (auto split: if_splits dest: now_ns_evolves)
      with e1 have e3: "evolves s (complete_all s2 wcs now)"
        using complete_all_evolves evolves_trans by blast
      show ?thesis
      proof (cases "length wcs < 32")
        case True
        then show ?thesis using 2 False p Some n e3 by auto
      next
        case False2: False
        have "evolves (complete_all s2 wcs now) s'"
          using "2.IH" [OF False p [symmetric] Some refl n [symmetric] refl refl False2] "2.prems" False p Some n False2
          by (simp add: Let_def)
        then show ?thesis using e3 by (rule evolves_trans [rotated])
      qed
    qed
  qed (use 2 in auto)
qed auto


text \<open>The failure and its reason, if the link has failed.\<close>

definition failure :: "'b link \<Rightarrow> string option" where
  "failure s = (if t_poisoned s then Some (t_why s) else None)"

lemma failure_simps [simp]:
  "failure (placed s) = failure s" "failure (store_win s off bs) = failure s"
  "failure (s\<lparr>t_rx_seq := x\<rparr>) = failure s" "failure (s\<lparr>t_want_len := x\<rparr>) = failure s"
  "failure (s\<lparr>t_want_off := y\<rparr>) = failure s" "failure (s\<lparr>t_fence_acked := x\<rparr>) = failure s"
  "failure (poison why s) = (case failure s of None \<Rightarrow> Some (take 111 why) | Some w \<Rightarrow> Some w)"
  by (simp_all add: failure_def store_win_def poison_def placed_def Let_def split: option.splits prod.splits)

lemma call_hook_failure: "call_hook f s = (r, s') \<Longrightarrow> failure s' = failure s"
  by (auto simp: call_hook_def failure_def split: prod.splits)

lemma stall_failure: "stall s why = (r, s') \<Longrightarrow> failure s = Some w \<Longrightarrow> failure s' = Some w"
  by (auto simp: stall_def now_ns_def failure_def poison_def split: if_splits)

definition quiet :: "'b link \<Rightarrow> 'b link \<Rightarrow> bool" where
  "quiet s s' \<longleftrightarrow> tx_part s' = tx_part s \<and> (\<forall>w. failure s = Some w \<longrightarrow> failure s' = Some w)"

lemma quiet_evolves: "quiet s s' \<Longrightarrow> rx_part s' = rx_part s \<Longrightarrow> evolves s s'"
  by (rule evolves_tx) (auto simp: quiet_def failure_def split: if_splits)

lemma hook_quiet: "call_hook f s = (r, s') \<Longrightarrow> tx_part s' = tx_part s \<and> failure s' = failure s"
  by (simp add: call_hook_parts call_hook_failure)

lemma stall_quiet: "stall s why = (r, s') \<Longrightarrow> tx_part s' = tx_part s \<and> (\<forall>w. failure s = Some w \<longrightarrow> failure s' = Some w)"
  by (auto simp: stall_parts dest: stall_failure)

lemma take_tail_quiet: "take_tail s first bytes = (r, s') \<Longrightarrow> quiet s s'"
  by (auto simp: take_tail_def Let_def quiet_def split: if_splits option.splits prod.splits
      dest!: hook_quiet stall_quiet)

lemma take_joined_quiet: "take_joined s first bytes h = (r, s') \<Longrightarrow> quiet s s'"
  by (auto simp: take_joined_def Let_def quiet_def split: if_splits prod.splits
      dest!: hook_quiet stall_quiet)

lemma take_bond_inline_quiet: "take_bond_inline s first count bytes h = (r, s') \<Longrightarrow> quiet s s'"
  by (auto simp: take_bond_inline_def Let_def quiet_def split: if_splits prod.splits
      dest!: hook_quiet stall_quiet)

lemma take_bond_write_quiet: "take_bond_write s first count bytes h = (r, s') \<Longrightarrow> quiet s s'"
  by (auto simp: take_bond_write_def Let_def quiet_def split: if_splits prod.splits
      dest!: hook_quiet stall_quiet)

lemma take_bond_signal_quiet: "take_bond_signal s first count bytes h = (r, s') \<Longrightarrow> quiet s s'"
  by (auto simp: take_bond_signal_def Let_def quiet_def split: if_splits prod.splits dest!: hook_quiet)

lemma take_bytes_quiet: "take_bytes s first bytes = (r, s') \<Longrightarrow> quiet s s'"
  by (auto simp: take_bytes_def quiet_def split: if_splits)

lemma take_write_signal_quiet: "take_write_signal s first bytes h = (r, s') \<Longrightarrow> quiet s s'"
  by (auto simp: take_write_signal_def Let_def quiet_def split: if_splits)

lemmas takes_quiet = take_tail_quiet take_joined_quiet take_bond_inline_quiet take_bond_write_quiet
  take_bond_signal_quiet take_bytes_quiet take_write_signal_quiet

text \<open>
  Only a fence sends, and only with the room that is held back for its answer.
\<close>

lemma fence_ack_evolves:
  assumes "has_room s 1 1 True" and "send_head s C_FENCE_ACK 0 0 v None = (r, s')"
  shows "evolves s s'"
proof (rule send_head_evolves [OF assms(2)])
  show "roomy s 1 1 1" if "flow_inv s" "length (w_sends s) < 2 ^ 64"
    using has_room_roomy [OF that assms(1)] by simp
qed simp

lemma take_plain_evolves:
  assumes "take_plain s first count bytes h = (r, s')"
  shows "evolves s s'"
proof (cases "h_kind h = C_FENCE")
  case True
  with assms show ?thesis
    by (auto simp: take_plain_def Let_def split: if_splits option.splits prod.splits
        dest: fence_ack_evolves intro: evolves_trans)
next
  case False
  with assms have "quiet s s' \<and> rx_part s' = rx_part s"
    by (auto simp: take_plain_def Let_def quiet_def split: if_splits option.splits)
  then show ?thesis by (simp add: quiet_evolves)
qed

lemma take_msg_evolves:
  assumes "take_msg s first count bytes = (r, s')"
  shows "evolves s s'"
proof -
  have "quiet s s' \<or> take_plain s first count bytes (read_head s first bytes) = (r, s')"
    using assms by (auto simp: take_msg_def Let_def quiet_def split: if_splits dest!: takes_quiet)
  then show ?thesis
    using take_msg_rx_part [OF assms] by (auto intro: quiet_evolves take_plain_evolves)
qed

lemma repost_loop_evolves: "evolves s (repost_loop s wanted want most)"
proof (induction s wanted want most rule: repost_loop.induct)
  case (1 s wanted want most)
  let ?s1 = "if wanted then s\<lparr>w_nwanted := Suc (w_nwanted s)\<rparr> else s"
  let ?n = "if want < ucast most then ucast want else most"
  obtain got s2 where p: "post_recvs ?s1 (t_posted ?s1) ?n = (got, s2)" by fastforce
  have e: "evolves s ?s1" by simp
  also have "evolves ?s1 s2" by (rule post_recvs_evolves [OF p])
  finally have "evolves s s2" .
  moreover have "evolves s2 (s2\<lparr>t_posted := t_posted s2 + of_int got\<rparr>)" by simp
  ultimately have e2: "evolves s s2" "evolves s (s2\<lparr>t_posted := t_posted s2 + of_int got\<rparr>)"
    by (blast intro: evolves_trans)+
  show ?case
    using e e2 p 1 by (subst repost_loop.simps) (auto simp: Let_def intro: evolves_trans)
qed

lemma repost_evolves: "evolves s (repost s wanted)"
proof -
  have "evolves s (repost_loop (s\<lparr>w_nnow := n\<rparr>) w a m)" for n w a m
    by (rule evolves_trans [OF _ repost_loop_evolves]) simp
  then show ?thesis by (simp add: repost_def Let_def now_ns_def repost_loop_evolves)
qed

lemma drain_loop_evolves: "evolves s (drain_loop s)"
proof (induction s rule: drain_loop.induct)
  case (1 s)
  show ?case
  proof (cases "t_used s < t_filled s \<and> \<not> t_poisoned s \<and> find_end s (t_used s) \<noteq> t_filled s")
    case False
    then show ?thesis by (subst drain_loop.simps) (auto simp: Let_def)
  next
    case True
    define e where "e = find_end s (t_used s)"
    define c where "c = e - t_used s + 1"
    define b where "b = (c - 1) * TB_PACKET + ucast (t_rx_len s (unat (e mod ucast (t_slots s))))"
    obtain r s1 where t: "take_msg s (t_used s) c b = (r, s1)" by fastforce
    obtain now s2 where n: "now_ns (s1\<lparr>t_used := e + 1, t_stalled := 0\<rparr>) = (now, s2)" by fastforce
    note take_msg_evolves [OF t]
    also have "evolves s1 (s1\<lparr>t_used := e + 1\<rparr>)" by simp
    also have "evolves (s1\<lparr>t_used := e + 1\<rparr>) (s1\<lparr>t_used := e + 1, t_stalled := 0\<rparr>)" by simp
    also note now_ns_evolves [OF n]
    also have "evolves s2 (s2\<lparr>t_taken_ns := now\<rparr>)" by simp
    finally have ev: "evolves s (s2\<lparr>t_taken_ns := now\<rparr>)" .
    have eq: "drain_loop s = (if r \<le> 0 then s1 else drain_loop (s2\<lparr>t_taken_ns := now\<rparr>))"
      using True t n unfolding e_def c_def b_def by (subst drain_loop.simps) (simp add: Let_def)
    have IH: "evolves (s2\<lparr>t_taken_ns := now\<rparr>) (drain_loop (s2\<lparr>t_taken_ns := now\<rparr>))" if "\<not> r \<le> 0"
      using 1 [OF _ e_def _ c_def b_def t [symmetric] that n [symmetric]] True by (simp add: e_def)
    show ?thesis unfolding eq using take_msg_evolves [OF t] evolves_trans [OF ev] IH by simp
  qed
qed

lemma tb_progress_some_evolves:
  assumes "tb_progress_some s wanted = (r, s')"
  shows "evolves s s'"
proof (cases "l_tb s")
  case True
  obtain h s1 where p: "poll_loop 8 s 0 = (h, s1)" by fastforce
  note e = poll_loop_evolves [OF p]
  have "evolves s1 (drain s1 wanted)"
    unfolding drain_def by (rule evolves_trans [OF drain_loop_evolves repost_evolves])
  with e have "evolves s (drain s1 wanted)" by (rule evolves_trans)
  with assms True p e show ?thesis by (auto simp: tb_progress_some_def Let_def split: if_splits)
qed (use assms in \<open>auto simp: tb_progress_some_def\<close>)

lemma tb_progress_evolves: "tb_progress s = (r, s') \<Longrightarrow> evolves s s'"
  unfolding tb_progress_def by (rule tb_progress_some_evolves)

subsection \<open>Waiting and the sending operations\<close>

lemma wait_loop_evolves:
  assumes "wait_loop fuel c why deadline nxt s = Some (r, s')"
  shows "evolves s s' \<and> (r = 0 \<longrightarrow> c s')"
  using assms
proof (induction fuel c why deadline nxt s rule: wait_loop.induct)
  case (2 fuel c why deadline nxt s)
  show ?case
  proof (cases "c s")
    case True
    with "2.prems" show ?thesis by simp
  next
    case False
    obtain q s1 where p: "tb_progress s = (q, s1)" by fastforce
    obtain now s2 where n: "now_ns s1 = (now, s2)" by fastforce
    obtain g nxt' s3 where g: "gone s2 now nxt = (g, nxt', s3)" by (metis prod_cases3)
    have e1: "evolves s s1" by (rule tb_progress_evolves [OF p])
    also have "evolves s1 s2" by (rule now_ns_evolves [OF n])
    finally have e2: "evolves s s2" .
    also have "evolves s2 s3" by (rule gone_evolves [OF g])
    finally have e3: "evolves s s3" .
    have e4: "evolves s (poison why s2)" using e2 by (rule evolves_trans) simp
    show ?thesis
      using "2.prems" False p n g e1 e3 e4
        "2.IH" [OF False p [symmetric] _ n [symmetric] _ g [symmetric] refl]
      by (auto split: if_splits intro: evolves_trans)
  qed
qed simp

lemma and_then_cases:
  assumes "and_then x k = Some (r, s')"
  obtains (stop) r1 where "x = Some (r1, s')" "r1 \<noteq> 0" "r = -1"
  | (go) s1 where "x = Some (0, s1)" "k s1 = Some (r, s')"
  using assms by (auto simp: and_then_def split: option.splits if_splits)

lemma room_evolves:
  assumes "room fuel s n sends deadline = Some (r, s')"
  shows "evolves s s'" and "r = 0 \<Longrightarrow> has_room s' n sends False \<and> \<not> t_poisoned s'"
  using assms unfolding room_def
  by (auto elim!: and_then_cases dest!: wait_loop_evolves split: if_splits)


lemma msg_max_le: "unat (msg_max s) \<le> 4194304"
  by (auto simp: msg_max_def Let_def word_less_nat_alt not_less)

text \<open>A piece with room for it: its length is at most that of a message.\<close>

lemma send_piece_evolves:
  assumes p: "send_piece s src off roff tk = Some (r, s')" and small: "unat tk \<le> 4194304"
    and room: "flow_inv s \<Longrightarrow> length (w_sends s) < 2 ^ 64 \<Longrightarrow>
      (if tk \<le> INLINE_MAX then roomy s 1 1 1 else roomy s (1 + (unat tk + 4095) div 4096) 2 1)"
  shows "evolves s s'"
proof (cases "tk \<le> INLINE_MAX")
  case True
  then have l: "unat (ucast tk :: u32) = unat tk" "unat tk \<le> 4064" by (simp_all add: word_le_nat_alt ucast_u32_of_u64)
  with True p have "send_head s C_INLINE roff (ucast tk) 0 (Some (mem_read (w_win s) (unat off) (unat tk))) = (r, s')"
    by (simp add: send_piece_def)
  then show ?thesis by (rule send_head_evolves) (use room l True in simp_all)
next
  case False
  from p have "and_then (Some (send_head s C_WRITE roff (ucast tk) 0 None))
      (\<lambda>s1. Some (post_window_send s1 src off tk)) = Some (r, s')" using False by (simp add: send_piece_def)
  then show ?thesis
  proof (cases rule: and_then_cases)
    case (stop r1)
    then have "send_head s C_WRITE roff (ucast tk) 0 None = (r1, s')" by simp
    then show ?thesis by (rule send_head_evolves) (use room False in \<open>auto simp: roomy_def\<close>)
  next
    case (go s1)
    then obtain s0 where h: "post_slot s (put_head (plain_head s C_WRITE roff (ucast tk) 0)) 0 = (0, s0)" "s1 = staged_sent s0"
      by (auto simp: send_head_post_slot split: prod.splits if_splits)
    have l: "unat (ucast tk :: u32) = unat tk" using small by (simp add: ucast_u32_of_u64)
    from go(2) have "post_send (staged_sent s0) (InWin (unat off)) (ucast tk) (region_lkey src off) False (ucast tk) = (r, s')"
      by (simp add: post_window_send_def h(2))
    then show ?thesis by (rule stage_data_evolves [OF h(1)]) (use room False small l in simp_all)
  qed
qed

lemma piece_room_evolves:
  assumes "piece_room fuel s tk deadline = Some (r, s')" and "unat tk \<le> 4194304"
  shows "evolves s s'" and "r = 0 \<Longrightarrow> flow_inv s' \<Longrightarrow> length (w_sends s') < 2 ^ 64 \<Longrightarrow>
      (if tk \<le> INLINE_MAX then roomy s' 1 1 1 else roomy s' (1 + (unat tk + 4095) div 4096) 2 1)"
proof -
  show "evolves s s'" using assms(1) by (auto simp: piece_room_def split: if_splits dest: room_evolves)
  assume a: "r = 0" "flow_inv s'" "length (w_sends s') < 2 ^ 64"
  have pk: "unat (packets tk) = (unat tk + 4095) div 4096" using assms(2) by (intro unat_packets) simp
  then have pk1: "unat (1 + packets tk) = 1 + (unat tk + 4095) div 4096" "unat (1 + packets tk) \<le> 2 ^ 20"
    using assms(2) by (subst unat_add_small; simp)+
  show "if tk \<le> INLINE_MAX then roomy s' 1 1 1 else roomy s' (1 + (unat tk + 4095) div 4096) 2 1"
  proof (cases "tk \<le> INLINE_MAX")
    case True
    then have "has_room s' 1 1 False" using room_evolves(2) [of fuel s 1 1 deadline 0 s'] assms(1) a(1)
      by (simp add: piece_room_def)
    from has_room_roomy [OF a(2,3) this] True show ?thesis by simp
  next
    case False
    then have "has_room s' (1 + packets tk) 2 False" using room_evolves(2) [of fuel s "1 + packets tk" 2 deadline 0 s'] assms(1) a(1)
      by (simp add: piece_room_def)
    from has_room_roomy [OF a(2,3) this pk1(2)] False pk1 show ?thesis by simp
  qed
qed

lemma take_in_msg: "unat mx \<le> 4194304 \<Longrightarrow> unat (take_in mx seg off len) \<le> 4194304"
  by (auto simp: take_in_def Let_def word_less_nat_alt)

lemma write_loop_evolves:
  assumes "write_loop fuel s src off roff len mx deadline = Some (r, s')" and "unat mx \<le> 4194304"
  shows "evolves s s'"
  using assms
proof (induction fuel s src off roff len mx deadline rule: write_loop.induct)
  case (2 fuel s src off roff len mx deadline)
  show ?case
  proof (cases "len = 0")
    case False
    let ?t = "take_in mx (r_seg src) off len"
    note small = take_in_msg [OF "2.prems"(2), of "r_seg src" off len]
    have piece: "evolves s s2"
      if "and_then (piece_room fuel s ?t deadline) (\<lambda>s1. send_piece s1 src off roff ?t) = Some (q, s2)" for q s2
      using that
    proof (cases rule: and_then_cases)
      case (go s1)
      have "evolves s s1" by (rule piece_room_evolves(1) [OF go(1) small])
      also have "evolves s1 s2" by (rule send_piece_evolves [OF go(2) small piece_room_evolves(2) [OF go(1) small refl]])
      finally show ?thesis .
    qed (auto dest: piece_room_evolves(1) [OF _ small])
    from "2.prems" False have "and_then (and_then (piece_room fuel s ?t deadline) (\<lambda>s1. send_piece s1 src off roff ?t))
        (\<lambda>s2. write_loop fuel (s2\<lparr>t_writes_posted := t_writes_posted s2 + 1\<rparr>) src (off + ?t) (roff + ?t)
                      (len - ?t) mx deadline) = Some (r, s')" by (simp add: Let_def)
    then show ?thesis
    proof (cases rule: and_then_cases)
      case (stop r1)
      with piece show ?thesis by blast
    next
      case (go s2)
      have "evolves s s2" using piece go(1) .
      also have "evolves s2 (s2\<lparr>t_writes_posted := t_writes_posted s2 + 1\<rparr>)" by simp
      also have "evolves (s2\<lparr>t_writes_posted := t_writes_posted s2 + 1\<rparr>) s'"
        using "2.IH" [OF False refl go(2) "2.prems"(2)] .
      finally show ?thesis .
    qed
  qed (use 2 in simp)
qed simp

lemma tb_write_evolves:
  assumes "tb_write fuel s src off roff len timeout = Some (r, s')"
  shows "evolves s s'"
proof -
  obtain now s1 where n: "now_ns s = (now, s1)" by fastforce
  with assms now_ns_evolves [OF n] show ?thesis
    by (auto simp: tb_write_def split: if_splits dest!: write_loop_evolves [OF _ msg_max_le] intro: evolves_trans)
qed

text \<open>One header message after waiting for room for it.\<close>

lemma room_then_evolves:
  assumes "and_then (room fuel s n sends deadline) k = Some (r, s')"
    and "unat n \<le> 2 ^ 20" and "unat sends \<le> 2"
    and "\<And>s1. (flow_inv s1 \<Longrightarrow> length (w_sends s1) < 2 ^ 64 \<Longrightarrow> roomy s1 (unat n) (unat sends) 1) \<Longrightarrow>
      k s1 = Some (r, s') \<Longrightarrow> evolves s1 s'"
  shows "evolves s s'"
  using assms(1)
proof (cases rule: and_then_cases)
  case (go s1)
  note e = room_evolves(1) [OF go(1)] room_evolves(2) [OF go(1) refl]
  have "evolves s1 s'" by (rule assms(4) [OF _ go(2)]) (use e assms(2,3) in \<open>blast intro: has_room_roomy\<close>)
  with e(1) show ?thesis by (rule evolves_trans)
qed (auto dest: room_evolves)

lemma tb_signal_evolves:
  assumes "tb_signal fuel s roff value timeout = Some (r, s')"
  shows "evolves s s'"
proof -
  obtain now s1 where n: "now_ns s = (now, s1)" by fastforce
  from assms n have "and_then (room fuel s1 1 1 (now + timeout))
      (\<lambda>s2. Some (send_head s2 C_SIGNAL roff 8 value None)) = Some (r, s')" by (simp add: tb_signal_def)
  then have "evolves s1 s'"
    by (rule room_then_evolves) (auto dest: send_head_evolves)
  with now_ns_evolves [OF n] show ?thesis by (rule evolves_trans)
qed


text \<open>A message from the window itself, its header written just before it.\<close>

lemma post_win_evolves:
  assumes "post_send s (InWin a) len lkey False pl = (r, s')" and "unat len < 2 ^ 27"
    and "flow_inv s \<Longrightarrow> length (w_sends s) < 2 ^ 64 \<Longrightarrow> roomy s ((unat len + 4095) div 4096) 1 0"
  shows "evolves s s'"
proof (cases "r = 0")
  case True
  note p = post_send_sends [OF assms(1)]
  show ?thesis
  proof (rule evolvesI)
    assume f: "flow_inv s" "length (w_sends s') < 2 ^ 64"
    with p True have "length (w_sends s) < 2 ^ 64 - 1" by auto
    with post_win_step [of s a len lkey pl s' 0 0 0] assms f True show "flow_inv s'" by auto
  qed (use p True in auto)
qed (use assms post_send_fails in blast)

lemma post_headed_evolves:
  assumes p: "post_headed s src off bs len = (r, s')" and l: "length bs + unat len \<le> 4194304"
    and room: "flow_inv s \<Longrightarrow> length (w_sends s) < 2 ^ 64 \<Longrightarrow> roomy s ((length bs + unat len + 4095) div 4096) 1 0"
  shows "evolves s s'"
proof -
  define at where "at = off - of_nat (length bs)"
  define s1 where "s1 = store_win s at bs"
  have bs: "unat (of_nat (length bs) :: u64) = length bs"
    using l by (simp add: unat_of_nat take_bit_nat_eq_self)
  then have "unat (of_nat (length bs) + len) = length bs + unat len"
    using l by (subst unat_add_small) simp_all
  then have u: "unat (ucast (of_nat (length bs) + len) :: u32) = length bs + unat len"
    using l by (simp add: ucast_u32_of_u64)
  obtain q s2 where q: "post_send s1 (InWin (unat at)) (ucast (of_nat (length bs) + len)) (region_lkey src at) False
      (ucast len) = (q, s2)" by fastforce
  have "evolves s s1" by (simp add: s1_def)
  also have "evolves s1 s2"
  proof (rule post_win_evolves [OF q])
    assume "flow_inv s1" "length (w_sends s1) < 2 ^ 64"
    then have "flow_inv s" "length (w_sends s) < 2 ^ 64"
      by (simp_all add: s1_def store_win_def flow_inv_def entry_ok_def Let_def)
    from room [OF this] show "roomy s1 ((unat (ucast (of_nat (length bs) + len) :: u32) + 4095) div 4096) 1 0"
      unfolding u by (simp add: roomy_def s1_def store_win_def)
  qed (use u l in simp)
  finally have e: "evolves s s2" .
  moreover have "evolves s (s2\<lparr>t_tx_seq := t_tx_seq s2 + 1\<rparr>)" using e by (rule evolves_trans) simp
  then have "evolves s (wrote (s2\<lparr>t_tx_seq := t_tx_seq s2 + 1\<rparr>))" by (rule evolves_trans) simp
  ultimately show ?thesis
    using p q unfolding post_headed_def Let_def s1_def at_def by (auto split: if_splits)
qed

lemma tb_write_signal_evolves:
  assumes "tb_write_signal fuel s src off roff len soff value timeout = Some (r, s')"
  shows "evolves s s'"
proof -
  let ?bad = "off < WS_HEAD \<or> r_length src < off \<or> r_length src - off < len \<or> len = 0"
  let ?two = "msg_max s < len + WS_HEAD \<or> (off - WS_HEAD) div r_seg src \<noteq> (off + len - 1) div r_seg src"
  consider (bad) ?bad | (two) "\<not> ?bad" ?two | (one) "\<not> ?bad" "\<not> ?two" by blast
  then show ?thesis
  proof cases
    case bad
    with assms show ?thesis by (auto simp: tb_write_signal_def)
  next
    case two
    with assms have "and_then (tb_write fuel s src off roff len timeout) (\<lambda>s1.
        and_then (tb_signal fuel s1 soff value timeout) (\<lambda>s2. Some (0, s2))) = Some (r, s')"
      unfolding tb_write_signal_def if_not_P [OF two(1)] if_P [OF two(2)] by simp
    then show ?thesis
      by (elim and_then_cases) (auto dest!: tb_write_evolves tb_signal_evolves intro: evolves_trans)
  next
    case one
    obtain now s1 where n: "now_ns s = (now, s1)" by fastforce
    have "unat len \<le> unat (r_length src - off)" "off \<le> r_length src" "48 \<le> off"
      using one(1) by (simp_all add: word_le_nat_alt not_less)
    then have "unat len + 48 < 2 ^ 64"
      using unat_lt_64 [of "r_length src"] by (simp add: unat_sub_le word_le_nat_alt)
    then have l: "unat (48 + len) = 48 + unat len" by (subst unat_add_small) simp_all
    moreover have "unat (48 + len) \<le> unat (msg_max s)" using one(2) by (simp add: word_le_nat_alt not_less add.commute)
    ultimately have small: "48 + unat len \<le> 4194304" using msg_max_le [of s] by simp
    have pk: "unat (packets (48 + len)) = (48 + unat len + 4095) div 4096" using l small by (subst unat_packets) simp_all
    have k: "and_then (room fuel s1 (packets (WS_HEAD + len)) 1 (now + timeout))
        (\<lambda>s2. Some (post_headed s2 src off (ws_head s2 roff len soff value) len)) = Some (r, s')"
      using assms n unfolding tb_write_signal_def if_not_P [OF one(1)] if_not_P [OF one(2)] by simp
    have "evolves s1 s'"
    proof (rule room_then_evolves [OF k])
      show "unat (packets (48 + len)) \<le> 2 ^ 20" using pk small by simp
      fix s2 :: "'a link"
      assume room: "flow_inv s2 \<Longrightarrow> length (w_sends s2) < 2 ^ 64 \<Longrightarrow>
          roomy s2 (unat (packets (48 + len))) (unat (1 :: u32)) 1"
        and "Some (post_headed s2 src off (ws_head s2 roff len soff value) len) = Some (r, s')"
      then have "post_headed s2 src off (ws_head s2 roff len soff value) len = (r, s')" by simp
      then show "evolves s2 s'"
        by (rule post_headed_evolves) (use room small pk in \<open>auto simp: ws_head_def roomy_def\<close>)
    qed simp
    with now_ns_evolves [OF n] show ?thesis by (rule evolves_trans)
  qed
qed


text \<open>One staged message after waiting for room, as the bond's signals and inline writes send it.\<close>

lemma stage_op_evolves:
  assumes a: "and_then (room fuel s 1 1 deadline) (\<lambda>s2.
      and_then (Some (post_slot s2 (bs s2) pl)) (\<lambda>s3. Some (0, f (staged_sent s3)))) = Some (r, s')"
    and bs: "\<And>s. length (bs s) \<le> 4096" and f: "\<And>s :: 'b link. evolves s (f s)"
  shows "evolves s s'"
  using a
proof (rule room_then_evolves)
  fix s1 :: "'b link"
  assume room: "flow_inv s1 \<Longrightarrow> length (w_sends s1) < 2 ^ 64 \<Longrightarrow> roomy s1 (unat (1 :: u32)) (unat (1 :: u32)) 1"
    and k: "and_then (Some (post_slot s1 (bs s1) pl)) (\<lambda>s3. Some (0, f (staged_sent s3))) = Some (r, s')"
  obtain q s3 where p: "post_slot s1 (bs s1) pl = (q, s3)" by fastforce
  note e = stage_evolves [OF p bs]
  from k p show "evolves s1 s'"
    using e room f [of "staged_sent s3"] by (auto simp: and_then_def split: if_splits intro: evolves_trans)
qed simp_all

lemma low_words_length [simp]: "length (low_words xs) = length xs"
  by (simp add: low_words_def)

lemma tb_bond_signal_evolves:
  assumes "tb_bond_signal fuel s soff value seq need timeout = Some (r, s')"
  shows "evolves s s'"
proof -
  obtain now s1 where n: "now_ns s = (now, s1)" by fastforce
  have "s' = s \<or> evolves s1 s'"
    using assms n
    by (auto simp: tb_bond_signal_def Let_def split: option.splits if_splits
        dest!: stage_op_evolves [where f = "\<lambda>s. s"])
  with now_ns_evolves [OF n] show ?thesis by (auto intro: evolves_trans)
qed

lemma tb_bond_signal_n_evolves:
  assumes "tb_bond_signal_n fuel s soff value seq need links timeout = Some (r, s')"
  shows "evolves s s'"
proof -
  obtain now s1 where n: "now_ns s = (now, s1)" by fastforce
  have "unat links \<le> 24" if "\<not> 24 < links" using that by (simp add: word_less_nat_alt)
  then have "s' = s \<or> evolves s1 s'"
    using assms n
    by (auto simp: tb_bond_signal_n_def Let_def min_def split: option.splits if_splits
        dest!: stage_op_evolves [where f = "\<lambda>s. s"])
  with now_ns_evolves [OF n] show ?thesis by (auto intro: evolves_trans)
qed


lemma tb_bond_inline_n_evolves:
  assumes "tb_bond_inline_n fuel s src off roff len soff value seq need wait links flags timeout = Some (r, s')"
  shows "evolves s s'"
proof -
  obtain now s1 where n: "now_ns s = (now, s1)" by fastforce
  have size: "48 + 8 * unat links + unat len \<le> 4096"
    if "\<not> 24 < links" "\<not> ucast (4096 - (48 + links * 8)) < len"
  proof -
    have l: "unat links \<le> 24" using that(1) by (simp add: word_less_nat_alt)
    have "unat (links * 8) = unat links * 8" using l by (subst unat_mult_lem [THEN iffD1]) simp_all
    then have u: "unat (48 + links * 8) = 48 + unat links * 8" using l by (subst unat_add_small) simp_all
    then have "unat (4096 - (48 + links * 8)) = 4096 - (48 + unat links * 8)"
      using l by (subst unat_sub_le) (simp_all add: word_le_nat_alt)
    with that(2) l show ?thesis by (simp add: word_less_nat_alt not_less)
  qed
  have "s' = s \<or> evolves s1 s'"
    using assms n size
    by (auto simp: tb_bond_inline_n_def Let_def split: option.splits if_splits
        dest!: stage_op_evolves [where f = wrote])
  with now_ns_evolves [OF n] show ?thesis by (auto intro: evolves_trans)
qed

text \<open>The pieces of an N-link write: a staged header and the bytes after it.\<close>

lemma bond_piece_evolves:
  assumes k: "and_then (Some (post_slot s bs 0))
      (\<lambda>s2. and_then (Some (post_window_send s2 src off tk)) (\<lambda>s3. k (wrote (staged_sent s3)))) = Some (r, s')"
    and bs: "length bs \<le> 4096" and small: "unat tk \<le> 4194304"
    and room: "flow_inv s \<Longrightarrow> length (w_sends s) < 2 ^ 64 \<Longrightarrow> roomy s (1 + (unat tk + 4095) div 4096) 2 1"
    and rest: "\<And>s3. k (wrote (staged_sent s3)) = Some (r, s') \<Longrightarrow> evolves (wrote (staged_sent s3)) s'"
  shows "evolves s s'"
  using k
proof (cases rule: and_then_cases)
  case (stop r1)
  then show ?thesis using post_slot_sends [of s bs 0 r1 s'] by (intro evolvesI) auto
next
  case (go s2)
  then have p: "post_slot s bs 0 = (0, s2)" by simp
  have l: "unat (ucast tk :: u32) = unat tk" using small by (simp add: ucast_u32_of_u64)
  obtain q s3 where q: "post_window_send s2 src off tk = (q, s3)" by fastforce
  then have q': "post_send (staged_sent s2) (InWin (unat off)) (ucast tk) (region_lkey src off) False (ucast tk)
      = (q, staged_sent s3)" by (simp add: post_send_staged_sent post_window_send_def)
  have e: "evolves s (staged_sent s3)"
    by (rule stage_data_evolves [OF p q' bs]) (use l small room in simp_all)
  show ?thesis
  proof (cases "q = 0")
    case True
    have "evolves (staged_sent s3) (wrote (staged_sent s3))" by simp
    moreover have "evolves (wrote (staged_sent s3)) s'"
      using go(2) q True by (intro rest) (simp add: and_then_def)
    ultimately show ?thesis using e evolves_trans by blast
  next
    case False
    then have "s' = s3" "t_poisoned s3"
      using go(2) q post_send_sends [OF q [unfolded post_window_send_def]] by (auto simp: and_then_def)
    then show ?thesis using e by (simp add: evolves_def flow_ok_def staged_sent_def)
  qed
qed

lemma bond_write_loop_evolves:
  assumes "bond_write_loop fuel s src off roff len seq wait links flags mx deadline = Some (r, s')"
    and "unat mx \<le> 4194304" and "unat links \<le> 24"
  shows "evolves s s'"
  using assms
proof (induction fuel s src off roff len seq wait links flags mx deadline rule: bond_write_loop.induct)
  case (2 fuel s src off roff len seq wait links flags mx deadline)
  show ?case
  proof (cases "len = 0")
    case False
    let ?t = "take_in mx (r_seg src) off len"
    note small = take_in_msg [OF "2.prems"(2), of "r_seg src" off len]
    have pk: "unat (packets ?t) = (unat ?t + 4095) div 4096" using small by (intro unat_packets) simp
    then have pk1: "unat (1 + packets ?t) = 1 + (unat ?t + 4095) div 4096" "unat (1 + packets ?t) \<le> 2 ^ 20"
      using small by (subst unat_add_small; simp)+
    have w: "unat links \<le> 24" by (rule "2.prems")
    note IH = "2.IH" [OF False refl refl]
    define h where "h s1 = put_head \<lparr>h_magic = MAGIC, h_seq = t_tx_seq s1, h_kind = C_BOND_WRITE_N,
      h_pad = ucast (push_bit 8 links OR flags), h_len = ucast ?t, h_off = roff, h_value = seq\<rparr> @
      put_words (low_words (take (unat links) wait))" for s1 :: "'a link"
    define k where "k s3 = bond_write_loop fuel s3 src (off + ?t) (roff + ?t) (len - ?t) seq wait links flags mx deadline"
      for s3 :: "'a link"
    from "2.prems"(1) False have "and_then (room fuel s (1 + packets ?t) 2 deadline) (\<lambda>s1.
        and_then (Some (post_slot s1 (h s1) 0)) (\<lambda>s2. and_then (Some (post_window_send s2 src off ?t))
          (\<lambda>s3. k (wrote (staged_sent s3))))) = Some (r, s')"
      by (simp add: Let_def h_def k_def)
    then show ?thesis
    proof (rule room_then_evolves)
      fix s1 :: "'a link"
      assume room: "flow_inv s1 \<Longrightarrow> length (w_sends s1) < 2 ^ 64 \<Longrightarrow>
          roomy s1 (unat (1 + packets ?t)) (unat (2 :: u32)) 1"
      assume "and_then (Some (post_slot s1 (h s1) 0)) (\<lambda>s2. and_then (Some (post_window_send s2 src off ?t))
          (\<lambda>s3. k (wrote (staged_sent s3)))) = Some (r, s')"
      then show "evolves s1 s'"
      proof (rule bond_piece_evolves [OF _ _ small])
        show "length (h s1) \<le> 4096" using w by (simp add: h_def min_def)
        show "roomy s1 (1 + (unat ?t + 4095) div 4096) 2 1" if "flow_inv s1" "length (w_sends s1) < 2 ^ 64"
          using room [OF that] pk1 by simp
        show "evolves (wrote (staged_sent s3)) s'" if "k (wrote (staged_sent s3)) = Some (r, s')" for s3
          using IH that "2.prems" by (simp add: k_def)
      qed
    qed (use pk1 in simp_all)
  qed (use 2 in simp)
qed simp


lemma tb_bond_write_n_evolves:
  assumes "tb_bond_write_n fuel s src off roff len seq wait links flags timeout = Some (r, s')"
  shows "evolves s s'"
proof -
  obtain now s1 where n: "now_ns s = (now, s1)" by fastforce
  have "unat links \<le> 24" if "\<not> 24 < links" using that by (simp add: word_less_nat_alt)
  with assms n have "s' = s \<or> evolves s1 s'"
    by (auto simp: tb_bond_write_n_def split: option.splits if_splits
        dest!: bond_write_loop_evolves [OF _ msg_max_le])
  with now_ns_evolves [OF n] show ?thesis by (auto intro: evolves_trans)
qed

text \<open>The checks of the bond's window messages, without wrap-around.\<close>

lemma window_room:
  assumes "flow_inv s" and "length (w_sends s) < 2 ^ 64" and "unat len \<le> 4194304"
    and "t_packets s + packets len + 1 \<le> t_depth s" and "t_tx_posted s - t_tx_done s + 2 \<le> TB_SEND_WR"
  shows "roomy s ((unat len + 4095) div 4096) 1 0"
proof -
  let ?S = "w_sends s" and ?d = "unat (t_tx_done s)"
  have inv: "unat (t_tx_posted s) = length ?S" "?d \<le> length ?S" "length ?S - ?d \<le> 1024"
    "unat (t_packets s) \<le> unat (t_depth s)" "unat (t_depth s) \<le> 2 ^ 30" "nst (drop ?d ?S) \<le> 64"
    using assms(1) by (simp_all add: flow_inv_def Let_def)
  have pk: "unat (packets len) = (unat len + 4095) div 4096" using assms(3) by (intro unat_packets) simp
  have a: "unat (t_packets s + packets len) = unat (t_packets s) + (unat len + 4095) div 4096"
    using inv pk assms(3) by (subst unat_add_small) simp_all
  then have "unat (t_packets s + packets len + 1) = unat (t_packets s) + (unat len + 4095) div 4096 + 1"
    using inv assms(3) by (subst unat_add_small) simp_all
  moreover have b: "unat (t_tx_posted s - t_tx_done s) = length ?S - ?d"
    using inv by (subst unat_sub_le) (simp_all add: word_le_nat_alt)
  then have "unat (t_tx_posted s - t_tx_done s + 2) = length ?S - ?d + 2"
    using inv by (subst unat_add_small) simp_all
  ultimately show ?thesis using assms(4,5) inv by (simp add: roomy_def word_le_nat_alt)
qed

lemma can_bond_write_signal_room:
  assumes "tb_can_bond_write_signal s (Some reg) off len = 1" and "flow_inv s" and "length (w_sends s) < 2 ^ 64"
  shows "64 + unat len \<le> 4194304" and "roomy s ((64 + unat len + 4095) div 4096) 1 0"
proof -
  have c: "len \<le> msg_max s" "64 \<le> msg_max s - len" "t_packets s + packets (64 + len) + 1 \<le> t_depth s"
    "t_tx_posted s - t_tx_done s + 2 \<le> 1024"
    using assms(1) by (auto simp: tb_can_bond_write_signal_def not_less split: if_splits)
  then have l: "64 + unat len \<le> unat (msg_max s)" by (simp add: word_le_nat_alt unat_sub_le)
  then show small: "64 + unat len \<le> 4194304" using msg_max_le [of s] by simp
  then have u: "unat (64 + len) = 64 + unat len" by (subst unat_add_small) simp_all
  show "roomy s ((64 + unat len + 4095) div 4096) 1 0"
    using window_room [OF assms(2,3) _ c(3,4)] u small by simp
qed

lemma length_bond_ws_head: "length (bond_ws_head s roff len soff value seq need tail flags wait) \<le> 64"
  by (simp add: bond_ws_head_def min_def)


lemma roomy_mono: "roomy s n k m \<Longrightarrow> n' \<le> n \<Longrightarrow> k' \<le> k \<Longrightarrow> m' \<le> m \<Longrightarrow> roomy s n' k' m'"
  by (auto simp: roomy_def)

lemma msg_max_cong: "evolves s s' \<Longrightarrow> msg_max s' = msg_max s"
  by (simp add: evolves_def msg_max_def)

lemma can_bond_write_signal_stable:
  assumes "0 \<le> tb_can_bond_write_signal s (Some reg) off len" and "tb_can_bond_write_signal s (Some reg) off len \<noteq> 2"
    and "msg_max s' = msg_max s"
  shows "tb_can_bond_write_signal s' (Some reg) off len \<in> {-1, 0, 1}"
proof -
  have "\<not> (off < 64 \<or> msg_max s < len \<or> msg_max s - len < 64 \<or>
      (off - 64) div r_seg reg \<noteq> (off + len - 1) div r_seg reg)"
    using assms(1,2) by (auto simp: tb_can_bond_write_signal_def split: if_splits)
  then show ?thesis unfolding tb_can_bond_write_signal_def assms(3) by simp
qed

lemma tb_bond_write_signal_evolves:
  assumes "tb_bond_write_signal fuel s src off roff len soff value seq need tail flags wait timeout = Some (r, s')"
  shows "evolves s s'"
proof -
  obtain now s1 where n: "now_ns s = (now, s1)" by fastforce
  let ?can = "\<lambda>s. tb_can_bond_write_signal s src off len"
  have "s' = s \<or> (\<exists>reg need. src = Some reg \<and> (0 \<le> ?can s \<and> ?can s \<noteq> 2) \<and>
      and_then (wait_loop fuel (\<lambda>s. ?can s \<noteq> 0) ''no room for a bonded write-and-signal within the timeout''
        (now + timeout) 0 s1) (\<lambda>s2. if ?can s2 < 0 then Some (-1, s2)
          else Some (post_headed s2 reg off (bond_ws_head s2 roff len soff value seq need tail flags wait) len))
      = Some (r, s'))"
    using assms n by (auto simp: tb_bond_write_signal_def Let_def split: option.splits if_splits)
  then consider "s' = s" | reg need where "src = Some reg" "0 \<le> ?can s \<and> ?can s \<noteq> 2"
      "and_then (wait_loop fuel (\<lambda>s. ?can s \<noteq> 0) ''no room for a bonded write-and-signal within the timeout''
        (now + timeout) 0 s1) (\<lambda>s2. if ?can s2 < 0 then Some (-1, s2)
          else Some (post_headed s2 reg off (bond_ws_head s2 roff len soff value seq need tail flags wait) len))
      = Some (r, s')" by blast
  then show ?thesis
  proof cases
    case (2 reg need)
    from 2(3) have "evolves s1 s'"
    proof (cases rule: and_then_cases)
      case (stop r1)
      then show ?thesis by (auto dest: wait_loop_evolves)
    next
      case (go s2)
      from go(1) have e: "evolves s1 s2" and c: "?can s2 \<noteq> 0" by (auto dest: wait_loop_evolves)
      have "msg_max s2 = msg_max s"
        using msg_max_cong [OF e] msg_max_cong [OF now_ns_evolves [OF n]] by simp
      then have "?can s2 \<in> {-1, 0, 1}" using can_bond_write_signal_stable [of s reg off len s2] 2(1,2) by auto
      with c have c: "?can s2 < 0 \<or> ?can s2 = 1" by auto
      show ?thesis
      proof (cases "?can s2 < 0")
        case True
        with go(2) e show ?thesis by simp
      next
        case False
        let ?h = "bond_ws_head s2 roff len soff value seq need tail flags wait"
        have c1: "tb_can_bond_write_signal s2 (Some reg) off len = 1" using False c 2(1) by simp
        have h: "length ?h \<le> 64" by (rule length_bond_ws_head)
        have p: "post_headed s2 reg off ?h len = (r, s')" using go(2) False by simp
        have l: "64 + unat len \<le> 4194304"
        proof -
          have "len \<le> msg_max s2" "64 \<le> msg_max s2 - len"
            using c1 by (auto simp: tb_can_bond_write_signal_def not_less split: if_splits)
          then show ?thesis using msg_max_le [of s2] by (simp add: word_le_nat_alt unat_sub_le)
        qed
        have "evolves s2 s'"
        proof (rule post_headed_evolves [OF p])
          show "length ?h + unat len \<le> 4194304" using l h by simp
          show "roomy s2 ((length ?h + unat len + 4095) div 4096) 1 0" if "flow_inv s2" "length (w_sends s2) < 2 ^ 64"
            using can_bond_write_signal_room(2) [OF c1 that] by (rule roomy_mono) (use h in \<open>auto intro: div_le_mono\<close>)
        qed
        with e show ?thesis by (rule evolves_trans)
      qed
    qed
    with now_ns_evolves [OF n] show ?thesis by (rule evolves_trans)
  qed simp
qed

lemma tb_bond_tail_evolves:
  assumes "tb_bond_tail s src off len = (r, s')"
  shows "evolves s s'"
proof (cases "tb_can_bond_tail s src off len = 1")
  case True
  then obtain reg where reg: "src = Some reg" by (cases src) (auto simp: tb_can_bond_tail_def)
  have c: "len \<le> msg_max s" "t_packets s + packets len + 1 \<le> t_depth s" "t_tx_posted s - t_tx_done s + 2 \<le> 1024"
    using True reg by (auto simp: tb_can_bond_tail_def not_less split: if_splits)
  then have small: "unat len \<le> 4194304" using msg_max_le [of s] by (simp add: word_le_nat_alt)
  then have u: "unat (ucast len :: u32) = unat len" by (simp add: ucast_u32_of_u64)
  obtain q s1 where q: "post_send s (InWin (unat off)) (ucast len) (region_lkey reg off) False (ucast len) = (q, s1)"
    by fastforce
  have "evolves s s1"
    by (rule post_win_evolves [OF q]) (use u small window_room [OF _ _ small c(2,3)] in simp_all)
  moreover have "evolves s1 (s1\<lparr>t_tx_seq := t_tx_seq s1 + 1\<rparr>)" by simp
  moreover have "evolves (s1\<lparr>t_tx_seq := t_tx_seq s1 + 1\<rparr>) (wrote (s1\<lparr>t_tx_seq := t_tx_seq s1 + 1\<rparr>))" by simp
  ultimately have "evolves s s1" "evolves s (wrote (s1\<lparr>t_tx_seq := t_tx_seq s1 + 1\<rparr>))"
    by (blast intro: evolves_trans)+
  then show ?thesis
    using assms True q reg by (auto simp: tb_bond_tail_def post_window_send_def Let_def split: if_splits)
qed (use assms in \<open>auto simp: tb_bond_tail_def Let_def split: if_splits\<close>)

lemma tb_fence_evolves:
  assumes "tb_fence fuel s timeout = Some (r, s')"
  shows "evolves s s'"
proof -
  obtain now s1 where n: "now_ns s = (now, s1)" by fastforce
  define s2 where "s2 = s1\<lparr>t_fences := t_fences s1 + 1\<rparr>"
  define k :: "'a link \<Rightarrow> _" where "k = wait_loop fuel (\<lambda>s. \<not> sint (t_fence_acked s - (t_fences s1 + 1)) < 0)
      ''the peer did not acknowledge a fence within the timeout'' (now + timeout) 0"
  have "and_then (room fuel s2 1 1 (now + timeout)) (\<lambda>s3.
      and_then (Some (send_head s3 C_FENCE 0 0 (ucast (t_fences s1 + 1)) None)) k) = Some (r, s')"
    using assms n by (simp add: tb_fence_def Let_def s2_def k_def)
  then have "evolves s2 s'"
    by (rule room_then_evolves)
      (auto elim!: and_then_cases simp: k_def dest!: wait_loop_evolves send_head_evolves intro: evolves_trans)
  moreover have "evolves s1 s2" by (simp add: s2_def)
  ultimately show ?thesis using now_ns_evolves [OF n] by (blast intro: evolves_trans)
qed


subsection \<open>Reserving a whole write\<close>

text \<open>What one piece of a write costs in packets and in requests; each costs one staging slot.\<close>

definition cost_n :: "u64 \<Rightarrow> nat" where
  "cost_n tk = (if tk \<le> INLINE_MAX then 1 else 1 + (unat tk + 4095) div 4096)"

definition cost_k :: "u64 \<Rightarrow> nat" where
  "cost_k tk = (if tk \<le> INLINE_MAX then 1 else 2)"

lemma can_loop_counts:
  assumes "can_loop s seg mx off len n k m = Some (n', k', m')"
    and "unat (t_depth s) \<le> 2 ^ 30" and "mx \<noteq> 0" and "seg \<noteq> 0" and "unat mx \<le> 4194304"
    and "unat n \<le> 2 ^ 30" and "unat k \<le> 1024" and "unat m \<le> 64"
  defines "cs \<equiv> map snd (chop (take_in mx seg) off len)"
  shows "unat n' = unat n + sum_list (map cost_n cs) \<and> unat k' = unat k + sum_list (map cost_k cs) \<and>
    unat m' = unat m + length cs \<and> unat n' \<le> 2 ^ 30 \<and> unat k' \<le> 1024 \<and> unat m' \<le> 64"
  using assms(1-8) unfolding cs_def
proof (induction s seg mx off len n k m rule: can_loop.induct)
  case (1 s seg mx off len n k m)
  show ?case
  proof (cases "len = 0")
    case True
    with "1.prems" show ?thesis by (simp add: can_loop.simps)
  next
    case False
    define t where "t = take_in mx seg off len"
    define dn where "dn = (if t \<le> 4064 then 1 else 1 + packets t)"
    define dk where "dk = (if t \<le> 4064 then 1 else 2 :: u32)"
    have step: "chop (take_in mx seg) off len = (off, t) # chop (take_in mx seg) (off + t) (len - t)"
      unfolding t_def using cutter.chop_step [OF cutter_take_in] "1.prems"(3,4) False by blast
    have small: "unat t \<le> 4194304" unfolding t_def using "1.prems" by (intro take_in_msg)
    then have pk: "unat (packets t) = (unat t + 4095) div 4096" by (intro unat_packets) simp
    then have "unat (1 + packets t) = 1 + (unat t + 4095) div 4096" using small by (subst unat_add_small) simp_all
    then have dn: "unat dn = cost_n t" "cost_n t \<le> 1025" and dk: "unat dk = cost_k t" "cost_k t \<le> 2"
      using div_le_mono [of "unat t + 4095" "4194304 + 4095" 4096] small
      by (simp_all add: dn_def dk_def cost_n_def cost_k_def)
    have n: "unat (n + dn) = unat n + cost_n t" using "1.prems" dn by (subst unat_add_small) simp_all
    have k: "unat (k + dk) = unat k + cost_k t" using "1.prems" dk by (subst unat_add_small) simp_all
    have m: "unat (m + 1) = unat m + 1" using "1.prems" by (subst unat_add_small) simp_all
    have g: "\<not> (t_depth s \<le> n + dn \<or> 1024 \<le> k + dk \<or> 64 \<le> m + 1)"
      and rest: "can_loop s seg mx (off + t) (len - t) (n + dn) (k + dk) (m + 1) = Some (n', k', m')"
      using "1.prems"(1) False unfolding t_def dn_def dk_def
      by (auto simp: can_loop.simps [of s seg mx off len] Let_def split: if_splits)
    have "unat (n + dn) \<le> 2 ^ 30" "unat (k + dk) \<le> 1024" "unat (m + 1) \<le> 64"
      using g "1.prems"(2) by (simp_all add: word_le_nat_alt not_le)
    note IH = "1.IH" [OF False t_def _ _ _ _, of "n + dn" "k + dk" "m + 1"]
    have "unat n' = unat (n + dn) + sum_list (map cost_n (map snd (chop (take_in mx seg) (off + t) (len - t)))) \<and>
      unat k' = unat (k + dk) + sum_list (map cost_k (map snd (chop (take_in mx seg) (off + t) (len - t)))) \<and>
      unat m' = unat (m + 1) + length (map snd (chop (take_in mx seg) (off + t) (len - t))) \<and>
      unat n' \<le> 2 ^ 30 \<and> unat k' \<le> 1024 \<and> unat m' \<le> 64"
      by (rule IH) (use g rest "1.prems" \<open>unat (n + dn) \<le> 2 ^ 30\<close> \<open>unat (k + dk) \<le> 1024\<close> \<open>unat (m + 1) \<le> 64\<close> in
          \<open>simp_all add: dn_def dk_def\<close>)
    then show ?thesis using n k m by (simp add: step)
  qed
qed

lemma can_write_room:
  assumes "tb_can_write s (Some src) off len = 1" and "flow_inv s" and "length (w_sends s) < 2 ^ 64"
  defines "cs \<equiv> map snd (chop (take_in (msg_max s) (r_seg src)) off len)"
  shows "roomy s (sum_list (map cost_n cs)) (sum_list (map cost_k cs)) (length cs)" and "length cs \<le> 64"
proof -
  let ?S = "w_sends s" and ?d = "unat (t_tx_done s)"
  obtain n k m where c: "can_loop s (r_seg src) (msg_max s) off len 0 0 0 = Some (n, k, m)"
    and w: "t_packets s + n + 1 \<le> t_depth s" "t_tx_posted s - t_tx_done s + ucast k + 1 \<le> 1024"
      "t_staged s - t_unstaged s + ucast m + 1 \<le> 64" and nz: "r_seg src \<noteq> 0" "msg_max s \<noteq> 0"
    using assms(1) by (auto simp: tb_can_write_def split: option.splits if_splits)
  have inv: "unat (t_tx_posted s) = length ?S" "?d \<le> length ?S" "length ?S - ?d \<le> 1024"
    "unat (t_packets s) \<le> unat (t_depth s)" "unat (t_depth s) \<le> 2 ^ 30"
    "unat (t_staged s) = nst ?S" "unat (t_unstaged s) = nst (take ?d ?S)" "nst (drop ?d ?S) \<le> 64"
    using assms(2) by (simp_all add: flow_inv_def Let_def)
  note cnt = can_loop_counts [OF c inv(5) nz(2,1) msg_max_le, folded cs_def, simplified]
  then have bnd: "unat n \<le> 2 ^ 30" "unat k \<le> 1024" "unat m \<le> 64" by simp_all
  have "unat (t_packets s + n) = unat (t_packets s) + unat n" using inv bnd by (subst unat_add_small) simp_all
  moreover from this have "unat (t_packets s + n + 1) = unat (t_packets s) + unat n + 1"
    using inv bnd by (subst unat_add_small) simp_all
  ultimately have a: "unat (t_packets s) + unat n + 1 \<le> unat (t_depth s)" using w(1) by (simp add: word_le_nat_alt)
  have p: "unat (t_tx_posted s - t_tx_done s) = length ?S - ?d"
    using inv by (subst unat_sub_le) (simp_all add: word_le_nat_alt)
  then have "unat (t_tx_posted s - t_tx_done s + ucast k) = length ?S - ?d + unat k"
    using inv bnd by (subst unat_add_small) simp_all
  moreover from this have "unat (t_tx_posted s - t_tx_done s + ucast k + 1) = length ?S - ?d + unat k + 1"
    using inv bnd by (subst unat_add_small) simp_all
  ultimately have b: "length ?S - ?d + unat k + 1 \<le> 1024" using w(2) by (simp add: word_le_nat_alt)
  have q: "unat (t_staged s - t_unstaged s) = nst (drop ?d ?S)"
    using inv nst_split [of ?S ?d] by (subst unat_sub_le) (simp_all add: word_le_nat_alt)
  then have "unat (t_staged s - t_unstaged s + ucast m) = nst (drop ?d ?S) + unat m"
    using inv bnd by (subst unat_add_small) simp_all
  moreover from this have "unat (t_staged s - t_unstaged s + ucast m + 1) = nst (drop ?d ?S) + unat m + 1"
    using inv bnd by (subst unat_add_small) simp_all
  ultimately have "nst (drop ?d ?S) + unat m + 1 \<le> 64" using w(3) by (simp add: word_le_nat_alt)
  with a b cnt show "roomy s (sum_list (map cost_n cs)) (sum_list (map cost_k cs)) (length cs)" "length cs \<le> 64"
    by (simp_all add: roomy_def)
qed


lemma send_piece_step:
  assumes p: "send_piece s src off roff tk = Some (0, s')" and inv: "flow_inv s"
    and long: "length (w_sends s') < 2 ^ 64" and small: "unat tk \<le> 4194304"
    and room: "roomy s (cost_n tk + n) (cost_k tk + k) (Suc m)"
  shows "flow_inv s' \<and> roomy s' n k m"
proof (cases "tk \<le> INLINE_MAX")
  case True
  then have l: "unat (ucast tk :: u32) = unat tk" "unat tk \<le> 4064" by (simp_all add: word_le_nat_alt ucast_u32_of_u64)
  let ?bs = "mem_read (w_win s) (unat off) (unat tk)"
  let ?h = "put_head (plain_head s C_INLINE roff (ucast tk) 0) @ ?bs"
  from p True obtain s1 where q: "post_slot s ?h (ucast tk) = (0, s1)" and s': "s' = staged_sent s1"
    using l by (auto simp: send_piece_def send_head_post_slot split: prod.splits if_splits)
  from post_slot_sends [OF q] long s' have "length (w_sends s) < 2 ^ 64 - 1" by (auto simp: staged_sent_def)
  from post_slot_step [OF q inv this, of n k m] room True l s' show ?thesis by (simp add: cost_n_def cost_k_def)
next
  case False
  from p have "and_then (Some (send_head s C_WRITE roff (ucast tk) 0 None))
      (\<lambda>s1. Some (post_window_send s1 src off tk)) = Some (0, s')" using False by (simp add: send_piece_def)
  then obtain s1 where h: "send_head s C_WRITE roff (ucast tk) 0 None = (0, s1)"
    and d: "post_send s1 (InWin (unat off)) (ucast tk) (region_lkey src off) False (ucast tk) = (0, s')"
    by (auto elim!: and_then_cases simp: post_window_send_def)
  obtain s0 where q: "post_slot s (put_head (plain_head s C_WRITE roff (ucast tk) 0)) 0 = (0, s0)" and s1: "s1 = staged_sent s0"
    using h by (auto simp: send_head_post_slot split: prod.splits if_splits)
  have l: "unat (ucast tk :: u32) = unat tk" using small by (simp add: ucast_u32_of_u64)
  from post_send_sends [OF d] long have l1: "length (w_sends s1) < 2 ^ 64 - 1" by auto
  with post_slot_sends [OF q] s1 have l0: "length (w_sends s) < 2 ^ 64 - 1" by (auto simp: staged_sent_def)
  have r: "roomy s (Suc ((unat tk + 4095) div 4096 + n)) (Suc (Suc k)) (Suc m)"
    using room False by (simp add: cost_n_def cost_k_def)
  from post_slot_step [OF q inv l0 r] s1
  have "flow_inv s1" "roomy s1 ((unat tk + 4095) div 4096 + n) (Suc k) m" by simp_all
  then show ?thesis using post_win_step [OF d _ l1] l small by simp
qed

text \<open>
  What a piece does whatever room there is: it always returns, it fails only by failing the link,
  and it adds requests.
\<close>

lemma send_head_sends:
  assumes "send_head s kind off len value bytes = (r, s')"
  shows "(r = 0 \<or> r = -1 \<and> t_poisoned s') \<and> (t_poisoned s \<longrightarrow> t_poisoned s' \<and> t_why s' = t_why s) \<and>
    (r = 0 \<longrightarrow> t_poisoned s' = t_poisoned s) \<and> prefix (w_sends s) (w_sends s') \<and>
    w_poll s' = w_poll s \<and> t_depth s' = t_depth s \<and> t_peer_slots s' = t_peer_slots s \<and> w_win s' = w_win s"
proof -
  obtain ring len' pl where h: "send_head s kind off len value bytes =
      (case post_send (s\<lparr>t_ring := ring\<rparr>) (InRing (stage_slot s)) len' (t_ring_lkey s) True pl of
        (q, s3) \<Rightarrow> if q \<noteq> 0 then (-1, s3) else (0, s3\<lparr>t_tx_seq := t_tx_seq s3 + 1, t_staged := t_staged s3 + 1\<rparr>))"
    by (cases bytes) (simp_all add: send_head_def Let_def)
  obtain q s3 where p: "post_send (s\<lparr>t_ring := ring\<rparr>) (InRing (stage_slot s)) len' (t_ring_lkey s) True pl = (q, s3)"
    by fastforce
  have "r = (if q \<noteq> 0 then -1 else 0) \<and>
      s' = (if q \<noteq> 0 then s3 else s3\<lparr>t_tx_seq := t_tx_seq s3 + 1, t_staged := t_staged s3 + 1\<rparr>)"
    using assms unfolding h p by (auto split: if_splits)
  then show ?thesis using post_send_sends [OF p] by (cases "q = 0") simp_all
qed

lemma send_piece_result:
  obtains r s' where "send_piece s src off roff tk = Some (r, s')"
    "r = 0 \<or> r = -1 \<and> t_poisoned s'" "t_poisoned s \<longrightarrow> t_poisoned s' \<and> t_why s' = t_why s"
    "r = 0 \<longrightarrow> t_poisoned s' = t_poisoned s" "prefix (w_sends s) (w_sends s')" "w_poll s' = w_poll s"
    "t_depth s' = t_depth s" "t_peer_slots s' = t_peer_slots s" "w_win s' = w_win s"
proof (cases "tk \<le> INLINE_MAX")
  case True
  obtain r s' where h: "send_head s C_INLINE roff (ucast tk) 0 (Some (mem_read (w_win s) (unat off) (unat tk))) = (r, s')"
    by fastforce
  from send_head_sends [OF h] show ?thesis by (intro that [of r s']) (auto simp: send_piece_def True h)
next
  case False
  obtain r1 s1 where h: "send_head s C_WRITE roff (ucast tk) 0 None = (r1, s1)" by fastforce
  obtain r2 s2 where d: "post_window_send s1 src off tk = (r2, s2)" by fastforce
  note a = send_head_sends [OF h] and b = post_send_sends [OF d [unfolded post_window_send_def]]
  show ?thesis
  proof (cases "r1 = 0")
    case True
    have "prefix (w_sends s) (w_sends s2)"
      using a b by (cases "r2 = 0") (auto intro: prefix_order.trans [of _ "w_sends s1"])
    then show ?thesis using a b True
      by (intro that [of r2 s2]) (auto simp: send_piece_def False h d and_then_def)
  next
    case r1: False
    then show ?thesis using a by (intro that [of r1 s1]) (auto simp: send_piece_def False h and_then_def)
  qed
qed


lemma writes_posted_flow [simp]:
  "flow_inv (s\<lparr>t_writes_posted := a\<rparr>) = flow_inv s" "roomy (s\<lparr>t_writes_posted := a\<rparr>) n k m = roomy s n k m"
  by (simp_all add: flow_inv_def entry_ok_def roomy_def Let_def)

lemma try_loop_result:
  assumes "try_loop fuel s src off roff len mx = Some (r, s')" and "mx \<noteq> 0" and "r_seg src \<noteq> 0"
    and "unat mx \<le> 4194304"
  defines "cs \<equiv> map snd (chop (take_in mx (r_seg src)) off len)"
  shows "(r = 0 \<or> r = -1 \<and> t_poisoned s') \<and> (t_poisoned s \<longrightarrow> t_poisoned s' \<and> t_why s' = t_why s) \<and>
    prefix (w_sends s) (w_sends s') \<and> w_poll s' = w_poll s \<and> t_depth s' = t_depth s \<and>
    t_peer_slots s' = t_peer_slots s \<and> w_win s' = w_win s \<and>
    (flow_inv s \<and> roomy s (sum_list (map cost_n cs)) (sum_list (map cost_k cs)) (length cs) \<and>
      length (w_sends s') < 2 ^ 64 \<and> r = 0 \<longrightarrow> flow_inv s')"
  using assms(1-4) unfolding cs_def
proof (induction fuel s src off roff len mx rule: try_loop.induct)
  case (2 fuel s src off roff len mx)
  show ?case
  proof (cases "len = 0")
    case True
    with "2.prems" show ?thesis by auto
  next
    case False
    let ?t = "take_in mx (r_seg src) off len"
    have step: "chop (take_in mx (r_seg src)) off len = (off, ?t) # chop (take_in mx (r_seg src)) (off + ?t) (len - ?t)"
      using cutter.chop_step [OF cutter_take_in] "2.prems"(2,3) False by blast
    obtain q s1 where p: "send_piece s src off roff ?t = Some (q, s1)" and
      a: "q = 0 \<or> q = -1 \<and> t_poisoned s1" "t_poisoned s \<longrightarrow> t_poisoned s1 \<and> t_why s1 = t_why s"
        "prefix (w_sends s) (w_sends s1)" "w_poll s1 = w_poll s" "t_depth s1 = t_depth s"
        "t_peer_slots s1 = t_peer_slots s" "w_win s1 = w_win s"
      by (rule send_piece_result [of s src off roff ?t])
    show ?thesis
    proof (cases "q = 0")
      case q: False
      then have "r = -1" "s' = s1" using "2.prems"(1) False p by (simp_all add: Let_def and_then_def)
      then show ?thesis using a q by simp
    next
      case True
      define s2 where "s2 = s1\<lparr>t_writes_posted := t_writes_posted s1 + 1\<rparr>"
      have rest: "try_loop fuel s2 src (off + ?t) (roff + ?t) (len - ?t) mx = Some (r, s')"
        using "2.prems"(1) False p True by (simp add: Let_def and_then_def s2_def)
      note IH = "2.IH" [OF False refl rest [unfolded s2_def] "2.prems"(2-4), folded s2_def]
      have pre: "prefix (w_sends s1) (w_sends s')" using IH by (simp add: s2_def)
      have "flow_inv s'" if f: "flow_inv s" "length (w_sends s') < 2 ^ 64" "r = 0" and
        rm: "roomy s (sum_list (map cost_n (map snd (chop (take_in mx (r_seg src)) off len))))
          (sum_list (map cost_k (map snd (chop (take_in mx (r_seg src)) off len))))
          (length (map snd (chop (take_in mx (r_seg src)) off len)))"
      proof -
        have l: "length (w_sends s1) < 2 ^ 64" using prefix_length_le [OF pre] f(2) by simp
        from rm have rm': "roomy s (cost_n ?t + sum_list (map cost_n (map snd (chop (take_in mx (r_seg src)) (off + ?t) (len - ?t)))))
          (cost_k ?t + sum_list (map cost_k (map snd (chop (take_in mx (r_seg src)) (off + ?t) (len - ?t)))))
          (Suc (length (map snd (chop (take_in mx (r_seg src)) (off + ?t) (len - ?t)))))"
          unfolding step by simp
        from send_piece_step [OF p [unfolded True] f(1) l take_in_msg [OF "2.prems"(4)] rm']
        have "flow_inv s2 \<and> roomy s2 (sum_list (map cost_n (map snd (chop (take_in mx (r_seg src)) (off + ?t) (len - ?t)))))
          (sum_list (map cost_k (map snd (chop (take_in mx (r_seg src)) (off + ?t) (len - ?t)))))
          (length (map snd (chop (take_in mx (r_seg src)) (off + ?t) (len - ?t))))"
          by (simp add: s2_def)
        then show ?thesis using IH f by blast
      qed
      then show ?thesis using a IH pre by (auto simp: s2_def intro: prefix_order.trans)
    qed
  qed
qed simp

lemma tb_write_try_evolves:
  assumes "tb_write_try fuel s src off roff len = Some (r, s')"
  shows "evolves s s'"
proof (cases "- 1 - roff < len \<or> tb_can_write s src off len \<le> 0")
  case True
  with assms show ?thesis by (auto simp: tb_write_try_def Let_def split: if_splits)
next
  case False
  then obtain reg where reg: "src = Some reg" by (cases src) (auto simp: tb_can_write_def)
  with False have can: "tb_can_write s (Some reg) off len = 1"
    by (auto simp: tb_can_write_def split: if_splits option.splits)
  then have nz: "r_seg reg \<noteq> 0" "msg_max s \<noteq> 0" "\<not> t_poisoned s"
    by (auto simp: tb_can_write_def split: if_splits)
  from assms False reg have l: "try_loop fuel s reg off roff len (msg_max s) = Some (r, s')"
    by (simp add: tb_write_try_def Let_def)
  note t = try_loop_result [OF l nz(2,1) msg_max_le]
  show ?thesis
  proof (rule evolvesI)
    assume f: "flow_inv s" "length (w_sends s') < 2 ^ 64" "\<not> t_poisoned s'"
    have "prefix (w_sends s) (w_sends s')" using t by blast
    then have "length (w_sends s) < 2 ^ 64" using f(2) prefix_length_le by fastforce
    from can_write_room(1) [OF can f(1) this] t f show "flow_inv s'" by blast
  qed (use t in blast)+
qed

end
