(* ===== verification/Link_Tb_Rx.thy ===== *)
theory Link_Tb_Rx
  imports Link_Tb_Flow
begin

section \<open>What the peer can do to this end\<close>

text \<open>
  The receive side, for any bytes in the ring: a message changes the window only inside what
  \<open>tb_accept\<close> allows, whatever the hooks of a bond do within their contract. The contract is the
  locale \<open>rx_hooks\<close>; it is interpreted for a link without a bond here and for the bond of the
  fabric library in theory \<open>Bond_Rx\<close>.
\<close>

lemma length_copy_out [simp]: "length (copy_out s first len) = unat len"
proof -
  define room where "room = ucast (t_slots s) * TB_PACKET - (first mod ucast (t_slots s)) * (TB_PACKET :: u64)"
  show ?thesis
    by (cases "len < room")
      (auto simp: copy_out_def Let_def simp flip: room_def simp: word_less_nat_alt unat_sub_le word_le_nat_alt not_less)
qed

lemma length_copy_skip [simp]: "length (copy_skip s first skip len) = unat len"
proof -
  define ring where "ring = ucast (t_slots s) * (TB_PACKET :: u64)"
  define at where "at = ((first mod ucast (t_slots s)) * TB_PACKET + skip) mod ring"
  show ?thesis
    by (cases "len < ring - at")
      (auto simp: copy_skip_def Let_def simp flip: ring_def at_def simp: word_less_nat_alt unat_sub_le word_le_nat_alt not_less)
qed

lemma post_send_rest:
  "w_win (snd (post_send s addr len lkey st pl)) = w_win s" "w_bond (snd (post_send s addr len lkey st pl)) = w_bond s"
  "t_want_len (snd (post_send s addr len lkey st pl)) = t_want_len s"
  "t_want_off (snd (post_send s addr len lkey st pl)) = t_want_off s"
  "t_bond (snd (post_send s addr len lkey st pl)) = t_bond s" "t_lo (snd (post_send s addr len lkey st pl)) = t_lo s"
  "t_hi (snd (post_send s addr len lkey st pl)) = t_hi s" "t_rx_seq (snd (post_send s addr len lkey st pl)) = t_rx_seq s"
  "t_writes_placed (snd (post_send s addr len lkey st pl)) = t_writes_placed s"
  by (simp_all add: post_send_def Let_def now_ns_def poison_def)

text \<open>Polling, completing and reposting leave the window and what guards it alone.\<close>

definition rx_rest where
  "rx_rest s = (t_bond s, w_bond s, t_lo s, t_hi s, t_want_len s, t_want_off s, w_win s)"

lemma complete_rest: "rx_rest (complete s wc now) = rx_rest s"
  by (simp add: complete_def Let_def measure_rate_def poison_def rx_rest_def)

lemma complete_all_rest: "rx_rest (complete_all s wcs now) = rx_rest s"
  by (induction s wcs now rule: complete_all.induct) (simp_all add: complete_rest)

lemma poll_loop_rest: "rx_rest (snd (poll_loop n s handled)) = rx_rest s"
proof (induction n s handled rule: poll_loop.induct)
  case (2 rounds s handled)
  obtain q s1 where p: "poll_cq s = (q, s1)" by fastforce
  then have s1: "rx_rest s1 = rx_rest s" by (auto simp: poll_cq_def rx_rest_def split: prod.splits)
  have po: "rx_rest (poison why s1) = rx_rest s1" for why by (simp add: poison_def rx_rest_def)
  show ?case
  proof (cases "t_poisoned s \<or> q = None")
    case True
    then show ?thesis using p s1 po by auto
  next
    case False
    then obtain wcs where wcs: "q = Some wcs" and np: "\<not> t_poisoned s" by auto
    obtain now s2 where n: "(if wcs \<noteq> [] \<and> t_tx_posted s1 \<noteq> t_tx_done s1 then now_ns s1 else (0, s1)) = (now, s2)"
      by fastforce
    then have "rx_rest s2 = rx_rest s1" by (auto simp: now_ns_def rx_rest_def split: if_splits)
    then have s3: "rx_rest (complete_all s2 wcs now) = rx_rest s" using s1 by (simp add: complete_all_rest)
    have "rx_rest (snd (poll_loop rounds (complete_all s2 wcs now) (handled + int (length wcs)))) =
        rx_rest (complete_all s2 wcs now)" if "\<not> length wcs < 32"
      using "2.IH" [OF np p [symmetric] wcs refl n [symmetric] refl refl that] .
    then show ?thesis using np p wcs n s3 by (simp add: Let_def)
  qed
qed simp

lemma repost_loop_rest: "rx_rest (repost_loop s wanted want most) = rx_rest s"
proof (induction s wanted want most rule: repost_loop.induct)
  case (1 s wanted want most)
  let ?s1 = "if wanted then s\<lparr>w_nwanted := Suc (w_nwanted s)\<rparr> else s"
  let ?n = "if want < ucast most then ucast want else most"
  obtain got s2 where p: "post_recvs ?s1 (t_posted ?s1) ?n = (got, s2)" by fastforce
  have "rx_rest (snd (post_recvs ?s1 (t_posted ?s1) ?n)) = rx_rest s"
    by (simp add: post_recvs_def Let_def poison_def rx_rest_def)
  then have s2: "rx_rest s2 = rx_rest s" by (simp add: p)
  moreover have "rx_rest (s2\<lparr>t_posted := a\<rparr>) = rx_rest s2" "rx_rest ?s1 = rx_rest s" for a
    by (simp_all add: rx_rest_def)
  ultimately show ?case
    using p 1 by (subst repost_loop.simps) (auto simp: Let_def)
qed

lemma repost_rest: "rx_rest (repost s wanted) = rx_rest s"
proof -
  have "rx_rest (repost_loop (s\<lparr>w_nnow := n\<rparr>) w a m) = rx_rest s" "rx_rest (s\<lparr>w_nnow := n\<rparr>) = rx_rest s" for n w a m
    by (simp_all add: repost_loop_rest) (simp_all add: rx_rest_def)
  then show ?thesis by (simp add: repost_def Let_def now_ns_def repost_loop_rest)
qed

subsection \<open>The hooks' contract\<close>

definition same_outside :: "nat \<Rightarrow> nat \<Rightarrow> mem \<Rightarrow> mem \<Rightarrow> bool" where
  "same_outside lo hi m m' \<longleftrightarrow> (\<forall>a. a < lo \<or> hi \<le> a \<longrightarrow> m' a = m a)"

lemma same_outside_refl [simp]: "same_outside lo hi m m"
  by (simp add: same_outside_def)

lemma same_outside_trans [trans]: "same_outside lo hi a b \<Longrightarrow> same_outside lo hi b c \<Longrightarrow> same_outside lo hi a c"
  by (simp add: same_outside_def)

lemma same_outside_write:
  "lo \<le> a \<Longrightarrow> a + length bs \<le> hi \<Longrightarrow> same_outside lo hi m (mem_write m a bs)"
  by (auto simp: same_outside_def mem_write_def)

text \<open>
  \<open>good\<close> is what the bond keeps of its own state. A hook keeps it and touches the window only
  inside the limits; the offset given to \<open>signal\<close> is inside them.
\<close>

text \<open>
  The state of a receiving link: its hooks and limits, and a header whose bytes are awaited is
  inside them. A step is safe when it keeps this and leaves the rest of the window alone.
\<close>

definition rx_state :: "'b tb_bond \<Rightarrow> ('b \<Rightarrow> bool) \<Rightarrow> nat \<Rightarrow> nat \<Rightarrow> 'b link \<Rightarrow> bool" where
  "rx_state h good lo hi s \<longleftrightarrow> t_bond s = h \<and> good (w_bond s) \<and> unat (t_lo s) = lo \<and> unat (t_hi s) = hi \<and>
     (b_ready h \<noteq> None \<longrightarrow> b_announce h \<noteq> None) \<and>
     (t_want_len s \<noteq> 0 \<longrightarrow> lo \<le> unat (t_want_off s) \<and> unat (t_want_off s) + unat (t_want_len s) \<le> hi)"

definition rx_safe :: "'b tb_bond \<Rightarrow> ('b \<Rightarrow> bool) \<Rightarrow> nat \<Rightarrow> nat \<Rightarrow> 'b link \<Rightarrow> 'b link \<Rightarrow> bool" where
  "rx_safe h good lo hi s s' \<longleftrightarrow> rx_state h good lo hi s' \<and> same_outside lo hi (w_win s) (w_win s')"

locale rx_hooks =
  fixes h :: "'b tb_bond" and good :: "'b \<Rightarrow> bool" and lo hi :: nat
  assumes placed_law: "b_placed h = Some f \<Longrightarrow> good b \<Longrightarrow> f c (m, b) = (m', b') \<Longrightarrow> good b' \<and> same_outside lo hi m m'"
    and signal_law: "b_signal h = Some g \<Longrightarrow> good b \<Longrightarrow> lo \<le> unat off \<Longrightarrow> unat off + 8 \<le> hi \<Longrightarrow>
      g seq need off v (m, b) = (r, m', b') \<Longrightarrow> good b' \<and> same_outside lo hi m m'"
    and ready_law: "b_ready h = Some e \<Longrightarrow> good b \<Longrightarrow> e seq flags w (m, b) = (r, m', b') \<Longrightarrow>
      good b' \<and> same_outside lo hi m m'"
    and announce_law: "b_announce h = Some d \<Longrightarrow> good b \<Longrightarrow> lo \<le> unat off \<Longrightarrow> unat off + unat len \<le> hi \<Longrightarrow>
      d off len ord (m, b) = (r, m', b') \<Longrightarrow> good b' \<and> same_outside lo hi m m'"
    and tail_law: "b_tail h = Some t \<Longrightarrow> good b \<Longrightarrow> t (m, b) = (x, m', b') \<Longrightarrow> good b' \<and> same_outside lo hi m m'"
    and ready_n_law: "b_ready_n h = Some n \<Longrightarrow> good b \<Longrightarrow> n seq flags ws (m, b) = (r, m', b') \<Longrightarrow>
      good b' \<and> same_outside lo hi m m'"
begin

abbreviation rx_ok :: "'b link \<Rightarrow> bool" where "rx_ok \<equiv> rx_state h good lo hi"
abbreviation safe :: "'b link \<Rightarrow> 'b link \<Rightarrow> bool" where "safe \<equiv> rx_safe h good lo hi"

lemma inside_nat: "rx_ok s \<Longrightarrow> inside s off len \<Longrightarrow> lo \<le> unat off \<and> unat off + unat len \<le> hi"
proof -
  assume a: "rx_ok s" "inside s off len"
  then have "t_lo s \<le> off" "off \<le> t_hi s" "len \<le> t_hi s - off" by (simp_all add: inside_def)
  then show ?thesis using a(1) by (simp add: rx_state_def word_le_nat_alt unat_sub_le)
qed

lemma safe_refl: "rx_ok s \<Longrightarrow> safe s s"
  by (simp add: rx_safe_def)

lemma safe_trans: "safe a b \<Longrightarrow> safe b c \<Longrightarrow> safe a c"
  by (auto simp: rx_safe_def intro: same_outside_trans)

lemma safe_rx: "safe s s' \<Longrightarrow> rx_ok s'"
  by (simp add: rx_safe_def)

text \<open>The rules that follow what a message does, one per operation.\<close>

lemma safe_store:
  assumes "safe s x" and "lo \<le> unat off" and "unat off + length bs \<le> hi"
  shows "safe s (store_win x off bs)"
proof (rule safe_trans [OF assms(1)])
  show "safe x (store_win x off bs)"
    using safe_rx [OF assms(1)] assms(2,3)
    by (auto simp: rx_safe_def store_win_def rx_state_def intro: same_outside_write)
qed

lemma safe_placed:
  assumes "safe s x"
  shows "safe s (placed x)"
proof (rule safe_trans [OF assms])
  show "safe x (placed x)"
    using safe_rx [OF assms] placed_law
    by (auto simp: rx_safe_def placed_def rx_state_def Let_def split: option.splits prod.splits)
qed

lemma safe_poison: "safe s x \<Longrightarrow> safe s (poison why x)"
  by (simp add: rx_safe_def poison_def rx_state_def)

lemma safe_stall: "safe s x \<Longrightarrow> safe s (snd (stall x why))"
  by (simp add: rx_safe_def stall_def now_ns_def poison_def rx_state_def)

lemma safe_rx_seq: "safe s x \<Longrightarrow> safe s (x\<lparr>t_rx_seq := a\<rparr>)"
  by (simp add: rx_safe_def rx_state_def)

lemma safe_acked: "safe s x \<Longrightarrow> safe s (x\<lparr>t_fence_acked := a\<rparr>)"
  by (simp add: rx_safe_def rx_state_def)

lemma safe_taken: "safe s x \<Longrightarrow> safe s (x\<lparr>t_want_len := 0\<rparr>)"
  by (simp add: rx_safe_def rx_state_def)

lemma safe_want: "safe s x \<Longrightarrow> lo \<le> unat o' \<Longrightarrow> unat o' + unat l \<le> hi \<Longrightarrow>
    safe s (x\<lparr>t_want_off := o', t_want_len := l\<rparr>)"
  by (simp add: rx_safe_def rx_state_def)

lemma safe_hook:
  assumes "call_hook f x = (r, x')" and "safe s x"
    and "\<And>m b r m' b'. good b \<Longrightarrow> f (m, b) = (r, m', b') \<Longrightarrow> good b' \<and> same_outside lo hi m m'"
  shows "safe s x'"
proof (rule safe_trans [OF assms(2)])
  obtain m' b' where f: "f (w_win x, w_bond x) = (r, m', b')" and x': "x' = x\<lparr>w_win := m', w_bond := b'\<rparr>"
    using assms(1) by (auto simp: call_hook_def split: prod.splits)
  show "safe x x'"
    using safe_rx [OF assms(2)] assms(3) [OF _ f] unfolding x' by (simp add: rx_safe_def rx_state_def)
qed

lemma safe_signal:
  assumes "call_hook (the (b_signal (t_bond x)) seq need off v) x = (r, x')" and "safe s x"
    and "b_signal (t_bond s) \<noteq> None" and "t_bond s = h" and "lo \<le> unat off" and "unat off + 8 \<le> hi"
  shows "safe s x'"
proof -
  have "t_bond x = h" using safe_rx [OF assms(2)] by (simp add: rx_state_def)
  moreover obtain g where "b_signal h = Some g" using assms(3,4) by auto
  ultimately show ?thesis using assms(1) signal_law assms(5,6) by (intro safe_hook [OF _ assms(2)]) auto
qed

lemma rx_bond: "rx_ok s \<Longrightarrow> t_bond s = h"
  by (simp add: rx_state_def)

lemma take_bytes_safe: "rx_ok s \<Longrightarrow> t_want_len s \<noteq> 0 \<Longrightarrow> safe s (snd (take_bytes s first bytes))"
proof -
  assume a: "rx_ok s" "t_want_len s \<noteq> 0"
  then have "lo \<le> unat (t_want_off s)" "unat (t_want_off s) + unat (t_want_len s) \<le> hi" by (simp_all add: rx_state_def)
  then show ?thesis using a
    by (auto simp: take_bytes_def intro!: safe_placed safe_taken safe_store safe_poison safe_refl)
qed

lemma take_tail_safe:
  assumes "rx_ok s" and "b_tail (t_bond s) \<noteq> None"
  shows "safe s (snd (take_tail s first bytes))"
proof -
  obtain f where f: "b_tail h = Some f" using assms by (auto simp: rx_bond)
  obtain x s1 where c: "call_hook f s = (x, s1)" by fastforce
  have s1: "safe s s1" using tail_law [OF f] by (intro safe_hook [OF c safe_refl [OF assms(1)]])
  show ?thesis
  proof (cases x)
    case None
    with f c s1 assms(1) show ?thesis by (simp add: take_tail_def rx_bond safe_stall)
  next
    case (Some y)
    obtain off len ord where y: "y = (off, len, ord)" by (cases y) auto
    show ?thesis
    proof (cases "bytes \<noteq> ucast len \<or> ord \<noteq> ucast (t_writes_placed s1 + 1) \<or> \<not> inside s1 off (ucast len)")
      case True
      with f c s1 assms(1) Some y show ?thesis by (auto simp: take_tail_def rx_bond safe_poison)
    next
      case False
      then have "lo \<le> unat off" "unat off + unat (ucast len :: u64) \<le> hi"
        using inside_nat [OF safe_rx [OF s1], of off "ucast len"] by auto
      then show ?thesis using f c s1 assms(1) Some y False
        by (auto simp: take_tail_def rx_bond Let_def intro!: safe_placed safe_store safe_rx_seq)
    qed
  qed
qed

text \<open>Both ranges of a checked message, in numbers.\<close>

lemma store_signal_safe:
  assumes "rx_ok s" and "inside s off (ucast l)" and "inside s soff 8" and "length bs = unat (l :: u32)"
  shows "safe s (store_win (placed (store_win (s\<lparr>t_rx_seq := a\<rparr>) off bs)) soff (put_le 8 (v :: u64)))"
  using inside_nat [OF assms(1,2)] inside_nat [OF assms(1,3)] assms(4)
  by (intro safe_store safe_placed safe_rx_seq safe_refl assms(1)) simp_all

lemma take_write_signal_safe:
  assumes "rx_ok s"
  shows "safe s (snd (take_write_signal s first bytes hh))"
proof -
  define soff :: u64 where
    "soff = (if WS_HEAD \<le> bytes then get_le (mem_read (t_ring s) (packet_at s first + HEAD) 8) else 0)"
  show ?thesis
    unfolding take_write_signal_def Let_def soff_def [symmetric]
    using store_signal_safe [OF assms, of "h_off hh" "h_len hh" soff] safe_poison [OF safe_refl [OF assms]]
    by auto
qed

lemma signal_hook_safe:
  assumes "call_hook (g seq need off v) (s\<lparr>t_rx_seq := a\<rparr>) = (r, s2)" and "rx_ok s"
    and "b_signal (t_bond s) = Some g" and "inside s off 8"
  shows "safe s s2"
proof (rule safe_signal)
  show "call_hook (the (b_signal (t_bond (s\<lparr>t_rx_seq := a\<rparr>))) seq need off v) (s\<lparr>t_rx_seq := a\<rparr>) = (r, s2)"
    using assms(1,3) by simp
  show "safe s (s\<lparr>t_rx_seq := a\<rparr>)" by (intro safe_rx_seq safe_refl assms(2))
  show "b_signal (t_bond s) \<noteq> None" using assms(3) by simp
  show "lo \<le> unat off" "unat off + 8 \<le> hi" using inside_nat [OF assms(2,4)] by simp_all
qed (rule rx_bond [OF assms(2)])

lemma take_bond_signal_safe:
  assumes "rx_ok s"
  shows "safe s (snd (take_bond_signal s first count bytes hh))"
  unfolding take_bond_signal_def Let_def
  using safe_poison [OF safe_refl [OF assms]]
  by (auto split: prod.splits intro!: safe_poison elim!: signal_hook_safe [OF _ assms])

lemma take_bond_write_safe:
  assumes "rx_ok s"
  shows "safe s (snd (take_bond_write s first count bytes hh))"
proof -
  have hook: "safe s s1" if "b_ready_n (t_bond s) \<noteq> None"
    "call_hook (the (b_ready_n (t_bond s)) seq flags ws) s = (r, s1)" for seq flags ws r s1
    using that ready_n_law rx_bond [OF assms] by (intro safe_hook [OF that(2) safe_refl [OF assms]]) auto
  have "safe s (s1\<lparr>t_rx_seq := a, t_want_off := h_off hh, t_want_len := h_len hh\<rparr>)"
    if "safe s s1" "inside s (h_off hh) (ucast (h_len hh))" for s1 a
    using inside_nat [OF assms that(2)] that(1) by (intro safe_want safe_rx_seq) simp_all
  then show ?thesis using safe_poison [OF safe_refl [OF assms]] hook
    by (auto simp: take_bond_write_def Let_def split: prod.splits intro: safe_poison safe_stall)
qed

text \<open>The hook calls as simplification leaves them.\<close>

lemma ready_n_safe:
  assumes "rx_ok s" and "b_ready_n (t_bond s) = Some y" and "call_hook (y seq flags ws) s = (r, s1)"
  shows "safe s s1"
  using assms(2) ready_n_law rx_bond [OF assms(1)] by (intro safe_hook [OF assms(3) safe_refl [OF assms(1)]]) auto

lemma deliver_safe:
  assumes "call_hook (the (b_signal (t_bond (placed (store_win x off bs)))) seq need soff v)
      ((placed (store_win x off bs))\<lparr>t_rx_seq := a\<rparr>) = (r, s4)"
    and "rx_ok s" and "safe s x" and "b_signal (t_bond s) = Some g" and "inside s soff 8"
    and "inside s off (ucast l)" and "length bs = unat (l :: u32)"
  shows "safe s s4"
proof -
  let ?x = "(placed (store_win x off bs))\<lparr>t_rx_seq := a\<rparr>"
  have x: "safe s ?x"
    using inside_nat [OF assms(2,6)] assms(3,7) by (intro safe_rx_seq safe_placed safe_store) simp_all
  have "b_signal (t_bond s) \<noteq> None" using assms(4) by simp
  moreover have "call_hook (the (b_signal (t_bond ?x)) seq need soff v) ?x = (r, s4)" using assms(1) by simp
  ultimately show ?thesis
    using inside_nat [OF assms(2,5)] rx_bond [OF assms(2)] by (intro safe_signal [OF _ x]) auto
qed

lemma take_bond_inline_safe:
  assumes "rx_ok s"
  shows "safe s (snd (take_bond_inline s first count bytes hh))"
  unfolding take_bond_inline_def Let_def
  using safe_poison [OF safe_refl [OF assms]]
  by (auto split: prod.splits intro!: safe_poison safe_stall elim!: deliver_safe [OF _ assms]
      dest!: ready_n_safe [OF assms, rotated])

lemma joined_deliver_safe:
  assumes "call_hook (the (b_signal (t_bond (placed (store_win (x\<lparr>t_rx_seq := a\<rparr>) off bs)))) seq need soff v)
      (placed (store_win (x\<lparr>t_rx_seq := a\<rparr>) off bs)) = (r, s4)"
    and "rx_ok s" and "safe s x" and "b_signal (t_bond s) = Some g" and "inside s soff 8"
    and "inside s off (ucast l)" and "length bs = unat (l :: u32)"
  shows "safe s s4"
proof -
  have x: "safe s (placed (store_win (x\<lparr>t_rx_seq := a\<rparr>) off bs))"
    using inside_nat [OF assms(2,6)] assms(3,7) by (intro safe_placed safe_store safe_rx_seq) simp_all
  have "b_signal (t_bond s) \<noteq> None" using assms(4) by simp
  then show ?thesis
    using inside_nat [OF assms(2,5)] rx_bond [OF assms(2)] by (intro safe_signal [OF assms(1) x]) auto
qed

lemma announce_safe:
  assumes "call_hook (the (b_announce (t_bond s1)) off tail ord) s1 = (r, s2)" and "rx_ok s" and "safe s s1"
    and "inside s off (ucast tail)" and "b_ready (t_bond s) \<noteq> None"
  shows "safe s s2"
proof -
  have b: "t_bond s1 = h" using safe_rx [OF assms(3)] by (rule rx_bond)
  have "b_announce h \<noteq> None" using assms(2,5) by (auto simp: rx_state_def)
  then obtain d where d: "b_announce h = Some d" by auto
  have i: "lo \<le> unat off" "unat off + unat tail \<le> hi" using inside_nat [OF assms(2,4)] by simp_all
  show ?thesis by (rule safe_hook [OF assms(1,3)]) (use announce_law [OF d _ i] b d in auto)
qed

lemma take_joined_safe:
  assumes "rx_ok s" and "b_ready (t_bond s) \<noteq> None"
  shows "safe s (snd (take_joined s first bytes hh))"
proof -
  have hook: "safe s s1" if "call_hook (the (b_ready (t_bond s)) seq flags w) s = (r, s1)" for seq flags w r s1
    using assms(2) ready_law rx_bond [OF assms(1)] by (intro safe_hook [OF that safe_refl [OF assms(1)]]) auto
  show ?thesis
    unfolding take_joined_def Let_def
    using safe_poison [OF safe_refl [OF assms(1)]]
    by (auto split: prod.splits if_splits intro!: safe_poison safe_stall
        elim!: joined_deliver_safe [OF _ assms(1)] announce_safe [OF _ assms(1) _ _ assms(2)] dest!: hook)
qed

lemma send_head_safe:
  assumes "send_head s kind off len value None = (r, s')" and "rx_ok s"
  shows "safe s s'"
proof -
  define x where "x = s\<lparr>t_ring := mem_write (t_ring s) (stage_slot s) (put_head (plain_head s kind off len value))\<rparr>"
  define q where "q = post_send x (InRing (stage_slot s)) HEAD (t_ring_lkey s) True (if kind = C_INLINE then len else 0)"
  have s': "s' = (if fst q \<noteq> 0 then snd q
      else (snd q)\<lparr>t_tx_seq := t_tx_seq (snd q) + 1, t_staged := t_staged (snd q) + 1\<rparr>)"
    using assms(1) unfolding send_head_def Let_def q_def x_def plain_head_def
    by (auto split: prod.splits if_splits)
  have "rx_ok (snd q)" "w_win (snd q) = w_win s"
    using assms(2) by (simp_all add: rx_state_def q_def x_def post_send_rest)
  then show ?thesis by (simp add: s' rx_safe_def rx_state_def)
qed

lemma head_fault_inside:
  assumes "head_fault s bytes hh = None"
  shows "h_kind hh = C_INLINE \<or> h_kind hh = C_WRITE \<Longrightarrow> inside s (h_off hh) (ucast (h_len hh))"
    and "h_kind hh = C_SIGNAL \<Longrightarrow> inside s (h_off hh) 8"
  using assms by (auto simp: head_fault_def split: if_splits)

lemma take_plain_safe:
  assumes "rx_ok s"
  shows "safe s (snd (take_plain s first count bytes hh))"
proof (cases "count = 1 \<and> head_fault s bytes hh = None")
  case False
  then show ?thesis using safe_poison [OF safe_refl [OF assms]]
    by (auto simp: take_plain_def split: option.splits)
next
  case True
  then have f: "head_fault s bytes hh = None" and c: "count = 1" by simp_all
  note i = head_fault_inside [OF f]
  consider "h_kind hh = C_FENCE" | "h_kind hh = C_INLINE" | "h_kind hh = C_WRITE" | "h_kind hh = C_SIGNAL"
    | "h_kind hh = C_FENCE_ACK" | "h_kind hh \<notin> {1, 2, 3, 4, 5}" by auto
  then show ?thesis
  proof cases
    case 1
    with f c safe_refl [OF assms] show ?thesis
      by (auto simp: take_plain_def Let_def split: prod.splits if_splits
          intro!: safe_rx_seq elim!: send_head_safe [OF _ assms])
  next
    case 2
    with f c inside_nat [OF assms i(1)] safe_refl [OF assms] show ?thesis
      by (auto simp: take_plain_def Let_def intro!: safe_placed safe_store safe_rx_seq)
  next
    case 3
    with f c inside_nat [OF assms i(1)] safe_refl [OF assms] show ?thesis
      by (auto simp: take_plain_def Let_def intro!: safe_want safe_rx_seq)
  next
    case 4
    with f c inside_nat [OF assms i(2)] safe_refl [OF assms] show ?thesis
      by (auto simp: take_plain_def Let_def intro!: safe_store safe_rx_seq)
  next
    case 5
    with f c safe_refl [OF assms] show ?thesis
      by (auto simp: take_plain_def Let_def intro!: safe_acked safe_rx_seq)
  next
    case 6
    with f c safe_refl [OF assms] show ?thesis
      by (auto simp: take_plain_def Let_def intro!: safe_rx_seq)
  qed
qed

lemma take_msg_safe:
  assumes "rx_ok s"
  shows "safe s (snd (take_msg s first count bytes))"
  using assms
  by (auto simp: take_msg_def Let_def take_bytes_safe take_tail_safe take_joined_safe take_write_signal_safe
      take_bond_signal_safe take_bond_inline_safe take_bond_write_safe take_plain_safe safe_poison safe_refl)

text \<open>Taking every message in the ring, and a whole pass of progress.\<close>

lemma drain_loop_safe: "rx_ok s \<Longrightarrow> safe s (drain_loop s)"
proof (induction s rule: drain_loop.induct)
  case (1 s)
  show ?case
  proof (cases "t_used s < t_filled s \<and> \<not> t_poisoned s \<and> find_end s (t_used s) \<noteq> t_filled s")
    case False
    then show ?thesis using safe_refl [OF "1.prems"]
      by (subst drain_loop.simps) (auto simp: Let_def safe_poison)
  next
    case True
    define e where "e = find_end s (t_used s)"
    define c where "c = e - t_used s + 1"
    define b where "b = (c - 1) * TB_PACKET + ucast (t_rx_len s (unat (e mod ucast (t_slots s))))"
    obtain r s1 where t: "take_msg s (t_used s) c b = (r, s1)" by fastforce
    obtain now s2 where n: "now_ns (s1\<lparr>t_used := e + 1, t_stalled := 0\<rparr>) = (now, s2)" by fastforce
    have e1: "safe s s1" using take_msg_safe [OF "1.prems", of "t_used s" c b] by (simp add: t)
    then have e2: "safe s (s2\<lparr>t_taken_ns := now\<rparr>)" using n by (auto simp: now_ns_def rx_safe_def rx_state_def)
    have eq: "drain_loop s = (if r \<le> 0 then s1 else drain_loop (s2\<lparr>t_taken_ns := now\<rparr>))"
      using True t n unfolding e_def c_def b_def by (subst drain_loop.simps) (simp add: Let_def)
    have IH: "safe (s2\<lparr>t_taken_ns := now\<rparr>) (drain_loop (s2\<lparr>t_taken_ns := now\<rparr>))" if "\<not> r \<le> 0"
      using "1.IH" [OF _ e_def _ c_def b_def t [symmetric] that n [symmetric]] True safe_rx [OF e2] by (simp add: e_def)
    show ?thesis unfolding eq using e1 safe_trans [OF e2] IH by simp
  qed
qed

lemma safe_cong: "rx_rest x' = rx_rest x \<Longrightarrow> safe s x' = safe s x"
  by (simp add: rx_safe_def rx_state_def rx_rest_def)

lemma progress_safe:
  assumes "tb_progress_some s wanted = (r, s')" and "rx_ok s"
  shows "safe s s'"
proof -
  obtain n s1 where p: "poll_loop 8 s 0 = (n, s1)" by fastforce
  have r1: "rx_rest s1 = rx_rest s" using poll_loop_rest [of 8 s 0] by (simp add: p)
  then have s1: "safe s s1" using safe_cong [OF r1] safe_refl [OF assms(2)] by simp
  have "safe s (drain_loop s1)" using safe_trans [OF s1 drain_loop_safe [OF safe_rx [OF s1]]] .
  then have "safe s (drain s1 wanted)" unfolding drain_def using safe_cong [OF repost_rest] by blast
  with assms(1) s1 p safe_refl [OF assms(2)] show ?thesis
    unfolding tb_progress_some_def Let_def by (auto split: if_splits)
qed

end

text \<open>A link without a bond: nothing to keep, and no hook to call.\<close>

interpretation plain: rx_hooks no_bond "\<lambda>_. True" lo hi for lo hi
  by unfold_locales (simp_all add: no_bond_def)

end
