(* ===== verification/Link_Tb_Props.thy ===== *)
theory Link_Tb_Props
  imports Link_Tb_Flow Link_Tb_Rx
begin

section \<open>Properties of the Thunderbolt link\<close>

text \<open>
  The link as a state machine: a step is any operation of \<open>rpc/link.h\<close> on it, in any order,
  with any arguments and any answers of the device, the clock and the peer. The properties of flow
  control hold in every reachable state; what the receive side does with one message, whatever its
  bytes, is stated per message.
\<close>

subsection \<open>The link as a state machine\<close>

inductive tb_step :: "'b link \<Rightarrow> 'b link \<Rightarrow> bool" where
  progress: "tb_progress_some s wanted = (r, s') \<Longrightarrow> tb_step s s'"
| writing: "tb_write fuel s src off roff len timeout = Some (r, s') \<Longrightarrow> tb_step s s'"
| write_try: "tb_write_try fuel s srcp off roff len = Some (r, s') \<Longrightarrow> tb_step s s'"
| signal: "tb_signal fuel s roff value timeout = Some (r, s') \<Longrightarrow> tb_step s s'"
| write_signal: "tb_write_signal fuel s src off roff len soff value timeout = Some (r, s') \<Longrightarrow> tb_step s s'"
| fence: "tb_fence fuel s timeout = Some (r, s') \<Longrightarrow> tb_step s s'"
| bond_write_n: "tb_bond_write_n fuel s srcp off roff len seq wait links flags timeout = Some (r, s') \<Longrightarrow> tb_step s s'"
| bond_signal: "tb_bond_signal fuel s soff value seq need timeout = Some (r, s') \<Longrightarrow> tb_step s s'"
| bond_signal_n: "tb_bond_signal_n fuel s soff value seq need links timeout = Some (r, s') \<Longrightarrow> tb_step s s'"
| bond_inline_n: "tb_bond_inline_n fuel s srcp off roff len soff value seq need wait links flags timeout = Some (r, s')
    \<Longrightarrow> tb_step s s'"
| bond_write_signal: "tb_bond_write_signal fuel s srcp off roff len soff value seq need tail flags w timeout = Some (r, s')
    \<Longrightarrow> tb_step s s'"
| bond_tail: "tb_bond_tail s srcp off len = (r, s') \<Longrightarrow> tb_step s s'"
| accepting: "tb_step s (tb_accept rx lo hi s)"
| hooks: "tb_step s (tb_bond_hooks h s)"
| watching: "tb_step s (tb_watch b s)"
| owner: "tb_step s (s\<lparr>w_win := win\<rparr>)"

text \<open>
  A link starts with \<open>tb_init\<close> on a device that grants a send queue of at most 2\^{}30 packets (the
  code asks for TB\_DEPTH) and writes only receive slots; \<open>tb_connect\<close> then sets the peer's ring.
\<close>

inductive reach :: "'b link \<Rightarrow> bool" where
  init: "tb_init s alloc ok lkey max_send max_recv = (0, s') \<Longrightarrow> unat max_send \<le> 2 ^ 30 \<Longrightarrow> nic_ok s \<Longrightarrow> reach s'"
| connect: "reach s \<Longrightarrow> tb_connect s peer rtr rts = (r, s') \<Longrightarrow> reach s'"
| step: "reach s \<Longrightarrow> tb_step s s' \<Longrightarrow> reach s'"

lemma flow_fields [simp]:
  "flow_inv (tb_accept rx lo hi s) = flow_inv s" "flow_inv (tb_bond_hooks h s) = flow_inv s"
  "flow_inv (tb_watch b s) = flow_inv s" "flow_inv (s\<lparr>w_win := win\<rparr>) = flow_inv s"
  "flow_inv (s\<lparr>t_peer_slots := p\<rparr>) = flow_inv s"
  by (simp_all add: flow_inv_def entry_ok_def Let_def tb_accept_def tb_bond_hooks_def tb_watch_def)

lemma tb_step_evolves: "tb_step s s' \<Longrightarrow> evolves s s'"
proof (induction rule: tb_step.induct)
  case (accepting s rx lo hi)
  show ?case by (rule evolvesI) (simp_all, simp_all add: tb_accept_def)
next
  case (hooks s h)
  show ?case by (rule evolvesI) (simp_all, simp_all add: tb_bond_hooks_def)
next
  case (watching s b)
  show ?case by (rule evolvesI) (simp_all, simp_all add: tb_watch_def)
next
  case (owner s win)
  show ?case by (rule evolvesI) simp_all
qed (erule tb_progress_some_evolves tb_write_evolves tb_write_try_evolves tb_signal_evolves
    tb_write_signal_evolves tb_fence_evolves tb_bond_write_n_evolves tb_bond_signal_evolves
    tb_bond_signal_n_evolves tb_bond_inline_n_evolves tb_bond_write_signal_evolves tb_bond_tail_evolves)+

lemma post_recv_parts:
  "tx_part (snd (post_recv s slot)) = tx_part s" "t_depth (snd (post_recv s slot)) = t_depth s"
  "w_poll (snd (post_recv s slot)) = w_poll s" "l_tb (snd (post_recv s slot)) = l_tb s"
  "fst (post_recv s slot) = 0 \<Longrightarrow> t_poisoned (snd (post_recv s slot)) = t_poisoned s"
proof -
  have t: "tx_part (s\<lparr>w_nrecv := n\<rparr>) = tx_part s" "tx_part (s\<lparr>w_nrecv := n, w_recvs := x\<rparr>) = tx_part s" for n x
    by (simp_all add: tx_part_def)
  show "tx_part (snd (post_recv s slot)) = tx_part s" by (simp add: post_recv_def Let_def t)
  show "t_depth (snd (post_recv s slot)) = t_depth s" "w_poll (snd (post_recv s slot)) = w_poll s"
    "l_tb (snd (post_recv s slot)) = l_tb s"
    by (simp_all add: post_recv_def Let_def poison_def)
  show "t_poisoned (snd (post_recv s slot)) = t_poisoned s" if "fst (post_recv s slot) = 0"
    using that by (simp add: post_recv_def Let_def split: if_splits)
qed

lemma init_recvs_fields:
  assumes "init_recvs k s = (r, s')" and "\<not> t_poisoned s"
  shows "(r = 0 \<longrightarrow> \<not> t_poisoned s' \<and> l_tb s' = l_tb s) \<and> w_sends s' = w_sends s \<and> flow_inv s' = flow_inv s \<and>
    w_poll s' = w_poll s"
  using assms
proof (induction k s rule: init_recvs.induct)
  case (2 k s)
  obtain q s1 where p: "post_recv s (t_posted s) = (q, s1)" by fastforce
  note r = post_recv_parts [of s "t_posted s", unfolded p fst_conv snd_conv]
  have f: "w_sends s1 = w_sends s" "flow_inv s1 = flow_inv s" "w_poll s1 = w_poll s" "q = 0 \<longrightarrow> t_poisoned s1 = t_poisoned s"
    "l_tb s1 = l_tb s"
    using flow_inv_cong [OF r(1,2)] r(3,4,5) r(1) by (simp_all add: tx_part_def)
  show ?case
  proof (cases "q = 0")
    case True
    have g: "flow_inv (s1\<lparr>t_posted := t_posted s1 + 1\<rparr>) = flow_inv s1" by (rule flow_inv_cong) simp_all
    have "(r = 0 \<longrightarrow> \<not> t_poisoned s' \<and> l_tb s' = l_tb (s1\<lparr>t_posted := t_posted s1 + 1\<rparr>)) \<and>
        w_sends s' = w_sends (s1\<lparr>t_posted := t_posted s1 + 1\<rparr>) \<and>
        flow_inv s' = flow_inv (s1\<lparr>t_posted := t_posted s1 + 1\<rparr>) \<and> w_poll s' = w_poll (s1\<lparr>t_posted := t_posted s1 + 1\<rparr>)"
      using "2.prems" p True f by (intro "2.IH" [OF p [symmetric]]) simp_all
    with f g show ?thesis by simp
  next
    case False
    then have "r = -1" "s' = tb_destroy s1" using "2.prems"(1) p by simp_all
    moreover have "flow_inv (tb_destroy s1) = flow_inv s1" by (rule flow_inv_cong) (simp_all add: tb_destroy_def tx_part_def)
    ultimately show ?thesis using f by (simp add: tb_destroy_def)
  qed
qed auto

lemma fresh_fields:
  "w_sends (fresh_tb s) = []" "t_tx_done (fresh_tb s) = 0" "t_tx_posted (fresh_tb s) = 0" "t_packets (fresh_tb s) = 0"
  "t_staged (fresh_tb s) = 0" "t_unstaged (fresh_tb s) = 0" "t_poisoned (fresh_tb s) = False"
  "w_poll (fresh_tb s) = w_poll s"
  unfolding fresh_tb_def by simp_all

lemma reach_flow: "reach s \<Longrightarrow> flow_ok s \<and> nic_ok s"
proof (induction rule: reach.induct)
  case (init s alloc ok lkey max_send max_recv s')
  define s0 where "s0 = (fresh_tb s)\<lparr>t_ring_lkey := lkey, t_depth := (if ok then max_send else 0),
      t_slots := (if ok then (if max_recv < TB_RING then max_recv else TB_RING) else 0)\<rparr>"
  from init(1) have i: "init_recvs (unat (t_slots s0)) s0 = (0, s')"
    unfolding tb_init_def s0_def [symmetric] Let_def by (auto split: if_splits)
  have f: "flow_inv s0" using init(2) by (simp add: s0_def fresh_fields flow_inv_def Let_def)
  have p: "\<not> t_poisoned s0" "w_poll s0 = w_poll s" by (simp_all add: s0_def fresh_fields)
  from init_recvs_fields [OF i p(1)] f p init(3) show ?case by (auto simp: flow_ok_def nic_ok_def)
next
  case (connect s peer rtr rts r s')
  then show ?case by (auto simp: tb_connect_def flow_ok_def nic_ok_def split: if_splits)
next
  case (step s s')
  then show ?case using tb_step_evolves [OF step(2)] by (auto simp: evolves_def nic_ok_def)
qed


subsection \<open>A failed link is silent\<close>

lemma progress_poisoned: "t_poisoned s \<Longrightarrow> tb_progress_some s wanted = (-1, s)"
  by (simp add: tb_progress_some_def numeral_eq_Suc)

lemma wait_poisoned:
  assumes "t_poisoned s" and "wait_loop fuel c why deadline nxt s = Some (r, s')"
  shows "s' = s"
  using assms by (cases fuel) (auto simp: tb_progress_def progress_poisoned split: if_splits)

lemma room_fails:
  assumes "t_poisoned s" and "room fuel s n sends deadline = Some (r, s')"
  shows "r \<noteq> 0 \<and> s' = s"
  using assms(2) unfolding room_def
proof (cases rule: and_then_cases)
  case (go s1)
  with wait_poisoned [OF assms(1) go(1)] assms(1) show ?thesis by simp
qed (use wait_poisoned [OF assms(1)] in auto)

lemma room_poisoned:
  assumes "t_poisoned s" and "and_then (room fuel s n sends deadline) k = Some (r, s')"
  shows "s' = s"
  using assms(2) by (cases rule: and_then_cases) (auto dest: room_fails [OF assms(1)])

lemma write_loop_poisoned:
  assumes "t_poisoned s" and "write_loop fuel s src off roff len mx deadline = Some (r, s')"
  shows "s' = s"
  using assms
  by (cases fuel) (auto simp: Let_def piece_room_def elim!: and_then_cases dest: room_fails split: if_splits)

lemma tb_write_poisoned:
  assumes "t_poisoned s" and "tb_write fuel s src off roff len timeout = Some (r, s')"
  shows "w_sends s' = w_sends s \<and> t_poisoned s'"
  using assms by (auto simp: tb_write_def now_ns_def split: if_splits dest!: write_loop_poisoned [rotated])

lemma tb_signal_poisoned:
  assumes "t_poisoned s" and "tb_signal fuel s roff value timeout = Some (r, s')"
  shows "w_sends s' = w_sends s"
  using assms by (auto simp: tb_signal_def now_ns_def dest!: room_poisoned [rotated])

lemma bond_loop_poisoned:
  assumes "t_poisoned s" and "bond_write_loop fuel s src off roff len seq wait links flags mx deadline = Some (r, s')"
  shows "s' = s"
  using assms by (cases fuel) (auto simp: Let_def dest: room_poisoned split: if_splits)

lemma tb_step_poisoned:
  assumes "tb_step s s'" and "t_poisoned s"
  shows "w_sends s' = w_sends s"
  using assms
proof (induction rule: tb_step.induct)
  case (write_signal fuel s src off roff len soff v timeout r s')
  then show ?case
    by (auto simp: tb_write_signal_def now_ns_def split: if_splits elim!: and_then_cases
        dest!: room_poisoned [rotated] tb_write_poisoned [rotated] tb_signal_poisoned [rotated])
qed (auto simp: progress_poisoned tb_write_try_def tb_can_write_def tb_fence_def now_ns_def tb_bond_tail_def
    tb_can_bond_tail_def tb_bond_write_signal_def tb_bond_write_n_def tb_bond_signal_def tb_bond_signal_n_def
    tb_bond_inline_n_def Let_def tb_accept_def tb_bond_hooks_def tb_watch_def
    split: option.splits if_splits
    dest!: tb_write_poisoned [rotated] tb_signal_poisoned [rotated] bond_loop_poisoned [rotated]
      room_poisoned [rotated])


subsection \<open>A sample link\<close>

text \<open>
  A link on a device that accepts every request and reports nothing, with a window of bytes that
  count up. The witnesses run the operations on it.
\<close>

definition blank_with :: "'b \<Rightarrow> 'b link" where
  "blank_with b = \<lparr>t_ring = (\<lambda>_. 0), t_ring_lkey = 0, t_slots = 0, t_depth = 0, t_peer_slots = 0, t_tx_seq = 0, t_packets = 0,
     t_fences = 0, t_fence_acked = 0, t_tx_posted = 0, t_tx_done = 0, t_staged = 0, t_unstaged = 0,
     t_tx_packets = (\<lambda>_. 0), t_tx_staged = (\<lambda>_. 0), t_tx_bytes = (\<lambda>_. 0), t_tx_payload = (\<lambda>_. 0), t_sent_bytes = 0,
     t_completed_bytes = 0, t_writes_posted = 0, t_writes_placed = 0, t_sent_payload = 0, t_completed_payload = 0,
     t_tx_ns = (\<lambda>_. 0), t_done_ns = 0, t_rate = 0, t_bond = no_bond, t_stalled = 0, t_taken_ns = 0, t_filled = 0,
     t_used = 0, t_posted = 0, t_rx_len = (\<lambda>_. 0), t_rx_last = (\<lambda>_. False), t_rx_seq = 0, t_want_len = 0,
     t_want_off = 0, t_rx = None, t_lo = 0, t_hi = 0, t_poisoned = False, t_why = [], t_watch = False,
     l_tb = False, w_win = (\<lambda>a. of_nat a), w_bond = b, w_sends = [], w_recvs = [], w_now = (\<lambda>i. of_nat i), w_nnow = 0,
     w_post_send = (\<lambda>_. True), w_npost = 0, w_post_recv = (\<lambda>_. True), w_nrecv = 0, w_poll = (\<lambda>_. (Some [], \<lambda>m. m)),
     w_npoll = 0, w_gone = (\<lambda>_. False), w_ngone = 0, w_wanted = (\<lambda>_. False), w_nwanted = 0\<rparr>"

abbreviation blank :: "unit link" where "blank \<equiv> blank_with ()"

definition up :: "unit link" where
  "up = (snd (tb_init blank True True 7 16 4))\<lparr>t_peer_slots := 8\<rparr>"

definition window :: region where
  "window = \<lparr>r_base = 65536, r_length = 32768, r_seg = 16384, r_split = 0, r_below = 1, r_above = 1,
     r_mr = [\<lparr>mr_off = 0, mr_len = 16384, mr_access = 1, mr_lkey = 31, mr_rkey = 0\<rparr>,
             \<lparr>mr_off = 16384, mr_len = 16384, mr_access = 1, mr_lkey = 32, mr_rkey = 0\<rparr>]\<rparr>"

text \<open>On a device that accepts every receive, \<open>tb_init\<close> posts each slot once, in order.\<close>

lemma init_recvs_accepts:
  assumes "\<And>i. w_post_recv s i"
  shows "init_recvs k s =
    (0, s\<lparr>w_nrecv := w_nrecv s + k, w_recvs := w_recvs s @ map (\<lambda>i. TAG T_RECV (t_posted s + of_nat i)) [0..<k],
          t_posted := t_posted s + of_nat k\<rparr>)"
  using assms
proof (induction k arbitrary: s)
  case (Suc k)
  have l: "map (\<lambda>i. TAG T_RECV (p + of_nat i)) [0..<Suc k] =
      TAG T_RECV p # map (\<lambda>i. TAG T_RECV (p + 1 + of_nat i)) [0..<k]" for p :: u64
    by (simp add: upt_conv_Cons map_Suc_upt [symmetric] algebra_simps del: upt_Suc)
  show ?case
    using Suc by (simp add: post_recv_def Let_def l add.assoc del: upt_Suc)
qed simp

lemma up_eq: "up = (fresh_tb blank)\<lparr>t_ring_lkey := 7, t_depth := 16, t_slots := 4, w_nrecv := 4,
    w_recvs := map (\<lambda>i. TAG T_RECV (of_nat i)) [0..<4], t_posted := 4, t_peer_slots := 8\<rparr>"
  unfolding up_def tb_init_def Let_def by (simp add: init_recvs_accepts fresh_tb_def blank_with_def)


lemma up_fields [simp]:
  "t_depth up = 16" "t_slots up = 4" "t_peer_slots up = 8" "t_packets up = 0" "t_tx_posted up = 0" "t_tx_done up = 0"
  "t_staged up = 0" "t_unstaged up = 0" "t_poisoned up = False" "l_tb up = True" "w_sends up = []" "t_tx_seq up = 0"
  "w_post_send up = (\<lambda>_. True)" "w_npost up = 0" "w_win up = (\<lambda>a. of_nat a)" "t_writes_posted up = 0"
  "t_want_len up = 0" "t_bond up = no_bond" "t_rx up = None" "t_rx_seq up = 0" "w_poll up = (\<lambda>_. (Some [], \<lambda>m. m))"
  "t_filled up = 0" "t_used up = 0" "t_posted up = 4" "t_writes_placed up = 0" "t_ring_lkey up = 7"
  by (simp_all add: up_eq fresh_tb_def blank_with_def)

lemma up_reach: "reach up"
proof (rule reach.connect)
  have "nic_ok blank" by (simp add: nic_ok_def blank_with_def)
  moreover have "fst (tb_init blank True True 7 16 4) = 0"
    unfolding tb_init_def Let_def by (simp add: init_recvs_accepts fresh_tb_def blank_with_def)
  ultimately show "reach (snd (tb_init blank True True 7 16 4))"
    by (intro reach.init [of blank True True 7 16 4]) (simp_all add: prod_eq_iff)
  have "l_tb up" by simp
  then have "l_tb (snd (tb_init blank True True 7 16 4))" by (simp add: up_def)
  then show "tb_connect (snd (tb_init blank True True 7 16 4))
      \<lparr>xi_transport = 2, xi_mode = 0, xi_lid = 0, xi_qpn = 0, xi_qpn2 = 0, xi_psn = 0, xi_frames = 8, xi_gid = [],
       xi_req = 0, xi_rep = 0, xi_table = \<lparr>tab_base = 0, tab_length = 0, tab_seg = 0, tab_n = 0, tab_rkey = []\<rparr>\<rparr>
      True True = (0, up)"
    by (simp add: tb_connect_def up_def)
qed

lemma msg_max_up [simp]: "msg_max up = 16384"
  by (simp add: msg_max_def Let_def)

lemma take_up [simp]: "take_in 16384 16384 100 5 = 5"
  by (simp add: take_in_def)

lemma can_write_up: "tb_can_write up (Some window) 100 5 = 1"
  by (simp add: tb_can_write_def window_def can_loop.simps Let_def word_le_nat_alt word_less_nat_alt)

lemma post_send_accepts:
  "w_post_send s (w_npost s) \<Longrightarrow> len \<noteq> 0 \<Longrightarrow> fst (post_send s addr len lkey st pl) = 0"
  by (simp add: post_send_def Let_def split: prod.split)

text \<open>The sample after a signal of value 5 for offset 8.\<close>

definition signalled :: "unit link" where
  "signalled = snd (the (tb_signal 1 up 8 5 100))"

lemma signalled_run:
  "tb_signal 1 up 8 5 100 = Some (0, signalled)"
  "\<exists>sd. w_sends signalled = [sd] \<and> sd_staged sd" "t_tx_done signalled = 0" "\<not> t_poisoned signalled"
proof -
  let ?s = "snd (now_ns up)"
  let ?p = "post_slot ?s (put_head (plain_head ?s C_SIGNAL 8 8 5)) 0"
  have f: "w_post_send ?s (w_npost ?s)" "w_sends ?s = []" "t_tx_done ?s = 0" "\<not> t_poisoned ?s"
    by (simp_all add: now_ns_def)
  have r: "has_room ?s 1 1 False" by (simp add: now_ns_def has_room_def word_le_nat_alt word_less_nat_alt)
  have p: "fst ?p = 0" using f unfolding post_slot_def Let_def by (intro post_send_accepts) (simp_all add: now_ns_def)
  have run: "tb_signal 1 up 8 5 100 = Some (0, staged_sent (snd ?p))"
    using r f(4) p unfolding tb_signal_def room_def
    by (simp add: split_beta and_then_def send_head_post_slot)
  then have s: "signalled = staged_sent (snd ?p)" by (simp add: signalled_def)
  with run show "tb_signal 1 up 8 5 100 = Some (0, signalled)" by simp
  obtain q s' where q: "?p = (q, s')" by fastforce
  with p have "q = 0" by simp
  note post_send_sends [OF q [unfolded post_slot_def Let_def]]
  then show "\<exists>sd. w_sends signalled = [sd] \<and> sd_staged sd"
    using f q \<open>q = 0\<close> by (simp add: s staged_sent_def)
  show "t_tx_done signalled = 0" "\<not> t_poisoned signalled"
    unfolding s using f by (simp_all add: staged_sent_def post_slot_def Let_def post_send_def now_ns_def split: prod.split)
qed

subsection \<open>Properties\<close>

text \<open>
  C1: in every state a link can reach, by any operations in any order and whatever the device and
  the peer do, while it has not failed its counters agree with the requests its queue pair holds:
  the packets, requests and staging slots in flight are exactly those of the sends not yet
  completed, none exceeds the queue's depth, the 1024 request slots or the 64 staging slots, and
  the per-request arrays hold what each completion will give back.
\<close>

theorem link_flow_control:
  assumes "reach s" and "\<not> t_poisoned s" and "length (w_sends s) < 2 ^ 64"
  shows "flow_inv s"
  using reach_flow [OF assms(1)] assms(2,3) by (simp add: flow_ok_def)

theorem link_flow_control_witness: "flow_inv up"
  by (rule link_flow_control [OF up_reach]) simp_all

text \<open>
  C3: a message posted from a staging slot stays in that slot, byte for byte, until its send
  completes, so the device can read it at any time in between; the slots lie behind the receive
  slots of the ring.
\<close>

theorem staged_message_intact:
  assumes "reach s" and "\<not> t_poisoned s" and "length (w_sends s) < 2 ^ 64"
    and "unat (t_tx_done s) \<le> i" and "i < length (w_sends s)" and "sd_staged (w_sends s ! i)"
  shows "\<exists>a. sd_src (w_sends s ! i) = InRing a \<and> TB_RING * TB_PACKET \<le> a \<and>
    a + length (sd_bytes (w_sends s ! i)) \<le> (TB_RING + TB_STAGE) * TB_PACKET \<and>
    mem_read (t_ring s) a (length (sd_bytes (w_sends s ! i))) = sd_bytes (w_sends s ! i)"
proof -
  have "flow_inv s" using reach_flow [OF assms(1)] assms(2,3) by (simp add: flow_ok_def)
  then have e: "entry_ok s i" using assms(4,5) by (simp add: flow_inv_def Let_def)
  let ?k = "nst (take i (w_sends s))"
  have "?k mod 64 < 64" by simp
  then have "2048 * 4096 \<le> slot_of ?k" "slot_of ?k + 4096 \<le> (2048 + 64) * 4096"
    unfolding slot_of_def by simp_all
  then show ?thesis using e assms(6) by (intro exI [of _ "slot_of ?k"]) (simp add: entry_ok_def Let_def)
qed

theorem staged_message_intact_witness:
  "\<exists>a. sd_src (w_sends signalled ! 0) = InRing a \<and>
     mem_read (t_ring signalled) a (length (sd_bytes (w_sends signalled ! 0))) = sd_bytes (w_sends signalled ! 0)"
proof -
  have "reach signalled" using reach.step [OF up_reach] tb_step.signal [OF signalled_run(1)] by blast
  then show ?thesis using staged_message_intact [of signalled 0] signalled_run(2-4) by auto
qed

text \<open>
  C4: a link that has failed stays failed with the first reason, and no operation posts another
  send on it.
\<close>

theorem failed_link_silent:
  assumes "tb_step s s'" and "t_poisoned s"
  shows "t_poisoned s' \<and> t_why s' = t_why s \<and> w_sends s' = w_sends s"
  using tb_step_evolves [OF assms(1)] tb_step_poisoned [OF assms] assms(2) by (simp add: evolves_def)

theorem failed_link_silent_witness:
  "t_why (snd (tb_progress_some (poison ''cable pulled'' up) True)) = ''cable pulled''"
proof -
  have "tb_step (poison ''cable pulled'' up) (snd (tb_progress_some (poison ''cable pulled'' up) True))"
    by (rule tb_step.progress [of _ True "fst (tb_progress_some (poison ''cable pulled'' up) True)"]) simp
  from failed_link_silent [OF this] show ?thesis by (simp add: poison_def)
qed

text \<open>
  C2: whatever arrives, a pass of progress on a link without a bond writes to the window only
  inside the limits \<open>[lo, hi)\<close> that \<open>tb_accept\<close> set, and keeps this so for the next pass.
\<close>

theorem progress_confined:
  assumes "tb_progress_some s wanted = (r, s')" and "rx_state no_bond (\<lambda>_. True) lo hi s"
  shows "(\<forall>a. a < lo \<or> hi \<le> a \<longrightarrow> w_win s' a = w_win s a) \<and> rx_state no_bond (\<lambda>_. True) lo hi s'"
  using plain.progress_safe [OF assms] by (simp add: rx_safe_def same_outside_def)

theorem progress_confined_witness:
  "w_win (snd (tb_progress_some (tb_accept window 64 128 up) False)) 200 = 200"
proof -
  have rx: "rx_state no_bond (\<lambda>_. True) 64 128 (tb_accept window 64 128 up)"
    by (simp add: rx_state_def tb_accept_def window_def no_bond_def)
  obtain r s' where p: "tb_progress_some (tb_accept window 64 128 up) False = (r, s')" by fastforce
  from progress_confined [OF p rx] have "w_win s' 200 = w_win (tb_accept window 64 128 up) 200" by simp
  also have "\<dots> = 200" by (simp add: tb_accept_def)
  finally show ?thesis unfolding p by simp
qed

end
