(* ===== verification/Link_Xchg.thy ===== *)
theory Link_Xchg
  imports Link_Types
begin

section \<open>The setup exchange (rpc/link\_xchg.c)\<close>

text \<open>
  The datagrams two ends swap to set a link up: their bytes, the interface a socket is bound to,
  where a datagram is sent and which ones are admitted. The socket library is a parameter: what
  \<open>poll\<close>, \<open>recvmsg\<close>, \<open>inet_pton\<close>, \<open>if_nametoindex\<close> and the opening of a
  socket answered are arguments of the operations that call them. Logging is left out.
\<close>

subsection \<open>Messages\<close>

abbreviation (input) X_OFFER :: "'a :: numeral" where "X_OFFER \<equiv> 1"
abbreviation (input) X_PING :: "'a :: numeral" where "X_PING \<equiv> 2"
abbreviation (input) X_PONG :: "'a :: numeral" where "X_PONG \<equiv> 3"
abbreviation (input) X_BYE :: "'a :: numeral" where "X_BYE \<equiv> 4"
abbreviation (input) X_ERR :: "'a :: numeral" where "X_ERR \<equiv> 5"
abbreviation (input) ROLE_CONNECT :: "'a :: numeral" where "ROLE_CONNECT \<equiv> 1"
abbreviation (input) ROLE_LISTEN :: "'a :: numeral" where "ROLE_LISTEN \<equiv> 2"
abbreviation (input) ROLE_PEER :: "'a :: numeral" where "ROLE_PEER \<equiv> 3"
abbreviation (input) X_HAVE :: "'a :: numeral" where "X_HAVE \<equiv> 1"
abbreviation (input) X_NAME :: "'a :: numeral" where "X_NAME \<equiv> 24"
abbreviation (input) X_MAX :: "'a :: numeral" where "X_MAX \<equiv> 1232"
abbreviation (input) X_VERSION :: "'a :: numeral" where "X_VERSION \<equiv> 1"
abbreviation (input) X_HEAD :: "'a :: numeral" where "X_HEAD \<equiv> 64"
abbreviation (input) X_OFFER_FIXED :: "'a :: numeral" where "X_OFFER_FIXED \<equiv> 144"
abbreviation (input) X_TEXT :: "'a :: numeral" where "X_TEXT \<equiv> 96"

text \<open>\<open>struct xmsg\<close>: its character arrays are lists of X\_NAME, 16, 16 and 96 bytes.\<close>

record xmsg =
  m_kind :: u8
  m_role :: u8
  m_flags :: u8
  m_name :: "u8 list"
  m_from :: "u8 list"
  m_to :: "u8 list"
  m_info :: xinfo
  m_text :: "u8 list"

definition X_MAGIC :: "u8 list" where
  "X_MAGIC = [77, 67, 68, 88]"

definition zero_info :: xinfo where
  "zero_info = \<lparr>xi_transport = 0, xi_mode = 0, xi_lid = 0, xi_qpn = 0, xi_qpn2 = 0, xi_psn = 0, xi_frames = 0,
     xi_gid = replicate 16 0, xi_req = 0, xi_rep = 0,
     xi_table = \<lparr>tab_base = 0, tab_length = 0, tab_seg = 0, tab_n = 0, tab_rkey = replicate LINK_REGION_MAX 0\<rparr>\<rparr>"

text \<open>The bytes of a datagram in the order of their offsets: 0, 4, 8, 32, 48; then from 64 on, by kind.\<close>

definition head_bytes :: "xmsg \<Rightarrow> u8 list" where
  "head_bytes m = X_MAGIC @ [X_VERSION, m_kind m, m_role m, m_flags m] @ m_name m @ m_from m @ m_to m"

definition info_bytes :: "xinfo \<Rightarrow> u8 list" where
  "info_bytes i =
     [xi_transport i, xi_mode i] @ put_le 2 (xi_lid i) @
     put_le 4 (xi_qpn i) @ put_le 4 (xi_qpn2 i) @ put_le 4 (xi_psn i) @ put_le 4 (xi_frames i) @
     xi_gid i @ put_le 8 (xi_req i) @ put_le 8 (xi_rep i) @
     put_le 8 (tab_base (xi_table i)) @ put_le 8 (tab_length (xi_table i)) @ put_le 8 (tab_seg (xi_table i)) @
     put_le 4 (tab_n (xi_table i)) @
     put_words (take (unat (tab_n (xi_table i))) (tab_rkey (xi_table i)))"

definition encode_size :: "xmsg \<Rightarrow> nat" where
  "encode_size m =
     (if m_kind m = X_OFFER then X_OFFER_FIXED + 4 * unat (tab_n (xi_table (m_info m)))
      else if m_kind m = X_ERR then X_HEAD + X_TEXT
      else X_HEAD)"

definition xchg_encode :: "xmsg \<Rightarrow> nat \<Rightarrow> u8 list option" where
  "xchg_encode m cap =
     (if m_kind m = X_OFFER \<and> LINK_REGION_MAX < tab_n (xi_table (m_info m)) then None
      else if cap < encode_size m \<or> X_MAX < encode_size m \<or> 0 \<notin> set (m_name m) then None
      else Some (head_bytes m @
        (if m_kind m = X_OFFER then info_bytes (m_info m)
         else if m_kind m = X_ERR then take (X_TEXT - 1) (m_text m) @ [0]
         else [])))"

text \<open>Reading: a field is found at its offset; what the datagram does not carry stays zero.\<close>

definition field :: "nat \<Rightarrow> nat \<Rightarrow> u8 list \<Rightarrow> u8 list" where
  "field off n bs = take n (drop off bs)"

definition get_info :: "u8 list \<Rightarrow> xinfo" where
  "get_info bs =
     \<lparr>xi_transport = bs ! 64, xi_mode = bs ! 65, xi_lid = get_le (field 66 2 bs),
      xi_qpn = get_le (field 68 4 bs), xi_qpn2 = get_le (field 72 4 bs), xi_psn = get_le (field 76 4 bs),
      xi_frames = get_le (field 80 4 bs), xi_gid = field 84 16 bs,
      xi_req = get_le (field 100 8 bs), xi_rep = get_le (field 108 8 bs),
      xi_table = \<lparr>tab_base = get_le (field 116 8 bs), tab_length = get_le (field 124 8 bs),
        tab_seg = get_le (field 132 8 bs), tab_n = get_le (field 140 4 bs),
        tab_rkey = (let n = unat (get_le (field 140 4 bs) :: u32) in
          get_words n (drop X_OFFER_FIXED bs) @ replicate (LINK_REGION_MAX - n) 0)\<rparr>\<rparr>"

text \<open>The checks of the body, by kind, once the head has passed.\<close>

definition body_ok :: "u8 \<Rightarrow> u8 list \<Rightarrow> bool" where
  "body_ok kind bs =
     (if kind = X_OFFER then
        \<not> length bs < X_OFFER_FIXED \<and>
        (let n = get_le (field 140 4 bs) :: u32 in
         \<not> (LINK_REGION_MAX < n \<or> length bs \<noteq> X_OFFER_FIXED + 4 * unat n)) \<and>
        \<not> (bs ! 64 \<noteq> LINK_ROCE \<and> bs ! 64 \<noteq> LINK_TB)
      else if kind = X_ERR then length bs = X_HEAD + X_TEXT \<and> 0 \<in> set (field X_HEAD X_TEXT bs)
      else length bs = X_HEAD)"

definition xchg_decode :: "u8 list \<Rightarrow> xmsg option" where
  "xchg_decode bs =
     (if length bs < X_HEAD \<or> X_MAX < length bs \<or> take 4 bs \<noteq> X_MAGIC \<or> bs ! 4 \<noteq> X_VERSION then None
      else
        let kind = bs ! 5; role = bs ! 6; name = field 8 X_NAME bs in
        if kind < X_OFFER \<or> X_ERR < kind \<or> role < ROLE_CONNECT \<or> ROLE_PEER < role then None
        else if 0 \<notin> set name then None
        else if \<not> body_ok kind bs then None
        else Some \<lparr>m_kind = kind, m_role = role, m_flags = bs ! 7, m_name = name, m_from = field 32 16 bs,
               m_to = field 48 16 bs, m_info = (if kind = X_OFFER then get_info bs else zero_info),
               m_text = (if kind = X_ERR then field X_HEAD X_TEXT bs else replicate X_TEXT 0)\<rparr>)"

text \<open>A message whose arrays have their C lengths, and what it says on the wire.\<close>

definition xmsg_ok :: "xmsg \<Rightarrow> bool" where
  "xmsg_ok m \<longleftrightarrow> length (m_name m) = X_NAME \<and> length (m_from m) = 16 \<and> length (m_to m) = 16 \<and>
     length (m_text m) = X_TEXT \<and> length (xi_gid (m_info m)) = 16 \<and>
     length (tab_rkey (xi_table (m_info m))) = LINK_REGION_MAX"

definition carried_info :: "xinfo \<Rightarrow> xinfo" where
  "carried_info i = (let n = unat (tab_n (xi_table i)) in
     i\<lparr>xi_table := (xi_table i)\<lparr>tab_rkey := take n (tab_rkey (xi_table i)) @ replicate (LINK_REGION_MAX - n) 0\<rparr>\<rparr>)"

definition carried :: "xmsg \<Rightarrow> xmsg" where
  "carried m = m\<lparr>m_info := (if m_kind m = X_OFFER then carried_info (m_info m) else zero_info),
     m_text := (if m_kind m = X_ERR then take (X_TEXT - 1) (m_text m) @ [0] else replicate X_TEXT 0)\<rparr>"

subsection \<open>Addresses and interfaces\<close>

text \<open>An IPv6 address is its 16 bytes; an IPv4 peer is held as ::ffff:A.B.C.D.\<close>

type_synonym in6 = "u8 list"

definition all_nodes :: in6 where
  "all_nodes = [255, 2] @ replicate 13 0 @ [1]"

definition linklocal :: "in6 \<Rightarrow> bool" where
  "linklocal a \<longleftrightarrow> a ! 0 = 254 \<and> a ! 1 AND 192 = 128"

definition v4mapped :: "in6 \<Rightarrow> bool" where
  "v4mapped a \<longleftrightarrow> take 10 a = replicate 10 0 \<and> a ! 10 = 255 \<and> a ! 11 = 255"

text \<open>
  The system's parser of addresses: four or sixteen bytes of a well-formed address, None otherwise.
\<close>

record pton =
  pton4 :: "string \<Rightarrow> u8 list option"
  pton6 :: "string \<Rightarrow> u8 list option"

definition via_parse :: "pton \<Rightarrow> string \<Rightarrow> nat \<Rightarrow> (string \<times> in6 \<times> bool) option" where
  "via_parse sys via n =
     (let ifname = takeWhile (\<lambda>c. c \<noteq> CHR ''/'') via; rest = dropWhile (\<lambda>c. c \<noteq> CHR ''/'') via;
          addr = tl rest
      in if length ifname = 0 \<or> n \<le> length ifname \<or> 16 \<le> length ifname then None
         else if rest = [] then Some (ifname, replicate 16 0, False)
         else if CHR ''%'' \<notin> set addr \<and> pton4 sys addr \<noteq> None
           then Some (ifname, replicate 10 0 @ [255, 255] @ the (pton4 sys addr), True)
         else
           if CHR ''%'' \<in> set addr then None
           else (case pton6 sys addr of
               None \<Rightarrow> None
             | Some peer \<Rightarrow> if \<not> linklocal peer then None else Some (ifname, peer, True)))"

subsection \<open>One end of the exchange\<close>

text \<open>
  \<open>struct xchg\<close>. The name is its character array; \<open>x_fd\<close> is None for a descriptor below 0.
  What the operations left in the log is not kept.
\<close>

record xchg =
  x_fd :: "nat option"
  x_port :: u16
  x_peer_port :: u16
  x_pinned :: bool
  x_learned :: bool
  x_v4 :: bool
  x_ifindex :: u32
  x_ifname :: string
  x_name :: "u8 list"
  x_peer :: in6
  x_session :: "u8 list"
  x_peer_session :: "u8 list"
  x_rejected :: u64
  x_warned_ns :: u64

text \<open>The bytes of a C string in an array, up to its terminator, and \<open>snprintf(at, n, "%s", s)\<close>.\<close>

definition c_str :: "u8 list \<Rightarrow> u8 list" where
  "c_str bs = takeWhile (\<lambda>b. b \<noteq> 0) bs"

definition put_str :: "nat \<Rightarrow> u8 list \<Rightarrow> u8 list" where
  "put_str n bs = (let t = take (n - 1) (c_str bs) in t @ replicate (n - length t) 0)"

definition empty_xchg :: xchg where
  "empty_xchg = \<lparr>x_fd = None, x_port = 0, x_peer_port = 0, x_pinned = False, x_learned = False, x_v4 = False,
     x_ifindex = 0, x_ifname = [], x_name = replicate X_NAME 0, x_peer = replicate 16 0, x_session = replicate 16 0,
     x_peer_session = replicate 16 0, x_rejected = 0, x_warned_ns = 0\<rparr>"

definition xchg_session :: "xchg \<Rightarrow> u8 list \<Rightarrow> xchg" where
  "xchg_session x random = x\<lparr>x_session := random, x_peer_session := replicate 16 0\<rparr>"

text \<open>
  Opening: \<open>nametoindex\<close> is the system's answer for an interface, \<open>sock v4 port\<close> what setting
  the options of a socket, binding it and asking for its port gave (the descriptor and the port).
\<close>

definition xchg_open ::
    "pton \<Rightarrow> (string \<Rightarrow> u32) \<Rightarrow> (bool \<Rightarrow> u16 \<Rightarrow> (nat \<times> u16) option) \<Rightarrow> u8 list \<Rightarrow>
     string \<Rightarrow> int \<Rightarrow> int \<Rightarrow> u8 list \<Rightarrow> int \<times> xchg" where
  "xchg_open sys nametoindex sock random via port peer_port name =
     (if port < 0 \<or> 65535 < port \<or> peer_port < 0 \<or> 65535 < peer_port \<or> X_NAME \<le> length (c_str name)
      then (-1, empty_xchg)
      else case via_parse sys via 32 of
        None \<Rightarrow> (-1, empty_xchg)
      | Some (ifname, peer, pinned) \<Rightarrow>
          let x0 = empty_xchg\<lparr>x_ifname := ifname, x_peer := peer, x_pinned := pinned, x_ifindex := nametoindex ifname\<rparr> in
          if nametoindex ifname = 0 then (-1, x0)
          else
            let x = x0\<lparr>x_name := put_str X_NAME name, x_port := of_int port,
                  x_peer_port := (if peer_port \<noteq> 0 then of_int peer_port else of_int port),
                  x_v4 := (pinned \<and> v4mapped peer)\<rparr>
            in case sock (x_v4 x) (of_int port) of
                 None \<Rightarrow> (-1, x)
               | Some (fd, bound) \<Rightarrow> (0, xchg_session (x\<lparr>x_fd := Some fd, x_port := bound\<rparr>) random))"

definition xchg_close :: "xchg \<Rightarrow> xchg" where
  "xchg_close x = x\<lparr>x_fd := None\<rparr>"

definition xchg_prepare :: "xchg \<Rightarrow> u8 \<Rightarrow> u8 \<Rightarrow> u8 \<Rightarrow> xmsg" where
  "xchg_prepare x kind role flags =
     \<lparr>m_kind = kind, m_role = role, m_flags = flags, m_name = put_str X_NAME (x_name x), m_from = x_session x,
      m_to = x_peer_session x, m_info = zero_info, m_text = replicate X_TEXT 0\<rparr>"

text \<open>Where a datagram goes: an IPv4 address and port, or an IPv6 address with its port and interface.\<close>

datatype dest = To4 "u8 list" u16 | To6 in6 u16 u32

definition v4_peer :: "xchg \<Rightarrow> u16 \<Rightarrow> dest" where
  "v4_peer x port = To4 (drop 12 (x_peer x)) port"

text \<open>
  \<open>xchg_send\<close> gives the datagram it hands to \<open>sendto\<close>, if any; \<open>sent\<close> says whether the
  system took all of it.
\<close>

definition xchg_send :: "xchg \<Rightarrow> xmsg \<Rightarrow> bool \<Rightarrow> int \<times> (dest \<times> u8 list) option" where
  "xchg_send x m sent =
     (case xchg_encode m X_MAX of
        None \<Rightarrow> (-1, None)
      | Some buf \<Rightarrow>
          if x_fd x = None then (-1, None)
          else
            let to = (if x_v4 x then v4_peer x (x_peer_port x)
                      else To6 (if x_learned x \<or> x_pinned x then x_peer x else all_nodes) (x_peer_port x) (x_ifindex x))
            in (if sent then 0 else -1, Some (to, buf)))"

subsection \<open>Admission\<close>

text \<open>
  A datagram as \<open>recvmsg\<close> gives it: the family and address of its source, its control messages
  (of another level or type, or too short, is \<open>Other_cmsg\<close>) and its bytes, of which the buffer
  holds X\_MAX + 1.
\<close>

datatype cmsg = Pktinfo u32 | Hops int | Other_cmsg

record datagram =
  dg_v6 :: bool
  dg_src :: "u8 list"
  dg_port :: u16
  dg_control :: "cmsg list"
  dg_bytes :: "u8 list"

datatype polled = Poll_failed bool | Poll_timeout | Poll_ready

datatype received = Recv_failed bool | Recv datagram

fun read_cmsg :: "cmsg list \<Rightarrow> u32 \<times> int \<Rightarrow> u32 \<times> int" where
  "read_cmsg [] (arrived, hops) = (arrived, hops)"
| "read_cmsg (Pktinfo i # cs) (arrived, hops) = read_cmsg cs (i, hops)"
| "read_cmsg (Hops h # cs) (arrived, hops) = read_cmsg cs (arrived, h)"
| "read_cmsg (Other_cmsg # cs) (arrived, hops) = read_cmsg cs (arrived, hops)"

definition reject :: "xchg \<Rightarrow> u64 \<Rightarrow> xchg" where
  "reject x now =
     (let x1 = x\<lparr>x_rejected := x_rejected x + 1\<rparr> in
      if x_warned_ns x \<noteq> 0 \<and> now - x_warned_ns x < 10000000000 then x1 else x1\<lparr>x_warned_ns := now\<rparr>)"

definition same_name :: "u8 list \<Rightarrow> u8 list \<Rightarrow> bool" where
  "same_name a b \<longleftrightarrow> c_str (take X_NAME a) = c_str (take X_NAME b)"

text \<open>The message a datagram carries, once its source has passed, if it decodes and names this link.\<close>

definition admitted_msg :: "xchg \<Rightarrow> u8 list \<Rightarrow> xmsg option" where
  "admitted_msg x got =
     (if X_MAX < length got then None
      else case xchg_decode got of
        None \<Rightarrow> None
      | Some m \<Rightarrow> if \<not> same_name (m_name m) (x_name x) then None else Some m)"

definition recv_v4 :: "xchg \<Rightarrow> datagram \<Rightarrow> u64 \<Rightarrow> int \<times> xmsg option \<times> xchg" where
  "recv_v4 x dg now =
     (let buf = take (X_MAX + 1) (dg_bytes dg); (arrived, ttl) = read_cmsg (dg_control dg) (0, -1) in
      if dg_v6 dg \<or> dg_src dg \<noteq> drop 12 (x_peer x) then (0, None, reject x now)
      else if arrived \<noteq> x_ifindex x then (0, None, reject x now)
      else if ttl \<noteq> 255 then (0, None, reject x now)
      else case admitted_msg x buf of
        None \<Rightarrow> (0, None, reject x now)
      | Some m \<Rightarrow> if m_from m = x_session x then (0, None, x)
          else (1, Some m, x\<lparr>x_peer_port := dg_port dg, x_learned := True\<rparr>))"

definition xchg_recv :: "xchg \<Rightarrow> polled \<Rightarrow> received \<Rightarrow> u64 \<Rightarrow> int \<times> xmsg option \<times> xchg" where
  "xchg_recv x ready got now =
     (case ready of
        Poll_failed eintr \<Rightarrow> (if eintr then 0 else -1, None, x)
      | Poll_timeout \<Rightarrow> (0, None, x)
      | Poll_ready \<Rightarrow>
          (case got of
             Recv_failed again \<Rightarrow> (if again then 0 else -1, None, x)
           | Recv dg \<Rightarrow>
               if x_v4 x then recv_v4 x dg now
               else
                 let buf = take (X_MAX + 1) (dg_bytes dg); (arrived, hops) = read_cmsg (dg_control dg) (0, -1) in
                 if \<not> dg_v6 dg \<or> \<not> linklocal (dg_src dg) then (0, None, reject x now)
                 else if arrived \<noteq> x_ifindex x then (0, None, reject x now)
                 else if hops \<noteq> 255 then (0, None, reject x now)
                 else if x_pinned x \<and> dg_src dg \<noteq> x_peer x then (0, None, reject x now)
                 else case admitted_msg x buf of
                   None \<Rightarrow> (0, None, reject x now)
                 | Some m \<Rightarrow> if m_from m = x_session x then (0, None, x)
                     else (1, Some m, x\<lparr>x_peer := dg_src dg, x_peer_port := dg_port dg, x_learned := True\<rparr>)))"

definition xchg_ours :: "xchg \<Rightarrow> xmsg \<Rightarrow> bool" where
  "xchg_ours x m \<longleftrightarrow> m_to m = x_session x"

text \<open>\<open>via_check\<close> as it is built on a Mac: \<open>devices\<close> are the names of the verbs devices.\<close>

definition via_check :: "pton \<Rightarrow> string \<Rightarrow> string \<Rightarrow> nat \<Rightarrow> string list \<Rightarrow> int" where
  "via_check sys via device kind devices =
     (case via_parse sys via 32 of
        None \<Rightarrow> -1
      | Some (ifname, pin, pinned) \<Rightarrow>
          let want = ''rdma_'' @ ifname; found = want \<in> set devices in
          if kind = LINK_TB \<and> device \<noteq> want then -1
          else if \<not> found \<and> kind = LINK_ROCE \<and> pinned then 0
          else if found then 0 else -1)"

subsection \<open>Samples\<close>

text \<open>An offer with two keys, a ping, and two ends of one link, for the witnesses.\<close>

definition sample_offer :: xmsg where
  "sample_offer = \<lparr>m_kind = X_OFFER, m_role = ROLE_PEER, m_flags = X_HAVE, m_name = [102, 97, 98] @ replicate 21 0,
     m_from = replicate 16 1, m_to = replicate 16 2,
     m_info = zero_info\<lparr>xi_transport := LINK_TB, xi_qpn := 70000, xi_table := (xi_table zero_info)
       \<lparr>tab_length := 32768, tab_seg := 16384, tab_n := 2, tab_rkey := [11, 12] @ replicate 126 0\<rparr>\<rparr>,
     m_text = replicate X_TEXT 0\<rparr>"

definition sample_ping :: "u8 list" where
  "sample_ping = X_MAGIC @ [X_VERSION, X_PING, ROLE_PEER, 0] @ [102, 97, 98] @ replicate 21 0 @ replicate 16 1 @ replicate 16 0"

definition sample_end :: "u8 \<Rightarrow> xchg" where
  "sample_end s = snd (xchg_open \<lparr>pton4 = (\<lambda>_. None), pton6 = (\<lambda>_. None)\<rparr> (\<lambda>_. 3) (\<lambda>_ _. Some (5, 7000)) (replicate 16 s)
     ''en2'' 7000 0 [102, 97, 98])"

definition sample_dg :: datagram where
  "sample_dg = \<lparr>dg_v6 = True, dg_src = [254, 128] @ replicate 13 0 @ [9], dg_port = 7000, dg_control = [Hops 255, Pktinfo 3],
     dg_bytes = sample_ping\<rparr>"

lemma sample_open:
  "xchg_open \<lparr>pton4 = (\<lambda>_. None), pton6 = (\<lambda>_. None)\<rparr> (\<lambda>_. 3) (\<lambda>_ _. Some (5, 7000)) (replicate 16 s) ''en2'' 7000 0
     [102, 97, 98] = (0, sample_end s)"
  by (simp add: sample_end_def xchg_open_def c_str_def via_parse_def Let_def)

lemma sample_name:
  "put_str X_NAME [102, 97, 98] = [102, 97, 98] @ replicate 21 0"
  "put_str X_NAME ([102, 97, 98] @ replicate 21 0) = [102, 97, 98] @ replicate 21 0"
  by code_simp+

lemma sample_end_fields:
  "x_v4 (sample_end s) = False" "x_pinned (sample_end s) = False" "x_learned (sample_end s) = False"
  "x_ifindex (sample_end s) = 3" "x_peer_port (sample_end s) = 7000" "x_fd (sample_end s) = Some 5"
  "x_name (sample_end s) = [102, 97, 98] @ replicate 21 0" "x_session (sample_end s) = replicate 16 s"
  "x_peer_session (sample_end s) = replicate 16 0"
  by (simp_all add: sample_end_def xchg_open_def c_str_def via_parse_def Let_def sample_name(1) xchg_session_def empty_xchg_def)

lemma sample_prepare: "xchg_encode (xchg_prepare (sample_end 1) X_PING ROLE_PEER 0) X_MAX = Some sample_ping"
  unfolding xchg_prepare_def sample_end_fields sample_name(2)
  by (simp add: xchg_encode_def encode_size_def head_bytes_def sample_ping_def)

subsection \<open>Round trips\<close>

lemma length_head_bytes: "xmsg_ok m \<Longrightarrow> length (head_bytes m) = X_HEAD"
  by (simp add: head_bytes_def xmsg_ok_def X_MAGIC_def)

lemma length_info_bytes:
  assumes "length (xi_gid i) = 16" and "unat (tab_n (xi_table i)) \<le> length (tab_rkey (xi_table i))"
  shows "length (info_bytes i) = 80 + 4 * unat (tab_n (xi_table i))"
  using assms by (simp add: info_bytes_def)

lemma field_skip: "length xs \<le> off \<Longrightarrow> field off n (xs @ ys) = field (off - length xs) n ys"
  by (simp add: field_def)

lemma field_here: "length xs = n \<Longrightarrow> field 0 n (xs @ ys) = xs"
  by (simp add: field_def)

lemma field_all: "length xs = n \<Longrightarrow> field 0 n xs = xs"
  by (simp add: field_def)

lemma nth_skip: "length xs \<le> i \<Longrightarrow> (xs @ ys) ! i = ys ! (i - length xs)"
  by (simp add: nth_append)

lemma head_fields:
  assumes "xmsg_ok m"
  shows "take 4 (head_bytes m @ r) = X_MAGIC" "(head_bytes m @ r) ! 4 = X_VERSION" "(head_bytes m @ r) ! 5 = m_kind m"
    "(head_bytes m @ r) ! 6 = m_role m" "(head_bytes m @ r) ! 7 = m_flags m" "field 8 X_NAME (head_bytes m @ r) = m_name m"
    "field 32 16 (head_bytes m @ r) = m_from m" "field 48 16 (head_bytes m @ r) = m_to m"
  using assms by (simp_all add: head_bytes_def X_MAGIC_def xmsg_ok_def field_def numeral_eq_Suc)

lemma info_fields:
  assumes h: "length h = X_HEAD" and g: "length (xi_gid i) = 16"
    and k: "length (tab_rkey (xi_table i)) = LINK_REGION_MAX" and n: "unat (tab_n (xi_table i)) \<le> LINK_REGION_MAX"
  shows "get_info (h @ info_bytes i) = carried_info i"
    "get_le (field 140 4 (h @ info_bytes i)) = tab_n (xi_table i)" "(h @ info_bytes i) ! 64 = xi_transport i"
proof -
  have w: "get_words (unat (tab_n (xi_table i))) (put_words (take (unat (tab_n (xi_table i))) (tab_rkey (xi_table i)))) =
      take (unat (tab_n (xi_table i))) (tab_rkey (xi_table i))"
    using get_put_words [of "take (unat (tab_n (xi_table i))) (tab_rkey (xi_table i))" "[]"] k n by (simp add: min_def)
  show t: "get_le (field 140 4 (h @ info_bytes i)) = tab_n (xi_table i)" "(h @ info_bytes i) ! 64 = xi_transport i"
    using g h by (simp_all add: info_bytes_def field_def nth_append)
  show "get_info (h @ info_bytes i) = carried_info i"
    unfolding get_info_def t Let_def using g h
    by (simp add: info_bytes_def field_def nth_append w carried_info_def Let_def)
qed

lemma encoded_size:
  assumes "xchg_encode m cap = Some bs" and "xmsg_ok m"
  shows "length bs = encode_size m" "length bs \<le> cap" "length bs \<le> X_OFFER_FIXED + 4 * LINK_REGION_MAX"
proof -
  have n: "unat (tab_n (xi_table (m_info m))) \<le> 128" if "m_kind m = X_OFFER"
    using assms(1) that by (auto simp: xchg_encode_def word_less_nat_alt split: if_splits)
  show l: "length bs = encode_size m"
    using assms n by (auto simp: xchg_encode_def encode_size_def length_head_bytes length_info_bytes xmsg_ok_def
        split: if_splits)
  show "length bs \<le> cap" using assms(1) l by (auto simp: xchg_encode_def split: if_splits)
  show "length bs \<le> X_OFFER_FIXED + 4 * LINK_REGION_MAX" using n unfolding l encode_size_def by auto
qed

lemma xchg_decode_carried:
  assumes "xmsg_ok m" and "X_OFFER \<le> m_kind m" "m_kind m \<le> X_ERR" and "ROLE_CONNECT \<le> m_role m" "m_role m \<le> ROLE_PEER"
    and "m_kind m = X_OFFER \<longrightarrow> xi_transport (m_info m) = LINK_ROCE \<or> xi_transport (m_info m) = LINK_TB"
    and "xchg_encode m cap = Some bs"
  shows "xchg_decode bs = Some (carried m)"
proof -
  note l = encoded_size [OF assms(7,1)]
  obtain r where bs: "bs = head_bytes m @ r" using assms(7) by (auto simp: xchg_encode_def split: if_splits)
  note h = head_fields [OF assms(1), of r, folded bs]
  have k: "\<not> m_kind m < 1" "\<not> 5 < m_kind m" "\<not> m_role m < 1" "\<not> 3 < m_role m"
    using assms(2-5) by (simp_all only: not_less)
  have nm: "0 \<in> set (m_name m)" using assms(7) by (auto simp: xchg_encode_def split: if_splits)
  have lh: "length (head_bytes m) = X_HEAD" using length_head_bytes assms(1) by simp
  have b: "body_ok (m_kind m) bs \<and> (if m_kind m = X_OFFER then get_info bs else zero_info) = m_info (carried m) \<and>
      (if m_kind m = X_ERR then field X_HEAD X_TEXT bs else replicate X_TEXT 0) = m_text (carried m)"
  proof (cases "m_kind m = X_OFFER")
    case True
    then have n: "unat (tab_n (xi_table (m_info m))) \<le> LINK_REGION_MAX" and r: "r = info_bytes (m_info m)"
      using assms(7) by (auto simp: xchg_encode_def bs word_less_nat_alt split: if_splits)
    note i = info_fields [OF lh _ _ n, folded r, folded bs]
    show ?thesis using True i assms(1,6) l(1) n
      by (auto simp: body_ok_def carried_def xmsg_ok_def encode_size_def word_less_nat_alt Let_def)
  next
    case False
    show ?thesis
    proof (cases "m_kind m = X_ERR")
      case True
      then have r: "r = take (X_TEXT - 1) (m_text m) @ [0]" using assms(7) by (auto simp: xchg_encode_def bs split: if_splits)
      have "field X_HEAD X_TEXT bs = r" using assms(1) by (simp add: bs field_def lh r xmsg_ok_def)
      with True r l(1) show ?thesis by (simp add: body_ok_def carried_def encode_size_def)
    qed (use False l(1) in \<open>simp add: body_ok_def carried_def encode_size_def\<close>)
  qed
  have "X_HEAD \<le> length bs" "length bs \<le> X_MAX" using l lh by (simp_all add: bs)
  then show ?thesis unfolding xchg_decode_def using h k nm b by (simp add: carried_def Let_def)
qed

lemma encode_decode:
  assumes "xmsg_ok m" and "X_OFFER \<le> m_kind m" "m_kind m \<le> X_ERR" and "ROLE_CONNECT \<le> m_role m" "m_role m \<le> ROLE_PEER"
    and "m_kind m = X_OFFER \<longrightarrow> xi_transport (m_info m) = LINK_ROCE \<or> xi_transport (m_info m) = LINK_TB"
    and "m_kind m = X_OFFER \<longrightarrow> tab_n (xi_table (m_info m)) \<le> LINK_REGION_MAX" and "0 \<in> set (m_name m)"
  shows "\<exists>bs. xchg_encode m X_MAX = Some bs \<and> length bs = encode_size m \<and> xchg_decode bs = Some (carried m)"
proof -
  have n: "unat (tab_n (xi_table (m_info m))) \<le> LINK_REGION_MAX" if "m_kind m = X_OFFER"
    using assms(7) that by (simp add: word_le_nat_alt)
  then have "encode_size m \<le> X_MAX" by (auto simp: encode_size_def)
  then obtain bs where e: "xchg_encode m X_MAX = Some bs"
    using assms(7,8) unfolding xchg_encode_def by (auto simp: not_less [symmetric])
  with encoded_size(1) [OF e assms(1)] xchg_decode_carried [OF assms(1-6) e] show ?thesis by blast
qed

text \<open>
  C13: every message the code may build (arrays of their C lengths, a kind and a role of the
  protocol, an offer of one of the two transports) that encodes decodes again to exactly what it
  carries: the offer only in an offer, its keys up to their count, an error's text with its
  terminator, and nothing else.
\<close>

theorem xchg_roundtrip:
  assumes "xmsg_ok m" and "X_OFFER \<le> m_kind m" "m_kind m \<le> X_ERR" and "ROLE_CONNECT \<le> m_role m" "m_role m \<le> ROLE_PEER"
    and "m_kind m = X_OFFER \<longrightarrow> xi_transport (m_info m) = LINK_ROCE \<or> xi_transport (m_info m) = LINK_TB"
    and "m_kind m = X_OFFER \<longrightarrow> tab_n (xi_table (m_info m)) \<le> LINK_REGION_MAX" and "0 \<in> set (m_name m)"
  shows "\<exists>bs. xchg_encode m X_MAX = Some bs \<and> length bs = encode_size m \<and> xchg_decode bs = Some (carried m)"
  using encode_decode [OF assms] .

theorem xchg_roundtrip_witness:
  "\<exists>bs. xchg_encode sample_offer X_MAX = Some bs \<and> length bs = 152 \<and> xchg_decode bs = Some (carried sample_offer)"
proof -
  have "xmsg_ok sample_offer" "encode_size sample_offer = 152"
    by (simp_all add: xmsg_ok_def sample_offer_def zero_info_def encode_size_def)
  with xchg_roundtrip [of sample_offer] show ?thesis by (simp add: sample_offer_def)
qed

lemma length_field: "length (field off n bs) = min n (length bs - off)"
  by (simp add: field_def)

lemma drop_field: "drop off bs = field off n bs @ drop (off + n) bs"
  by (simp add: field_def add.commute flip: drop_drop)

lemma split_head:
  assumes "X_HEAD \<le> length bs"
  shows "bs = take 4 bs @ [bs ! 4, bs ! 5, bs ! 6, bs ! 7] @ field 8 X_NAME bs @ field 32 16 bs @ field 48 16 bs @ drop X_HEAD bs"
proof -
  have "bs = take 4 bs @ field 4 4 bs @ field 8 X_NAME bs @ field 32 16 bs @ field 48 16 bs @ drop X_HEAD bs"
    using drop_field [of 4 bs 4] drop_field [of 8 bs X_NAME] drop_field [of 32 bs 16] drop_field [of 48 bs 16]
      append_take_drop_id [of 4 bs] by simp
  moreover have "field 4 4 bs = [bs ! 4, bs ! 5, bs ! 6, bs ! 7]"
    using assms by (intro nth_equalityI) (auto simp: field_def less_Suc_eq numeral_eq_Suc)
  ultimately show ?thesis by simp
qed

lemma split_info:
  assumes "X_OFFER_FIXED \<le> length bs"
  shows "drop X_HEAD bs = [bs ! 64, bs ! 65] @ field 66 2 bs @ field 68 4 bs @ field 72 4 bs @ field 76 4 bs @ field 80 4 bs @
    field 84 16 bs @ field 100 8 bs @ field 108 8 bs @ field 116 8 bs @ field 124 8 bs @ field 132 8 bs @ field 140 4 bs @
    drop X_OFFER_FIXED bs"
proof -
  have "field 64 2 bs = [bs ! 64, bs ! 65]"
    using assms by (intro nth_equalityI) (auto simp: field_def less_Suc_eq numeral_eq_Suc)
  then show ?thesis
    using drop_field [of 64 bs 2] drop_field [of 66 bs 2] drop_field [of 68 bs 4] drop_field [of 72 bs 4]
      drop_field [of 76 bs 4] drop_field [of 80 bs 4] drop_field [of 84 bs 16] drop_field [of 100 bs 8]
      drop_field [of 108 bs 8] drop_field [of 116 bs 8] drop_field [of 124 bs 8] drop_field [of 132 bs 8]
      drop_field [of 140 bs 4] by simp
qed

lemma decoded:
  assumes "xchg_decode bs = Some m"
  shows "X_HEAD \<le> length bs" "length bs \<le> X_MAX" "take 4 bs = X_MAGIC" "bs ! 4 = X_VERSION" "0 \<in> set (field 8 X_NAME bs)"
    "body_ok (bs ! 5) bs"
    "m = \<lparr>m_kind = bs ! 5, m_role = bs ! 6, m_flags = bs ! 7, m_name = field 8 X_NAME bs, m_from = field 32 16 bs,
       m_to = field 48 16 bs, m_info = (if bs ! 5 = X_OFFER then get_info bs else zero_info),
       m_text = (if bs ! 5 = X_ERR then field X_HEAD X_TEXT bs else replicate X_TEXT 0)\<rparr>"
  using assms unfolding xchg_decode_def Let_def not_less [symmetric] by (simp_all split: if_splits)

lemma get_info_fields:
  "tab_n (xi_table (get_info bs)) = get_le (field 140 4 bs)" "xi_gid (get_info bs) = field 84 16 bs"
  "length (tab_rkey (xi_table (get_info bs))) =
     unat (get_le (field 140 4 bs) :: u32) + (LINK_REGION_MAX - unat (get_le (field 140 4 bs) :: u32))"
  by (simp_all add: get_info_def Let_def)

lemma decoded_info:
  assumes "body_ok X_OFFER bs"
  shows "info_bytes (get_info bs) = drop X_HEAD bs" "unat (tab_n (xi_table (get_info bs))) \<le> LINK_REGION_MAX"
    "length (tab_rkey (xi_table (get_info bs))) = LINK_REGION_MAX" "length (xi_gid (get_info bs)) = 16"
    "length bs = X_OFFER_FIXED + 4 * unat (tab_n (xi_table (get_info bs)))"
proof -
  let ?n = "unat (get_le (field 140 4 bs) :: u32)"
  have b: "?n \<le> LINK_REGION_MAX" "length bs = X_OFFER_FIXED + 4 * ?n"
    using assms by (simp_all add: body_ok_def Let_def word_less_nat_alt not_less)
  then show "unat (tab_n (xi_table (get_info bs))) \<le> LINK_REGION_MAX" "length (xi_gid (get_info bs)) = 16"
    "length (tab_rkey (xi_table (get_info bs))) = LINK_REGION_MAX"
    "length bs = X_OFFER_FIXED + 4 * unat (tab_n (xi_table (get_info bs)))"
    by (simp_all add: get_info_fields length_field)
  have f: "length (field off n bs) = n" if "off + n \<le> X_OFFER_FIXED" for off n using that b(2) by (simp add: length_field)
  have w: "put_words (get_words ?n (drop X_OFFER_FIXED bs)) = drop X_OFFER_FIXED bs" by (rule put_get_words) (simp add: b)
  have "X_OFFER_FIXED \<le> length bs" using b by simp
  from split_info [OF this] show "info_bytes (get_info bs) = drop X_HEAD bs"
    by (simp add: info_bytes_def get_info_def Let_def f w)
qed

text \<open>A datagram that decodes is its head and what its kind carries, so the message determines it.\<close>

lemma decoded_ok:
  assumes "xchg_decode bs = Some m"
  shows "xmsg_ok m"
  using decoded(1,6) [OF assms] decoded_info(3,4) [of bs]
  by (auto simp: decoded(7) [OF assms] xmsg_ok_def zero_info_def length_field body_ok_def)

lemma decoded_bytes:
  assumes "xchg_decode bs = Some m"
  shows "bs = head_bytes m @ (if m_kind m = X_OFFER then info_bytes (m_info m) else if m_kind m = X_ERR then m_text m else [])"
proof -
  note d = decoded [OF assms]
  have "bs = take 4 bs @ [bs ! 4, bs ! 5, bs ! 6, bs ! 7] @ field 8 X_NAME bs @ field 32 16 bs @ field 48 16 bs @ drop X_HEAD bs"
    by (rule split_head [OF d(1)])
  then have "bs = head_bytes m @ drop X_HEAD bs" unfolding head_bytes_def d(3,4,7) by simp
  moreover have "drop X_HEAD bs =
      (if m_kind m = X_OFFER then info_bytes (m_info m) else if m_kind m = X_ERR then m_text m else [])"
    using d(6) decoded_info(1) [of bs] by (auto simp: d(7) body_ok_def field_def)
  ultimately show ?thesis by simp
qed

lemma decoded_size:
  assumes "xchg_decode bs = Some m"
  shows "encode_size m = length bs" "\<not> (m_kind m = X_OFFER \<and> LINK_REGION_MAX < tab_n (xi_table (m_info m)))"
proof -
  note d = decoded(6,7) [OF assms]
  have "encode_size m = length bs \<and> \<not> (m_kind m = X_OFFER \<and> LINK_REGION_MAX < tab_n (xi_table (m_info m)))"
  proof (cases "bs ! 5 = X_OFFER")
    case True
    then have "m_kind m = X_OFFER" "m_info m = get_info bs" "body_ok X_OFFER bs" using d(1) by (simp_all add: d(2))
    with decoded_info(2,5) [of bs] show ?thesis by (simp add: encode_size_def word_less_nat_alt)
  next
    case False
    then show ?thesis using d(1) by (simp add: d(2) encode_size_def body_ok_def)
  qed
  then show "encode_size m = length bs" "\<not> (m_kind m = X_OFFER \<and> LINK_REGION_MAX < tab_n (xi_table (m_info m)))" by blast+
qed

text \<open>
  C14: whatever arrives, the message a datagram decodes to has arrays of their C lengths, is that of
  no other datagram, and encodes to the datagram's own bytes; only of an error (whose text may use
  its last byte on the wire) the encoder makes the last byte, the one at offset 159, the terminator.
\<close>

theorem xchg_decode_encodes:
  assumes "xchg_decode bs = Some m"
  shows "xmsg_ok m \<and> (\<forall>bs'. xchg_decode bs' = Some m \<longrightarrow> bs' = bs) \<and>
    xchg_encode m X_MAX = Some (if m_kind m = X_ERR then bs[X_HEAD + X_TEXT - 1 := 0] else bs)"
proof -
  note d = decoded [OF assms] and b = decoded_bytes [OF assms]
  have ok: "xmsg_ok m" by (rule decoded_ok [OF assms])
  have "bs' = bs" if "xchg_decode bs' = Some m" for bs' using decoded_bytes [OF that] b by simp
  moreover have "head_bytes m @ take (X_TEXT - 1) (m_text m) @ [0] = bs[X_HEAD + X_TEXT - 1 := 0]" if "m_kind m = X_ERR"
  proof -
    have "bs = head_bytes m @ m_text m" "length (m_text m) = X_TEXT" using b that ok by (simp_all add: xmsg_ok_def)
    then show ?thesis
      using length_head_bytes [OF ok] by (simp add: list_update_append upd_conv_take_nth_drop)
  qed
  moreover have "0 \<in> set (m_name m)" using d(5) by (simp add: d(7))
  moreover have "encode_size m \<le> X_MAX" using d(2) decoded_size(1) [OF assms] by simp
  ultimately show ?thesis
    using ok decoded_size(2) [OF assms] b by (auto simp: xchg_encode_def)
qed

theorem xchg_decode_encodes_witness:
  "\<exists>m. xchg_decode sample_ping = Some m \<and> xchg_encode m X_MAX = Some sample_ping"
proof -
  have "xchg_decode sample_ping \<noteq> None" "sample_ping ! 5 \<noteq> X_ERR" by code_simp+
  then obtain m where "xchg_decode sample_ping = Some m" by blast
  with xchg_decode_encodes [of sample_ping m] \<open>sample_ping ! 5 \<noteq> X_ERR\<close> decoded(7) [of sample_ping m] show ?thesis by auto
qed

subsection \<open>An end over time\<close>

text \<open>
  The steps of an end once opened: receive whatever comes, start a new session, take up a peer's
  session (the owners of an exchange store it after an offer), close.
\<close>

inductive xchg_step :: "xchg \<Rightarrow> xchg \<Rightarrow> bool" where
  recv: "xchg_recv x ready got now = (r, m, x') \<Longrightarrow> xchg_step x x'"
| session: "xchg_step x (xchg_session x random)"
| peer: "xchg_step x (x\<lparr>x_peer_session := from\<rparr>)"
| close: "xchg_step x (xchg_close x)"

text \<open>What an end keeps: its interface and, when the peer was configured, that peer; a learned peer is link-local.\<close>

definition same_end :: "xchg \<Rightarrow> xchg \<Rightarrow> bool" where
  "same_end x0 x \<longleftrightarrow> x_ifindex x = x_ifindex x0 \<and> x_pinned x = x_pinned x0 \<and> x_v4 x = x_v4 x0 \<and> x_name x = x_name x0 \<and>
     (x_pinned x0 \<longrightarrow> x_peer x = x_peer x0) \<and>
     (\<not> x_pinned x0 \<longrightarrow> \<not> x_v4 x0 \<longrightarrow> x_learned x \<longrightarrow> linklocal (x_peer x))"

lemma same_end_reject: "same_end x0 x \<Longrightarrow> same_end x0 (reject x now)"
  by (simp add: same_end_def reject_def Let_def)

lemma same_end_recv_v4:
  assumes "recv_v4 x dg now = (r, m, x')" and "same_end x0 x" and "x_v4 x0 \<longrightarrow> x_pinned x0" and "x_v4 x"
  shows "same_end x0 x'"
  using assms by (auto simp: recv_v4_def Let_def same_end_reject split: if_splits option.splits prod.splits)
    (auto simp: same_end_def)

lemma same_end_recv:
  assumes "xchg_recv x ready got now = (r, m, x')" and "same_end x0 x" and "x_v4 x0 \<longrightarrow> x_pinned x0"
  shows "same_end x0 x'"
proof (cases "x_v4 x")
  case True
  with assms show ?thesis
    by (auto simp: xchg_recv_def split: polled.splits received.splits elim: same_end_recv_v4)
next
  case False
  with assms show ?thesis
    by (auto simp: xchg_recv_def Let_def same_end_reject split: polled.splits received.splits if_splits option.splits prod.splits)
      (auto simp: same_end_def)
qed

lemma same_end_steps:
  assumes "xchg_step\<^sup>*\<^sup>* x0 x" and "x_v4 x0 \<longrightarrow> x_pinned x0" and "same_end x0 x0"
  shows "same_end x0 x"
  using assms(1)
proof (induction rule: rtranclp_induct)
  case (step y z)
  from step(2) show ?case
  proof (cases rule: xchg_step.cases)
    case recv
    show ?thesis using same_end_recv [OF recv step(3) assms(2)] .
  qed (use step(3) in \<open>simp_all add: same_end_def xchg_session_def xchg_close_def\<close>)
qed (rule assms(3))

lemma via_parse_peer:
  "via_parse sys via n = Some (ifname, peer, pinned) \<Longrightarrow> pinned \<Longrightarrow> v4mapped peer \<or> linklocal peer"
  by (auto simp: via_parse_def Let_def v4mapped_def nth_append split: if_splits option.splits)

lemma opened:
  assumes "xchg_open sys nti sock random via port peer_port name = (0, x)"
  shows "x_v4 x \<longrightarrow> x_pinned x" "same_end x x" "x_name x = put_str X_NAME name" "length (c_str name) < X_NAME"
    "x_pinned x \<longrightarrow> x_v4 x \<or> linklocal (x_peer x)" "x_session x = random" "x_peer_session x = replicate 16 0"
proof -
  from assms show "length (c_str name) < X_NAME" by (auto simp: xchg_open_def split: if_splits)
  from assms obtain ifname peer pinned fd bound where
    v: "via_parse sys via 32 = Some (ifname, peer, pinned)" and
    x: "x = xchg_session (empty_xchg\<lparr>x_ifname := ifname, x_peer := peer, x_pinned := pinned, x_ifindex := nti ifname,
        x_name := put_str X_NAME name, x_port := bound,
        x_peer_port := (if peer_port \<noteq> 0 then of_int peer_port else of_int port), x_v4 := (pinned \<and> v4mapped peer),
        x_fd := Some fd\<rparr>) random"
    by (auto simp: xchg_open_def Let_def empty_xchg_def split: if_splits option.splits prod.splits)
  then show "x_v4 x \<longrightarrow> x_pinned x" "same_end x x" "x_name x = put_str X_NAME name" "x_session x = random"
    "x_peer_session x = replicate 16 0"
    by (simp_all add: xchg_session_def same_end_def empty_xchg_def)
  show "x_pinned x \<longrightarrow> x_v4 x \<or> linklocal (x_peer x)"
    using via_parse_peer [OF v] by (simp add: x xchg_session_def)
qed

text \<open>
  C16: an end of the exchange stays on its link. Whatever it receives and in whatever order, every
  datagram it hands to the system goes to the peer it was configured with when there is one;
  without one, over its own interface to all nodes of the link or to a link-local address.
\<close>

theorem exchange_stays_on_link:
  assumes "xchg_open sys nti sock random via port peer_port name = (0, x0)" and "xchg_step\<^sup>*\<^sup>* x0 x"
    and "xchg_send x m sent = (r, Some (to, buf))"
  shows "if x_v4 x0 then to = To4 (drop 12 (x_peer x0)) (x_peer_port x)
    else \<exists>a. to = To6 a (x_peer_port x) (x_ifindex x0) \<and> (x_pinned x0 \<longrightarrow> a = x_peer x0) \<and> (a = all_nodes \<or> linklocal a)"
proof -
  note o = opened [OF assms(1)]
  have "same_end x0 x" using same_end_steps [OF assms(2) o(1,2)] .
  moreover from assms(3) have "to = (if x_v4 x then v4_peer x (x_peer_port x)
      else To6 (if x_learned x \<or> x_pinned x then x_peer x else all_nodes) (x_peer_port x) (x_ifindex x))"
    by (auto simp: xchg_send_def Let_def split: option.splits if_splits)
  ultimately show ?thesis using o(1,5) by (auto simp: same_end_def v4_peer_def)
qed

theorem exchange_stays_on_link_witness:
  "xchg_send (sample_end 1) (xchg_prepare (sample_end 1) X_PING ROLE_PEER 0) True = (0, Some (To6 all_nodes 7000 3, sample_ping)) \<and>
   (all_nodes = all_nodes \<or> linklocal all_nodes)"
proof -
  have "xchg_send (sample_end 1) (xchg_prepare (sample_end 1) X_PING ROLE_PEER 0) True =
      (0, Some (To6 all_nodes 7000 3, sample_ping))"
    by (simp add: xchg_send_def sample_prepare sample_end_fields)
  with exchange_stays_on_link [OF sample_open rtranclp.rtrancl_refl this] show ?thesis
    by (simp add: sample_end_fields)
qed

text \<open>
  C15: an end admits a message only from its link: a datagram with hop limit (or TTL) 255 that
  arrived on its interface, from the configured peer where there is one and otherwise from a
  link-local source, that decodes, carries the name of its link and another session. Any other
  datagram leaves the end as it was but for the count of rejected ones.
\<close>

theorem exchange_admits:
  assumes "xchg_recv x Poll_ready (Recv dg) now = (r, m, x')"
  shows "if r = 1 then
      \<exists>msg. m = Some msg \<and> xchg_decode (dg_bytes dg) = Some msg \<and> same_name (m_name msg) (x_name x) \<and>
        m_from msg \<noteq> x_session x \<and> read_cmsg (dg_control dg) (0, -1) = (x_ifindex x, 255) \<and>
        (if x_v4 x then \<not> dg_v6 dg \<and> dg_src dg = drop 12 (x_peer x)
         else dg_v6 dg \<and> linklocal (dg_src dg) \<and> (x_pinned x \<longrightarrow> dg_src dg = x_peer x))
    else m = None \<and> (x' = x \<or> x' = reject x now)"
proof -
  have t: "take (X_MAX + 1) bs = bs" if "length (take (X_MAX + 1) bs) \<le> X_MAX" for bs :: "u8 list" using that by simp
  have a: "xchg_decode bs = Some msg \<and> same_name (m_name msg) (x_name x)"
    if "admitted_msg x (take (X_MAX + 1) bs) = Some msg" for bs msg
    using that t [of bs] by (auto simp: admitted_msg_def split: if_splits option.splits)
  show ?thesis
  proof (cases "x_v4 x")
    case True
    with assms a show ?thesis
      by (auto simp: xchg_recv_def recv_v4_def Let_def split: if_splits option.splits prod.splits)
  next
    case False
    with assms a show ?thesis by (auto simp: xchg_recv_def Let_def split: if_splits option.splits prod.splits)
  qed
qed

theorem exchange_admits_witness:
  "\<exists>msg. xchg_decode sample_ping = Some msg \<and> m_from msg \<noteq> x_session (sample_end 2)"
proof -
  obtain m x' where r: "xchg_recv (sample_end 2) Poll_ready (Recv sample_dg) 7 = (1, m, x')"
  proof -
    have "fst (xchg_recv (sample_end 2) Poll_ready (Recv sample_dg) 7) = 1" by code_simp
    then show ?thesis using that by (metis prod.collapse)
  qed
  from exchange_admits [OF r] show ?thesis by (auto simp: sample_dg_def)
qed

subsection \<open>From one end to the other\<close>

lemma length_put_str: "length (put_str n bs) = n"
  by (simp add: put_str_def Let_def)

lemma c_str_put_str:
  assumes "length (c_str bs) < n"
  shows "c_str (put_str n bs) = c_str bs" "0 \<in> set (put_str n bs)"
proof -
  have t: "take (n - 1) (c_str bs) = c_str bs" using assms by simp
  have z: "\<forall>b \<in> set (c_str bs). b \<noteq> 0" by (auto simp: c_str_def dest: set_takeWhileD)
  have p: "put_str n bs = c_str bs @ replicate (n - length (c_str bs)) 0" unfolding put_str_def t Let_def ..
  have "takeWhile (\<lambda>b. b \<noteq> 0) (c_str bs @ replicate k 0) = c_str bs" for k
    using z by (simp add: takeWhile_append2)
  then show "c_str (put_str n bs) = c_str bs" by (simp add: p) (simp add: c_str_def)
  show "0 \<in> set (put_str n bs)" using assms by (simp add: p)
qed

lemma prepared_ok:
  assumes "length (x_session x) = 16" and "length (x_peer_session x) = 16" and "length (c_str (x_name x)) < X_NAME"
  shows "xmsg_ok (xchg_prepare x kind role flags)" "0 \<in> set (m_name (xchg_prepare x kind role flags))"
  using assms c_str_put_str by (simp_all add: xmsg_ok_def xchg_prepare_def zero_info_def length_put_str)

text \<open>
  A message of an end: what \<open>xchg_prepare\<close> filled in, with the offer or the text its owner adds.
\<close>

definition filled :: "xmsg \<Rightarrow> xinfo \<Rightarrow> u8 list \<Rightarrow> xmsg" where
  "filled m i t = m\<lparr>m_info := i, m_text := t\<rparr>"

text \<open>Whether a datagram comes from where an end may take one, and what the end then keeps of it.\<close>

definition from_link :: "xchg \<Rightarrow> datagram \<Rightarrow> bool" where
  "from_link y dg \<longleftrightarrow> read_cmsg (dg_control dg) (0, -1) = (x_ifindex y, 255) \<and>
     (if x_v4 y then \<not> dg_v6 dg \<and> dg_src dg = drop 12 (x_peer y)
      else dg_v6 dg \<and> linklocal (dg_src dg) \<and> (x_pinned y \<longrightarrow> dg_src dg = x_peer y))"

definition answered_to :: "datagram \<Rightarrow> xchg \<Rightarrow> xchg" where
  "answered_to dg y = (if x_v4 y then y\<lparr>x_peer_port := dg_port dg, x_learned := True\<rparr>
     else y\<lparr>x_peer := dg_src dg, x_peer_port := dg_port dg, x_learned := True\<rparr>)"

lemma recv_admitted:
  assumes "from_link y dg" and "admitted_msg y (dg_bytes dg) = Some m" and "m_from m \<noteq> x_session y"
  shows "xchg_recv y Poll_ready (Recv dg) now = (1, Some m, answered_to dg y)"
proof -
  have "length (dg_bytes dg) \<le> X_MAX" using assms(2) by (auto simp: admitted_msg_def split: if_splits)
  then have "take (X_MAX + 1) (dg_bytes dg) = dg_bytes dg" by simp
  with assms show ?thesis
    by (auto simp: xchg_recv_def recv_v4_def from_link_def answered_to_def split: if_splits)
qed

lemma end_name:
  assumes "xchg_open sys nti sock random via port peer_port name = (0, x0)" and "xchg_step\<^sup>*\<^sup>* x0 x"
  shows "c_str (x_name x) = c_str name" "length (x_name x) = X_NAME" "length (c_str name) < X_NAME"
proof -
  note o = opened [OF assms(1)]
  have "x_name x = put_str X_NAME name" using same_end_steps [OF assms(2) o(1,2)] o(3) by (simp add: same_end_def)
  then show "c_str (x_name x) = c_str name" "length (x_name x) = X_NAME" "length (c_str name) < X_NAME"
    using o(4) c_str_put_str [of name X_NAME] by (simp_all add: length_put_str)
qed

lemma filled_fields [simp]:
  "m_kind (filled (xchg_prepare x kind role flags) i t) = kind" "m_role (filled (xchg_prepare x kind role flags) i t) = role"
  "m_info (filled m i t) = i" "m_name (filled m i t) = m_name m" "m_from (filled m i t) = m_from m"
  "m_from (xchg_prepare x kind role flags) = x_session x" "m_name (xchg_prepare x kind role flags) = put_str X_NAME (x_name x)"
  by (simp_all add: filled_def xchg_prepare_def)

text \<open>
  C17: two ends opened under one name understand each other, whatever they received and sent since.
  Every message the sender prepares, of each of the five kinds and with any offer of a transport and
  at most LINK\_REGION\_MAX keys and any text in it, is handed to the system; and a datagram of
  these bytes that reaches the other end (an IPv6 or an IPv4 one) on its interface from where it
  may come is taken there as exactly what the message carries, and the other end has learned where
  to answer.
\<close>

theorem exchange_delivers:
  assumes "xchg_open sys nti sock random via port peer_port name = (0, x0)" and "xchg_step\<^sup>*\<^sup>* x0 x"
    and "xchg_open sys' nti' sock' random' via' port' peer_port' name' = (0, y0)" and "xchg_step\<^sup>*\<^sup>* y0 y"
    and "c_str name' = c_str name" and "x_fd x \<noteq> None" and "x_session y \<noteq> x_session x"
    and "length (x_session x) = 16" "length (x_peer_session x) = 16"
    and "X_OFFER \<le> kind" "kind \<le> X_ERR" and "ROLE_CONNECT \<le> role" "role \<le> ROLE_PEER"
    and "length (xi_gid i) = 16" "length (tab_rkey (xi_table i)) = LINK_REGION_MAX" "length t = X_TEXT"
    and "kind = X_OFFER \<longrightarrow> (xi_transport i = LINK_ROCE \<or> xi_transport i = LINK_TB) \<and> tab_n (xi_table i) \<le> LINK_REGION_MAX"
    and m_def: "m = filled (xchg_prepare x kind role flags) i t"
  shows "\<exists>to buf. (\<forall>sent. xchg_send x m sent = (if sent then 0 else -1, Some (to, buf))) \<and>
    (\<forall>dg now. from_link y dg \<and> dg_bytes dg = buf \<longrightarrow>
      xchg_recv y Poll_ready (Recv dg) now = (1, Some (carried m), answered_to dg y))"
proof -
  note x = end_name [OF assms(1,2)] and y = end_name [OF assms(3,4)]
  have ok: "xmsg_ok m"
    using assms(8,9,14-16) by (simp add: m_def filled_def xmsg_ok_def xchg_prepare_def length_put_str)
  have z: "0 \<in> set (m_name m)" using c_str_put_str [of "x_name x" X_NAME] x by (simp add: m_def)
  obtain buf where e: "xchg_encode m X_MAX = Some buf" and d: "xchg_decode buf = Some (carried m)"
    and l: "length buf = encode_size m"
    using encode_decode [OF ok _ _ _ _ _ _ z] assms(10-13,17) by (auto simp: m_def)
  have "length buf \<le> X_MAX" using encoded_size(2) [OF e ok] .
  moreover have "same_name (m_name m) (x_name y)"
    using x y assms(5) c_str_put_str [of "x_name x" X_NAME] by (simp add: m_def same_name_def length_put_str)
  ultimately have "admitted_msg y buf = Some (carried m)" using d by (simp add: admitted_msg_def carried_def)
  moreover have "m_from (carried m) \<noteq> x_session y" using assms(7) by (simp add: carried_def m_def)
  ultimately have "xchg_recv y Poll_ready (Recv dg) now = (1, Some (carried m), answered_to dg y)"
    if "from_link y dg" "dg_bytes dg = buf" for dg now
    using recv_admitted that by simp
  moreover have "\<exists>to. \<forall>sent. xchg_send x m sent = (if sent then 0 else -1, Some (to, buf))"
    using assms(6) e by (auto simp: xchg_send_def Let_def)
  ultimately show ?thesis by blast
qed

theorem exchange_delivers_witness:
  "fst (snd (xchg_recv (sample_end 2) Poll_ready (Recv sample_dg) 7)) = Some (xchg_prepare (sample_end 1) X_PING ROLE_PEER 0)"
proof -
  let ?m = "xchg_prepare (sample_end 1) X_PING ROLE_PEER 0"
  have m: "filled ?m zero_info (replicate X_TEXT 0) = ?m" "carried ?m = ?m"
    by (simp_all add: filled_def carried_def xchg_prepare_def)
  have s: "xchg_send (sample_end 1) ?m True = (0, Some (To6 all_nodes 7000 3, sample_ping))"
    by (simp add: xchg_send_def sample_prepare sample_end_fields)
  have length_zero: "length (xi_gid zero_info) = 16" "length (tab_rkey (xi_table zero_info)) = LINK_REGION_MAX"
    by (simp_all add: zero_info_def)
  note e = exchange_delivers [OF sample_open rtranclp.rtrancl_refl sample_open [of 2] rtranclp.rtrancl_refl refl,
      of 1 X_PING ROLE_PEER zero_info "replicate X_TEXT 0" ?m 0]
  obtain to buf where "xchg_send (sample_end 1) ?m True = (0, Some (to, buf))"
    and r: "\<And>dg now. from_link (sample_end 2) dg \<and> dg_bytes dg = buf \<Longrightarrow>
      xchg_recv (sample_end 2) Poll_ready (Recv dg) now = (1, Some ?m, answered_to dg (sample_end 2))"
    using e unfolding m by (auto simp: sample_end_fields length_zero)
  with s have "buf = sample_ping" by simp
  moreover have "from_link (sample_end 2) sample_dg" "dg_bytes sample_dg = sample_ping"
    by (simp_all add: from_link_def sample_end_fields sample_dg_def linklocal_def)
  ultimately show ?thesis using r [of sample_dg 7] by simp
qed

end
