(* ===== verification/Rpc_Lines.thy ===== *)
theory Rpc_Lines
  imports Prelude
begin

section \<open>Lines on the daemon's sockets and words of a mailbox (rpc/rpcd\_common.c, rpc/libmcdma\_rpc.c)\<close>

text \<open>
  Services and control clients talk to the daemon in lines over a local stream socket. A stream has
  no boundaries: \<open>send\<close> may take part of a line and \<open>recv\<close> may give any part of what was sent, so
  both ends loop. The answers of the system calls are lists, one per call; a loop that has used them up
  is still waiting, which is None. The second part is the wait an application uses on a mailbox word.
\<close>

abbreviation (input) NL :: u8 where "NL \<equiv> 10"
abbreviation (input) BUF :: nat where "BUF \<equiv> 32768"

subsection \<open>Sending a line\<close>

text \<open>\<open>Sent k\<close> is a call that took \<open>k + 1\<close> bytes, or all that are left when these are fewer.\<close>

datatype send_answer = Sent nat | Send_intr | Send_failed

fun send_loop :: "u8 list \<Rightarrow> send_answer list \<Rightarrow> u8 list \<Rightarrow> (int \<times> u8 list) option" where
  "send_loop left answers out =
     (if left = [] then Some (0, out)
      else case answers of
          [] \<Rightarrow> None
        | Sent k # rest \<Rightarrow> send_loop (drop (Suc k) left) rest (out @ take (Suc k) left)
        | Send_intr # rest \<Rightarrow> send_loop left rest out
        | Send_failed # rest \<Rightarrow> Some (-1, out))"

declare send_loop.simps [simp del]

definition send_line :: "bool \<Rightarrow> u8 list \<Rightarrow> send_answer list \<Rightarrow> (int \<times> u8 list) option" where
  "send_line alloc line answers = (if \<not> alloc then Some (-1, []) else send_loop (line @ [NL]) answers [])"

subsection \<open>Taking a line\<close>

text \<open>
  The reader's buffer holds what was received and not yet taken; \<open>stream\<close> is what was sent to this
  socket and not yet received. \<open>Got k\<close> is a call that gave \<open>k + 1\<close> bytes, or as many as there are and
  fit the buffer; with nothing in the stream the call does not return.
\<close>

datatype recv_answer = Got nat | Got_intr | Got_again | Got_eof | Got_error

fun take_line ::
    "bool \<Rightarrow> bool \<Rightarrow> nat \<Rightarrow> u8 list \<Rightarrow> u8 list \<Rightarrow> recv_answer list \<Rightarrow>
     (int \<times> u8 list \<times> u8 list \<times> u8 list \<times> recv_answer list) option" where
  "take_line stop block n buf stream answers =
     (if NL \<in> set buf then
        (let line = takeWhile (\<lambda>c. c \<noteq> NL) buf in
         if n \<le> length line then Some (-1, [], buf, stream, answers)
         else Some (1, line, drop (length line + 1) buf, stream, answers))
      else if length buf = BUF then Some (-1, [], buf, stream, answers)
      else case answers of
          [] \<Rightarrow> None
        | Got k # rest \<Rightarrow>
            (let m = min (Suc k) (BUF - length buf) in
             if stream = [] then None else take_line stop block n (buf @ take m stream) (drop m stream) rest)
        | Got_intr # rest \<Rightarrow>
            if stop then Some (-1, [], buf, stream, rest) else take_line stop block n buf stream rest
        | Got_again # rest \<Rightarrow> Some (if \<not> block then 0 else -1, [], buf, stream, rest)
        | Got_eof # rest \<Rightarrow> Some (-1, [], buf, stream, rest)
        | Got_error # rest \<Rightarrow> Some (-1, [], buf, stream, rest))"

declare take_line.simps [simp del]

text \<open>A reader that takes \<open>k\<close> lines, one call each.\<close>

fun take_lines :: "nat \<Rightarrow> nat \<Rightarrow> u8 list \<Rightarrow> u8 list \<Rightarrow> recv_answer list \<Rightarrow> (u8 list list \<times> u8 list) option" where
  "take_lines 0 n buf stream answers = Some ([], buf @ stream)"
| "take_lines (Suc k) n buf stream answers =
     (case take_line False True n buf stream answers of
        Some (r, line, buf', stream', rest) \<Rightarrow>
          if r = 1 then map_option (\<lambda>(ls, left). (line # ls, left)) (take_lines k n buf' stream' rest) else None
      | None \<Rightarrow> None)"

subsection \<open>Waiting for a word\<close>

text \<open>The word and the clock as the \<open>i\<close>th pass finds them; the pauses between passes are left out.\<close>

definition word_matches :: "u64 \<Rightarrow> u32 \<Rightarrow> bool \<Rightarrow> bool" where
  "word_matches value seq want_equal \<longleftrightarrow>
     (let current = ucast (drop_bit 32 value) in if want_equal then current = seq else current \<noteq> 0 \<and> current \<noteq> seq)"

fun wait_word_loop :: "nat \<Rightarrow> (nat \<Rightarrow> u64) \<Rightarrow> (nat \<Rightarrow> u64) \<Rightarrow> nat \<Rightarrow> u32 \<Rightarrow> bool \<Rightarrow> u64 \<Rightarrow> u64 \<Rightarrow> u64 option" where
  "wait_word_loop 0 word now i seq want_equal start timeout = None"
| "wait_word_loop (Suc fuel) word now i seq want_equal start timeout =
     (if word_matches (word i) seq want_equal then Some (word i)
      else if timeout \<le> now i - start then Some 0
      else wait_word_loop fuel word now (Suc i) seq want_equal start timeout)"

definition mcdma_rpc_wait_word :: "nat \<Rightarrow> (nat \<Rightarrow> u64) \<Rightarrow> (nat \<Rightarrow> u64) \<Rightarrow> u64 \<Rightarrow> u32 \<Rightarrow> bool \<Rightarrow> u64 \<Rightarrow> u64 option" where
  "mcdma_rpc_wait_word fuel word now start seq want_equal timeout =
     wait_word_loop fuel word now 0 seq want_equal start timeout"

lemma wait_word_loop_result:
  assumes "timeout \<le> now (i + k) - start" and "k < fuel"
  shows "\<exists>j \<le> k. wait_word_loop fuel word now i seq want_equal start timeout =
    Some (if word_matches (word (i + j)) seq want_equal then word (i + j) else 0) \<and>
    (\<forall>h < j. \<not> word_matches (word (i + h)) seq want_equal)"
  using assms
proof (induction fuel arbitrary: i k)
  case (Suc fuel)
  show ?case
  proof (cases "word_matches (word i) seq want_equal \<or> timeout \<le> now i - start")
    case True
    then show ?thesis by (intro exI [of _ 0]) auto
  next
    case False
    with Suc.prems have "k \<noteq> 0" by (metis add.right_neutral)
    then obtain m where m: "k = Suc m" by (cases k) auto
    from Suc.IH [of "Suc i" m] Suc.prems m obtain j where "j \<le> m"
      "wait_word_loop fuel word now (Suc i) seq want_equal start timeout =
        Some (if word_matches (word (Suc i + j)) seq want_equal then word (Suc i + j) else 0)"
      "\<forall>h < j. \<not> word_matches (word (Suc i + h)) seq want_equal" by auto
    with False m show ?thesis
      by (intro exI [of _ "Suc j"]) (auto simp: less_Suc_eq_0_disj)
  qed
qed simp

text \<open>
  The wait ends once the clock reaches the timeout, with the word of the first pass that matched or 0.
\<close>

lemma wait_word_returns:
  assumes "timeout \<le> now k - start" and "k < fuel"
  shows "\<exists>j \<le> k. mcdma_rpc_wait_word fuel word now start seq want_equal timeout =
    Some (if word_matches (word j) seq want_equal then word j else 0) \<and>
    (\<forall>h < j. \<not> word_matches (word h) seq want_equal)"
  unfolding mcdma_rpc_wait_word_def
  using wait_word_loop_result [of timeout now 0 k start fuel] assms by (simp only: add_0)

subsection \<open>Lines come through\<close>

lemma send_loop_out: "send_loop left answers out = Some (0, res) \<Longrightarrow> res = out @ left"
proof (induction left answers out rule: send_loop.induct)
  case (1 left answers out)
  then show ?case
    by (subst (asm) (3) send_loop.simps) (auto split: if_splits list.splits send_answer.splits)
qed

definition calm :: "recv_answer \<Rightarrow> bool" where
  "calm a \<longleftrightarrow> a = Got_intr \<or> (\<exists>k. a = Got k)"

definition gots :: "recv_answer list \<Rightarrow> nat" where
  "gots answers = length (filter (\<lambda>a. a \<noteq> Got_intr) answers)"

text \<open>What the buffer holds of the next line: all of it with its end, or a part of the line alone.\<close>

lemma next_line:
  assumes "NL \<notin> set line" and "buf @ stream = line @ NL # left"
  shows "if NL \<in> set buf then takeWhile (\<lambda>c. c \<noteq> NL) buf = line \<and> drop (length line + 1) buf @ stream = left
    else length buf \<le> length line \<and> stream \<noteq> []"
proof (cases "NL \<in> set buf")
  case True
  have "takeWhile (\<lambda>c. c \<noteq> NL) (buf @ stream) = line"
    unfolding assms(2) using assms(1) by (subst takeWhile_append2) auto
  then have w: "takeWhile (\<lambda>c. c \<noteq> NL) buf = line"
    using takeWhile_append1 [OF True, of "\<lambda>c. c \<noteq> NL" stream] by simp
  have "length (takeWhile (\<lambda>c. c \<noteq> NL) buf) < length buf"
    using True by (metis (mono_tags) length_takeWhile_le le_neq_implies_less takeWhile_eq_all_conv takeWhile_eq_take take_all_iff order_refl)
  then have "length line + 1 \<le> length buf" using w by simp
  then have "drop (length line + 1) buf @ stream = drop (length line + 1) (buf @ stream)" by simp
  then show ?thesis using True w unfolding assms(2) by simp
next
  case False
  have "length buf \<le> length line"
  proof (rule ccontr)
    assume "\<not> length buf \<le> length line"
    then have "buf ! length line = NL" and "length line < length buf"
      using arg_cong [OF assms(2), of "\<lambda>xs. xs ! length line"] by (simp_all add: nth_append)
    with False show False by (metis nth_mem)
  qed
  moreover have "stream \<noteq> []" using calculation arg_cong [OF assms(2), of length] by auto
  ultimately show ?thesis using False by simp
qed

lemma take_line_takes:
  assumes "NL \<notin> set line" and "length line < n" and "n \<le> 16384"
    and "buf @ stream = line @ NL # left" and "list_all calm answers" and "length stream \<le> gots answers"
  shows "\<exists>buf' stream' rest. take_line False block n buf stream answers = Some (1, line, buf', stream', rest) \<and>
    buf' @ stream' = left \<and> list_all calm rest \<and> length stream' \<le> gots rest"
  using assms(4-6)
proof (induction answers arbitrary: buf stream)
  case Nil
  have "stream = []" using Nil.prems(3) by (simp add: gots_def)
  with next_line [OF assms(1) Nil.prems(1)] have "NL \<in> set buf" by (auto split: if_splits)
  with next_line [OF assms(1) Nil.prems(1)] Nil.prems assms(2) show ?case by (simp add: take_line.simps Let_def)
next
  case (Cons a answers)
  show ?case
  proof (cases "NL \<in> set buf")
    case True
    with next_line [OF assms(1) Cons.prems(1)] Cons.prems assms(2) show ?thesis by (simp add: take_line.simps Let_def)
  next
    case False
    with next_line [OF assms(1) Cons.prems(1)] have b: "length buf \<le> length line" "stream \<noteq> []" by auto
    then have nb: "length buf < BUF" using assms(2,3) by simp
    from Cons.prems(2) consider "a = Got_intr" | k where "a = Got k" by (auto simp: calm_def)
    then show ?thesis
    proof cases
      case 1
      with Cons.IH [OF Cons.prems(1)] Cons.prems False nb show ?thesis by (simp add: take_line.simps [of False] gots_def)
    next
      case (2 k)
      define m where "m = min (Suc k) (BUF - length buf)"
      have "0 < m" using nb by (simp add: m_def)
      then have "length (drop m stream) \<le> gots answers" using Cons.prems(3) b(2) 2 by (cases stream) (auto simp: gots_def)
      moreover have "(buf @ take m stream) @ drop m stream = line @ NL # left" using Cons.prems(1) by simp
      moreover have "take_line False block n buf stream (a # answers) =
          take_line False block n (buf @ take m stream) (drop m stream) answers"
        using False nb b(2) 2 by (simp add: take_line.simps [of False block n buf] Let_def m_def)
      ultimately show ?thesis using Cons.IH Cons.prems(2) by simp
    qed
  qed
qed

lemma take_lines_takes:
  assumes "\<forall>l \<in> set ls. NL \<notin> set l \<and> length l < n" and "n \<le> 16384"
    and "buf @ stream = concat (map (\<lambda>l. l @ [NL]) ls) @ left" and "list_all calm answers" and "length stream \<le> gots answers"
  shows "take_lines (length ls) n buf stream answers = Some (ls, left)"
  using assms(1,3-5)
proof (induction ls arbitrary: buf stream answers)
  case (Cons l ls)
  have "buf @ stream = l @ NL # concat (map (\<lambda>l. l @ [NL]) ls) @ left" using Cons.prems(2) by simp
  from take_line_takes [OF _ _ assms(2) this Cons.prems(3,4), of True] Cons.prems(1) obtain buf' stream' rest where
    t: "take_line False True n buf stream answers = Some (1, l, buf', stream', rest)"
      "buf' @ stream' = concat (map (\<lambda>l. l @ [NL]) ls) @ left" "list_all calm rest" "length stream' \<le> gots rest" by auto
  from Cons.IH [OF _ t(2-4)] Cons.prems(1) t(1) show ?case by simp
qed simp

subsection \<open>Property\<close>

text \<open>
  C40: lines sent on a local socket are taken at the other end one by one, in order and unchanged,
  however the system cuts the stream into pieces on either side and wherever calls are interrupted:
  each sender's call that succeeds has put its line and the end of line on the stream, and the reader,
  given enough calls that deliver something, takes exactly these lines and leaves what follows.
\<close>

theorem lines_come_through:
  assumes "list_all2 (\<lambda>l out. \<exists>sa. send_line True l sa = Some (0, out)) ls outs"
    and "\<forall>l \<in> set ls. NL \<notin> set l \<and> length l < n" and "n \<le> 16384"
    and "list_all calm answers" and "length (concat outs @ left) \<le> gots answers"
  shows "take_lines (length ls) n [] (concat outs @ left) answers = Some (ls, left)"
proof -
  have "outs = map (\<lambda>l. l @ [NL]) ls"
    using assms(1) by (induction rule: list_all2_induct) (auto simp: send_line_def dest!: send_loop_out)
  with take_lines_takes [OF assms(2,3), of "[]" "concat outs @ left"] assms(4,5) show ?thesis by simp
qed

theorem lines_come_through_witness:
  "take_lines 2 16384 [] ([83, 10] @ [77, 79, 10] @ [1]) [Got 2, Got_intr, Got 0, Got 5, Got 0, Got 0, Got 0] =
     Some ([[83], [77, 79]], [1])"
proof -
  have 1: "send_line True [83] [Sent 0, Send_intr, Sent 0] = Some (0, [83, 10])"
    "send_line True [77, 79] [Sent 1, Sent 7] = Some (0, [77, 79, 10])"
    by (simp_all add: send_line_def send_loop.simps)
  then have "list_all2 (\<lambda>l out. \<exists>sa. send_line True l sa = Some (0, out)) [[83], [77, 79]] [[83, 10], [77, 79, 10]]"
    by auto
  from lines_come_through [OF this, of 16384 "[Got 2, Got_intr, Got 0, Got 5, Got 0, Got 0, Got 0]" "[1]"]
  have "take_lines (length [[83], [77, 79 :: u8]]) 16384 [] ([83, 10] @ [77, 79, 10] @ [1])
    [Got 2, Got_intr, Got 0, Got 5, Got 0, Got 0, Got 0] = Some ([[83], [77, 79]], [1])"
    by (simp add: calm_def gots_def del: take_lines.simps)
  moreover have "length [[83], [77, 79 :: u8]] = 2" by simp
  ultimately show ?thesis by (simp only:)
qed

end
