(* ===== verification/Rpc_Box.thy ===== *)
theory Rpc_Box
  imports Link_Tb_Props Link_Xchg
begin

section \<open>Mailboxes of the daemon (rpc/rpcd\_verbs.c, rpc/rpcd\_common.c)\<close>

text \<open>
  The daemon \<open>mcdma-rpcd\<close> serves one mailbox per link: a request half and a reply half, written to
  the same offsets of the peer's mailbox, each transfer followed by a word that announces it. This
  theory has the queue pair of an endpoint from creation to destruction (the part of
  \<open>rpc/link_verbs.c\<close> that \<open>Link_Verbs\<close> leaves out), the mailbox's registration, offer, check and
  transfer, and the line protocol of the local sockets.

  The mailbox's bytes are the window \<open>w_win\<close> of the endpoint, for both link kinds. The device
  answers each call from a record \<open>qp_answers\<close>.
\<close>

abbreviation (input) SEG :: "'a :: numeral" where "SEG \<equiv> 4194304"
abbreviation (input) CTRL :: "'a :: numeral" where "CTRL \<equiv> 4096"
abbreviation (input) READ_CHUNK :: "'a :: numeral" where "READ_CHUNK \<equiv> 2097152"
abbreviation (input) MAX_SEGS :: "'a :: numeral" where "MAX_SEGS \<equiv> 64"
abbreviation (input) LINE :: "'a :: numeral" where "LINE \<equiv> 16384"
abbreviation (input) WINDOW_MAC :: "'a :: numeral" where "WINDOW_MAC \<equiv> 4"
abbreviation (input) WINDOW_PEER :: "'a :: numeral" where "WINDOW_PEER \<equiv> 16"
abbreviation (input) PIECES :: "'a :: numeral" where "PIECES \<equiv> 260"
abbreviation (input) XFER_NS :: "'a :: numeral" where "XFER_NS \<equiv> 10000000000"

definition WORD :: "u32 \<Rightarrow> u32 \<Rightarrow> u64" where
  "WORD seq len = push_bit 32 (ucast seq) OR ucast len"

definition WORD_SEQ :: "u64 \<Rightarrow> u32" where
  "WORD_SEQ w = ucast (drop_bit 32 w)"

definition WORD_LEN :: "u64 \<Rightarrow> u32" where
  "WORD_LEN w = ucast w"

subsection \<open>The queue pair of an endpoint (rpc/link\_verbs.c)\<close>

text \<open>
  What \<open>ibv_modify_qp\<close> left in the queue pair: its state and, from RTR on, where it sends to.
\<close>

datatype qp_state = QP_RESET | QP_INIT | QP_RTR | QP_RTS

record qp_path =
  qp_state :: qp_state
  qp_dest :: u32
  qp_rq_psn :: u32
  qp_sq_psn :: u32
  qp_dgid :: "u8 list"

definition new_path :: qp_path where
  "new_path = \<lparr>qp_state = QP_RESET, qp_dest = 0, qp_rq_psn = 0, qp_sq_psn = 0, qp_dgid = replicate 16 0\<rparr>"

text \<open>
  One endpoint: its registrations (\<open>n_ep\<close>, where \<open>e_qpn\<close> is \<open>e->qp\<close>), whether \<open>e->cq\<close> is there, the
  queue pair's path, its RoCE requests and its Thunderbolt link.
\<close>

record endpoint =
  n_ep :: ep
  n_cq :: bool
  n_path :: "qp_path option"
  n_roce :: roce
  n_link :: "unit link"

text \<open>
  The answers to the calls that create, connect and destroy a queue pair; \<open>a_passes\<close> is how often
  the clock was still before the deadline of the drain.
\<close>

record qp_answers =
  a_psn :: u32
  a_cq :: bool
  a_qp :: "u32 option"
  a_init :: bool
  a_rtr :: bool
  a_rts :: bool
  a_passes :: nat
  a_alloc :: bool
  a_lkey :: "u32 option"
  a_send_wr :: u32
  a_recv_wr :: u32

fun ep_drain :: "nat \<Rightarrow> roce \<Rightarrow> roce" where
  "ep_drain 0 q = q"
| "ep_drain (Suc k) q =
     (if \<not> 0 < q_outstanding q then q
      else
        let n = fst (q_poll q (q_npoll q)); q1 = q\<lparr>q_npoll := Suc (q_npoll q)\<rparr>
        in if n < 0 then q1
           else ep_drain k (if n = 1 then q1\<lparr>q_outstanding := q_outstanding q1 - 1\<rparr> else q1))"

fun flush_loop :: "nat \<Rightarrow> roce \<Rightarrow> roce" where
  "flush_loop 0 q = q"
| "flush_loop (Suc k) q =
     (let q1 = q\<lparr>q_npoll := Suc (q_npoll q)\<rparr> in if 0 < fst (q_poll q (q_npoll q)) then flush_loop k q1 else q1)"

definition ep_destroy_qp :: "qp_answers \<Rightarrow> endpoint \<Rightarrow> endpoint" where
  "ep_destroy_qp ans e =
     (if l_tb (n_link e)
      then e\<lparr>n_link := tb_destroy (n_link e), n_ep := (n_ep e)\<lparr>e_qpn := None\<rparr>, n_cq := False, n_path := None\<rparr>
      else
        let e1 = (if e_qpn (n_ep e) \<noteq> None
                  then
                    let q = (if n_cq e then flush_loop 256 (ep_drain (a_passes ans) (n_roce e)) else n_roce e)
                    in e\<lparr>n_ep := (n_ep e)\<lparr>e_qpn := None\<rparr>, n_path := None, n_roce := q\<lparr>q_outstanding := 0\<rparr>\<rparr>
                  else e)
        in e1\<lparr>n_cq := False\<rparr>)"

definition ep_create_qp :: "qp_answers \<Rightarrow> endpoint \<Rightarrow> int \<times> endpoint" where
  "ep_create_qp ans e0 =
     (let e1 = ep_destroy_qp ans e0; e = e1\<lparr>n_ep := (n_ep e1)\<lparr>e_psn := a_psn ans AND 0xffffff\<rparr>\<rparr> in
      if e_kind (n_ep e) = LINK_TB
      then
        (case tb_init (n_link e) (a_alloc ans) (a_lkey ans \<noteq> None \<and> a_cq ans \<and> a_qp ans \<noteq> None \<and> a_init ans)
            (case a_lkey ans of Some k \<Rightarrow> k | None \<Rightarrow> 0) (a_send_wr ans) (a_recv_wr ans) of (r, l) \<Rightarrow>
          if r \<noteq> 0 then (-1, e\<lparr>n_link := l\<rparr>)
          else (0, e\<lparr>n_link := l, n_cq := True, n_ep := (n_ep e)\<lparr>e_qpn := a_qp ans\<rparr>,
                     n_path := Some (new_path\<lparr>qp_state := QP_INIT\<rparr>)\<rparr>))
      else if \<not> a_cq ans then (-1, e)
      else case a_qp ans of
          None \<Rightarrow> (-1, e\<lparr>n_cq := True\<rparr>)
        | Some qpn \<Rightarrow>
            let e2 = e\<lparr>n_cq := True, n_ep := (n_ep e)\<lparr>e_qpn := Some qpn\<rparr>, n_roce := (n_roce e)\<lparr>q_posted := []\<rparr>,
                       n_path := Some (new_path\<lparr>qp_state := (if a_init ans then QP_INIT else QP_RESET)\<rparr>)\<rparr>
            in (if a_init ans then 0 else -1, e2))"

text \<open>The two transitions to the peer; a refused one leaves the queue pair where it was.\<close>

definition to_rtr :: "xinfo \<Rightarrow> qp_path \<Rightarrow> qp_path" where
  "to_rtr peer p = p\<lparr>qp_state := QP_RTR, qp_dest := xi_qpn peer, qp_rq_psn := xi_psn peer, qp_dgid := xi_gid peer\<rparr>"

definition to_rts :: "u32 \<Rightarrow> qp_path \<Rightarrow> qp_path" where
  "to_rts psn p = p\<lparr>qp_state := QP_RTS, qp_sq_psn := psn\<rparr>"

definition path_to :: "qp_answers \<Rightarrow> xinfo \<Rightarrow> endpoint \<Rightarrow> endpoint" where
  "path_to ans peer e =
     (if \<not> a_rtr ans then e
      else if \<not> a_rts ans then e\<lparr>n_path := map_option (to_rtr peer) (n_path e)\<rparr>
      else e\<lparr>n_path := map_option (to_rts (e_psn (n_ep e)) \<circ> to_rtr peer) (n_path e)\<rparr>)"

definition ep_connect :: "qp_answers \<Rightarrow> endpoint \<Rightarrow> xinfo \<Rightarrow> int \<times> endpoint" where
  "ep_connect ans e peer =
     (if unat (xi_transport peer) \<noteq> e_kind (n_ep e) then (-1, e)
      else if e_kind (n_ep e) = LINK_TB
      then
        (case tb_connect (n_link e) peer (a_rtr ans) (a_rts ans) of (r, l) \<Rightarrow>
           if \<not> l_tb (n_link e) \<or> xi_frames peer < 4 then (-1, e)
           else (r, (path_to ans peer e)\<lparr>n_link := l\<rparr>))
      else (if a_rtr ans \<and> a_rts ans then 0 else -1, path_to ans peer e))"

text \<open>The view of an endpoint its offer is made from: the slots of the Thunderbolt link, if there is one.\<close>

definition end_view :: "endpoint \<Rightarrow> ep" where
  "end_view e = (n_ep e)\<lparr>e_frames := (if l_tb (n_link e) then Some (t_slots (n_link e)) else None)\<rparr>"

subsection \<open>The mailbox\<close>

record box =
  bx_base :: u64
  bx_req :: u64
  bx_rep :: u64
  bx_r :: region

definition rpc_valid_name :: "string \<Rightarrow> bool" where
  "rpc_valid_name name \<longleftrightarrow> 1 \<le> length name \<and> length name \<le> 20 \<and>
     list_all (\<lambda>c. let n = (of_char c :: nat) in
       65 \<le> n \<and> n \<le> 90 \<or> 97 \<le> n \<and> n \<le> 122 \<or> 48 \<le> n \<and> n \<le> 57 \<or> c = CHR ''_'' \<or> c = CHR ''-'') name"

definition parse_mib :: "u32 \<Rightarrow> u64 option" where
  "parse_mib mib =
     (if mib = 0 \<or> mib mod 4 \<noteq> 0 \<or> 4 * MAX_SEGS < mib then None else Some (push_bit 20 (ucast mib)))"

definition load_word :: "endpoint \<Rightarrow> u64 \<Rightarrow> u64" where
  "load_word e off = get_le (mem_read (w_win (n_link e)) (unat off) 8)"

definition store_word :: "u64 \<Rightarrow> u64 \<Rightarrow> endpoint \<Rightarrow> endpoint" where
  "store_word off v e = e\<lparr>n_link := store_win (n_link e) off (put_le 8 v)\<rparr>"

definition write_sizes :: "box \<Rightarrow> endpoint \<Rightarrow> endpoint" where
  "write_sizes b e = store_word (256 + 8) (bx_rep b) (store_word 256 (bx_req b) e)"

text \<open>\<open>apple\<close> is the platform the daemon was built for.\<close>

definition box_register :: "bool \<Rightarrow> endpoint \<Rightarrow> box \<Rightarrow> bool \<Rightarrow> int \<times> endpoint \<times> box" where
  "box_register apple e b listen =
     (let whole = bx_req b + bx_rep b; rw = IBV_ACCESS_LOCAL_WRITE OR IBV_ACCESS_REMOTE_WRITE;
          (r, n, rg) =
            (if e_kind (n_ep e) = LINK_TB then ep_reg_region (n_ep e) (bx_base b) whole TB_SEG whole 0 0
             else if \<not> listen then ep_reg_region (n_ep e) (bx_base b) whole SEG (bx_req b) IBV_ACCESS_LOCAL_WRITE rw
             else if apple
             then ep_reg_region (n_ep e) (bx_base b) whole SEG (bx_req b) rw
                    (IBV_ACCESS_LOCAL_WRITE OR IBV_ACCESS_REMOTE_READ)
             else ep_reg_region (n_ep e) (bx_base b) whole 0 whole (rw OR IBV_ACCESS_REMOTE_READ) 0)
      in (r, e\<lparr>n_ep := n\<rparr>, b\<lparr>bx_r := rg\<rparr>))"

definition box_offer :: "xchg \<Rightarrow> endpoint \<Rightarrow> box \<Rightarrow> u8 \<Rightarrow> u8 \<Rightarrow> u8 \<Rightarrow> xmsg" where
  "box_offer x e b role mode flags =
     (xchg_prepare x X_OFFER role flags)
       \<lparr>m_info := (ep_info (end_view e) (bx_r b))\<lparr>xi_mode := mode, xi_req := bx_req b, xi_rep := bx_rep b\<rparr>\<rparr>"

definition box_refuse :: "endpoint \<Rightarrow> box \<Rightarrow> xinfo \<Rightarrow> string option" where
  "box_refuse e b peer =
     (if unat (xi_transport peer) \<noteq> e_kind (n_ep e) then Some ''the two ends use different link kinds''
      else if xi_req peer \<noteq> bx_req b \<or> xi_rep peer \<noteq> bx_rep b then Some ''mailbox sizes differ''
      else if e_kind (n_ep e) = LINK_TB \<and> xi_mode peer \<noteq> MODE_DIRECT
        then Some ''pull mode needs RDMA READ, which Thunderbolt lacks''
      else if \<not> table_valid (xi_table peer) (bx_req b + bx_rep b) (e_kind (n_ep e) = LINK_ROCE)
        then Some ''the peer's registrations are malformed''
      else None)"

text \<open>What \<open>xchg_answer\<close> hands to \<open>sendto\<close>, if anything.\<close>

definition xchg_answer :: "xchg \<Rightarrow> u8 list \<Rightarrow> u8 \<Rightarrow> u8 \<Rightarrow> string option \<Rightarrow> (dest \<times> u8 list) option" where
  "xchg_answer x to kind role text =
     (let m = (xchg_prepare x kind role 0)\<lparr>m_to := to\<rparr>;
          m' = (case text of None \<Rightarrow> m | Some t \<Rightarrow> m\<lparr>m_text := put_str X_TEXT (map of_char t)\<rparr>)
      in snd (xchg_send x m' True))"

definition word_piece :: "box \<Rightarrow> table \<Rightarrow> u64 \<Rightarrow> u64 \<Rightarrow> piece" where
  "word_piece b remote word_src word_dst =
     \<lparr>pc_local = bx_base b + word_src, pc_lkey = region_lkey (bx_r b) word_src, pc_remote = tab_base remote + word_dst,
      pc_rkey = tab_rkey remote ! unat (word_dst div tab_seg remote), pc_len = 8\<rparr>"

definition box_transfer ::
    "nat \<Rightarrow> endpoint \<Rightarrow> box \<Rightarrow> table \<Rightarrow> u64 \<Rightarrow> u32 \<Rightarrow> u64 \<Rightarrow> u64 \<Rightarrow> u64 \<Rightarrow> nat \<Rightarrow> int \<Rightarrow> (int \<times> endpoint) option" where
  "box_transfer fuel e b remote off len word_src word_dst word cap wnd =
     (if e_kind (n_ep e) = LINK_TB
      then map_option (\<lambda>(r, l). (r, e\<lparr>n_link := l\<rparr>))
        (and_then (tb_write fuel (n_link e) (bx_r b) off off (ucast len) XFER_NS) (\<lambda>l1.
           and_then (tb_signal fuel l1 word_dst word XFER_NS) (\<lambda>l2. Some (0, l2))))
      else case (if len \<noteq> 0 then cut (bx_r b) off (ucast len) (Some remote) off SEG (cap - 1) else Some []) of
          None \<Rightarrow> Some (-1, e)
        | Some ps \<Rightarrow>
            map_option (\<lambda>(r, q). (r, e\<lparr>n_roce := q\<rparr>))
              (post_pieces fuel (n_roce e) RDMA_WRITE (ps @ [word_piece b remote word_src word_dst]) wnd XFER_NS))"


subsection \<open>Mailbox sizes and registrations\<close>

definition half_ok :: "u64 \<Rightarrow> bool" where
  "half_ok h \<longleftrightarrow> SEG dvd unat h \<and> SEG \<le> unat h \<and> unat h \<le> MAX_SEGS * SEG"

lemma parse_mib_half:
  assumes "parse_mib mib = Some h"
  shows "half_ok h"
proof -
  have c: "mib \<noteq> 0" "mib mod 4 = 0" "mib \<le> 256" and h: "h = push_bit 20 (ucast mib)"
    using assms by (auto simp: parse_mib_def not_less split: if_splits)
  from c(2) have "unat (mib mod 4) = unat (0 :: u32)" by (rule arg_cong)
  then have m: "unat mib \<noteq> 0" "unat mib mod 4 = 0" "unat mib \<le> 256"
    using c(1,3) by (simp_all add: unat_mod word_le_nat_alt unat_eq_zero)
  have "unat h = (2 ^ 20 * unat mib) mod 2 ^ 64"
    unfolding h push_bit_eq_mult by (simp add: unat_word_ariths mult.commute)
  then have "unat h = unat mib * 2 ^ 20" using m(3) by simp
  moreover obtain k where "unat mib = 4 * k" using m(2) by auto
  ultimately show ?thesis using m unfolding half_ok_def by simp
qed

text \<open>A registered mailbox.\<close>

definition box_ok :: "box \<Rightarrow> bool" where
  "box_ok b \<longleftrightarrow> half_ok (bx_req b) \<and> half_ok (bx_rep b) \<and> tiled (bx_r b) \<and> covers (bx_r b) \<and>
     r_base (bx_r b) = bx_base b \<and> r_length (bx_r b) = bx_req b + bx_rep b \<and>
     r_seg (bx_r b) \<noteq> 0 \<and> SEG dvd unat (r_seg (bx_r b))"

lemma half_sum:
  assumes "half_ok a" and "half_ok c"
  shows "unat (a + c) = unat a + unat c"
  using assms by (intro unat_add_small) (simp add: half_ok_def)

lemma box_register_ok:
  assumes "box_register apple e b listen = (0, e', b')" and "half_ok (bx_req b)" and "half_ok (bx_rep b)"
  shows "box_ok b'" and "bx_req b' = bx_req b" and "bx_rep b' = bx_rep b"
    and "n_roce e' = n_roce e" and "n_link e' = n_link e" and "n_path e' = n_path e"
proof -
  note sm = half_sum [OF assms(2,3)]
  let ?w = "bx_req b + bx_rep b"
  have nz: "?w \<noteq> 0" using assms(2,3) sm by (auto simp: half_ok_def)
  have d: "SEG dvd unat ?w" using assms(2,3) unfolding sm by (auto simp: half_ok_def)
  have big: "unat ?w \<le> 128 * SEG" using assms(2,3) unfolding sm by (auto simp: half_ok_def)
  have reg: "tiled rg \<and> covers rg \<and> r_length rg = ?w \<and> r_base rg = bx_base b \<and> r_seg rg = (if seg \<noteq> 0 then seg else ?w)"
    if "ep_reg_region (n_ep e) (bx_base b) ?w seg split blw abv = (0, n, rg)" "unat seg \<le> TB_SEG" for seg split blw abv n rg
    using that big by (intro ep_reg_region_tiled [OF that(1) nz]) auto
  define rg where "rg = bx_r b'"
  have b': "b' = b\<lparr>bx_r := rg\<rparr>"
    using assms(1) by (auto simp: rg_def box_register_def Let_def split: prod.splits)
  have rg: "\<exists>seg split blw abv n. ep_reg_region (n_ep e) (bx_base b) ?w seg split blw abv = (0, n, rg) \<and>
      (seg = TB_SEG \<or> seg = SEG \<or> seg = 0)"
    using assms(1) by (auto simp: rg_def box_register_def Let_def split: if_splits prod.splits) blast+
  obtain seg where "seg = TB_SEG \<or> seg = SEG \<or> seg = 0"
    "tiled rg \<and> covers rg \<and> r_length rg = ?w \<and> r_base rg = bx_base b \<and> r_seg rg = (if seg \<noteq> 0 then seg else ?w)"
  proof -
    from rg obtain seg split blw abv n where r: "ep_reg_region (n_ep e) (bx_base b) ?w seg split blw abv = (0, n, rg)"
      and s: "seg = TB_SEG \<or> seg = SEG \<or> seg = 0" by blast
    from s have "unat seg \<le> TB_SEG" by auto
    from reg [OF r this] s that show thesis by blast
  qed
  then show "box_ok b'" "bx_req b' = bx_req b" "bx_rep b' = bx_rep b"
    using assms(2,3) nz d by (auto simp: box_ok_def b')
  show "n_roce e' = n_roce e" "n_link e' = n_link e" "n_path e' = n_path e"
    using assms(1) by (auto simp: box_register_def Let_def split: prod.splits)
qed


subsection \<open>The pieces of a transfer fit their array\<close>

text \<open>
  A piece ends where the range does, after \<open>mx\<close> bytes, or at a boundary of a local or a remote
  registration; so there are at most as many pieces as there are such ends.
\<close>

definition ends :: "nat \<Rightarrow> nat \<Rightarrow> nat \<Rightarrow> nat \<Rightarrow> nat \<Rightarrow> nat" where
  "ends mx ls rs off len = len div mx + ((off + len) div ls - off div ls) + ((off + len) div rs - off div rs)"

lemma div_mono_add: "(a :: nat) div s \<le> (a + k) div s"
  by (simp add: div_le_mono)

lemma boundary_ends: "0 < s \<Longrightarrow> (off + (s - off mod s)) div s = off div s + (1 :: nat)"
proof -
  assume s: "0 < s"
  have "off mod s \<le> s" using s by (simp add: order_less_imp_le)
  then have "off + (s - off mod s) = off div s * s + s"
    using div_mult_mod_eq [of off s] by linarith
  then show ?thesis using s by simp
qed

lemma ends_step:
  assumes "0 < mx" "0 < ls" "0 < rs" "k < len"
    and "k = mx \<or> k = ls - off mod ls \<or> k = rs - off mod rs"
  shows "ends mx ls rs (off + k) (len - k) + 1 \<le> ends mx ls rs off len"
proof -
  have d: "(len - k) div mx \<le> len div mx" by (simp add: div_le_mono)
  have l: "off div ls \<le> (off + k) div ls" "off div rs \<le> (off + k) div rs"
    "(off + k) div ls \<le> (off + len) div ls" "(off + k) div rs \<le> (off + len) div rs"
    using assms(4) by (auto intro: div_le_mono)
  have e: "off + k + (len - k) = off + len" using assms(4) by simp
  consider "k = mx" | "k = ls - off mod ls" | "k = rs - off mod rs" using assms(5) by blast
  then show ?thesis
  proof cases
    case 1
    then have "len div mx = (len - k) div mx + 1" using assms(1,4) by (simp add: le_div_geq)
    then show ?thesis using l unfolding ends_def e by linarith
  next
    case 2
    have "(off + k) div ls = off div ls + 1" unfolding 2 by (rule boundary_ends [OF assms(2)])
    then show ?thesis using l d unfolding ends_def e by linarith
  next
    case 3
    have "(off + k) div rs = off div rs + 1" unfolding 3 by (rule boundary_ends [OF assms(3)])
    then show ?thesis using l d unfolding ends_def e by linarith
  qed
qed

lemma cut_take_unat:
  assumes "r_seg lcl \<noteq> 0" and "tab_seg t \<noteq> 0"
  shows "unat (cut_take lcl (Some t) mx off off len) =
    min (min (min (unat len) (unat mx)) (unat (r_seg lcl) - unat off mod unat (r_seg lcl)))
        (unat (tab_seg t) - unat off mod unat (tab_seg t))"
  using seg_room [OF assms(2), of off] unat_take_in [OF assms(1), of mx off len]
  by (auto simp: cut_take_def Let_def word_less_nat_alt min_def)

lemma pieces_count:
  assumes "mx \<noteq> 0" and "r_seg lcl \<noteq> 0" and "tab_seg t \<noteq> 0" and "unat off + unat len < 2 ^ 64" and "len \<noteq> 0"
  shows "length (chop (\<lambda>o' l. cut_take lcl (Some t) mx o' (o' + 0) l) off len)
    \<le> ends (unat mx) (unat (r_seg lcl)) (unat (tab_seg t)) (unat off) (unat len) + 1"
proof -
  have "seg_ok (Some t)" using assms(3) by (simp add: seg_ok_def)
  note c = cutter_cut [OF assms(1,2) this, of 0]
  show ?thesis
    using assms(4,5)
  proof (induction off len rule: cutter.chop_induct [OF c])
    case (2 off len)
    define k where "k = cut_take lcl (Some t) mx off (off + 0) len"
    have u: "unat k = min (min (min (unat len) (unat mx)) (unat (r_seg lcl) - unat off mod unat (r_seg lcl)))
        (unat (tab_seg t) - unat off mod unat (tab_seg t))"
      unfolding k_def using cut_take_unat [OF assms(2,3)] by simp
    have step: "chop (\<lambda>o' l. cut_take lcl (Some t) mx o' (o' + 0) l) off len =
        (off, k) # chop (\<lambda>o' l. cut_take lcl (Some t) mx o' (o' + 0) l) (off + k) (len - k)"
      unfolding k_def by (rule cutter.chop_step [OF c 2(1)])
    have le: "unat k \<le> unat len" unfolding u by (simp add: min_le_iff_disj)
    show ?case
    proof (cases "k = len")
      case True
      then show ?thesis unfolding step by simp
    next
      case False
      then have lt: "unat k < unat len" using le by (simp add: word_unat_eq_iff)
      have a: "unat (off + k) = unat off + unat k" "unat (len - k) = unat len - unat k"
        using 2(3) lt by (simp_all add: unat_add_small unat_sub_le word_le_nat_alt)
      have "len - k \<noteq> 0" using False by simp
      then have "length (chop (\<lambda>o' l. cut_take lcl (Some t) mx o' (o' + 0) l) (off + k) (len - k))
          \<le> ends (unat mx) (unat (r_seg lcl)) (unat (tab_seg t)) (unat off + unat k) (unat len - unat k) + 1"
        using 2(2) a 2(3) lt unfolding k_def [symmetric] by simp
      moreover have "ends (unat mx) (unat (r_seg lcl)) (unat (tab_seg t)) (unat off + unat k) (unat len - unat k) + 1
          \<le> ends (unat mx) (unat (r_seg lcl)) (unat (tab_seg t)) (unat off) (unat len)"
        using lt u assms(1-3) by (intro ends_step) (auto simp: unat_gt_0 min_def split: if_splits)
      ultimately show ?thesis unfolding step by simp
    qed
  qed simp
qed

text \<open>A table that passes the check, unless its sum wraps, has at most 127 boundaries inside the mailbox.\<close>

definition table_fits :: "table \<Rightarrow> bool" where
  "table_fits t \<longleftrightarrow> unat (tab_length t) + unat (tab_seg t) \<le> 2 ^ 64"

lemma remote_ends:
  fixes off len need :: u64
  assumes "table_valid t need True" and "table_fits t" and "unat off + unat len \<le> unat need" and "len \<noteq> 0"
  shows "(unat off + unat len) div unat (tab_seg t) - unat off div unat (tab_seg t) \<le> 128"
proof -
  define z :: u64 where "z = off + (len - 1)"
  have need: "need \<le> tab_length t" and nz: "tab_seg t \<noteq> 0"
    using assms(1) by (auto simp: table_valid_def not_less split: if_splits)
  have l: "1 \<le> unat len" using assms(4) by (simp add: Suc_le_eq unat_gt_0)
  then have "unat (len - 1) = unat len - 1" by (subst unat_sub_le) (simp_all add: word_le_nat_alt)
  then have z: "unat z = unat off + unat len - 1"
    unfolding z_def using assms(3) l unat_lt_64 [of need] by (subst unat_add_small) simp_all
  then have "z < tab_length t" using need assms(3) l by (simp add: word_less_nat_alt word_le_nat_alt)
  from table_valid_keys_index [OF assms(1) assms(2) [unfolded table_fits_def] this]
  have "unat z div unat (tab_seg t) < 128" by (simp add: unat_div)
  moreover have "(unat off + unat len) div unat (tab_seg t) \<le> unat z div unat (tab_seg t) + 1"
  proof -
    have "unat off + unat len = unat z + 1" using z l by simp
    then show ?thesis using nz by (simp add: div_Suc unat_gt_0)
  qed
  ultimately show ?thesis by linarith
qed

lemma transfer_cut:
  fixes off len :: u64
  assumes "box_ok b" and "table_valid t (bx_req b + bx_rep b) True" and "table_fits t"
    and "unat off + unat len \<le> unat (bx_req b + bx_rep b)" and "unat len \<le> MAX_SEGS * SEG - CTRL" and "len \<noteq> 0"
  shows "cut (bx_r b) off len (Some t) off SEG (PIECES - 1) =
    Some (map (\<lambda>(o', k). cut_piece (bx_r b) (Some t) o' o' k)
      (chop (\<lambda>o' l. cut_take (bx_r b) (Some t) SEG o' (o' + 0) l) off len))"
proof -
  let ?ls = "unat (r_seg (bx_r b))" and ?rs = "unat (tab_seg t)"
  have nz: "r_seg (bx_r b) \<noteq> 0" "tab_seg t \<noteq> 0" and ls: "SEG \<le> ?ls"
    using assms(1,2) by (auto simp: box_ok_def table_valid_def unat_gt_0 intro: dvd_imp_le split: if_splits)
  have fit: "unat off + unat len < 2 ^ 64" using assms(4) unat_lt_64 [of "bx_req b + bx_rep b"] by simp
  have "unat len div SEG \<le> 63" using assms(5) by simp
  moreover have "(unat off + unat len) div ?ls - unat off div ?ls \<le> 64"
  proof -
    have "(unat off + unat len) div ?ls \<le> (unat off + 64 * ?ls) div ?ls"
      using assms(5) ls by (intro div_le_mono) linarith
    then show ?thesis using nz(1) by (simp add: unat_gt_0)
  qed
  moreover have "(unat off + unat len) div ?rs - unat off div ?rs \<le> 128"
    using assms by (intro remote_ends)
  ultimately have "ends SEG ?ls ?rs (unat off) (unat len) \<le> 255" unfolding ends_def by linarith
  then have "length (chop (\<lambda>o' l. cut_take (bx_r b) (Some t) SEG o' (o' + 0) l) off len) \<le> 259"
    using pieces_count [of SEG "bx_r b" t off len] nz fit assms(6) by simp
  then show ?thesis
    using cut_eq [of SEG "bx_r b" "Some t" off len off 259] nz by (simp add: seg_ok_def)
qed


subsection \<open>Requests inside the mailbox\<close>

text \<open>
  A request of a mailbox's transfer, confined to the offsets from \<open>lo\<close> to \<open>hi\<close> on both sides: it reads
  inside one registration, with its key, and carries the key the peer's table holds for where it
  writes. That this is one of the keys the peer gave needs a table whose length and segment together
  stay within 64 bits: \<open>table_valid\<close> lets others through (their sum wraps), and the index may then
  be past the keys.
\<close>

definition local_ok :: "box \<Rightarrow> nat \<Rightarrow> nat \<Rightarrow> piece \<Rightarrow> bool" where
  "local_ok b lo hi p \<longleftrightarrow> (\<exists>off. pc_local p = bx_base b + off \<and> lo \<le> unat off \<and> unat off + unat (pc_len p) \<le> hi \<and>
     (\<exists>m \<in> set (r_mr (bx_r b)). pc_lkey p = mr_lkey m \<and> unat (mr_off m) \<le> unat off \<and>
        unat off + unat (pc_len p) \<le> unat (mr_off m) + unat (mr_len m)))"

definition remote_ok :: "table \<Rightarrow> nat \<Rightarrow> nat \<Rightarrow> piece \<Rightarrow> bool" where
  "remote_ok t lo hi p \<longleftrightarrow> (\<exists>off. pc_remote p = tab_base t + off \<and> lo \<le> unat off \<and> unat off + unat (pc_len p) \<le> hi \<and>
     pc_rkey p = tab_rkey t ! unat (off div tab_seg t) \<and> (table_fits t \<longrightarrow> unat (off div tab_seg t) < unat (tab_n t)))"

definition request_ok :: "box \<Rightarrow> table \<Rightarrow> nat \<Rightarrow> nat \<Rightarrow> piece \<Rightarrow> bool" where
  "request_ok b t lo hi p \<longleftrightarrow> 0 < pc_len p \<and> local_ok b lo hi p \<and> remote_ok t lo hi p"

lemma request_ok_mono:
  "request_ok b t lo hi p \<Longrightarrow> lo' \<le> lo \<Longrightarrow> hi \<le> hi' \<Longrightarrow> request_ok b t lo' hi' p"
  unfolding request_ok_def local_ok_def remote_ok_def by (meson le_trans)

lemma remote_key:
  assumes "table_valid t need True" and "table_fits t" and "unat off < unat need"
  shows "unat (off div tab_seg t) < unat (tab_n t)"
proof -
  have "need \<le> tab_length t" using assms(1) by (auto simp: table_valid_def not_less split: if_splits)
  then have "off < tab_length t" using assms(3) by (simp add: word_less_nat_alt word_le_nat_alt)
  from table_valid_keys_index [OF assms(1) assms(2) [unfolded table_fits_def] this] show ?thesis by blast
qed

lemma word_request:
  assumes "box_ok b" and "table_valid t (bx_req b + bx_rep b) True"
    and "unat src mod 8 = 0" and "unat src + 8 \<le> unat (bx_req b + bx_rep b)"
    and "unat dst + 8 \<le> unat (bx_req b + bx_rep b)"
  shows "request_ok b t (min (unat src) (unat dst)) (max (unat src) (unat dst) + 8) (word_piece b t src dst)"
proof -
  have sg: "r_seg (bx_r b) \<noteq> 0" "8 dvd unat (r_seg (bx_r b))"
    using assms(1) by (auto simp: box_ok_def intro: dvd_trans [of 8 "4194304 :: nat"])
  then have "unat src mod unat (r_seg (bx_r b)) mod 8 = 0" "unat src mod unat (r_seg (bx_r b)) < unat (r_seg (bx_r b))"
    using assms(3) by (simp_all add: mod_mod_cancel unat_gt_0)
  then have "unat src mod unat (r_seg (bx_r b)) + 8 \<le> unat (r_seg (bx_r b))"
    using sg(2) by (auto elim!: dvdE simp: mod_eq_0_iff_dvd)
  then have "local_ok b (min (unat src) (unat dst)) (max (unat src) (unat dst) + 8) (word_piece b t src dst)"
    using registration_at [of "bx_r b" 8 src] assms(1,4) sg(1)
    unfolding local_ok_def by (intro exI [of _ src]) (auto simp: box_ok_def word_piece_def)
  moreover have "remote_ok t (min (unat src) (unat dst)) (max (unat src) (unat dst) + 8) (word_piece b t src dst)"
    unfolding remote_ok_def using remote_key [OF assms(2), of dst] assms(5)
    by (intro exI [of _ dst]) (simp add: word_piece_def)
  ultimately show ?thesis by (simp add: request_ok_def word_piece_def)
qed

lemma cut_requests:
  fixes off len :: u64
  assumes "box_ok b" and "table_valid t (bx_req b + bx_rep b) True"
    and "unat off + unat len \<le> unat (bx_req b + bx_rep b)" and "mx \<noteq> 0" and "unat mx < 2 ^ 32"
    and "cut (bx_r b) off len (Some t) off mx cap = Some ps"
  shows "length ps \<le> cap" and "tiles off (map (\<lambda>p. (pc_local p - bx_base b, ucast (pc_len p))) ps)"
    and "sum_list (map (unat \<circ> pc_len) ps) = unat len"
    and "\<And>p. p \<in> set ps \<Longrightarrow> request_ok b t (unat off) (unat off + unat len) p"
proof -
  define tk where "tk = (\<lambda>o' l. cut_take (bx_r b) (Some t) mx o' (o' + (off - off)) l)"
  define cs where "cs = chop tk off len"
  have nz: "r_seg (bx_r b) \<noteq> 0" "seg_ok (Some t)"
    using assms(1,2) by (auto simp: box_ok_def seg_ok_def table_valid_def split: if_splits)
  note c = cut_pieces [OF assms(6,4,5) nz, folded tk_def cs_def]
  have ps: "ps = map (\<lambda>(o', k). cut_piece (bx_r b) (Some t) o' o' k) cs" using c(3) by simp
  have lt: "unat off + unat len \<le> 2 ^ 64" using assms(3) unat_lt_64 [of "bx_req b + bx_rep b"] by simp
  have part: "unat k < 2 ^ 32 \<and> request_ok b t (unat off) (unat off + unat len) (cut_piece (bx_r b) (Some t) o' o' k)"
    if "(o', k) \<in> set cs" for o' k
  proof -
    note w = cutter.chop_within [OF c(1) that [unfolded cs_def] lt]
    then have k: "0 < unat k" by (simp add: unat_gt_0)
    have u: "unat (pc_len (cut_piece (bx_r b) (Some t) o' o' k)) = unat k"
      using c(4) [OF that] by (simp add: cut_piece_def ucast_u32_of_u64)
    have "local_ok b (unat off) (unat off + unat len) (cut_piece (bx_r b) (Some t) o' o' k)"
      using registration_at [of "bx_r b" "unat k" o'] w k c(4) [OF that] assms(1,3) nz(1)
      unfolding local_ok_def u by (intro exI [of _ o']) (auto simp: box_ok_def cut_piece_def)
    moreover have "remote_ok t (unat off) (unat off + unat len) (cut_piece (bx_r b) (Some t) o' o' k)"
      unfolding remote_ok_def u using remote_key [OF assms(2), of o'] w k assms(3)
      by (intro exI [of _ o']) (simp add: cut_piece_def)
    ultimately show ?thesis using u k c(4) [OF that] by (simp add: request_ok_def word_less_nat_alt)
  qed
  have eq: "map (\<lambda>p. (pc_local p - bx_base b, ucast (pc_len p))) ps = cs"
    unfolding ps using part assms(1)
    by (auto simp: cut_piece_def box_ok_def ucast_u64_u32_u64 intro!: map_idI)
  have "map (unat \<circ> pc_len) ps = map (unat \<circ> snd) cs"
    unfolding ps using part by (auto simp: cut_piece_def ucast_u32_of_u64)
  then show "sum_list (map (unat \<circ> pc_len) ps) = unat len"
    using cutter.chop_total [OF c(1), of off len] by (simp add: cs_def)
  show "tiles off (map (\<lambda>p. (pc_local p - bx_base b, ucast (pc_len p))) ps)"
    unfolding eq cs_def by (rule cutter.chop_tiles [OF c(1)])
  show "length ps \<le> cap" by (rule c(2))
  show "\<And>p. p \<in> set ps \<Longrightarrow> request_ok b t (unat off) (unat off + unat len) p"
    using part unfolding ps by fastforce
qed

subsection \<open>What a transfer posts\<close>

lemma post_window_only:
  assumes "post_window e op ps wnd = (r, e', ps')"
  shows "set ps' \<subseteq> set ps \<and> q_outstanding e \<le> q_outstanding e' \<and>
    (\<exists>new. q_posted e' = q_posted e @ new \<and> snd ` set new \<subseteq> Pair op ` set ps)"
  using assms
proof (induction e op ps wnd arbitrary: e' ps' r rule: post_window.induct)
  case (2 e op p ps wnd)
  show ?case
  proof (cases "q_outstanding e < wnd \<and> q_post e (q_npost e)")
    case True
    define e1 where "e1 = snd (ep_post e op p)"
    have p1: "ep_post e op p = (0, e1)" and e1: "q_posted e1 = q_posted e @ [(q_outstanding e, op, p)]"
      "q_outstanding e \<le> q_outstanding e1"
      using True by (auto simp: ep_post_def e1_def)
    from True p1 "2.prems" have "post_window e1 op ps wnd = (r, e', ps')" by simp
    from "2.IH" [OF _ p1 [symmetric] _ this] True obtain new where
      "set ps' \<subseteq> set ps" "q_outstanding e1 \<le> q_outstanding e'" "q_posted e' = q_posted e1 @ new"
      "snd ` set new \<subseteq> Pair op ` set ps" by auto
    then show ?thesis using e1 by (intro conjI exI [of _ "(q_outstanding e, op, p) # new"]) auto
  next
    case False
    with "2.prems" show ?thesis by (auto simp: ep_post_def split: if_splits)
  qed
qed auto

lemma post_pieces_only:
  assumes "post_pieces fuel e op ps wnd timeout = Some (r, e')" and "0 \<le> q_outstanding e"
  shows "0 \<le> q_outstanding e' \<and> (\<exists>new. q_posted e' = q_posted e @ new \<and> snd ` set new \<subseteq> Pair op ` set ps)"
  using assms unfolding post_pieces_def
proof (induction fuel e op ps wnd timeout rule: pieces_loop.induct)
  case (2 fuel e op ps wnd timeout)
  show ?case
  proof (cases "ps = []")
    case True
    with "2.prems" show ?thesis
      by (auto split: option.splits if_splits dest!: ep_reap_result)
  next
    case False
    obtain rc e1 ps' where w: "post_window e op ps wnd = (rc, e1, ps')" by (metis prod_cases3)
    from post_window_only [OF w] obtain new where
      new: "set ps' \<subseteq> set ps" "q_outstanding e \<le> q_outstanding e1" "q_posted e1 = q_posted e @ new"
        "snd ` set new \<subseteq> Pair op ` set ps" by auto
    then have o1: "0 \<le> q_outstanding e1" using "2.prems"(2) by simp
    show ?thesis
    proof (cases "rc = 0")
      case rc: False
      with False w "2.prems" show ?thesis using o1 new by auto
    next
      case True
      with w have w0: "post_window e op ps wnd = (0, e1, ps')" by simp
      from False w0 "2.prems" obtain g e2 where g: "ep_reap fuel e1 1 timeout = Some (g, e2)"
        by (auto split: option.splits)
      from ep_reap_result [OF g o1] have e2: "q_posted e2 = q_posted e1" "0 \<le> q_outstanding e2" by auto
      show ?thesis
      proof (cases "g < 0")
        case True
        with False w0 g "2.prems" show ?thesis using e2 new by auto
      next
        case gp: False
        with False w0 g "2.prems" have "pieces_loop fuel e2 op ps' wnd timeout = Some (r, e')" by simp
        from "2.IH" [OF False w0 [symmetric] refl _ g refl gp this e2(2)] obtain new2 where
          "0 \<le> q_outstanding e'" "q_posted e' = q_posted e2 @ new2" "snd ` set new2 \<subseteq> Pair op ` set ps'" by auto
        then show ?thesis using new e2 by (intro conjI exI [of _ "new @ new2"]) auto
      qed
    qed
  qed
qed simp

text \<open>
  A transfer either is refused, before anything is posted, because its payload needs more requests
  than the array has (never with a table that does not wrap), or hands its pieces and the word to
  \<open>post_pieces\<close>.
\<close>

definition transfer_of :: "endpoint \<Rightarrow> box \<Rightarrow> table \<Rightarrow> u64 \<Rightarrow> u32 \<Rightarrow> piece list \<Rightarrow> bool" where
  "transfer_of e b t off len ps \<longleftrightarrow>
     length ps < PIECES \<and> tiles off (map (\<lambda>p. (pc_local p - bx_base b, ucast (pc_len p))) ps) \<and>
     sum_list (map (unat \<circ> pc_len) ps) = unat len \<and>
     (\<forall>p \<in> set ps. request_ok b t (unat off) (unat off + unat len) p) \<and>
     (\<forall>fuel src dst word wnd. box_transfer fuel e b t off len src dst word PIECES wnd =
       map_option (\<lambda>(r, q). (r, e\<lparr>n_roce := q\<rparr>))
         (post_pieces fuel (n_roce e) RDMA_WRITE (ps @ [word_piece b t src dst]) wnd XFER_NS))"

lemma transfer_pieces:
  assumes "box_ok b" and "table_valid t (bx_req b + bx_rep b) True" and "e_kind (n_ep e) \<noteq> LINK_TB"
    and "unat off + unat len \<le> unat (bx_req b + bx_rep b)" and "unat len \<le> MAX_SEGS * SEG - CTRL"
  shows "(\<not> table_fits t \<and> (\<forall>fuel src dst word wnd. box_transfer fuel e b t off len src dst word PIECES wnd = Some (-1, e))) \<or>
    (\<exists>ps. transfer_of e b t off len ps)"
proof (cases "len = 0")
  case True
  then have "transfer_of e b t off len []" using assms(3) by (simp add: transfer_of_def box_transfer_def)
  then show ?thesis by blast
next
  case False
  then have nz: "ucast len \<noteq> (0 :: u64)" by (simp add: word_unat_eq_iff)
  show ?thesis
  proof (cases "cut (bx_r b) off (ucast len) (Some t) off SEG (PIECES - 1)")
    case None
    have "\<not> table_fits t" using transfer_cut [OF assms(1,2) _ _ _ nz, of off] assms(4,5) None by auto
    then show ?thesis using None False assms(3) by (simp add: box_transfer_def)
  next
    case (Some ps)
    have "unat off + unat (ucast len :: u64) \<le> unat (bx_req b + bx_rep b)" using assms(4) by simp
    note c = cut_requests [OF assms(1,2) this _ _ Some]
    have "transfer_of e b t off len ps"
      using c Some False assms(3) by (simp add: transfer_of_def box_transfer_def)
    then show ?thesis by blast
  qed
qed

lemma transfer_only:
  assumes "box_ok b" and "table_valid t (bx_req b + bx_rep b) True" and "e_kind (n_ep e) \<noteq> LINK_TB"
    and "lo \<le> unat off" and "unat off + unat len \<le> hi" and "hi \<le> unat (bx_req b + bx_rep b)"
    and "unat len \<le> MAX_SEGS * SEG - CTRL" and "unat src mod 8 = 0"
    and "lo \<le> unat src" "unat src + 8 \<le> hi" "lo \<le> unat dst" "unat dst + 8 \<le> hi"
    and "box_transfer fuel e b t off len src dst word PIECES wnd = Some (r, e')" and "0 \<le> q_outstanding (n_roce e)"
  shows "\<exists>q. e' = e\<lparr>n_roce := q\<rparr> \<and> 0 \<le> q_outstanding q \<and> (\<exists>new. q_posted q = q_posted (n_roce e) @ new \<and>
    (\<forall>(i, op, p) \<in> set new. op = RDMA_WRITE \<and> request_ok b t lo hi p))"
proof (cases "\<exists>ps. transfer_of e b t off len ps")
  case False
  then have "e' = e" using transfer_pieces [OF assms(1-3) _ assms(7), of off] assms(5,6,13) by auto
  then show ?thesis using assms(14) by (intro exI [of _ "n_roce e"]) simp
next
  case True
  then obtain ps where ps: "\<And>p. p \<in> set ps \<Longrightarrow> request_ok b t (unat off) (unat off + unat len) p"
      "\<And>fuel src dst word wnd. box_transfer fuel e b t off len src dst word PIECES wnd =
         map_option (\<lambda>(r, q). (r, e\<lparr>n_roce := q\<rparr>))
         (post_pieces fuel (n_roce e) RDMA_WRITE (ps @ [word_piece b t src dst]) wnd XFER_NS)"
    by (auto simp: transfer_of_def)
  from assms(13) obtain q where
    q: "post_pieces fuel (n_roce e) RDMA_WRITE (ps @ [word_piece b t src dst]) wnd XFER_NS = Some (r, q)"
    and e': "e' = e\<lparr>n_roce := q\<rparr>" unfolding ps(2) by auto
  have w: "request_ok b t lo hi (word_piece b t src dst)"
    by (rule request_ok_mono [OF word_request [OF assms(1,2,8)]]) (use assms(4-12) in auto)
  have all: "request_ok b t lo hi p" if "p \<in> set (ps @ [word_piece b t src dst])" for p
    using that w request_ok_mono [OF ps(1) assms(4,5)] by auto
  from post_pieces_only [OF q assms(14)] obtain new where
    new: "0 \<le> q_outstanding q" "q_posted q = q_posted (n_roce e) @ new"
      "snd ` set new \<subseteq> Pair RDMA_WRITE ` set (ps @ [word_piece b t src dst])" by blast
  have "op = RDMA_WRITE \<and> request_ok b t lo hi p" if "(i, op, p) \<in> set new" for i op p
  proof -
    have "(op, p) \<in> Pair RDMA_WRITE ` set (ps @ [word_piece b t src dst])"
      using that new(3) by (metis image_subset_iff snd_conv)
    then show ?thesis using all by blast
  qed
  with new e' show ?thesis by (intro exI [of _ q] exI [of _ new] conjI) auto
qed


lemma refuse_table:
  assumes "box_refuse e b peer = None"
  shows "unat (xi_transport peer) = e_kind (n_ep e)"
    and "e_kind (n_ep e) = LINK_ROCE \<Longrightarrow> table_valid (xi_table peer) (bx_req b + bx_rep b) True"
  using assms by (auto simp: box_refuse_def split: if_splits)

subsection \<open>Property\<close>

text \<open>
  C23: a transfer between two mailboxes over RoCE, for halves of any size the daemon accepts, any
  registration of the mailbox and any offer it accepts. Only when the offered table's length plus
  segment exceeds 64 bits (the check of an offer lets that through) it may be that the array of
  requests does not suffice, and then nothing is posted. Otherwise the payload's requests tile the
  range and the word's request comes last; each stays inside both mailboxes, with the local key of
  its registration and the remote key at the index of its offset, an index the peer gave a key for
  unless the table exceeds 64 bits. When the transfer succeeds exactly these were posted, in this
  order, and have completed; and it returns once the clock passes its timeout.
\<close>

theorem transfer_in_order:
  fixes word :: u64 and wnd :: int
  assumes "parse_mib m1 = Some (bx_req b0)" and "parse_mib m2 = Some (bx_rep b0)"
    and "box_register apple e0 b0 listen = (0, e, b)" and "e_kind (n_ep e) = LINK_ROCE"
    and "box_refuse e b peer = None"
    and "unat off + unat len \<le> unat (bx_req b + bx_rep b)" and "unat len \<le> MAX_SEGS * SEG - CTRL"
    and "unat src mod 8 = 0" and "unat src + 8 \<le> unat (bx_req b + bx_rep b)"
    and "unat dst + 8 \<le> unat (bx_req b + bx_rep b)" and "0 \<le> q_outstanding (n_roce e)"
  defines "go \<equiv> \<lambda>fuel. box_transfer fuel e b (xi_table peer) off len src dst word PIECES wnd"
    and "last_one \<equiv> word_piece b (xi_table peer) src dst"
  shows "(\<not> table_fits (xi_table peer) \<and> (\<forall>fuel. go fuel = Some (-1, e))) \<or>
    (\<exists>ps. length ps < PIECES \<and> tiles off (map (\<lambda>p. (pc_local p - bx_base b, ucast (pc_len p))) ps) \<and>
      sum_list (map (unat \<circ> pc_len) ps) = unat len \<and>
      (\<forall>p \<in> set (ps @ [last_one]). request_ok b (xi_table peer) 0 (unat (bx_req b + bx_rep b)) p) \<and>
      (\<forall>fuel e'. go fuel = Some (0, e') \<longrightarrow>
         (\<exists>new. q_posted (n_roce e') = q_posted (n_roce e) @ new \<and>
            map snd new = map (Pair RDMA_WRITE) (ps @ [last_one]) \<and> q_outstanding (n_roce e') = 0)) \<and>
      (clock_passes (q_now (n_roce e)) XFER_NS \<longrightarrow> (\<exists>F. \<forall>fuel \<ge> F. go fuel \<noteq> None)))"
proof -
  have b: "box_ok b" using box_register_ok(1) [OF assms(3)] parse_mib_half assms(1,2) by blast
  note t = refuse_table(2) [OF assms(5,4)]
  have k: "e_kind (n_ep e) \<noteq> LINK_TB" using assms(4) by simp
  consider "\<not> table_fits (xi_table peer)" "\<And>fuel. go fuel = Some (-1, e)"
    | ps where "transfer_of e b (xi_table peer) off len ps"
    unfolding go_def using transfer_pieces [OF b t k assms(6,7)] by blast
  then show ?thesis
  proof cases
    case 2
    then have ps: "length ps < PIECES" "tiles off (map (\<lambda>p. (pc_local p - bx_base b, ucast (pc_len p))) ps)"
      "sum_list (map (unat \<circ> pc_len) ps) = unat len"
      "\<And>p. p \<in> set ps \<Longrightarrow> request_ok b (xi_table peer) (unat off) (unat off + unat len) p"
      "\<And>fuel. go fuel = map_option (\<lambda>(r, q). (r, e\<lparr>n_roce := q\<rparr>))
         (post_pieces fuel (n_roce e) RDMA_WRITE (ps @ [last_one]) wnd XFER_NS)"
      unfolding go_def last_one_def transfer_of_def by blast+
    have "request_ok b (xi_table peer) 0 (unat (bx_req b + bx_rep b)) last_one"
      unfolding last_one_def
      by (rule request_ok_mono [OF word_request [OF b t assms(8-10)]]) (use assms(9,10) in auto)
    then have "\<forall>p \<in> set (ps @ [last_one]). request_ok b (xi_table peer) 0 (unat (bx_req b + bx_rep b)) p"
      using request_ok_mono [OF ps(4) _ assms(6)] by auto
    moreover have "\<exists>new. q_posted (n_roce e') = q_posted (n_roce e) @ new \<and>
        map snd new = map (Pair RDMA_WRITE) (ps @ [last_one]) \<and> q_outstanding (n_roce e') = 0"
      if go: "go fuel = Some (0, e')" for fuel e'
    proof -
      from go obtain q where "post_pieces fuel (n_roce e) RDMA_WRITE (ps @ [last_one]) wnd XFER_NS = Some (0, q)"
        and "e' = e\<lparr>n_roce := q\<rparr>" unfolding ps(5) by auto
      then show ?thesis using post_pieces_order assms(11) by fastforce
    qed
    moreover have "\<exists>F. \<forall>fuel \<ge> F. go fuel \<noteq> None" if "clock_passes (q_now (n_roce e)) XFER_NS"
      using post_pieces_ends [OF that assms(11)] unfolding ps(5) by fastforce
    ultimately show ?thesis using ps(1-3) by blast
  qed blast
qed


text \<open>A listening end on Linux with halves of 4 MiB, and an offer of two registrations.\<close>

definition sample_endpoint :: endpoint where
  "sample_endpoint = \<lparr>n_ep = sample_ep\<lparr>e_qpn := None\<rparr>, n_cq = False, n_path = None, n_roce = sample_roce, n_link = blank\<rparr>"

definition sample_box :: box where
  "sample_box = \<lparr>bx_base = 65536, bx_req = SEG, bx_rep = SEG,
     bx_r = \<lparr>r_base = 0, r_length = 0, r_seg = 0, r_split = 0, r_below = 0, r_above = 0, r_mr = []\<rparr>\<rparr>"

definition sample_peer :: xinfo where
  "sample_peer = zero_info\<lparr>xi_transport := 1, xi_mode := 1, xi_qpn := 9, xi_req := SEG, xi_rep := SEG,
     xi_table := \<lparr>tab_base = 4096, tab_length = 2 * SEG, tab_seg = SEG, tab_n = 2, tab_rkey = [11, 12] @ replicate 126 0\<rparr>\<rparr>"

definition sample_registered :: "endpoint \<times> box" where
  "sample_registered = snd (box_register False sample_endpoint sample_box True)"

lemma sample_registers:
  "box_register False sample_endpoint sample_box True = (0, fst sample_registered, snd sample_registered)"
  "box_refuse (fst sample_registered) (snd sample_registered) sample_peer = None"
  "e_kind (n_ep (fst sample_registered)) = 1" "n_roce (fst sample_registered) = sample_roce"
  "bx_req (snd sample_registered) = SEG" "bx_rep (snd sample_registered) = SEG"
  "n_path (fst sample_registered) = None" "e_qpn (n_ep (fst sample_registered)) = None"
  "l_tb (n_link (fst sample_registered)) = False" "n_cq (fst sample_registered) = False"
  by (simp_all add: sample_registered_def box_register_def sample_endpoint_def sample_box_def sample_ep_def ep_reg_region_def
      reg_loop.simps ep_reg_def Let_def box_refuse_def sample_peer_def zero_info_def table_valid_def blank_with_def)

theorem transfer_in_order_witness:
  "\<exists>ps. sum_list (map (unat \<circ> pc_len) ps) = 5000 \<and>
     list_all (request_ok (snd sample_registered) (xi_table sample_peer) 0 (2 * SEG)) ps"
proof -
  have 1: "parse_mib 4 = Some (bx_req sample_box)" "parse_mib 4 = Some (bx_rep sample_box)"
    by (simp_all add: parse_mib_def sample_box_def push_bit_eq_mult)
  have 2: "table_fits (xi_table sample_peer)" by (simp add: table_fits_def sample_peer_def)
  have 3: "0 \<le> q_outstanding (n_roce (fst sample_registered))" by (simp add: sample_registers(4) sample_roce_def)
  have 4: "unat (SEG + CTRL :: u64) + unat (5000 :: u32) \<le> unat (bx_req (snd sample_registered) + bx_rep (snd sample_registered))"
    "unat (SEG :: u64) mod 8 = 0" "unat (SEG :: u64) + 8 \<le> unat (bx_req (snd sample_registered) + bx_rep (snd sample_registered))"
    "unat (SEG + 64 :: u64) + 8 \<le> unat (bx_req (snd sample_registered) + bx_rep (snd sample_registered))"
    "unat (5000 :: u32) \<le> MAX_SEGS * SEG - CTRL"
    by (simp_all add: sample_registers)
  from transfer_in_order [OF 1 sample_registers(1,3,2) 4(1) 4(5) 4(2-4) 3, of 0 16] 2 show ?thesis
    by (auto simp: sample_registers list_all_iff)
qed

end
