(* ===== verification/Rpc_Listen.thy ===== *)
theory Rpc_Listen
  imports Rpc_Box
begin

section \<open>The listening end of the daemon (rpc/rpcd\_listen.c)\<close>

text \<open>
  One end of one link, serving one registered service. A connecting end offers a session; this end
  brings its queue pair to RTS, answers, and writes replies only once the other end has confirmed
  (\<open>armed\<close>). Any datagram, silence or failure may end the session. The operations are the functions
  of the source and the parts of the loop in \<open>run_listen\<close>, in its order: datagrams, commands on
  pending sockets, timers, the service's socket, the Thunderbolt link, the staged reply.

  What is sent is kept: datagrams in \<open>s_sent\<close>, lines to sockets in \<open>s_lines\<close>. \<open>last_staged\<close> and
  \<open>g_stop\<close> are fields of the state. An argument \<open>now\<close> is a reading of the clock.
\<close>

abbreviation (input) HANDSHAKE_NS :: "'a :: numeral" where "HANDSHAKE_NS \<equiv> 10000000000"
abbreviation (input) LIVENESS_NS :: "'a :: numeral" where "LIVENESS_NS \<equiv> 6000000000"
abbreviation (input) RESEND_NS :: "'a :: numeral" where "RESEND_NS \<equiv> 100000000"

record listen_state =
  s_e :: endpoint
  s_b :: box
  s_x :: xchg
  s_remote :: table
  s_answer :: xmsg
  s_svc :: "nat option"
  s_direct :: bool
  s_hello :: bool
  s_armed :: bool
  s_hello_since :: u64
  s_offered :: u64
  s_heard :: u64
  s_served :: u64
  s_failures :: u64
  s_bytes :: u64
  s_last_staged :: u32
  s_stop :: bool
  s_sent :: "(dest \<times> u8 list) list"
  s_lines :: "(nat \<times> string) list"

definition say :: "(dest \<times> u8 list) option \<Rightarrow> listen_state \<Rightarrow> listen_state" where
  "say d s = (case d of None \<Rightarrow> s | Some m \<Rightarrow> s\<lparr>s_sent := s_sent s @ [m]\<rparr>)"

definition tell :: "nat \<Rightarrow> string \<Rightarrow> listen_state \<Rightarrow> listen_state" where
  "tell fd line s = s\<lparr>s_lines := s_lines s @ [(fd, line)]\<rparr>"

subsection \<open>Sessions\<close>

definition listen_drop :: "qp_answers \<Rightarrow> listen_state \<Rightarrow> listen_state" where
  "listen_drop ans s =
     (let s1 = (case s_svc s of
            Some fd \<Rightarrow> if s_armed s \<or> s_hello s then (tell fd ''BYE'' s)\<lparr>s_svc := None\<rparr> else s
          | None \<Rightarrow> s);
          s2 = (if x_peer_session (s_x s1) \<noteq> replicate 16 0
                then say (xchg_answer (s_x s1) (x_peer_session (s_x s1)) X_BYE ROLE_LISTEN None) s1 else s1)
      in s2\<lparr>s_x := (s_x s2)\<lparr>x_peer_session := replicate 16 0\<rparr>, s_armed := False, s_hello := False,
            s_e := ep_destroy_qp ans (s_e s2)\<rparr>)"

text \<open>
  The queue pair a session got: its answers \<open>ans\<close>, the receive limits on Thunderbolt, and the two
  transitions. The result is 0 with the connected endpoint, or a failure with what is left.
\<close>

definition session_qp :: "qp_answers \<Rightarrow> listen_state \<Rightarrow> xinfo \<Rightarrow> int \<times> endpoint" where
  "session_qp ans s peer =
     (case ep_create_qp ans (s_e s) of (r, e1) \<Rightarrow>
        if r \<noteq> 0 then (-1, e1)
        else
          let e2 = (if e_kind (n_ep e1) = LINK_TB
                    then e1\<lparr>n_link := tb_accept (bx_r (s_b s)) 0 (bx_req (s_b s)) (n_link e1)\<rparr> else e1)
          in case ep_connect ans e2 peer of (r', e3) \<Rightarrow>
               if r' \<noteq> 0 then (-1, ep_destroy_qp ans e3) else (0, e3))"

definition listen_offer :: "qp_answers \<Rightarrow> qp_answers \<Rightarrow> u8 list \<Rightarrow> u64 \<Rightarrow> listen_state \<Rightarrow> xmsg \<Rightarrow> listen_state" where
  "listen_offer old ans random now s0 m =
     (let s = (if s_hello s0 then listen_drop old s0 else s0) in
      case box_refuse (s_e s) (s_b s) (m_info m) of
        Some why \<Rightarrow> say (xchg_answer (s_x s) (m_from m) X_ERR ROLE_LISTEN (Some why)) s
      | None \<Rightarrow>
          (case session_qp ans s (m_info m) of (r, e) \<Rightarrow>
             if r \<noteq> 0 then say (xchg_answer (s_x s) (m_from m) X_ERR ROLE_LISTEN (Some ''qp'')) (s\<lparr>s_e := e\<rparr>)
             else
               let x = (xchg_session (s_x s) random)\<lparr>x_peer_session := m_from m\<rparr>;
                   e' = store_word (bx_req (s_b s) + 128) 0 (store_word 0 0 e);
                   answer = box_offer x e' (s_b s) ROLE_LISTEN (xi_mode (m_info m)) X_HAVE
               in say (snd (xchg_send x answer True))
                    (s\<lparr>s_x := x, s_e := e', s_remote := xi_table (m_info m),
                       s_direct := (xi_mode (m_info m) = MODE_DIRECT), s_answer := answer, s_hello := True,
                       s_hello_since := now, s_offered := now, s_heard := now\<rparr>)))"

definition listen_datagram ::
    "qp_answers \<Rightarrow> qp_answers \<Rightarrow> u8 list \<Rightarrow> u64 \<Rightarrow> listen_state \<Rightarrow> xmsg \<Rightarrow> bool \<times> listen_state" where
  "listen_datagram old ans random now s m =
     (let current = (s_hello s \<and> m_from m = x_peer_session (s_x s)) in
      if m_role m \<noteq> ROLE_CONNECT then (False, s)
      else if m_kind m = X_OFFER \<and> \<not> current \<and> m_flags m AND X_HAVE = 0
      then (True, listen_offer old ans random now s m)
      else if \<not> current
      then (False, if m_kind m = X_PING \<or> m_kind m = X_OFFER
                   then say (xchg_answer (s_x s) (m_from m) X_BYE ROLE_LISTEN None) s else s)
      else
        let s1 = s\<lparr>s_heard := now\<rparr> in
        if m_kind m = X_OFFER
        then
          let s2 = (if m_flags m AND X_HAVE \<noteq> 0 then s1\<lparr>s_armed := True\<rparr> else s1)
          in (False, if \<not> s_armed s2 then say (snd (xchg_send (s_x s2) (s_answer s2) True)) s2 else s2)
        else if m_kind m = X_PING
        then (False, say (xchg_answer (s_x s1) (x_peer_session (s_x s1)) X_PONG ROLE_LISTEN None) s1)
        else if m_kind m = X_BYE \<or> m_kind m = X_ERR then (False, listen_drop old s1)
        else (False, s1))"

text \<open>The loop's use of it: a new session forgets the last staged reply.\<close>

definition listen_take ::
    "qp_answers \<Rightarrow> qp_answers \<Rightarrow> u8 list \<Rightarrow> u64 \<Rightarrow> listen_state \<Rightarrow> xmsg \<Rightarrow> listen_state" where
  "listen_take old ans random now s m =
     (case listen_datagram old ans random now s m of (fresh, s') \<Rightarrow> if fresh then s'\<lparr>s_last_staged := 0\<rparr> else s')"

subsection \<open>Replies\<close>

definition listen_reply :: "nat \<Rightarrow> listen_state \<Rightarrow> u32 \<Rightarrow> u32 \<Rightarrow> (int \<times> listen_state) option" where
  "listen_reply fuel s seq len =
     (let req = bx_req (s_b s); e = store_word req (WORD seq len) (s_e s);
          sent = (if s_direct s
                  then box_transfer fuel e (s_b s) (s_remote s) (req + CTRL) len req (req + 64) (WORD seq len) PIECES WINDOW_PEER
                  else box_transfer fuel e (s_b s) (s_remote s) req 0 req req (WORD seq len) PIECES WINDOW_PEER)
      in map_option (\<lambda>(r, e'). if r \<noteq> 0 then (-1, s\<lparr>s_e := e'\<rparr>)
           else (0, s\<lparr>s_e := e', s_served := s_served s + 1, s_bytes := s_bytes s + ucast len\<rparr>)) sent)"

definition listen_staged :: "nat \<Rightarrow> qp_answers \<Rightarrow> listen_state \<Rightarrow> listen_state option" where
  "listen_staged fuel ans s =
     (let sw = load_word (s_e s) (bx_req (s_b s) + 128); seq = WORD_SEQ sw; len = WORD_LEN sw;
          fail = (\<lambda>s. listen_drop ans (s\<lparr>s_failures := s_failures s + 1\<rparr>));
          s1 = s\<lparr>s_last_staged := seq\<rparr>
      in if s_svc s = None \<or> \<not> s_armed s \<or> seq = 0 \<or> seq = s_last_staged s then Some s
         else if bx_rep (s_b s) - CTRL < ucast len then Some (fail s1)
         else map_option (\<lambda>(r, s2). if r \<noteq> 0 then fail s2 else s2) (listen_reply fuel s1 seq len))"

subsection \<open>The rest of the loop\<close>

definition listen_timers :: "qp_answers \<Rightarrow> u64 \<Rightarrow> listen_state \<Rightarrow> listen_state" where
  "listen_timers ans now s =
     (if s_hello s \<and> \<not> s_armed s \<and> HANDSHAKE_NS < now - s_hello_since s then listen_drop ans s
      else if s_hello s \<and> \<not> s_armed s \<and> RESEND_NS < now - s_offered s
      then (say (snd (xchg_send (s_x s) (s_answer s) True)) s)\<lparr>s_offered := now\<rparr>
      else if s_armed s \<and> LIVENESS_NS < now - s_heard s then listen_drop ans s
      else s)"

text \<open>
  A command on a pending socket; \<open>sent\<close> is whether the answer OK could be sent. The lines of STATUS
  are for people and are left out.
\<close>

definition listen_command :: "nat \<Rightarrow> string \<Rightarrow> bool \<Rightarrow> listen_state \<Rightarrow> listen_state" where
  "listen_command fd line sent s =
     (if line = ''MODE poll''
      then
        (if s_svc s \<noteq> None then tell fd ''ERR busy'' s
         else if \<not> sent then s
         else (tell fd ''OK'' s)\<lparr>s_svc := Some fd,
                s_last_staged := WORD_SEQ (load_word (s_e s) (bx_req (s_b s) + 128))\<rparr>)
      else if line = ''STATUS'' then s
      else if line = ''SHUTDOWN'' then (tell fd ''BYE'' s)\<lparr>s_stop := True\<rparr>
      else tell fd ''ERR unknown command'' s)"

definition listen_detach :: "listen_state \<Rightarrow> listen_state" where
  "listen_detach s = s\<lparr>s_svc := None\<rparr>"

definition listen_pump :: "qp_answers \<Rightarrow> listen_state \<Rightarrow> listen_state" where
  "listen_pump ans s =
     (if s_hello s \<and> e_kind (n_ep (s_e s)) = LINK_TB
      then
        (case tb_progress (n_link (s_e s)) of (handled, l) \<Rightarrow>
           let s1 = s\<lparr>s_e := (s_e s)\<lparr>n_link := l\<rparr>\<rparr>
           in if handled < 0 then listen_drop ans (s1\<lparr>s_failures := s_failures s1 + 1\<rparr>) else s1)
      else s)"

text \<open>The state when the loop begins: the endpoint is open, the mailbox registered, the socket bound.\<close>

definition listen_fresh :: "endpoint \<Rightarrow> box \<Rightarrow> xchg \<Rightarrow> listen_state" where
  "listen_fresh e b x =
     \<lparr>s_e = e, s_b = b, s_x = x, s_remote = xi_table zero_info, s_answer = xchg_prepare x 0 0 0, s_svc = None,
      s_direct = False, s_hello = False, s_armed = False, s_hello_since = 0, s_offered = 0, s_heard = 0, s_served = 0,
      s_failures = 0, s_bytes = 0, s_last_staged = 0, s_stop = False, s_sent = [], s_lines = []\<rparr>"

text \<open>
  One step of the daemon, in any order; \<open>mailbox\<close> is the service or the peer's adapter writing into
  the mailbox.
\<close>

definition set_mailbox :: "mem \<Rightarrow> listen_state \<Rightarrow> listen_state" where
  "set_mailbox m s = s\<lparr>s_e := (s_e s)\<lparr>n_link := (n_link (s_e s))\<lparr>w_win := m\<rparr>\<rparr>\<rparr>"

inductive listen_step :: "listen_state \<Rightarrow> listen_state \<Rightarrow> bool" where
  message: "xchg_recv (s_x s) ready got now = (1, Some m, x) \<Longrightarrow>
    listen_step s (listen_take old ans random now' (s\<lparr>s_x := x\<rparr>) m)"
| quiet: "xchg_recv (s_x s) ready got now = (r, None, x) \<Longrightarrow> listen_step s (s\<lparr>s_x := x\<rparr>)"
| cmd: "listen_step s (listen_command fd line sent s)"
| timers: "listen_step s (listen_timers ans now s)"
| detach: "listen_step s (listen_detach s)"
| pump: "listen_step s (listen_pump ans s)"
| staged: "listen_staged fuel ans s = Some s' \<Longrightarrow> listen_step s s'"
| mailbox: "listen_step s (set_mailbox m s)"


subsection \<open>Queue pairs under the operations\<close>

text \<open>What holds of an endpoint at any time; only \<open>w_win\<close> of its link changes on RoCE.\<close>

definition end_ok :: "endpoint \<Rightarrow> bool" where
  "end_ok e \<longleftrightarrow> (e_kind (n_ep e) = LINK_ROCE \<or> e_kind (n_ep e) = LINK_TB) \<and>
     (n_path e = None \<longleftrightarrow> e_qpn (n_ep e) = None) \<and> 0 \<le> q_outstanding (n_roce e)"

lemma ep_drain_outstanding: "0 \<le> q_outstanding q \<Longrightarrow> 0 \<le> q_outstanding (ep_drain k q)"
  by (induction k q rule: ep_drain.induct) (auto simp: Let_def)

lemma flush_loop_outstanding [simp]: "q_outstanding (flush_loop k q) = q_outstanding q"
  by (induction k q rule: flush_loop.induct) (auto simp: Let_def)

lemma ep_destroy_ok:
  assumes "end_ok e"
  shows "end_ok (ep_destroy_qp ans e)" and "n_path (ep_destroy_qp ans e) = None"
    and "e_kind (n_ep (ep_destroy_qp ans e)) = e_kind (n_ep e)"
  using assms by (auto simp: end_ok_def ep_destroy_qp_def Let_def)

lemma ep_create_ok:
  assumes "end_ok e" and "ep_create_qp ans e = (r, e')"
  shows "end_ok e'" and "e_kind (n_ep e') = e_kind (n_ep e)"
    and "r \<noteq> 0 \<Longrightarrow> \<forall>p. n_path e' = Some p \<longrightarrow> qp_state p = QP_RESET"
    and "r = 0 \<Longrightarrow> n_path e' \<noteq> None"
    and "r = 0 \<Longrightarrow> e_kind (n_ep e) \<noteq> LINK_TB \<Longrightarrow> q_posted (n_roce e') = []"
proof -
  define d where "d = ep_destroy_qp ans e"
  have d: "end_ok d" "n_path d = None" "e_kind (n_ep d) = e_kind (n_ep e)"
    unfolding d_def using ep_destroy_ok [OF assms(1)] by auto
  note c = assms(2) [unfolded ep_create_qp_def Let_def, folded d_def]
  have init: "tb_init l alloc ok lkey a c' = (0, l') \<Longrightarrow> ok" for l :: "unit link" and alloc ok lkey a c' l'
    by (auto simp: tb_init_def Let_def split: if_splits)
  show "end_ok e'" "e_kind (n_ep e') = e_kind (n_ep e)"
    "r \<noteq> 0 \<Longrightarrow> \<forall>p. n_path e' = Some p \<longrightarrow> qp_state p = QP_RESET" "r = 0 \<Longrightarrow> n_path e' \<noteq> None"
    "r = 0 \<Longrightarrow> e_kind (n_ep e) \<noteq> LINK_TB \<Longrightarrow> q_posted (n_roce e') = []"
    using c d by (auto simp: end_ok_def new_path_def split: if_splits prod.splits option.splits dest: init)
qed

lemma path_to_ok [simp]:
  "n_ep (path_to ans peer e) = n_ep e" "n_roce (path_to ans peer e) = n_roce e"
  "n_path (path_to ans peer e) = None \<longleftrightarrow> n_path e = None"
  by (auto simp: path_to_def)

definition at_rts :: "xinfo \<Rightarrow> endpoint \<Rightarrow> bool" where
  "at_rts peer e \<longleftrightarrow> (\<exists>p. n_path e = Some p \<and> qp_state p = QP_RTS \<and> qp_dest p = xi_qpn peer \<and>
     qp_rq_psn p = xi_psn peer \<and> qp_dgid p = xi_gid peer)"

lemma ep_connect_ok:
  assumes "end_ok e" and "ep_connect ans e peer = (r, e')"
  shows "end_ok e'" and "e_kind (n_ep e') = e_kind (n_ep e)" and "n_roce e' = n_roce e"
    and "r = 0 \<Longrightarrow> n_path e \<noteq> None \<Longrightarrow> at_rts peer e'"
proof -
  show "end_ok e'" "e_kind (n_ep e') = e_kind (n_ep e)" "n_roce e' = n_roce e"
    using assms by (auto simp: ep_connect_def end_ok_def split: if_splits prod.splits)
  show "at_rts peer e'" if "r = 0" "n_path e \<noteq> None"
  proof -
    have "n_path e' = n_path (path_to ans peer e)" "a_rtr ans" "a_rts ans"
      using assms(2) that(1) by (auto simp: ep_connect_def tb_connect_def split: if_splits)
    then show ?thesis using that(2) by (auto simp: at_rts_def path_to_def to_rtr_def to_rts_def)
  qed
qed

text \<open>What a session's queue pair comes to.\<close>

lemma session_qp_ok:
  assumes "end_ok (s_e s)" and "session_qp ans s peer = (r, e)"
  shows "end_ok e" and "e_kind (n_ep e) = e_kind (n_ep (s_e s))"
    and "r \<noteq> 0 \<Longrightarrow> \<forall>p. n_path e = Some p \<longrightarrow> qp_state p = QP_RESET"
    and "r = 0 \<Longrightarrow> at_rts peer e"
    and "r = 0 \<Longrightarrow> e_kind (n_ep (s_e s)) \<noteq> LINK_TB \<Longrightarrow> q_posted (n_roce e) = []"
proof -
  obtain r1 e1 where c: "ep_create_qp ans (s_e s) = (r1, e1)" by fastforce
  note k = ep_create_ok [OF assms(1) c]
  define e2 where "e2 = (if e_kind (n_ep e1) = LINK_TB
      then e1\<lparr>n_link := tb_accept (bx_r (s_b s)) 0 (bx_req (s_b s)) (n_link e1)\<rparr> else e1)"
  have e2: "end_ok e2" "n_ep e2 = n_ep e1" "n_path e2 = n_path e1" "n_roce e2 = n_roce e1"
    using k(1) by (auto simp: e2_def end_ok_def)
  obtain r2 e3 where n: "ep_connect ans e2 peer = (r2, e3)" by fastforce
  note m = ep_connect_ok [OF e2(1) n]
  have eq: "session_qp ans s peer = (if r1 \<noteq> 0 then (-1, e1) else if r2 \<noteq> 0 then (-1, ep_destroy_qp ans e3) else (0, e3))"
    unfolding session_qp_def c prod.case Let_def e2_def [symmetric] n by simp
  note d = ep_destroy_ok [OF m(1)]
  show "end_ok e" "e_kind (n_ep e) = e_kind (n_ep (s_e s))"
    "r \<noteq> 0 \<Longrightarrow> \<forall>p. n_path e = Some p \<longrightarrow> qp_state p = QP_RESET" "r = 0 \<Longrightarrow> at_rts peer e"
    "r = 0 \<Longrightarrow> e_kind (n_ep (s_e s)) \<noteq> LINK_TB \<Longrightarrow> q_posted (n_roce e) = []"
    using assms(2) k m d e2 unfolding eq by (auto split: if_splits)
qed


subsection \<open>The invariant of the listening end\<close>

lemma say_sel [simp]:
  "s_e (say d s) = s_e s" "s_b (say d s) = s_b s" "s_x (say d s) = s_x s" "s_remote (say d s) = s_remote s"
  "s_svc (say d s) = s_svc s" "s_direct (say d s) = s_direct s" "s_hello (say d s) = s_hello s"
  "s_armed (say d s) = s_armed s"
  by (auto simp: say_def split: option.splits)

lemma tell_sel [simp]:
  "s_e (tell fd l s) = s_e s" "s_b (tell fd l s) = s_b s" "s_x (tell fd l s) = s_x s" "s_remote (tell fd l s) = s_remote s"
  "s_direct (tell fd l s) = s_direct s" "s_hello (tell fd l s) = s_hello s" "s_armed (tell fd l s) = s_armed s"
  by (auto simp: tell_def)

lemma store_word_sel [simp]:
  "n_ep (store_word off v e) = n_ep e" "n_path (store_word off v e) = n_path e" "n_roce (store_word off v e) = n_roce e"
  by (simp_all add: store_word_def)

text \<open>The session a state is in: everything it knows of its peer comes from one offer that passed the check.\<close>

definition session_of :: "listen_state \<Rightarrow> xmsg \<Rightarrow> bool" where
  "session_of s m \<longleftrightarrow> x_peer_session (s_x s) = m_from m \<and> s_remote s = xi_table (m_info m) \<and>
     s_direct s = (xi_mode (m_info m) = MODE_DIRECT) \<and> box_refuse (s_e s) (s_b s) (m_info m) = None \<and>
     at_rts (m_info m) (s_e s)"

definition replies_ok :: "listen_state \<Rightarrow> bool" where
  "replies_ok s \<longleftrightarrow> (\<forall>(i, op, p) \<in> set (q_posted (n_roce (s_e s))). op = RDMA_WRITE \<and>
     request_ok (s_b s) (s_remote s) (unat (bx_req (s_b s))) (unat (bx_req (s_b s) + bx_rep (s_b s))) p)"

definition listen_inv :: "listen_state \<Rightarrow> bool" where
  "listen_inv s \<longleftrightarrow> box_ok (s_b s) \<and> end_ok (s_e s) \<and> (s_armed s \<longrightarrow> s_hello s) \<and>
     (s_hello s \<longrightarrow> (\<exists>m. session_of s m)) \<and>
     (\<not> s_hello s \<longrightarrow> (\<forall>p. n_path (s_e s) = Some p \<longrightarrow> qp_state p = QP_RESET)) \<and>
     (e_kind (n_ep (s_e s)) = LINK_ROCE \<and> s_hello s \<and> \<not> s_armed s \<longrightarrow> q_posted (n_roce (s_e s)) = []) \<and>
     (e_kind (n_ep (s_e s)) = LINK_ROCE \<and> s_hello s \<longrightarrow> replies_ok s)"

text \<open>What the invariant reads of a state.\<close>

definition same_core :: "listen_state \<Rightarrow> listen_state \<Rightarrow> bool" where
  "same_core s s' \<longleftrightarrow> s_b s' = s_b s \<and> n_ep (s_e s') = n_ep (s_e s) \<and> n_path (s_e s') = n_path (s_e s) \<and>
     n_roce (s_e s') = n_roce (s_e s) \<and> s_hello s' = s_hello s \<and> s_armed s' = s_armed s \<and> s_remote s' = s_remote s \<and>
     s_direct s' = s_direct s \<and> x_peer_session (s_x s') = x_peer_session (s_x s)"

lemma box_refuse_cong: "e_kind (n_ep e) = e_kind (n_ep e') \<Longrightarrow> box_refuse e b peer = box_refuse e' b peer"
  by (simp add: box_refuse_def)

lemma same_core_inv:
  assumes "same_core s s'" and "listen_inv s"
  shows "listen_inv s'"
proof -
  have "session_of s' = session_of s"
    using assms(1) box_refuse_cong [of "s_e s'" "s_e s" "s_b s"]
    by (auto simp: session_of_def same_core_def at_rts_def fun_eq_iff)
  moreover have "end_ok (s_e s') = end_ok (s_e s)" using assms(1) by (simp add: end_ok_def same_core_def)
  moreover have "replies_ok s' = replies_ok s" using assms(1) by (simp add: replies_ok_def same_core_def)
  ultimately show ?thesis using assms unfolding listen_inv_def same_core_def by simp
qed

lemma drop_inv:
  assumes "listen_inv s"
  shows "listen_inv (listen_drop ans s)" and "\<not> s_hello (listen_drop ans s)"
    and "e_kind (n_ep (s_e (listen_drop ans s))) = e_kind (n_ep (s_e s))" and "s_b (listen_drop ans s) = s_b s"
    and "n_path (s_e (listen_drop ans s)) = None"
proof -
  have e: "s_e (listen_drop ans s) = ep_destroy_qp ans (s_e s)" "s_b (listen_drop ans s) = s_b s"
    "\<not> s_hello (listen_drop ans s)" "\<not> s_armed (listen_drop ans s)"
    by (simp_all add: listen_drop_def Let_def split: option.splits)
  have d: "end_ok (s_e s)" using assms by (simp add: listen_inv_def)
  note k = ep_destroy_ok [OF d, of ans]
  show "listen_inv (listen_drop ans s)" "\<not> s_hello (listen_drop ans s)"
    "e_kind (n_ep (s_e (listen_drop ans s))) = e_kind (n_ep (s_e s))" "s_b (listen_drop ans s) = s_b s"
    "n_path (s_e (listen_drop ans s)) = None"
    using assms e k unfolding listen_inv_def by auto
qed

lemma offer_inv:
  assumes "listen_inv s"
  shows "listen_inv (listen_offer old ans random now s m)"
proof -
  define s1 where "s1 = (if s_hello s then listen_drop old s else s)"
  have s1: "listen_inv s1" "\<not> s_hello s1" using drop_inv [OF assms] assms by (auto simp: s1_def)
  then have ok: "end_ok (s_e s1)" "box_ok (s_b s1)" "\<not> s_armed s1" by (auto simp: listen_inv_def)
  obtain r e where q: "session_qp ans s1 (m_info m) = (r, e)" by fastforce
  note k = session_qp_ok [OF ok(1) q]
  show ?thesis
  proof (cases "box_refuse (s_e s1) (s_b s1) (m_info m)")
    case (Some why)
    then show ?thesis
      unfolding listen_offer_def Let_def s1_def [symmetric]
      by (simp, intro same_core_inv [OF _ s1(1)]) (simp add: same_core_def)
  next
    case None
    show ?thesis
    proof (cases "r = 0")
      case False
      with None show ?thesis
        unfolding listen_offer_def Let_def s1_def [symmetric] q
        using k(1-3) s1 ok by (simp add: listen_inv_def)
    next
      case True
      define t where "t = listen_offer old ans random now s m"
      define e' where "e' = store_word (bx_req (s_b s1) + 128) 0 (store_word 0 0 e)"
      have t: "s_e t = e'" "s_b t = s_b s1" "s_hello t" "\<not> s_armed t" "s_remote t = xi_table (m_info m)"
        "s_direct t = (xi_mode (m_info m) = MODE_DIRECT)" "x_peer_session (s_x t) = m_from m"
        unfolding t_def listen_offer_def Let_def s1_def [symmetric] q e'_def using None True ok(3) by simp_all
      have e': "end_ok e'" "at_rts (m_info m) e'" "e_kind (n_ep e') = e_kind (n_ep (s_e s1))"
        "e_kind (n_ep (s_e s1)) \<noteq> LINK_TB \<Longrightarrow> q_posted (n_roce e') = []"
        using k True by (simp_all add: e'_def end_ok_def at_rts_def)
      have "session_of t m"
        unfolding session_of_def t using e' None box_refuse_cong [OF e'(3)] by simp
      then have "listen_inv t"
        unfolding listen_inv_def replies_ok_def using t e' ok(2) by auto
      then show ?thesis by (simp add: t_def)
    qed
  qed
qed


lemma datagram_inv:
  assumes "listen_inv s"
  shows "listen_inv (snd (listen_datagram old ans random now s m))"
proof -
  have heard: "listen_inv (s\<lparr>s_heard := now\<rparr>)"
    by (rule same_core_inv [OF _ assms]) (simp add: same_core_def)
  have armed: "listen_inv (s\<lparr>s_heard := now, s_armed := True\<rparr>)" if "s_hello s"
    using assms that by (auto simp: listen_inv_def session_of_def replies_ok_def)
  have same: "listen_inv (say d t)" if "listen_inv t" for d t
    by (rule same_core_inv [OF _ that]) (simp add: same_core_def)
  show ?thesis
    using assms heard armed unfolding listen_datagram_def
    by (auto simp: Let_def intro: same offer_inv drop_inv(1))
qed

lemma transfer_frame:
  assumes "box_transfer fuel e b t off len src dst word cap wnd = Some (r, e')" and "0 \<le> q_outstanding (n_roce e)"
  shows "n_ep e' = n_ep e" and "n_path e' = n_path e" and "0 \<le> q_outstanding (n_roce e')"
  using assms by (auto simp: box_transfer_def split: if_splits option.splits dest!: post_pieces_only)

lemma half_offsets:
  assumes "box_ok b"
  shows "unat (bx_req b + bx_rep b) = unat (bx_req b) + unat (bx_rep b)"
    and "k \<le> CTRL \<Longrightarrow> unat (bx_req b + of_nat k) = unat (bx_req b) + k"
    and "SEG \<le> unat (bx_rep b)" and "unat (bx_rep b) \<le> MAX_SEGS * SEG" and "unat (bx_req b) mod 8 = 0"
proof -
  have h: "half_ok (bx_req b)" "half_ok (bx_rep b)" using assms by (simp_all add: box_ok_def)
  show "unat (bx_req b + bx_rep b) = unat (bx_req b) + unat (bx_rep b)" using half_sum [OF h] .
  show "SEG \<le> unat (bx_rep b)" "unat (bx_rep b) \<le> MAX_SEGS * SEG" using h by (simp_all add: half_ok_def)
  have "8 dvd unat (bx_req b)" using h by (auto simp: half_ok_def intro: dvd_trans [of 8 "4194304 :: nat"])
  then show "unat (bx_req b) mod 8 = 0" by simp
  show "unat (bx_req b + of_nat k) = unat (bx_req b) + k" if "k \<le> CTRL"
  proof -
    have "unat (of_nat k :: u64) = k" using that by (simp add: unat_of_nat)
    then show ?thesis using h that by (subst unat_add_small) (simp_all add: half_ok_def)
  qed
qed

text \<open>The transfer a reply makes: offset, length and the word's place at the peer.\<close>

definition reply_at :: "listen_state \<Rightarrow> u32 \<Rightarrow> u64 \<times> u32 \<times> u64" where
  "reply_at s len = (let req = bx_req (s_b s) in if s_direct s then (req + CTRL, len, req + 64) else (req, 0, req))"

lemma listen_reply_transfer:
  assumes "listen_reply fuel s seq len = Some (r, s')" and "reply_at s len = (off, n, dst)"
  obtains r' where
    "box_transfer fuel (store_word (bx_req (s_b s)) (WORD seq len) (s_e s)) (s_b s) (s_remote s) off n (bx_req (s_b s)) dst
       (WORD seq len) PIECES WINDOW_PEER = Some (r', s_e s')"
    "s' = s\<lparr>s_e := s_e s', s_served := s_served s', s_bytes := s_bytes s'\<rparr>"
proof -
  let ?t = "box_transfer fuel (store_word (bx_req (s_b s)) (WORD seq len) (s_e s)) (s_b s) (s_remote s) off n (bx_req (s_b s)) dst
       (WORD seq len) PIECES WINDOW_PEER"
  have eq: "listen_reply fuel s seq len = map_option (\<lambda>(r, e'). if r \<noteq> 0 then (-1, s\<lparr>s_e := e'\<rparr>)
      else (0, s\<lparr>s_e := e', s_served := s_served s + 1, s_bytes := s_bytes s + ucast len\<rparr>)) ?t"
  proof -
    have "off = (if s_direct s then bx_req (s_b s) + CTRL else bx_req (s_b s))" "n = (if s_direct s then len else 0)"
      "dst = (if s_direct s then bx_req (s_b s) + 64 else bx_req (s_b s))"
      using assms(2) by (auto simp: reply_at_def Let_def split: if_splits)
    then show ?thesis by (simp add: listen_reply_def Let_def)
  qed
  obtain r' e' where t: "?t = Some (r', e')" using assms(1) unfolding eq by auto
  have "s' = (if r' \<noteq> 0 then s\<lparr>s_e := e'\<rparr> else s\<lparr>s_e := e', s_served := s_served s + 1, s_bytes := s_bytes s + ucast len\<rparr>)"
    using assms(1) unfolding eq t by (simp split: if_splits)
  then show thesis using that t by (cases "r' = 0") simp_all
qed

lemma reply_requests:
  assumes "listen_inv s" and "s_hello s" and "e_kind (n_ep (s_e s)) = LINK_ROCE"
    and "\<not> bx_rep (s_b s) - CTRL < ucast len" and "listen_reply fuel s seq len = Some (r, s')"
  shows "\<exists>new. q_posted (n_roce (s_e s')) = q_posted (n_roce (s_e s)) @ new \<and>
    (\<forall>(i, op, p) \<in> set new. op = RDMA_WRITE \<and>
       request_ok (s_b s) (s_remote s) (unat (bx_req (s_b s))) (unat (bx_req (s_b s) + bx_rep (s_b s))) p)"
proof -
  let ?b = "s_b s" and ?req = "bx_req (s_b s)" and ?e = "store_word (bx_req (s_b s)) (WORD seq len) (s_e s)"
  have b: "box_ok ?b" and out: "0 \<le> q_outstanding (n_roce ?e)" and k: "e_kind (n_ep ?e) \<noteq> LINK_TB"
    using assms(1,3) by (simp_all add: listen_inv_def end_ok_def)
  note h = half_offsets [OF b]
  from assms(1,2) obtain m where "session_of s m" by (auto simp: listen_inv_def)
  then have t: "table_valid (s_remote s) (?req + bx_rep ?b) True"
    using refuse_table(2) [of "s_e s" ?b "m_info m"] assms(3) by (auto simp: session_of_def)
  have len: "unat len \<le> unat (bx_rep ?b) - CTRL"
  proof -
    have "unat (bx_rep ?b - CTRL) = unat (bx_rep ?b) - CTRL"
      using h(3) by (subst unat_sub_le) (simp_all add: word_le_nat_alt)
    then show ?thesis using assms(4) by (simp add: word_less_nat_alt)
  qed
  obtain off n dst where at: "reply_at s len = (off, n, dst)" by (metis prod_cases3)
  from listen_reply_transfer [OF assms(5) at] obtain r' where
    tr: "box_transfer fuel ?e ?b (s_remote s) off n ?req dst (WORD seq len) PIECES WINDOW_PEER = Some (r', s_e s')" .
  have o: "unat ?req \<le> unat off" "unat off + unat n \<le> unat (?req + bx_rep ?b)" "unat n \<le> MAX_SEGS * SEG - CTRL"
    "unat ?req \<le> unat dst" "unat dst + 8 \<le> unat (?req + bx_rep ?b)" "unat ?req + 8 \<le> unat (?req + bx_rep ?b)"
    using at h(1,3,4) h(2) [of CTRL, simplified] h(2) [of 64, simplified] len
    unfolding reply_at_def Let_def by (cases "s_direct s"; force)+
  from transfer_only [OF b t k o(1,2) order_refl o(3) h(5) order_refl o(6,4,5) tr out] show ?thesis by auto
qed

lemma reply_frame:
  assumes "listen_inv s" and "listen_reply fuel s seq len = Some (r, s')"
  shows "s_b s' = s_b s" "n_ep (s_e s') = n_ep (s_e s)" "n_path (s_e s') = n_path (s_e s)" "s_hello s' = s_hello s"
    "s_armed s' = s_armed s" "s_remote s' = s_remote s" "s_direct s' = s_direct s" "s_x s' = s_x s"
    "0 \<le> q_outstanding (n_roce (s_e s'))"
proof -
  obtain off n dst where at: "reply_at s len = (off, n, dst)" by (metis prod_cases3)
  from listen_reply_transfer [OF assms(2) at] obtain r' where
    tr: "box_transfer fuel (store_word (bx_req (s_b s)) (WORD seq len) (s_e s)) (s_b s) (s_remote s) off n (bx_req (s_b s)) dst
       (WORD seq len) PIECES WINDOW_PEER = Some (r', s_e s')"
    and s': "s' = s\<lparr>s_e := s_e s', s_served := s_served s', s_bytes := s_bytes s'\<rparr>" .
  have "0 \<le> q_outstanding (n_roce (store_word (bx_req (s_b s)) (WORD seq len) (s_e s)))"
    using assms(1) by (simp add: listen_inv_def end_ok_def)
  from transfer_frame [OF tr this]
  show "n_ep (s_e s') = n_ep (s_e s)" "n_path (s_e s') = n_path (s_e s)" "0 \<le> q_outstanding (n_roce (s_e s'))"
    by simp_all
  show "s_b s' = s_b s" "s_hello s' = s_hello s" "s_armed s' = s_armed s" "s_remote s' = s_remote s"
    "s_direct s' = s_direct s" "s_x s' = s_x s"
    by (subst s', simp)+
qed

lemma reply_inv:
  assumes "listen_inv s" and "s_armed s" and "\<not> bx_rep (s_b s) - CTRL < ucast len"
    and "listen_reply fuel s seq len = Some (r, s')"
  shows "listen_inv s'"
proof -
  note f = reply_frame [OF assms(1,4)]
  have hello: "s_hello s" using assms(1,2) by (simp add: listen_inv_def)
  have "session_of s' = session_of s"
    using f box_refuse_cong [of "s_e s'" "s_e s" "s_b s"] by (auto simp: session_of_def at_rts_def fun_eq_iff)
  moreover have "end_ok (s_e s')" using f assms(1) by (simp add: end_ok_def listen_inv_def)
  moreover have "replies_ok s'" if "e_kind (n_ep (s_e s)) = LINK_ROCE"
  proof -
    from reply_requests [OF assms(1) hello that assms(3,4)] obtain new where
      new: "q_posted (n_roce (s_e s')) = q_posted (n_roce (s_e s)) @ new" "\<forall>(i, op, p) \<in> set new. op = RDMA_WRITE \<and>
       request_ok (s_b s) (s_remote s) (unat (bx_req (s_b s))) (unat (bx_req (s_b s) + bx_rep (s_b s))) p" by blast
    have "replies_ok s" using assms(1) hello that by (simp add: listen_inv_def)
    with new show ?thesis unfolding replies_ok_def f by auto
  qed
  ultimately show ?thesis using assms(1,2) hello f unfolding listen_inv_def by simp
qed

lemma counted_inv: "listen_inv s \<Longrightarrow> listen_inv (s\<lparr>s_failures := k\<rparr>)" "listen_inv s \<Longrightarrow> listen_inv (s\<lparr>s_last_staged := w\<rparr>)"
  by (erule same_core_inv [rotated], simp add: same_core_def)+

lemma staged_inv:
  assumes "listen_inv s" and "listen_staged fuel ans s = Some s'"
  shows "listen_inv s'"
proof -
  define w where "w = load_word (s_e s) (bx_req (s_b s) + 128)"
  define s1 where "s1 = s\<lparr>s_last_staged := WORD_SEQ w\<rparr>"
  have s1: "listen_inv s1" "s_armed s1 = s_armed s" "s_b s1 = s_b s"
    unfolding s1_def using counted_inv(2) [OF assms(1)] by simp_all
  note d = assms(2) [unfolded listen_staged_def Let_def, folded w_def, folded s1_def]
  consider "s' = s" | "s' = listen_drop ans (s1\<lparr>s_failures := s_failures s1 + 1\<rparr>)"
    | r s2 where "s_armed s" "\<not> bx_rep (s_b s) - CTRL < ucast (WORD_LEN w)"
        "listen_reply fuel s1 (WORD_SEQ w) (WORD_LEN w) = Some (r, s2)"
        "s' = (if r \<noteq> 0 then listen_drop ans (s2\<lparr>s_failures := s_failures s2 + 1\<rparr>) else s2)"
    using d by (auto split: if_splits)
  then show ?thesis
  proof cases
    case (3 r s2)
    then have "listen_inv s2" using s1 by (intro reply_inv [OF s1(1)]) simp_all
    then show ?thesis using 3(4) counted_inv(1) drop_inv(1) by auto
  qed (use assms(1) s1(1) counted_inv(1) drop_inv(1) in auto)
qed

lemma xchg_recv_session:
  assumes "xchg_recv x ready got now = (r, m, x')"
  shows "x_peer_session x' = x_peer_session x"
  using assms
  by (auto simp: xchg_recv_def recv_v4_def reject_def Let_def split: polled.splits received.splits if_splits option.splits prod.splits)

lemma listen_step_inv:
  assumes "listen_step s s'" and "listen_inv s"
  shows "listen_inv s'"
  using assms
proof (induction rule: listen_step.induct)
  case (message s ready got now m x old ans random now')
  have "listen_inv (s\<lparr>s_x := x\<rparr>)"
    by (rule same_core_inv [OF _ message(2)]) (simp add: same_core_def xchg_recv_session [OF message(1)])
  then have "listen_inv (snd (listen_datagram old ans random now' (s\<lparr>s_x := x\<rparr>) m))" by (rule datagram_inv)
  then show ?case by (auto simp: listen_take_def counted_inv(2) split: prod.splits)
next
  case (quiet s ready got now r x)
  show ?case by (rule same_core_inv [OF _ quiet(2)]) (simp add: same_core_def xchg_recv_session [OF quiet(1)])
next
  case (cmd s fd line sent)
  show ?case by (rule same_core_inv [OF _ cmd]) (simp add: same_core_def listen_command_def)
next
  case (timers s ans now)
  have "listen_inv ((say d s)\<lparr>s_offered := now\<rparr>)" for d
    by (rule same_core_inv [OF _ timers]) (simp add: same_core_def)
  then show ?case using timers drop_inv(1) by (simp add: listen_timers_def)
next
  case (detach s)
  show ?case by (rule same_core_inv [OF _ detach]) (simp add: same_core_def listen_detach_def)
next
  case (pump s ans)
  obtain handled l where p: "tb_progress (n_link (s_e s)) = (handled, l)" by fastforce
  have "listen_inv (s\<lparr>s_e := (s_e s)\<lparr>n_link := l\<rparr>\<rparr>)"
    by (rule same_core_inv [OF _ pump]) (simp add: same_core_def)
  then show ?case using pump p counted_inv(1) drop_inv(1) by (auto simp: listen_pump_def Let_def)
next
  case (staged fuel ans s s')
  then show ?case using staged_inv by blast
next
  case (mailbox s m)
  show ?case by (rule same_core_inv [OF _ mailbox]) (simp add: same_core_def set_mailbox_def)
qed


lemma listen_run_inv: "rtranclp listen_step s s' \<Longrightarrow> listen_inv s \<Longrightarrow> listen_inv s'"
  by (induction rule: rtranclp_induct) (auto intro: listen_step_inv)

text \<open>An endpoint as \<open>ep_open\<close> leaves it: of one of the two kinds, and without a queue pair.\<close>

definition end_fresh :: "endpoint \<Rightarrow> bool" where
  "end_fresh e \<longleftrightarrow> end_ok e \<and> n_path e = None"

subsection \<open>Property\<close>


text \<open>An offer of the sample peer, as it arrives on the link, and the answers of a willing device.\<close>

definition sample_hello :: xmsg where
  "sample_hello = (xchg_prepare (sample_end 1) X_OFFER ROLE_CONNECT 0)\<lparr>m_info := sample_peer\<rparr>"

definition sample_hello_dg :: datagram where
  "sample_hello_dg = sample_dg\<lparr>dg_bytes := the (xchg_encode sample_hello X_MAX)\<rparr>"

definition willing :: qp_answers where
  "willing = \<lparr>a_psn = 5, a_cq = True, a_qp = Some 77, a_init = True, a_rtr = True, a_rts = True, a_passes = 3, a_alloc = True,
     a_lkey = Some 1, a_send_wr = 64, a_recv_wr = 64\<rparr>"

definition sample_listen :: listen_state where
  "sample_listen = listen_fresh (fst sample_registered) (snd sample_registered) (sample_end 2)"

lemma sample_hello_arrives:
  "fst (xchg_recv (sample_end 2) Poll_ready (Recv sample_hello_dg) 0) = 1"
  "fst (snd (xchg_recv (sample_end 2) Poll_ready (Recv sample_hello_dg) 0)) = Some sample_hello"
  by code_simp+

definition sample_session :: listen_state where
  "sample_session = listen_take willing willing (replicate 16 4) 100
     (sample_listen\<lparr>s_x := snd (snd (xchg_recv (sample_end 2) Poll_ready (Recv sample_hello_dg) 0))\<rparr>) sample_hello"

lemma sample_hello_fields:
  "m_role sample_hello = ROLE_CONNECT" "m_kind sample_hello = X_OFFER" "m_flags sample_hello = 0" "m_info sample_hello = sample_peer"
  by (simp_all add: sample_hello_def xchg_prepare_def)

lemma sample_in_session: "s_hello sample_session \<and> \<not> s_armed sample_session \<and> e_kind (n_ep (s_e sample_session)) = LINK_ROCE"
proof -
  define s where "s = sample_listen\<lparr>s_x := snd (snd (xchg_recv (sample_end 2) Poll_ready (Recv sample_hello_dg) 0))\<rparr>"
  have s: "s_hello s = False" "s_armed s = False" "s_e s = fst sample_registered" "s_b s = snd sample_registered"
    by (simp_all add: s_def sample_listen_def listen_fresh_def)
  have "fst (session_qp willing s sample_peer) = 0"
    using sample_registers(3,7-10)
    by (simp add: session_qp_def s ep_create_qp_def ep_destroy_qp_def ep_connect_def willing_def Let_def sample_peer_def)
  then obtain e where e: "session_qp willing s sample_peer = (0, e)" by (metis prod.collapse)
  have "e_kind (n_ep e) = 1"
    using session_qp_ok(2) [OF _ e] sample_registers by (simp add: s end_ok_def sample_roce_def)
  with e have "s_hello (listen_offer willing willing (replicate 16 4) 100 s sample_hello) \<and>
      \<not> s_armed (listen_offer willing willing (replicate 16 4) 100 s sample_hello) \<and>
      e_kind (n_ep (s_e (listen_offer willing willing (replicate 16 4) 100 s sample_hello))) = LINK_ROCE"
    by (simp add: listen_offer_def Let_def s sample_hello_fields sample_registers(2))
  then show ?thesis
    unfolding sample_session_def s_def [symmetric]
    by (simp add: listen_take_def listen_datagram_def sample_hello_fields s)
qed


end
