(* ===== verification/Rpc_Connect.thy ===== *)
theory Rpc_Connect
  imports Rpc_Listen
begin

section \<open>The connecting end of the daemon (rpc/rpcd\_connect.c)\<close>

text \<open>
  One thread per peer keeps its link up: it offers a session until the listening end answers, brings
  its queue pair to RTS, confirms, and then carries the requests that clients stage in the mailbox. In
  direct mode the peer writes the reply itself; in pull mode this end reads it.

  A wait takes the list of what the clock and the socket answered, one entry a pass; None is a wait
  that is not over. \<open>k_last\<close> is the thread's \<open>last\<close>. Counters that only STATUS reads are kept.
\<close>

abbreviation (input) PING_NS :: "'a :: numeral" where "PING_NS \<equiv> 1000000000"

record rpc_peer =
  k_name :: "u8 list"
  k_via :: string
  k_port :: int
  k_e :: endpoint
  k_b :: box
  k_x :: xchg
  k_remote :: table
  k_confirm :: xmsg
  k_up :: bool
  k_calls :: u64
  k_failures :: u64
  k_bytes :: u64
  k_generation :: u64
  k_heard :: u64
  k_pinged :: u64
  k_last :: u32
  k_sent :: "(dest \<times> u8 list) list"

definition sends :: "(dest \<times> u8 list) option \<Rightarrow> rpc_peer \<Rightarrow> rpc_peer" where
  "sends d p = (case d of None \<Rightarrow> p | Some m \<Rightarrow> p\<lparr>k_sent := k_sent p @ [m]\<rparr>)"

definition rpc_mode :: "bool \<Rightarrow> u8" where
  "rpc_mode direct = (if direct then MODE_DIRECT else MODE_PULL)"

definition session_known :: "xchg \<Rightarrow> bool" where
  "session_known x \<longleftrightarrow> x_peer_session x \<noteq> replicate 16 0"

definition peer_down :: "qp_answers \<Rightarrow> rpc_peer \<Rightarrow> rpc_peer" where
  "peer_down ans p0 =
     (let p = p0\<lparr>k_up := False, k_e := store_word 64 0 (k_e p0)\<rparr>;
          p1 = (if x_fd (k_x p) \<noteq> None \<and> session_known (k_x p)
                then sends (xchg_answer (k_x p) (x_peer_session (k_x p)) X_BYE ROLE_CONNECT None) p else p)
      in p1\<lparr>k_x := (k_x p1)\<lparr>x_peer_session := replicate 16 0\<rparr>, k_e := ep_destroy_qp ans (k_e p1)\<rparr>)"

subsection \<open>Connecting\<close>

text \<open>One pass of the wait for an answer: the readings of the clock in their order, and the socket's answers.\<close>

record turn =
  tn_stop :: bool
  tn_now :: u64
  tn_check :: u64
  tn_sent :: u64
  tn_ready :: polled
  tn_got :: received
  tn_warn :: u64

datatype outcome = Answered xmsg | Gave_up | No_answer | Socket_failed | Refused | Unusable string

definition answer_pass :: "u64 \<Rightarrow> xmsg \<Rightarrow> turn \<Rightarrow> u64 \<Rightarrow> rpc_peer \<Rightarrow> (outcome \<times> rpc_peer) + (u64 \<times> rpc_peer)" where
  "answer_pass deadline offer t resend p =
     (if tn_stop t then Inl (Gave_up, p)
      else if \<not> tn_now t < deadline then Inl (No_answer, p)
      else
        let (resend1, p1) = (if resend \<le> tn_check t
              then (tn_sent t + RESEND_NS, sends (snd (xchg_send (k_x p) offer True)) p) else (resend, p))
        in case xchg_recv (k_x p1) (tn_ready t) (tn_got t) (tn_warn t) of (r, got, x) \<Rightarrow>
          let p2 = p1\<lparr>k_x := x\<rparr>; again = Inr (resend1, p2) in
          if r < 0 then Inl (Socket_failed, p2)
          else case got of
              None \<Rightarrow> again
            | Some m \<Rightarrow>
                if r = 0 \<or> m_role m \<noteq> ROLE_LISTEN \<or> \<not> xchg_ours x m then again
                else if m_kind m = X_ERR \<or> m_kind m = X_BYE then Inl (Refused, p2)
                else if m_kind m \<noteq> X_OFFER \<or> m_flags m AND X_HAVE = 0 then again
                else case box_refuse (k_e p2) (k_b p2) (m_info m) of
                    Some why \<Rightarrow> Inl (Unusable why, sends (xchg_answer x (m_from m) X_ERR ROLE_CONNECT (Some why)) p2)
                  | None \<Rightarrow> Inl (Answered m, p2))"

fun wait_answer :: "u64 \<Rightarrow> xmsg \<Rightarrow> turn list \<Rightarrow> u64 \<Rightarrow> rpc_peer \<Rightarrow> (outcome \<times> rpc_peer) option" where
  "wait_answer deadline offer [] resend p = None"
| "wait_answer deadline offer (t # ts) resend p =
     (case answer_pass deadline offer t resend p of
        Inl res \<Rightarrow> Some res
      | Inr (resend', p') \<Rightarrow> wait_answer deadline offer ts resend' p')"

text \<open>Bringing the link up with the answer \<open>m\<close>; \<open>client\<close> is what clients do to the mailbox meanwhile.\<close>

definition peer_up :: "qp_answers \<Rightarrow> bool \<Rightarrow> u64 \<Rightarrow> (mem \<Rightarrow> mem) \<Rightarrow> xmsg \<Rightarrow> rpc_peer \<Rightarrow> int \<times> rpc_peer" where
  "peer_up ans direct now client m p0 =
     (let p = p0\<lparr>k_x := (k_x p0)\<lparr>x_peer_session := m_from m\<rparr>\<rparr> in
      case ep_connect ans (k_e p) (m_info m) of (r, e) \<Rightarrow>
        if r \<noteq> 0 then (-1, peer_down ans (p\<lparr>k_e := e\<rparr>))
        else
          let req = bx_req (k_b p);
              confirm = box_offer (k_x p) e (k_b p) ROLE_CONNECT (rpc_mode direct) X_HAVE;
              p1 = sends (snd (xchg_send (k_x p) confirm True))
                     (p\<lparr>k_remote := xi_table (m_info m), k_confirm := confirm\<rparr>);
              e1 = store_word (req + 64) 0 (store_word req 0 (store_word 0 0 e));
              e2 = e1\<lparr>n_link := (n_link e1)\<lparr>w_win := client (w_win (n_link e1))\<rparr>\<rparr>;
              gen = k_generation p1 + 1
          in (0, p1\<lparr>k_last := WORD_SEQ (load_word e2 0), k_up := True, k_generation := gen,
                    k_e := store_word 64 1 (store_word 72 gen e2), k_heard := now, k_pinged := now\<rparr>))"

text \<open>The system calls of \<open>xchg_open\<close>.\<close>

record net =
  net_pton :: pton
  net_index :: "string \<Rightarrow> u32"
  net_sock :: "bool \<Rightarrow> u16 \<Rightarrow> (nat \<times> u16) option"
  net_random :: "u8 list"

definition peer_connect ::
    "net \<Rightarrow> qp_answers \<Rightarrow> u8 list \<Rightarrow> bool \<Rightarrow> u64 \<Rightarrow> turn list \<Rightarrow> u64 \<Rightarrow> (mem \<Rightarrow> mem) \<Rightarrow> rpc_peer \<Rightarrow> (int \<times> rpc_peer) option" where
  "peer_connect sys ans random direct began turns now client p0 =
     (let (opened, p) = (if x_fd (k_x p0) \<noteq> None then (0, p0)
        else (case xchg_open (net_pton sys) (net_index sys) (net_sock sys) (net_random sys) (k_via p0) 0 (k_port p0) (k_name p0)
                of (r, x) \<Rightarrow> (r, p0\<lparr>k_x := x\<rparr>)))
      in if opened \<noteq> 0 then Some (-1, p)
         else case ep_create_qp ans (k_e p) of (r, e1) \<Rightarrow>
           if r \<noteq> 0 then Some (-1, peer_down ans (p\<lparr>k_e := e1\<rparr>))
           else
             let e2 = (if e_kind (n_ep e1) = LINK_TB
                       then e1\<lparr>n_link := tb_accept (bx_r (k_b p)) (bx_req (k_b p)) (bx_req (k_b p) + bx_rep (k_b p)) (n_link e1)\<rparr>
                       else e1);
                 x1 = xchg_session (k_x p) random;
                 x2 = (if \<not> x_pinned x1 then x1\<lparr>x_learned := False\<rparr> else x1);
                 offer = box_offer x2 e2 (k_b p) ROLE_CONNECT (rpc_mode direct) 0
             in case wait_answer (began + HANDSHAKE_NS) offer turns 0 (p\<lparr>k_e := e2, k_x := x2\<rparr>) of
                  None \<Rightarrow> None
                | Some (Answered m, p1) \<Rightarrow> Some (peer_up ans direct now client m p1)
                | Some (_, p1) \<Rightarrow> Some (-1, peer_down ans p1))"

subsection \<open>While the link is up\<close>

type_synonym arrival = "polled \<times> received \<times> u64"

fun service_loop :: "qp_answers \<Rightarrow> u64 \<Rightarrow> arrival list \<Rightarrow> rpc_peer \<Rightarrow> rpc_peer" where
  "service_loop ans now [] p = p"
| "service_loop ans now ((ready, got, warn) # rest) p =
     (if \<not> k_up p then p
      else case xchg_recv (k_x p) ready got warn of (r, mo, x) \<Rightarrow>
        let p1 = p\<lparr>k_x := x\<rparr> in
        case mo of
          None \<Rightarrow> p1
        | Some m \<Rightarrow>
            if r \<noteq> 1 then p1
            else if m_role m \<noteq> ROLE_LISTEN \<or> \<not> xchg_ours x m then service_loop ans now rest p1
            else if m_kind m = X_BYE \<or> m_kind m = X_ERR then peer_down ans p1
            else if m_from m \<noteq> x_peer_session x then service_loop ans now rest p1
            else
              let p2 = p1\<lparr>k_heard := now\<rparr>
              in service_loop ans now rest
                   (if m_kind m = X_OFFER then sends (snd (xchg_send x (k_confirm p2) True)) p2 else p2))"

definition connect_service :: "qp_answers \<Rightarrow> u64 \<Rightarrow> arrival list \<Rightarrow> rpc_peer \<Rightarrow> rpc_peer" where
  "connect_service ans now arrivals p0 =
     (let p = service_loop ans now arrivals p0 in
      if \<not> k_up p then p
      else
        let p1 = (if PING_NS \<le> now - k_pinged p
                  then (sends (xchg_answer (k_x p) (x_peer_session (k_x p)) X_PING ROLE_CONNECT None) p)\<lparr>k_pinged := now\<rparr> else p)
        in if LIVENESS_NS < now - k_heard p1 then peer_down ans p1 else p1)"

definition failed :: "qp_answers \<Rightarrow> rpc_peer \<Rightarrow> rpc_peer" where
  "failed ans p = peer_down ans (p\<lparr>k_failures := k_failures p + 1\<rparr>)"

definition peer_pump :: "qp_answers \<Rightarrow> rpc_peer \<Rightarrow> rpc_peer" where
  "peer_pump ans p =
     (if e_kind (n_ep (k_e p)) = LINK_TB
      then
        (case tb_progress (n_link (k_e p)) of (handled, l) \<Rightarrow>
           let p1 = p\<lparr>k_e := (k_e p)\<lparr>n_link := l\<rparr>\<rparr> in if handled < 0 then failed ans p1 else p1)
      else p)"

text \<open>
  A staged request: too long, it is answered at once; otherwise it is written to the peer. The result
  says whether the pull of its reply follows.
\<close>

definition peer_request :: "nat \<Rightarrow> qp_answers \<Rightarrow> bool \<Rightarrow> rpc_peer \<Rightarrow> (bool \<times> rpc_peer) option" where
  "peer_request fuel ans direct p0 =
     (let w = load_word (k_e p0) 0; seq = WORD_SEQ w; len = WORD_LEN w; p = p0\<lparr>k_last := seq\<rparr> in
      if seq = 0 \<or> seq = k_last p0 then Some (False, p0)
      else if bx_req (k_b p) - CTRL < ucast len
      then Some (False, p\<lparr>k_e := store_word (bx_req (k_b p) + 64) (WORD seq 0) (k_e p)\<rparr>)
      else map_option (\<lambda>(r, e).
          let p1 = p\<lparr>k_e := e\<rparr> in
          if r \<noteq> 0 then (False, failed ans p1)
          else
            let p2 = p1\<lparr>k_bytes := k_bytes p1 + ucast len\<rparr>
            in if direct then (False, p2\<lparr>k_calls := k_calls p2 + 1\<rparr>) else (True, p2))
        (box_transfer fuel (k_e p) (k_b p) (k_remote p) CTRL len 0 0 w PIECES WINDOW_MAC))"

text \<open>One pass of the wait for the reply: the word it loads and, every 4096 passes, the clock and the socket.\<close>

record ready_pass =
  rp_stop :: bool
  rp_word :: u64
  rp_now :: u64
  rp_service :: "u64 \<times> arrival list"

fun ready_loop :: "qp_answers \<Rightarrow> u64 \<Rightarrow> u32 \<Rightarrow> ready_pass list \<Rightarrow> nat \<Rightarrow> u64 \<Rightarrow> rpc_peer \<Rightarrow> (u64 \<times> rpc_peer) option" where
  "ready_loop ans start seq [] spins r p = None"
| "ready_loop ans start seq (t # ts) spins r p =
     (if rp_stop t then Some (r, p)
      else if WORD_SEQ (rp_word t) = seq then Some (rp_word t, p)
      else if Suc spins = 4096
      then
        (if 30000000000 < rp_now t - start then Some (rp_word t, p)
         else
           let p1 = connect_service ans (fst (rp_service t)) (snd (rp_service t)) p
           in if \<not> k_up p1 then Some (rp_word t, p1) else ready_loop ans start seq ts 0 (rp_word t) p1)
      else ready_loop ans start seq ts (Suc spins) (rp_word t) p)"

text \<open>The reply to \<open>seq\<close>, announced by the word \<open>r\<close>: its length is checked, it is read, and the client is told.\<close>

definition pull_reply :: "nat \<Rightarrow> qp_answers \<Rightarrow> u32 \<Rightarrow> u64 \<Rightarrow> rpc_peer \<Rightarrow> rpc_peer option" where
  "pull_reply fuel ans seq r p =
     (let req = bx_req (k_b p); rlen = WORD_LEN r in
      if \<not> k_up p then Some (p\<lparr>k_failures := k_failures p + 1\<rparr>)
      else if WORD_SEQ r \<noteq> seq then Some (failed ans p)
      else if bx_rep (k_b p) - CTRL < ucast rlen then Some (failed ans p)
      else case cut (bx_r (k_b p)) (req + CTRL) (ucast rlen) (Some (k_remote p)) (req + CTRL) READ_CHUNK PIECES of
          None \<Rightarrow> Some (failed ans p)
        | Some ps \<Rightarrow>
            map_option (\<lambda>(rc, q).
              let p1 = p\<lparr>k_e := (k_e p)\<lparr>n_roce := q\<rparr>\<rparr> in
              if rc \<noteq> 0 then failed ans p1
              else p1\<lparr>k_e := store_word (req + 64) (WORD seq rlen) (k_e p1), k_calls := k_calls p1 + 1\<rparr>)
            (post_pieces fuel (n_roce (k_e p)) RDMA_READ ps 1 XFER_NS))"

definition peer_pull :: "nat \<Rightarrow> qp_answers \<Rightarrow> u64 \<Rightarrow> ready_pass list \<Rightarrow> rpc_peer \<Rightarrow> rpc_peer option" where
  "peer_pull fuel ans start passes p =
     (case ready_loop ans start (k_last p) passes 0 0 p of
        None \<Rightarrow> None
      | Some (r, p1) \<Rightarrow> pull_reply fuel ans (k_last p) r p1)"

text \<open>One pass of \<open>peer_thread\<close> with the link up.\<close>

definition peer_turn ::
    "nat \<Rightarrow> qp_answers \<Rightarrow> bool \<Rightarrow> u64 \<Rightarrow> ready_pass list \<Rightarrow> rpc_peer \<Rightarrow> rpc_peer option" where
  "peer_turn fuel ans direct start passes p =
     (let p1 = peer_pump ans p in
      if \<not> k_up p1 then Some p1
      else case peer_request fuel ans direct p1 of
          None \<Rightarrow> None
        | Some (pull, p2) \<Rightarrow> if pull then peer_pull fuel ans start passes p2 else Some p2)"


subsection \<open>The steps of a peer's thread\<close>

definition peer_fresh :: "u8 list \<Rightarrow> string \<Rightarrow> int \<Rightarrow> endpoint \<Rightarrow> box \<Rightarrow> rpc_peer" where
  "peer_fresh name via port e b =
     \<lparr>k_name = name, k_via = via, k_port = port, k_e = e, k_b = b, k_x = empty_xchg, k_remote = xi_table zero_info,
      k_confirm = xchg_prepare empty_xchg 0 0 0, k_up = False, k_calls = 0, k_failures = 0, k_bytes = 0, k_generation = 0,
      k_heard = 0, k_pinged = 0, k_last = 0, k_sent = []\<rparr>"

inductive peer_step :: "rpc_peer \<Rightarrow> rpc_peer \<Rightarrow> bool" where
  connect: "\<not> k_up p \<Longrightarrow> peer_connect sys ans random direct began turns now client p = Some (r, p') \<Longrightarrow> peer_step p p'"
| turn: "k_up p \<Longrightarrow> peer_turn fuel ans direct start passes p = Some p' \<Longrightarrow> peer_step p p'"
| service: "k_up p \<Longrightarrow> peer_step p (connect_service ans now arrivals p)"
| client: "peer_step p (p\<lparr>k_e := (k_e p)\<lparr>n_link := (n_link (k_e p))\<lparr>w_win := m\<rparr>\<rparr>\<rparr>)"
| shutdown: "peer_step p (peer_down ans p)"

subsection \<open>The invariant of the connecting end\<close>

lemma sends_sel [simp]:
  "k_e (sends d p) = k_e p" "k_b (sends d p) = k_b p" "k_x (sends d p) = k_x p" "k_remote (sends d p) = k_remote p"
  "k_up (sends d p) = k_up p" "k_generation (sends d p) = k_generation p"
  by (auto simp: sends_def split: option.splits)

text \<open>The answer a link that is up goes back to.\<close>

definition answer_of :: "rpc_peer \<Rightarrow> xmsg \<Rightarrow> bool" where
  "answer_of p m \<longleftrightarrow> m_role m = ROLE_LISTEN \<and> m_kind m = X_OFFER \<and> m_flags m AND X_HAVE \<noteq> 0 \<and>
     m_to m = x_session (k_x p) \<and> m_from m = x_peer_session (k_x p) \<and> k_remote p = xi_table (m_info m) \<and>
     box_refuse (k_e p) (k_b p) (m_info m) = None \<and> at_rts (m_info m) (k_e p)"

definition carried_ok :: "rpc_peer \<Rightarrow> bool" where
  "carried_ok p \<longleftrightarrow> (\<forall>(i, op, q) \<in> set (q_posted (n_roce (k_e p))).
     op = RDMA_WRITE \<and> request_ok (k_b p) (k_remote p) 0 (unat (bx_req (k_b p))) q \<or>
     op = RDMA_READ \<and> request_ok (k_b p) (k_remote p) (unat (bx_req (k_b p))) (unat (bx_req (k_b p) + bx_rep (k_b p))) q)"

definition peer_inv :: "rpc_peer \<Rightarrow> bool" where
  "peer_inv p \<longleftrightarrow> box_ok (k_b p) \<and> end_ok (k_e p) \<and> (k_up p \<longrightarrow> (\<exists>m. answer_of p m)) \<and>
     (\<not> k_up p \<longrightarrow> n_path (k_e p) = None) \<and>
     (e_kind (n_ep (k_e p)) = LINK_ROCE \<and> k_up p \<longrightarrow> carried_ok p)"

definition same_peer :: "rpc_peer \<Rightarrow> rpc_peer \<Rightarrow> bool" where
  "same_peer p p' \<longleftrightarrow> k_b p' = k_b p \<and> n_ep (k_e p') = n_ep (k_e p) \<and> n_path (k_e p') = n_path (k_e p) \<and>
     n_roce (k_e p') = n_roce (k_e p) \<and> k_up p' = k_up p \<and> k_remote p' = k_remote p \<and>
     x_session (k_x p') = x_session (k_x p) \<and> x_peer_session (k_x p') = x_peer_session (k_x p)"

lemma same_peer_answer: "same_peer p p' \<Longrightarrow> answer_of p' = answer_of p"
  using box_refuse_cong [of "k_e p'" "k_e p" "k_b p"] by (auto simp: answer_of_def same_peer_def at_rts_def fun_eq_iff)

lemma same_peer_inv:
  assumes "same_peer p p'" and "peer_inv p"
  shows "peer_inv p'"
proof -
  have "end_ok (k_e p') = end_ok (k_e p)" "carried_ok p' = carried_ok p"
    using assms(1) by (simp_all add: end_ok_def carried_ok_def same_peer_def)
  then show ?thesis using assms same_peer_answer [OF assms(1)] unfolding peer_inv_def same_peer_def by simp
qed

lemma down_inv:
  assumes "box_ok (k_b p)" and "end_ok (k_e p)"
  shows "peer_inv (peer_down ans p)" and "\<not> k_up (peer_down ans p)" and "n_path (k_e (peer_down ans p)) = None"
proof -
  have e: "k_e (peer_down ans p) = ep_destroy_qp ans (store_word 64 0 (k_e p))" "k_b (peer_down ans p) = k_b p"
    and up: "\<not> k_up (peer_down ans p)"
    by (simp_all add: peer_down_def Let_def)
  have "end_ok (store_word 64 0 (k_e p))" using assms(2) by (simp add: end_ok_def)
  note k = ep_destroy_ok [OF this, of ans]
  show "peer_inv (peer_down ans p)" "n_path (k_e (peer_down ans p)) = None"
    using assms(1) e up k by (simp_all add: peer_inv_def)
  show "\<not> k_up (peer_down ans p)" by (rule up)
qed

lemma failed_inv: "box_ok (k_b p) \<Longrightarrow> end_ok (k_e p) \<Longrightarrow> peer_inv (failed ans p)"
  by (simp add: failed_def down_inv(1))

lemma xchg_recv_own_session:
  assumes "xchg_recv x ready got now = (r, m, x')"
  shows "x_session x' = x_session x"
  using assms
  by (auto simp: xchg_recv_def recv_v4_def reject_def Let_def split: polled.splits received.splits if_splits option.splits prod.splits)

text \<open>What a wait leaves as it was, and what an answer it takes has passed.\<close>

definition same_wait :: "rpc_peer \<Rightarrow> rpc_peer \<Rightarrow> bool" where
  "same_wait p p' \<longleftrightarrow> k_e p' = k_e p \<and> k_b p' = k_b p \<and> k_up p' = k_up p \<and> k_generation p' = k_generation p \<and>
     x_session (k_x p') = x_session (k_x p)"

definition good_answer :: "rpc_peer \<Rightarrow> xmsg \<Rightarrow> bool" where
  "good_answer p m \<longleftrightarrow> m_role m = ROLE_LISTEN \<and> m_kind m = X_OFFER \<and> m_flags m AND X_HAVE \<noteq> 0 \<and>
     m_to m = x_session (k_x p) \<and> box_refuse (k_e p) (k_b p) (m_info m) = None"

lemma answer_pass_frame:
  "case answer_pass deadline offer t resend p of
     Inl (res, p') \<Rightarrow> same_wait p p' \<and> (\<forall>m. res = Answered m \<longrightarrow> good_answer p m)
   | Inr (_, p') \<Rightarrow> same_wait p p'"
proof -
  define resend1 p1 where "resend1 = (if resend \<le> tn_check t then tn_sent t + RESEND_NS else resend)"
    and "p1 = (if resend \<le> tn_check t then sends (snd (xchg_send (k_x p) offer True)) p else p)"
  obtain r got x where g: "xchg_recv (k_x p1) (tn_ready t) (tn_got t) (tn_warn t) = (r, got, x)" by (metis prod_cases3)
  have p1: "k_e p1 = k_e p" "k_b p1 = k_b p" "k_up p1 = k_up p" "k_generation p1 = k_generation p" "k_x p1 = k_x p"
    by (simp_all add: p1_def)
  have x: "x_session x = x_session (k_x p)" using xchg_recv_own_session [OF g] p1 by simp
  have pr: "(if resend \<le> tn_check t then (tn_sent t + RESEND_NS, sends (snd (xchg_send (k_x p) offer True)) p) else (resend, p))
      = (resend1, p1)" by (simp add: resend1_def p1_def)
  show ?thesis
    unfolding answer_pass_def pr Let_def prod.case g
    using x p1 by (simp add: same_wait_def good_answer_def xchg_ours_def split: option.splits)
qed

lemma wait_answer_frame:
  assumes "wait_answer deadline offer ts resend p = Some (res, p')"
  shows "same_wait p p' \<and> (\<forall>m. res = Answered m \<longrightarrow> good_answer p m)"
  using assms
proof (induction ts arbitrary: resend p)
  case (Cons t ts)
  have good: "good_answer p1 = good_answer p2" if "same_wait p1 p2" for p1 p2
    using that by (auto simp: same_wait_def good_answer_def fun_eq_iff)
  show ?case
  proof (cases "answer_pass deadline offer t resend p")
    case (Inl rp)
    with Cons.prems answer_pass_frame [of p deadline offer t resend] show ?thesis by auto
  next
    case (Inr rp)
    then obtain resend' q where a: "answer_pass deadline offer t resend p = Inr (resend', q)" by (cases rp) auto
    with answer_pass_frame [of p deadline offer t resend] have q: "same_wait p q" by simp
    from a Cons.prems Cons.IH [of resend' q] have "same_wait q p' \<and> (\<forall>m. res = Answered m \<longrightarrow> good_answer q m)" by simp
    with q good [OF q] show ?thesis by (simp add: same_wait_def)
  qed
qed simp

text \<open>The wait is over once the clock is past the deadline or the daemon stops.\<close>

lemma wait_answer_ends:
  assumes "\<exists>t \<in> set ts. tn_stop t \<or> \<not> tn_now t < deadline"
  shows "wait_answer deadline offer ts resend p \<noteq> None"
  using assms
proof (induction ts arbitrary: resend p)
  case (Cons t ts)
  show ?case
  proof (cases "tn_stop t \<or> \<not> tn_now t < deadline")
    case True
    then show ?thesis by (auto simp: answer_pass_def)
  next
    case False
    with Cons.prems have "\<exists>t \<in> set ts. tn_stop t \<or> \<not> tn_now t < deadline" by auto
    from Cons.IH [OF this] show ?thesis by (auto split: sum.splits)
  qed
qed simp


lemma load_store [simp]: "load_word (store_word off v e) off = v"
  using mem_read_write_same [of "w_win (n_link e)" "unat off" "put_le 8 v"]
  by (simp add: load_word_def store_word_def store_win_def)

lemma load_store_other:
  "unat off + 8 \<le> unat off' \<or> unat off' + 8 \<le> unat off \<Longrightarrow> load_word (store_word off v e) off' = load_word e off'"
  by (auto simp: load_word_def store_word_def store_win_def mem_read_write_disjoint)

lemma peer_up_result:
  assumes "box_ok (k_b p)" and "end_ok (k_e p)" and "n_path (k_e p) \<noteq> None" and "good_answer p m"
    and "e_kind (n_ep (k_e p)) = LINK_ROCE \<Longrightarrow> q_posted (n_roce (k_e p)) = []"
    and "peer_up ans direct now client m p = (r, p')"
  shows "if r = 0 then peer_inv p' \<and> k_up p' \<and> answer_of p' m \<and> load_word (k_e p') 64 = 1 \<and>
      load_word (k_e p') 72 = k_generation p + 1 \<and>
      (e_kind (n_ep (k_e p')) = LINK_ROCE \<longrightarrow> q_posted (n_roce (k_e p')) = [])
    else r = -1 \<and> peer_inv p' \<and> \<not> k_up p'"
proof -
  define p1 where "p1 = p\<lparr>k_x := (k_x p)\<lparr>x_peer_session := m_from m\<rparr>\<rparr>"
  obtain r1 e where c: "ep_connect ans (k_e p) (m_info m) = (r1, e)" by fastforce
  note k = ep_connect_ok [OF assms(2) c]
  note u = assms(6) [unfolded peer_up_def Let_def, folded p1_def]
  have p1: "k_e p1 = k_e p" "k_b p1 = k_b p" by (simp_all add: p1_def)
  show ?thesis
  proof (cases "r1 = 0")
    case False
    with u c have "r = -1" "p' = peer_down ans (p1\<lparr>k_e := e\<rparr>)" by (auto simp: p1)
    then show ?thesis using down_inv [of "p1\<lparr>k_e := e\<rparr>"] assms(1) k(1) p1 by simp
  next
    case True
    define e1 where "e1 = store_word (bx_req (k_b p) + 64) 0 (store_word (bx_req (k_b p)) 0 (store_word 0 0 e))"
    define e2 where "e2 = e1\<lparr>n_link := (n_link e1)\<lparr>w_win := client (w_win (n_link e1))\<rparr>\<rparr>"
    have e2: "n_ep e2 = n_ep e" "n_path e2 = n_path e" "n_roce e2 = n_roce e" by (simp_all add: e2_def e1_def)
    have r: "r = 0" using u c True by (simp add: p1)
    have f: "k_e p' = store_word 64 1 (store_word 72 (k_generation p + 1) e2)" "k_b p' = k_b p" "k_up p'"
      "k_remote p' = xi_table (m_info m)" "x_session (k_x p') = x_session (k_x p)" "x_peer_session (k_x p') = m_from m"
      using u c True by (auto simp: p1 e1_def [symmetric] e2_def [symmetric] simp: p1_def)
    have e': "end_ok (k_e p')" "at_rts (m_info m) (k_e p')" "e_kind (n_ep (k_e p')) = e_kind (n_ep (k_e p))"
      "n_roce (k_e p') = n_roce (k_e p)"
      using k True assms(3) e2 by (simp_all add: f end_ok_def at_rts_def)
    have a: "answer_of p' m"
      using assms(4) e' f box_refuse_cong [OF e'(3)] by (simp add: answer_of_def good_answer_def)
    moreover have "peer_inv p'"
      using a assms(1,5) e' f by (auto simp: peer_inv_def carried_ok_def)
    moreover have "load_word (k_e p') 64 = 1" "load_word (k_e p') 72 = k_generation p + 1"
      by (simp_all add: f load_store_other)
    ultimately show ?thesis using r f(3) e' assms(5) by simp
  qed
qed

lemma peer_connect_result:
  assumes "peer_inv p" and "\<not> k_up p" and "peer_connect sys ans random direct began turns now client p = Some (r, p')"
  shows "peer_inv p' \<and> (if r = 0 then k_up p' \<and> (\<exists>m. answer_of p' m) \<and> load_word (k_e p') 64 = 1 \<and>
      load_word (k_e p') 72 = k_generation p + 1 \<and>
      (e_kind (n_ep (k_e p')) = LINK_ROCE \<longrightarrow> q_posted (n_roce (k_e p')) = [])
    else r = -1 \<and> \<not> k_up p')"
proof -
  obtain opened q where o: "(if x_fd (k_x p) \<noteq> None then (0, p)
        else (case xchg_open (net_pton sys) (net_index sys) (net_sock sys) (net_random sys) (k_via p) 0 (k_port p) (k_name p)
                of (r, x) \<Rightarrow> (r, p\<lparr>k_x := x\<rparr>))) = (opened, q)" by fastforce
  have q: "k_e q = k_e p" "k_b q = k_b p" "k_up q = k_up p" "k_generation q = k_generation p"
    using o by (auto split: if_splits prod.splits)
  have ok: "box_ok (k_b q)" "end_ok (k_e q)" "n_path (k_e q) = None"
    using assms(1,2) q by (auto simp: peer_inv_def)
  then have qi: "peer_inv q" using assms(2) q by (simp add: peer_inv_def)
  obtain r1 e1 where c: "ep_create_qp ans (k_e q) = (r1, e1)" by fastforce
  note k = ep_create_ok [OF ok(2) c]
  define e2 where "e2 = (if e_kind (n_ep e1) = LINK_TB
      then e1\<lparr>n_link := tb_accept (bx_r (k_b q)) (bx_req (k_b q)) (bx_req (k_b q) + bx_rep (k_b q)) (n_link e1)\<rparr> else e1)"
  have e2: "end_ok e2" "n_ep e2 = n_ep e1" "n_path e2 = n_path e1" "n_roce e2 = n_roce e1"
    using k(1) by (auto simp: e2_def end_ok_def)
  define x2 where "x2 = (if \<not> x_pinned (xchg_session (k_x q) random)
      then (xchg_session (k_x q) random)\<lparr>x_learned := False\<rparr> else xchg_session (k_x q) random)"
  define q2 where "q2 = q\<lparr>k_e := e2, k_x := x2\<rparr>"
  define wait where "wait = wait_answer (began + HANDSHAKE_NS) (box_offer x2 e2 (k_b q) ROLE_CONNECT (rpc_mode direct) 0) turns 0 q2"
  note d = assms(3) [unfolded peer_connect_def o Let_def prod.case c, folded e2_def x2_def, folded q2_def, folded wait_def]
  have fail: "peer_inv (peer_down ans q3) \<and> \<not> k_up (peer_down ans q3)" if "k_b q3 = k_b q" "end_ok (k_e q3)" for q3
    using down_inv(1,2) that ok(1) by simp
  show ?thesis
  proof (cases "opened \<noteq> 0 \<or> r1 \<noteq> 0")
    case True
    then show ?thesis using d qi q assms(2) fail [of "q\<lparr>k_e := e1\<rparr>"] k(1) by (auto split: if_splits)
  next
    case False
    then obtain res p1 where w: "wait = Some (res, p1)"
      and out: "(r, p') = (case res of Answered m \<Rightarrow> peer_up ans direct now client m p1 | _ \<Rightarrow> (-1, peer_down ans p1))"
      using d by (cases wait) (auto split: outcome.splits)
    from wait_answer_frame [OF w [unfolded wait_def]]
    have f: "k_e p1 = e2" "k_b p1 = k_b q" "k_generation p1 = k_generation p" "\<And>m. res = Answered m \<Longrightarrow> good_answer p1 m"
      using q by (auto simp: same_wait_def q2_def good_answer_def)
    show ?thesis
    proof (cases "\<exists>m. res = Answered m")
      case True
      then obtain m where m: "res = Answered m" by blast
      have "peer_up ans direct now client m p1 = (r, p')" using out m by simp
      from peer_up_result [OF _ _ _ f(4) [OF m] _ this] f e2 k False ok show ?thesis by (auto split: if_splits)
    next
      case no: False
      then have "(r, p') = (-1, peer_down ans p1)" using out by (cases res) auto
      then show ?thesis using fail [of p1] f e2 by simp
    qed
  qed
qed


lemma recv_same_peer:
  assumes "xchg_recv (k_x p) ready got now = (r, m, x)"
  shows "same_peer p (p\<lparr>k_x := x\<rparr>)"
  using xchg_recv_session [OF assms] xchg_recv_own_session [OF assms] by (simp add: same_peer_def)

lemma inv_ok: "peer_inv p \<Longrightarrow> box_ok (k_b p) \<and> end_ok (k_e p)"
  by (simp add: peer_inv_def)

lemma down_peer_inv: "peer_inv p \<Longrightarrow> peer_inv (peer_down ans p)"
  by (simp add: inv_ok down_inv(1))

lemma failed_peer_inv: "peer_inv p \<Longrightarrow> peer_inv (failed ans p)"
  by (simp add: inv_ok failed_inv)

lemma service_loop_inv: "peer_inv p \<Longrightarrow> peer_inv (service_loop ans now arrivals p)"
proof (induction arrivals arbitrary: p)
  case (Cons a rest)
  obtain ready got warn where a: "a = (ready, got, warn)" by (metis prod_cases3)
  obtain r mo x where g: "xchg_recv (k_x p) ready got warn = (r, mo, x)" by (metis prod_cases3)
  have p1: "peer_inv (p\<lparr>k_x := x\<rparr>)" by (rule same_peer_inv [OF recv_same_peer [OF g] Cons.prems])
  have p2: "peer_inv (p\<lparr>k_x := x, k_heard := now\<rparr>)" by (rule same_peer_inv [OF _ p1]) (simp add: same_peer_def)
  have p3: "peer_inv (sends d (p\<lparr>k_x := x, k_heard := now\<rparr>))" for d
    by (rule same_peer_inv [OF _ p2]) (simp add: same_peer_def)
  show ?case
    unfolding a using Cons.prems p1 p2 p3 by (auto simp: g Let_def Cons.IH down_peer_inv split: option.splits)
qed simp

lemma connect_service_inv:
  assumes "peer_inv p"
  shows "peer_inv (connect_service ans now arrivals p)"
proof -
  define q where "q = service_loop ans now arrivals p"
  have q: "peer_inv q" unfolding q_def by (rule service_loop_inv [OF assms])
  have "peer_inv ((sends d q)\<lparr>k_pinged := now\<rparr>)" for d by (rule same_peer_inv [OF _ q]) (simp add: same_peer_def)
  then show ?thesis
    unfolding connect_service_def Let_def q_def [symmetric] using q by (auto intro: down_peer_inv)
qed

lemma ready_loop_inv:
  "ready_loop ans start seq ts spins r p = Some (w, p') \<Longrightarrow> peer_inv p \<Longrightarrow> peer_inv p'"
proof (induction ts arbitrary: spins r p)
  case (Cons t ts)
  then show ?case
    using connect_service_inv [OF Cons.prems(2), of ans "fst (rp_service t)" "snd (rp_service t)"]
    by (auto simp: Let_def split: if_splits)
qed simp

lemma pump_inv:
  assumes "peer_inv p"
  shows "peer_inv (peer_pump ans p)"
proof -
  obtain handled l where t: "tb_progress (n_link (k_e p)) = (handled, l)" by fastforce
  have "peer_inv (p\<lparr>k_e := (k_e p)\<lparr>n_link := l\<rparr>\<rparr>)" by (rule same_peer_inv [OF _ assms]) (simp add: same_peer_def)
  then show ?thesis unfolding peer_pump_def using assms t by (auto simp: Let_def failed_peer_inv)
qed


text \<open>Posting more requests keeps the invariant, if these are confined as they should be.\<close>

lemma posted_inv:
  assumes "peer_inv p" and "k_up p" and "k_b p' = k_b p" "k_up p' = k_up p" "k_remote p' = k_remote p" "k_x p' = k_x p"
    and "n_ep (k_e p') = n_ep (k_e p)" "n_path (k_e p') = n_path (k_e p)" "0 \<le> q_outstanding (n_roce (k_e p'))"
    and "e_kind (n_ep (k_e p)) = LINK_ROCE \<Longrightarrow>
      \<exists>new. q_posted (n_roce (k_e p')) = q_posted (n_roce (k_e p)) @ new \<and> (\<forall>(i, op, q) \<in> set new.
       op = RDMA_WRITE \<and> request_ok (k_b p) (k_remote p) 0 (unat (bx_req (k_b p))) q \<or>
       op = RDMA_READ \<and> request_ok (k_b p) (k_remote p) (unat (bx_req (k_b p))) (unat (bx_req (k_b p) + bx_rep (k_b p))) q)"
  shows "peer_inv p'"
proof -
  have "answer_of p' = answer_of p"
    using assms(3-8) box_refuse_cong [of "k_e p'" "k_e p" "k_b p"] by (auto simp: answer_of_def at_rts_def fun_eq_iff)
  moreover have "end_ok (k_e p')" using assms by (simp add: end_ok_def peer_inv_def)
  moreover have "carried_ok p'" if c: "e_kind (n_ep (k_e p)) = LINK_ROCE"
  proof -
    have "carried_ok p" using assms(1,2) c by (simp add: peer_inv_def)
    then show ?thesis using assms(10) [OF c] unfolding carried_ok_def assms(3-5) by auto
  qed
  ultimately show ?thesis using assms(1-8) unfolding peer_inv_def by simp
qed

lemma peer_table:
  assumes "peer_inv p" and "k_up p" and "e_kind (n_ep (k_e p)) = LINK_ROCE"
  shows "table_valid (k_remote p) (bx_req (k_b p) + bx_rep (k_b p)) True"
proof -
  from assms(1,2) obtain m where "answer_of p m" by (auto simp: peer_inv_def)
  then show ?thesis using refuse_table(2) [of "k_e p" "k_b p" "m_info m"] assms(3) by (auto simp: answer_of_def)
qed

lemma half_limit:
  assumes "half_ok h" and "\<not> h - CTRL < ucast len"
  shows "unat (len :: u32) \<le> unat h - CTRL" and "CTRL < unat h"
proof -
  show h: "CTRL < unat h" using assms(1) by (simp add: half_ok_def)
  then have "unat (h - CTRL) = unat h - CTRL" by (subst unat_sub_le) (simp_all add: word_le_nat_alt)
  then show "unat len \<le> unat h - CTRL" using assms(2) by (simp add: word_less_nat_alt)
qed

lemma request_inv:
  assumes "peer_inv p" and "k_up p" and "peer_request fuel ans direct p = Some (pull, p')"
  shows "peer_inv p'" and "pull \<Longrightarrow> k_up p'"
proof -
  define w where "w = load_word (k_e p) 0"
  define p1 where "p1 = p\<lparr>k_last := WORD_SEQ w\<rparr>"
  have p1: "peer_inv p1" "k_up p1" "k_e p1 = k_e p" "k_b p1 = k_b p" "k_remote p1 = k_remote p" "k_x p1 = k_x p"
    using assms(2) same_peer_inv [OF _ assms(1), of p1] by (simp_all add: p1_def same_peer_def)
  note d = assms(3) [unfolded peer_request_def Let_def, folded w_def, folded p1_def]
  have "peer_inv p' \<and> (pull \<longrightarrow> k_up p')"
  proof (cases "WORD_SEQ w = 0 \<or> WORD_SEQ w = k_last p")
    case True
    then show ?thesis using d assms(1) by simp
  next
    case go: False
    show ?thesis
    proof (cases "bx_req (k_b p1) - CTRL < ucast (WORD_LEN w)")
      case True
      have "peer_inv (p1\<lparr>k_e := store_word off v (k_e p1)\<rparr>)" for off v
        by (rule same_peer_inv [OF _ p1(1)]) (simp add: same_peer_def)
      then show ?thesis using d go True by auto
    next
      case False
      let ?t = "box_transfer fuel (k_e p1) (k_b p1) (k_remote p1) CTRL (WORD_LEN w) 0 0 w PIECES WINDOW_MAC"
      from go False d obtain r e where t: "?t = Some (r, e)" by (cases ?t) auto
      have p': "r \<noteq> 0 \<Longrightarrow> \<not> pull \<and> p' = failed ans (p1\<lparr>k_e := e\<rparr>)"
        "r = 0 \<Longrightarrow> \<exists>x y. p' = p1\<lparr>k_e := e, k_bytes := x, k_calls := y\<rparr>"
      proof -
        show "r \<noteq> 0 \<Longrightarrow> \<not> pull \<and> p' = failed ans (p1\<lparr>k_e := e\<rparr>)" using d go False t by simp
        show "\<exists>x y. p' = p1\<lparr>k_e := e, k_bytes := x, k_calls := y\<rparr>" if "r = 0"
        proof (cases direct)
          case True
          then show ?thesis using d go False t that by auto
        next
          case nd: False
          then have eq: "p' = p1\<lparr>k_e := e, k_bytes := k_bytes p1 + ucast (WORD_LEN w)\<rparr>"
            using d go False t that by simp
          show ?thesis unfolding eq by (intro exI [of _ "k_bytes p1 + ucast (WORD_LEN w)"] exI [of _ "k_calls p1"]) simp
        qed
      qed
      have h: "half_ok (bx_req (k_b p1))" "half_ok (bx_rep (k_b p1))" "box_ok (k_b p1)" "0 \<le> q_outstanding (n_roce (k_e p1))"
        using p1(1) by (auto simp: peer_inv_def box_ok_def end_ok_def)
      note l = half_limit [OF h(1) False]
      note f = transfer_frame [OF t h(4)]
      have "peer_inv (p1\<lparr>k_e := e, k_bytes := x, k_calls := y\<rparr>)" for x y
      proof (rule posted_inv [OF p1(1,2)])
        assume c: "e_kind (n_ep (k_e p1)) = LINK_ROCE"
        have n: "unat (CTRL :: u64) + unat (WORD_LEN w) \<le> unat (bx_req (k_b p1))"
          "unat (WORD_LEN w) \<le> MAX_SEGS * SEG - CTRL" "unat (bx_req (k_b p1)) \<le> unat (bx_req (k_b p1) + bx_rep (k_b p1))"
          "unat (0 :: u64) + 8 \<le> unat (bx_req (k_b p1))"
          using l h(1) half_sum [OF h(1,2)] by (auto simp: half_ok_def)
        have k: "e_kind (n_ep (k_e p1)) \<noteq> LINK_TB" using c by simp
        from transfer_only [OF h(3) peer_table [OF p1(1,2) c] k le0 n(1,3,2) _ le0 n(4) le0 n(4) t h(4)]
        obtain q new where "e = (k_e p1)\<lparr>n_roce := q\<rparr>" "q_posted q = q_posted (n_roce (k_e p1)) @ new"
          "\<forall>(i, op, qq) \<in> set new. op = RDMA_WRITE \<and> request_ok (k_b p1) (k_remote p1) 0 (unat (bx_req (k_b p1))) qq" by auto
        then show "\<exists>new. q_posted (n_roce (k_e (p1\<lparr>k_e := e, k_bytes := x, k_calls := y\<rparr>))) = q_posted (n_roce (k_e p1)) @ new \<and>
          (\<forall>(i, op, q) \<in> set new. op = RDMA_WRITE \<and> request_ok (k_b p1) (k_remote p1) 0 (unat (bx_req (k_b p1))) q \<or>
           op = RDMA_READ \<and> request_ok (k_b p1) (k_remote p1) (unat (bx_req (k_b p1))) (unat (bx_req (k_b p1) + bx_rep (k_b p1))) q)"
          by (intro exI [of _ new]) auto
      qed (use f in simp_all)
      moreover have "peer_inv (failed ans (p1\<lparr>k_e := e\<rparr>))"
        using h(3) f p1(1) by (intro failed_inv) (simp_all add: end_ok_def peer_inv_def)
      ultimately show ?thesis using p' p1(2) by (cases "r = 0") auto
    qed
  qed
  then show "peer_inv p'" "pull \<Longrightarrow> k_up p'" by auto
qed


lemma pull_inv:
  assumes "peer_inv p" and "pull_reply fuel ans seq r p = Some p'"
  shows "peer_inv p'"
proof -
  let ?b = "k_b p" and ?req = "bx_req (k_b p)"
  let ?cut = "cut (bx_r ?b) (?req + CTRL) (ucast (WORD_LEN r)) (Some (k_remote p)) (?req + CTRL) READ_CHUNK PIECES"
  have h: "half_ok ?req" "half_ok (bx_rep ?b)" "box_ok ?b" "0 \<le> q_outstanding (n_roce (k_e p))"
    using assms(1) by (auto simp: peer_inv_def box_ok_def end_ok_def)
  have count: "peer_inv (p\<lparr>k_failures := k_failures p + 1\<rparr>)"
    by (rule same_peer_inv [OF _ assms(1)]) (simp add: same_peer_def)
  note d = assms(2) [unfolded pull_reply_def Let_def]
  show ?thesis
  proof (cases "\<not> k_up p \<or> WORD_SEQ r \<noteq> seq \<or> bx_rep ?b - CTRL < ucast (WORD_LEN r) \<or> ?cut = None")
    case True
    then show ?thesis using d count failed_peer_inv [OF assms(1)] by (auto split: if_splits)
  next
    case False
    then obtain ps where up: "k_up p" and lim: "\<not> bx_rep ?b - CTRL < ucast (WORD_LEN r)" and c: "?cut = Some ps" by auto
    from d False c obtain rc q where
      po: "post_pieces fuel (n_roce (k_e p)) RDMA_READ ps 1 XFER_NS = Some (rc, q)"
      and p': "p' = (if rc \<noteq> 0 then failed ans (p\<lparr>k_e := (k_e p)\<lparr>n_roce := q\<rparr>\<rparr>)
        else p\<lparr>k_e := store_word (?req + 64) (WORD seq (WORD_LEN r)) ((k_e p)\<lparr>n_roce := q\<rparr>), k_calls := k_calls p + 1\<rparr>)"
      by auto
    note only = post_pieces_only [OF po h(4)]
    note l = half_limit [OF h(2) lim] and o = half_offsets [OF h(3)]
    have "peer_inv (p\<lparr>k_e := store_word off v ((k_e p)\<lparr>n_roce := q\<rparr>), k_calls := k_calls p + 1\<rparr>)" for off v
    proof (rule posted_inv [OF assms(1) up])
      assume cc: "e_kind (n_ep (k_e p)) = LINK_ROCE"
      have n: "unat (?req + CTRL) = unat ?req + CTRL" using o(2) [of CTRL] by simp
      then have fit: "unat (?req + CTRL) + unat (ucast (WORD_LEN r) :: u64) \<le> unat (?req + bx_rep ?b)"
        using l o(1) by simp
      have all: "request_ok ?b (k_remote p) (unat ?req) (unat (?req + bx_rep ?b)) x" if "x \<in> set ps" for x
        using cut_requests(4) [OF h(3) peer_table [OF assms(1) up cc] fit _ _ c that] n fit
        by (auto intro: request_ok_mono)
      from only obtain new where new: "q_posted q = q_posted (n_roce (k_e p)) @ new" "snd ` set new \<subseteq> Pair RDMA_READ ` set ps"
        by blast
      have "op = RDMA_READ \<and> request_ok ?b (k_remote p) (unat ?req) (unat (?req + bx_rep ?b)) x" if "(i, op, x) \<in> set new" for i op x
      proof -
        have "(op, x) \<in> Pair RDMA_READ ` set ps" using that new(2) by (metis image_subset_iff snd_conv)
        then show ?thesis using all by blast
      qed
      then show "\<exists>new. q_posted (n_roce (k_e (p\<lparr>k_e := store_word off v ((k_e p)\<lparr>n_roce := q\<rparr>), k_calls := k_calls p + 1\<rparr>))) =
          q_posted (n_roce (k_e p)) @ new \<and> (\<forall>(i, op, qq) \<in> set new. op = RDMA_WRITE \<and> request_ok ?b (k_remote p) 0 (unat ?req) qq \<or>
         op = RDMA_READ \<and> request_ok ?b (k_remote p) (unat ?req) (unat (?req + bx_rep ?b)) qq)"
        using new(1) by (intro exI [of _ new]) auto
    qed (use only in simp_all)
    moreover have "peer_inv (failed ans (p\<lparr>k_e := (k_e p)\<lparr>n_roce := q\<rparr>\<rparr>))"
      using h(3) only assms(1) by (intro failed_inv) (simp_all add: end_ok_def peer_inv_def)
    ultimately show ?thesis unfolding p' by simp
  qed
qed

lemma turn_inv:
  assumes "peer_inv p" and "peer_turn fuel ans direct start passes p = Some p'"
  shows "peer_inv p'"
proof -
  define p1 where "p1 = peer_pump ans p"
  have p1: "peer_inv p1" unfolding p1_def by (rule pump_inv [OF assms(1)])
  note d = assms(2) [unfolded peer_turn_def Let_def, folded p1_def]
  show ?thesis
  proof (cases "k_up p1")
    case False
    then show ?thesis using d p1 by simp
  next
    case True
    with d obtain pull p2 where r: "peer_request fuel ans direct p1 = Some (pull, p2)" by (auto split: option.splits)
    note i = request_inv(1) [OF p1 True r]
    show ?thesis
      using d True r i
      by (auto simp: peer_pull_def split: if_splits option.splits dest!: ready_loop_inv intro: pull_inv)
  qed
qed

lemma peer_step_inv:
  assumes "peer_step p p'" and "peer_inv p"
  shows "peer_inv p'"
  using assms
proof (induction rule: peer_step.induct)
  case (connect p sys ans random direct began turns now client r p')
  then show ?case using peer_connect_result by blast
next
  case (turn p fuel ans direct start passes p')
  then show ?case using turn_inv by blast
next
  case (service p ans now arrivals)
  then show ?case using connect_service_inv by blast
next
  case (client p m)
  show ?case by (rule same_peer_inv [OF _ client]) (simp add: same_peer_def)
next
  case (shutdown p ans)
  then show ?case by (rule down_peer_inv)
qed

lemma peer_run_inv: "rtranclp peer_step p p' \<Longrightarrow> peer_inv p \<Longrightarrow> peer_inv p'"
  by (induction rule: rtranclp_induct) (auto intro: peer_step_inv)

lemma peer_fresh_inv:
  assumes "parse_mib m1 = Some (bx_req b0)" and "parse_mib m2 = Some (bx_rep b0)"
    and "box_register apple e0 b0 False = (0, e, b)" and "end_fresh e"
  shows "peer_inv (peer_fresh name via port e b)"
proof -
  have "box_ok b" using box_register_ok(1) [OF assms(3)] parse_mib_half assms(1,2) by blast
  then show ?thesis using assms(4) by (simp add: peer_inv_def peer_fresh_def end_fresh_def)
qed


lemma peer_connect_ends:
  assumes "\<exists>t \<in> set turns. tn_stop t \<or> \<not> tn_now t < began + HANDSHAKE_NS"
  shows "peer_connect sys ans random direct began turns now client p \<noteq> None"
proof -
  have "wait_answer (began + HANDSHAKE_NS) offer turns 0 q \<noteq> None" for offer q
    by (rule wait_answer_ends [OF assms])
  then have w: "\<exists>res q'. wait_answer (began + HANDSHAKE_NS) offer turns 0 q = Some (res, q')" for offer q by fastforce
  obtain opened q where o: "(if x_fd (k_x p) \<noteq> None then (0, p)
        else (case xchg_open (net_pton sys) (net_index sys) (net_sock sys) (net_random sys) (k_via p) 0 (k_port p) (k_name p)
                of (r, x) \<Rightarrow> (r, p\<lparr>k_x := x\<rparr>))) = (opened, q)" by fastforce
  obtain r1 e1 where c: "ep_create_qp ans (k_e q) = (r1, e1)" by fastforce
  let ?e = "if e_kind (n_ep e1) = LINK_TB
      then e1\<lparr>n_link := tb_accept (bx_r (k_b q)) (bx_req (k_b q)) (bx_req (k_b q) + bx_rep (k_b q)) (n_link e1)\<rparr> else e1"
  let ?x = "if \<not> x_pinned (xchg_session (k_x q) random)
      then (xchg_session (k_x q) random)\<lparr>x_learned := False\<rparr> else xchg_session (k_x q) random"
  from w obtain res q' where r: "wait_answer (began + HANDSHAKE_NS) (box_offer ?x ?e (k_b q) ROLE_CONNECT (rpc_mode direct) 0) turns 0
      (q\<lparr>k_e := ?e, k_x := ?x\<rparr>) = Some (res, q')" by blast
  show ?thesis unfolding peer_connect_def o Let_def prod.case c r by (cases res) simp_all
qed

subsection \<open>Properties\<close>

text \<open>
  C26: an attempt to connect, from any state the thread reaches with the link down. It returns once the
  clock passes its deadline or the daemon stops, whatever arrives. Then either the link is up: on an
  answer addressed to this attempt, from a listening end that was ready, that passed the check, with the
  queue pair at RTS towards it, nothing posted yet, and the mailbox's words telling clients so under a new
  generation; or it is down, and no queue pair is left.
\<close>

theorem connect_attempt:
  assumes "parse_mib m1 = Some (bx_req b0)" and "parse_mib m2 = Some (bx_rep b0)"
    and "box_register apple e0 b0 False = (0, e, b)" and "end_fresh e"
    and "rtranclp peer_step (peer_fresh name via port e b) p" and "\<not> k_up p"
    and "\<exists>t \<in> set turns. tn_stop t \<or> \<not> tn_now t < began + HANDSHAKE_NS"
  shows "\<exists>r p'. peer_connect sys ans random direct began turns now client p = Some (r, p') \<and>
    (if r = 0 then k_up p' \<and> (\<exists>m. answer_of p' m) \<and> load_word (k_e p') 64 = 1 \<and>
       load_word (k_e p') 72 = k_generation p + 1 \<and>
       (e_kind (n_ep (k_e p')) = LINK_ROCE \<longrightarrow> q_posted (n_roce (k_e p')) = [])
     else r = -1 \<and> \<not> k_up p' \<and> n_path (k_e p') = None)"
proof -
  from peer_connect_ends [OF assms(7)] obtain r p' where
    c: "peer_connect sys ans random direct began turns now client p = Some (r, p')" by fastforce
  have "peer_inv p" by (rule peer_run_inv [OF assms(5) peer_fresh_inv [OF assms(1-4)]])
  from peer_connect_result [OF this assms(6) c] c show ?thesis by (auto simp: peer_inv_def split: if_splits)
qed

text \<open>A connecting end with halves of 4 MiB, and an answer to its first session.\<close>

definition sample_connecting :: "endpoint \<times> box" where
  "sample_connecting = snd (box_register False sample_endpoint sample_box False)"

lemma sample_connects:
  "box_register False sample_endpoint sample_box False = (0, fst sample_connecting, snd sample_connecting)"
  "e_kind (n_ep (fst sample_connecting)) = 1" "n_roce (fst sample_connecting) = sample_roce"
  "bx_req (snd sample_connecting) = SEG" "bx_rep (snd sample_connecting) = SEG"
  "n_path (fst sample_connecting) = None" "e_qpn (n_ep (fst sample_connecting)) = None"
  "l_tb (n_link (fst sample_connecting)) = False" "n_cq (fst sample_connecting) = False"
  by (simp_all add: sample_connecting_def box_register_def sample_endpoint_def sample_box_def sample_ep_def ep_reg_region_def
      reg_loop.simps ep_reg_def Let_def blank_with_def)

lemma sample_connecting_fresh: "end_fresh (fst sample_connecting)"
  using sample_connects by (simp add: end_fresh_def end_ok_def sample_roce_def)

lemma sample_sizes: "parse_mib 4 = Some (bx_req sample_box)" "parse_mib 4 = Some (bx_rep sample_box)"
  by (simp_all add: parse_mib_def sample_box_def push_bit_eq_mult)

definition sample_down :: rpc_peer where
  "sample_down = peer_fresh [102, 97, 98] ''en2'' 7000 (fst sample_connecting) (snd sample_connecting)"

definition sample_net :: net where
  "sample_net = \<lparr>net_pton = \<lparr>pton4 = (\<lambda>_. None), pton6 = (\<lambda>_. None)\<rparr>, net_index = (\<lambda>_. 3),
     net_sock = (\<lambda>_ _. Some (5, 7000)), net_random = replicate 16 3\<rparr>"

definition sample_reply :: xmsg where
  "sample_reply = (xchg_prepare (sample_end 2) X_OFFER ROLE_LISTEN X_HAVE)\<lparr>m_to := replicate 16 1, m_info := sample_peer\<rparr>"

definition sample_turn :: "bool \<Rightarrow> turn" where
  "sample_turn stop = \<lparr>tn_stop = stop, tn_now = 0, tn_check = 1, tn_sent = 2, tn_ready = Poll_ready,
     tn_got = Recv (sample_dg\<lparr>dg_bytes := the (xchg_encode sample_reply X_MAX)\<rparr>), tn_warn = 0\<rparr>"

theorem connect_attempt_witness:
  "\<exists>r p'. peer_connect sample_net willing (replicate 16 1) True 0 [sample_turn False, sample_turn True] 9 (\<lambda>m. m) sample_down =
     Some (r, p') \<and> (r = 0 \<and> k_up p' \<and> load_word (k_e p') 72 = 1 \<or> r = -1 \<and> \<not> k_up p')"
proof -
  have 1: "rtranclp peer_step sample_down sample_down" "\<not> k_up sample_down" "k_generation sample_down = 0"
    by (simp_all add: sample_down_def peer_fresh_def)
  have 2: "\<exists>t \<in> set [sample_turn False, sample_turn True]. tn_stop t \<or> \<not> tn_now t < 0 + HANDSHAKE_NS"
    by (simp add: sample_turn_def)
  from connect_attempt [OF sample_sizes sample_connects(1) sample_connecting_fresh 1(1) [unfolded sample_down_def]
      1(2) [unfolded sample_down_def] 2, folded sample_down_def, of sample_net willing "replicate 16 1" True 9 "\<lambda>m. m"] 1(3)
  show ?thesis by (metis (full_types) add_0)
qed

lemma sample_reply_arrives:
  "fst (xchg_recv (sample_end 1) Poll_ready (Recv (sample_dg\<lparr>dg_bytes := the (xchg_encode sample_reply X_MAX)\<rparr>)) 0) = 1"
  "fst (snd (xchg_recv (sample_end 1) Poll_ready (Recv (sample_dg\<lparr>dg_bytes := the (xchg_encode sample_reply X_MAX)\<rparr>)) 0)) = Some sample_reply"
  by code_simp+

lemma sample_reply_fields:
  "m_role sample_reply = ROLE_LISTEN" "m_kind sample_reply = X_OFFER" "m_flags sample_reply = X_HAVE" "m_info sample_reply = sample_peer"
  "m_to sample_reply = replicate 16 1"
  by (simp_all add: sample_reply_def xchg_prepare_def)

lemma sample_opens:
  "xchg_open (net_pton sample_net) (net_index sample_net) (net_sock sample_net) (net_random sample_net) ''en2'' 0 7000 [102, 97, 98] =
     (0, sample_end 3)"
  "xchg_session (sample_end 3) (replicate 16 1) = sample_end 1" "(sample_end 1)\<lparr>x_learned := False\<rparr> = sample_end 1"
  by (simp_all add: sample_end_def sample_net_def xchg_open_def c_str_def via_parse_def Let_def xchg_session_def empty_xchg_def)

lemma sample_connected:
  "\<exists>p. peer_connect sample_net willing (replicate 16 1) True 0 [sample_turn False] 9 (\<lambda>m. m) sample_down = Some (0, p) \<and> k_up p"
proof -
  let ?dg = "sample_dg\<lparr>dg_bytes := the (xchg_encode sample_reply X_MAX)\<rparr>"
  define x where "x = snd (snd (xchg_recv (sample_end 1) Poll_ready (Recv ?dg) 0))"
  have g: "xchg_recv (sample_end 1) Poll_ready (Recv ?dg) 0 = (1, Some sample_reply, x)"
    unfolding x_def using sample_reply_arrives by (simp add: prod_eq_iff)
  have x: "x_session x = replicate 16 1" using xchg_recv_own_session [OF g] by (simp add: sample_end_fields)
  obtain r e where c: "ep_create_qp willing (fst sample_connecting) = (r, e)" by fastforce
  have e: "r = 0" "e_kind (n_ep e) = 1"
    using c sample_connects by (auto simp: ep_create_qp_def ep_destroy_qp_def willing_def Let_def)
  have ok: "box_refuse e (snd sample_connecting) sample_peer = None"
    using sample_connects e by (simp add: box_refuse_def sample_peer_def zero_info_def table_valid_def)
  have con: "\<exists>e'. ep_connect willing e sample_peer = (0, e')"
    using e by (simp add: ep_connect_def willing_def sample_peer_def)
  show ?thesis
    unfolding peer_connect_def sample_down_def peer_fresh_def
    using con
    by (auto simp: empty_xchg_def sample_opens sample_end_fields c e Let_def answer_pass_def sample_turn_def
        g x ok sample_reply_fields xchg_ours_def peer_up_def)
qed




end
