(* ===== verification/Bond_Rx.thy ===== *)
theory Bond_Rx
  imports Link_Tb_Rx
begin

section \<open>The receiving side of a bond (rpc/libmcdma\_fabric.c)\<close>

text \<open>
  A bond joins up to 24 Thunderbolt links as one peer. Its receive hooks, which the links call while
  they place messages, keep a queue of signals: a signal is published (its word stored in the
  window) once it is the next in sequence and every link has placed the writes it covers. A joined
  write's part announces to the other link where its tail goes. This theory has the state the hooks
  keep and the hooks as functions, and shows that they meet the contract of the links' hooks.
\<close>

abbreviation (input) BOND_LINKS :: "'a :: numeral" where "BOND_LINKS \<equiv> 24"
abbreviation (input) BOND_SIGNALS :: "'a :: numeral" where "BOND_SIGNALS \<equiv> 4096"

subsection \<open>State\<close>

record bond_signal =
  g_seq :: u64
  g_need :: "u64 list"
  g_off :: u64
  g_value :: u64

record bond_tail =
  a_off :: u64
  a_len :: u32
  a_ordinal :: u32

text \<open>
  The part of \<open>struct mcdma_fabric_peer\<close> that the hooks of a bond use: its arrays are functions
  from the index, \<open>p_bonded\<close> is the number of links and \<open>p_length\<close> the window's length.
\<close>

record bond =
  p_down :: bool
  p_bonded :: nat
  p_length :: u64
  p_pending :: "nat \<Rightarrow> bond_signal"
  p_placed :: "nat \<Rightarrow> u64"
  p_rx_signal :: u64
  p_waiting :: u32
  p_tails :: "nat \<Rightarrow> nat \<Rightarrow> bond_tail"
  p_tail_put :: "nat \<Rightarrow> u64"
  p_tail_got :: "nat \<Rightarrow> u64"

definition slot_of_seq :: "u64 \<Rightarrow> nat" where
  "slot_of_seq seq = unat (seq mod BOND_SIGNALS)"

lemma slot_of_seq_less [simp]: "slot_of_seq seq < BOND_SIGNALS"
  by (simp add: slot_of_seq_def unat_mod)

subsection \<open>Publishing\<close>

text \<open>The head of the queue, whether it may be published, and its publication.\<close>

definition next_signal :: "bond \<Rightarrow> bond_signal" where
  "next_signal p = p_pending p (slot_of_seq (p_rx_signal p))"

definition covered :: "bond \<Rightarrow> bond_signal \<Rightarrow> bool" where
  "covered p s \<longleftrightarrow> (\<forall>k < p_bonded p. g_need s ! k \<le> p_placed p k)"

definition signal_ready :: "bond \<Rightarrow> bool" where
  "signal_ready p \<longleftrightarrow> g_seq (next_signal p) = p_rx_signal p \<and> covered p (next_signal p)"

definition publish :: "mem \<times> bond \<Rightarrow> mem \<times> bond" where
  "publish = (\<lambda>(m, p).
     (mem_write m (unat (g_off (next_signal p))) (put_le 8 (g_value (next_signal p))),
      p\<lparr>p_pending := (p_pending p)(slot_of_seq (p_rx_signal p) := (next_signal p)\<lparr>g_seq := 0\<rparr>),
        p_rx_signal := p_rx_signal p + 1, p_waiting := p_waiting p - 1\<rparr>))"

definition pending_slots :: "bond \<Rightarrow> nat set" where
  "pending_slots p = {i. i < BOND_SIGNALS \<and> g_seq (p_pending p i) \<noteq> 0}"

lemma finite_pending [simp]: "finite (pending_slots p)"
  by (simp add: pending_slots_def)

lemma publish_pending:
  "pending_slots (snd (publish (m, p))) = pending_slots p - {slot_of_seq (p_rx_signal p)}"
  by (auto simp: pending_slots_def publish_def)

lemma card_publish:
  assumes "g_seq (next_signal p) \<noteq> 0"
  shows "card (pending_slots p) = Suc (card (pending_slots (snd (publish (m, p)))))"
proof -
  have "slot_of_seq (p_rx_signal p) \<in> pending_slots p" using assms by (simp add: pending_slots_def next_signal_def)
  then show ?thesis by (simp add: publish_pending card_Suc_Diff1 del: card_Diff_insert)
qed

function bond_drain :: "mem \<times> bond \<Rightarrow> mem \<times> bond" where
  "bond_drain (m, p) = (if \<not> p_down p \<and> signal_ready p then bond_drain (publish (m, p)) else (m, p))"
  by pat_completeness auto
termination
proof (relation "measure (\<lambda>(m, p). 2 * card (pending_slots p) + (if p_rx_signal p = 0 then 1 else 0))")
  fix m :: mem and p :: bond
  assume a: "\<not> p_down p \<and> signal_ready p"
  show "(publish (m, p), m, p) \<in> measure (\<lambda>(m, p). 2 * card (pending_slots p) + (if p_rx_signal p = 0 then 1 else 0))"
  proof (cases "p_rx_signal p = 0")
    case True
    have "card (pending_slots (snd (publish (m, p)))) \<le> card (pending_slots p)"
      unfolding publish_pending by (intro card_mono) auto
    with True show ?thesis by (simp add: publish_def)
  next
    case False
    then have "g_seq (next_signal p) \<noteq> 0" using a by (simp add: signal_ready_def)
    from card_publish [OF this, of m] show ?thesis by (simp add: publish_def)
  qed
qed simp

declare bond_drain.simps [simp del]

subsection \<open>The hooks of lane \<open>k\<close>\<close>

definition bond_placed :: "nat \<Rightarrow> u64 \<Rightarrow> mem \<times> bond \<Rightarrow> mem \<times> bond" where
  "bond_placed k count = (\<lambda>(m, p).
     let p1 = p\<lparr>p_placed := (p_placed p)(k := count)\<rparr>
     in if p_waiting p1 \<noteq> 0 then bond_drain (m, p1) else (m, p1))"

text \<open>A write count's low 32 bits, widened by the signed distance to this end's count.\<close>

definition widen :: "u64 \<Rightarrow> u32 \<Rightarrow> u64" where
  "widen near low = near + scast (low - ucast near)"

definition bond_signal_bad :: "bond \<Rightarrow> u64 \<Rightarrow> u64 \<Rightarrow> bool" where
  "bond_signal_bad p seq off \<longleftrightarrow>
     p_down p \<or> off mod 8 \<noteq> 0 \<or> p_length p < off \<or> p_length p - off < 8 \<or>
     seq < p_rx_signal p \<or> BOND_SIGNALS \<le> seq - p_rx_signal p \<or> g_seq (p_pending p (slot_of_seq seq)) \<noteq> 0"

definition bond_enqueue :: "u64 \<Rightarrow> u32 list \<Rightarrow> u64 \<Rightarrow> u64 \<Rightarrow> bond \<Rightarrow> bond" where
  "bond_enqueue seq need off v p =
     p\<lparr>p_pending := (p_pending p)(slot_of_seq seq :=
          \<lparr>g_seq = seq, g_need = map (\<lambda>k. if k < p_bonded p then widen (p_placed p k) (need ! k) else 0) [0..<BOND_LINKS],
           g_off = off, g_value = v\<rparr>),
        p_waiting := p_waiting p + 1\<rparr>"

definition bond_signal :: "u64 \<Rightarrow> u32 list \<Rightarrow> u64 \<Rightarrow> u64 \<Rightarrow> mem \<times> bond \<Rightarrow> int \<times> mem \<times> bond" where
  "bond_signal seq need off v = (\<lambda>(m, p).
     if bond_signal_bad p seq off then (-1, m, p\<lparr>p_down := True\<rparr>)
     else (0, bond_drain (m, bond_enqueue seq need off v p)))"

definition bond_ready :: "nat \<Rightarrow> u64 \<Rightarrow> u32 \<Rightarrow> u32 \<Rightarrow> mem \<times> bond \<Rightarrow> int \<times> mem \<times> bond" where
  "bond_ready lane seq flags wait = (\<lambda>(m, p).
     let next = p_rx_signal p; other = p_placed p (if lane = 0 then 1 else 0) in
     (if p_down p \<or> seq < next \<or> BOND_SIGNALS \<le> seq - next then -1
      else if flags AND BOND_WAIT_SIGNALS \<noteq> 0 \<and> seq \<noteq> next then 0
      else if flags AND BOND_WAIT_LINK = 0 \<or> 0 \<le> sint (ucast other - wait :: u32) then 1 else 0,
      m, p))"

definition bond_ready_n :: "u64 \<Rightarrow> u32 \<Rightarrow> u32 list \<Rightarrow> mem \<times> bond \<Rightarrow> int \<times> mem \<times> bond" where
  "bond_ready_n seq flags wait = (\<lambda>(m, p).
     let next = p_rx_signal p in
     (if p_down p \<or> seq < next \<or> BOND_SIGNALS \<le> seq - next then -1
      else if flags AND BOND_WAIT_SIGNALS \<noteq> 0 \<and> seq \<noteq> next then 0
      else if \<exists>k < p_bonded p. sint (ucast (p_placed p k) - wait ! k :: u32) < 0 then 0
      else 1,
      m, p))"

definition bond_announce :: "nat \<Rightarrow> u64 \<Rightarrow> u32 \<Rightarrow> u32 \<Rightarrow> mem \<times> bond \<Rightarrow> int \<times> mem \<times> bond" where
  "bond_announce lane off len ordinal = (\<lambda>(m, p).
     let to = (if lane = 0 then 1 else 0) :: nat; put = p_tail_put p to in
     if BOND_SIGNALS \<le> put - p_tail_got p to then (1, m, p)
     else (0, m, p\<lparr>p_tails := (p_tails p)(to := (p_tails p to)(slot_of_seq put := \<lparr>a_off = off, a_len = len, a_ordinal = ordinal\<rparr>)),
             p_tail_put := (p_tail_put p)(to := put + 1)\<rparr>))"

definition bond_tail :: "nat \<Rightarrow> mem \<times> bond \<Rightarrow> (u64 \<times> u32 \<times> u32) option \<times> mem \<times> bond" where
  "bond_tail me = (\<lambda>(m, p).
     let got = p_tail_got p me in
     if got = p_tail_put p me then (None, m, p)
     else let a = p_tails p me (slot_of_seq got)
          in (Some (a_off a, a_len a, a_ordinal a), m, p\<lparr>p_tail_got := (p_tail_got p)(me := got + 1)\<rparr>))"

text \<open>The hooks \<open>connect_lane\<close> installs on lane \<open>k\<close> of a bond of \<open>n\<close> links.\<close>

definition bond_hooks :: "nat \<Rightarrow> nat \<Rightarrow> bond tb_bond" where
  "bond_hooks k n = \<lparr>b_lane = of_nat k, b_placed = Some (bond_placed k), b_signal = Some bond_signal,
     b_ready = Some (bond_ready k), b_announce = Some (bond_announce k), b_tail = Some (bond_tail k),
     b_links = of_nat n, b_ready_n = Some bond_ready_n\<rparr>"

subsection \<open>The contract of the links' hooks\<close>

text \<open>Every entry of the signal queue lies in the limits the peer may write.\<close>

definition bond_good :: "nat \<Rightarrow> nat \<Rightarrow> bond \<Rightarrow> bool" where
  "bond_good lo hi p \<longleftrightarrow> (\<forall>i. lo \<le> unat (g_off (p_pending p i)) \<and> unat (g_off (p_pending p i)) + 8 \<le> hi)"

lemma bond_drain_good:
  "bond_good lo hi p \<Longrightarrow> bond_drain (m, p) = (m', p') \<Longrightarrow> bond_good lo hi p' \<and> same_outside lo hi m m'"
proof (induction "(m, p)" arbitrary: m p rule: bond_drain.induct)
  case (1 m p)
  show ?case
  proof (cases "\<not> p_down p \<and> signal_ready p")
    case True
    obtain m1 p1 where e: "publish (m, p) = (m1, p1)" by fastforce
    have g: "lo \<le> unat (g_off (next_signal p)) \<and> unat (g_off (next_signal p)) + 8 \<le> hi"
      using "1.prems"(1) by (simp add: bond_good_def next_signal_def)
    then have "bond_good lo hi p1" using "1.prems"(1) e by (auto simp: bond_good_def publish_def)
    moreover have "same_outside lo hi m m1" using g e by (auto simp: publish_def intro: same_outside_write)
    moreover have "bond_drain (m1, p1) = (m', p')" using "1.prems"(2) True e by (simp add: bond_drain.simps [of m p])
    ultimately show ?thesis using "1.hyps" [OF True, of m1 p1] e by (auto intro: same_outside_trans)
  next
    case False
    then have "m' = m" "p' = p" using "1.prems"(2) by (auto simp: bond_drain.simps [of m p] split: if_splits)
    with "1.prems"(1) show ?thesis by simp
  qed
qed

lemma bond_enqueue_good:
  "bond_good lo hi p \<Longrightarrow> lo \<le> unat off \<Longrightarrow> unat off + 8 \<le> hi \<Longrightarrow> bond_good lo hi (bond_enqueue seq need off v p)"
  by (simp add: bond_good_def bond_enqueue_def)

interpretation fabric: rx_hooks "bond_hooks k n" "bond_good lo hi" lo hi for k n lo hi
proof (unfold_locales, goal_cases placed signal ready announce tail ready_n)
  case (placed f b c m m' b')
  from placed(2) have "bond_good lo hi (b\<lparr>p_placed := (p_placed b)(k := c)\<rparr>)" by (simp add: bond_good_def)
  with placed show ?case
    by (auto simp: bond_hooks_def bond_placed_def Let_def split: if_splits dest: bond_drain_good)
next
  case (signal g b off seq need v m r m' b')
  then show ?case
    by (auto simp: bond_hooks_def bond_signal_def split: if_splits dest: bond_drain_good [OF bond_enqueue_good])
      (simp add: bond_good_def)
next
  case (announce d b off len ord m r m' b')
  then show ?case by (auto simp: bond_hooks_def bond_announce_def Let_def bond_good_def split: if_splits)
next
  case (tail t b m x m' b')
  then show ?case by (auto simp: bond_hooks_def bond_tail_def Let_def bond_good_def split: if_splits)
qed (auto simp: bond_hooks_def bond_ready_def bond_ready_n_def Let_def)

subsection \<open>Counts over the wire\<close>

lemma scast_ucast_small:
  fixes d :: u64
  assumes "- (2 ^ 31) \<le> sint d" and "sint d < 2 ^ 31"
  shows "scast (ucast d :: u32) = d"
proof -
  have "signed_take_bit 31 (take_bit 64 (sint d)) = sint d"
    using assms by (simp add: signed_take_bit_take_bit signed_take_bit_int_eq_self)
  then have "sint (ucast d :: u32) = sint d" by (simp add: signed_ucast_eq uint_sint)
  then show ?thesis by (simp add: scast_eq)
qed

lemma ucast_diff: "ucast a - ucast b = (ucast (a - b :: u64) :: u32)"
proof transfer
  fix a b :: int
  have m: "x mod 18446744073709551616 mod 4294967296 = x mod 4294967296" for x :: int by (rule mod_mod_cancel) simp
  have "(a mod 18446744073709551616 - b mod 18446744073709551616) mod 4294967296 = (a - b) mod 4294967296"
    by (subst mod_diff_eq [symmetric]) (simp only: m mod_diff_eq)
  then show "take_bit LENGTH(32) (take_bit LENGTH(64) a - take_bit LENGTH(64) b) =
      take_bit LENGTH(32) (take_bit LENGTH(64) (a - b))"
    by (simp only: take_bit_eq_mod len_num0 len_num1 len_bit0 power_numeral) (simp add: m)
qed

lemma signed_distance:
  fixes a b :: u64
  assumes "unat a < unat b + 2 ^ 31" and "unat b < unat a + 2 ^ 31"
  shows "- (2 ^ 31) \<le> sint (a - b)" "sint (a - b) < 2 ^ 31"
proof -
  let ?d = "int (unat a) - int (unat b)"
  from assms have "unat a < unat b + 2147483648" "unat b < unat a + 2147483648" by simp_all
  then have d: "?d < 2147483648" "- 2147483648 < ?d" by linarith+
  have "a - b = word_of_int ?d" by (simp add: uint_nat [symmetric])
  then have "sint (a - b) = signed_take_bit 63 ?d" by (simp only: sint_sbintrunc') simp
  also have "\<dots> = ?d" by (intro signed_take_bit_int_eq_self) (use d in simp_all)
  finally have "sint (a - b) = ?d" .
  with d show "- (2 ^ 31) \<le> sint (a - b)" "sint (a - b) < 2 ^ 31" by simp_all
qed

subsection \<open>The announced tails\<close>

text \<open>
  The tails announced to lane \<open>to\<close> (0 or 1) and not yet taken, in order, and the two ends of the
  queue: the other lane announces, lane \<open>to\<close> takes.
\<close>

definition tails_in :: "nat \<Rightarrow> bond \<Rightarrow> bond_tail list" where
  "tails_in to p = map (\<lambda>i. p_tails p to (slot_of_seq (p_tail_got p to + of_nat i))) [0..<unat (p_tail_put p to - p_tail_got p to)]"

definition tails_ok :: "nat \<Rightarrow> bond \<Rightarrow> bool" where
  "tails_ok to p \<longleftrightarrow> unat (p_tail_put p to - p_tail_got p to) \<le> BOND_SIGNALS"

definition put_tail :: "nat \<Rightarrow> bond_tail \<Rightarrow> bond \<Rightarrow> bond option" where
  "put_tail lane a p = (case bond_announce lane (a_off a) (a_len a) (a_ordinal a) (\<lambda>_. 0, p) of
     (full, m, p1) \<Rightarrow> if full = 0 then Some p1 else None)"

definition get_tail :: "nat \<Rightarrow> bond \<Rightarrow> (bond_tail \<times> bond) option" where
  "get_tail me p = (case bond_tail me (\<lambda>_. 0, p) of
     (None, m, p1) \<Rightarrow> None
   | (Some (off, len, ordinal), m, p1) \<Rightarrow> Some (\<lparr>a_off = off, a_len = len, a_ordinal = ordinal\<rparr>, p1))"

lemma slot_distinct:
  assumes "i < BOND_SIGNALS" and "j < BOND_SIGNALS" and "i \<noteq> j"
  shows "slot_of_seq (g + of_nat i) \<noteq> slot_of_seq (g + of_nat j)"
proof -
  have m: "slot_of_seq (g + of_nat i) = (unat g + i) mod BOND_SIGNALS" for i
    by (simp add: slot_of_seq_def unat_mod unat_word_ariths unat_of_nat mod_mod_cancel mod_add_right_eq)
  have "(unat g + x) mod BOND_SIGNALS \<noteq> (unat g + y) mod BOND_SIGNALS" if "x < y" "y < BOND_SIGNALS" for x y
    using that mod_eq_dvd_iff_nat [of "unat g + x" "unat g + y" BOND_SIGNALS] by (auto dest: dvd_imp_le)
  from this [of i j] this [of j i] assms show ?thesis unfolding m by (metis linorder_neqE_nat)
qed

lemma put_tail_cases:
  "put_tail lane a p = (let to = (if lane = 0 then 1 else 0) in
     if BOND_SIGNALS \<le> p_tail_put p to - p_tail_got p to then None
     else Some (p\<lparr>p_tails := (p_tails p)(to := (p_tails p to)(slot_of_seq (p_tail_put p to) := a)),
       p_tail_put := (p_tail_put p)(to := p_tail_put p to + 1)\<rparr>))"
  by (cases a) (simp add: put_tail_def bond_announce_def Let_def)

lemma get_tail_cases:
  "get_tail me p = (if p_tail_got p me = p_tail_put p me then None
     else Some (p_tails p me (slot_of_seq (p_tail_got p me)), p\<lparr>p_tail_got := (p_tail_got p)(me := p_tail_got p me + 1)\<rparr>))"
  by (simp add: get_tail_def bond_tail_def Let_def)

lemma put_tail_items:
  assumes "tails_ok to p" and "to = (if lane = 0 then 1 else 0)" and "put_tail lane a p = Some p'"
  shows "tails_ok to p' \<and> tails_in to p' = tails_in to p @ [a]"
proof -
  let ?g = "p_tail_got p to" and ?q = "p_tail_put p to"
  let ?n = "unat (?q - ?g)"
  have n: "?n < BOND_SIGNALS" and p': "p' = p\<lparr>p_tails := (p_tails p)(to := (p_tails p to)(slot_of_seq ?q := a)),
      p_tail_put := (p_tail_put p)(to := ?q + 1)\<rparr>"
    using assms(3) unfolding put_tail_cases Let_def assms(2) [symmetric] word_le_nat_alt by (simp_all split: if_splits)
  have q: "?q = ?g + of_nat ?n" by simp
  have e: "?q + 1 - ?g = (?q - ?g) + 1" by (rule add_diff_eq [symmetric, THEN trans]) (simp add: add.commute)
  have "unat (?q - ?g) + unat (1 :: u64) < 2 ^ LENGTH(64)" using n by simp
  then have "unat (?q + 1 - ?g) = Suc ?n" unfolding e by (simp only: unat_add_small) simp
  moreover have "slot_of_seq (?g + of_nat i) \<noteq> slot_of_seq ?q" if "i < ?n" for i
    using slot_distinct [of i ?n ?g] that n q by simp
  ultimately show ?thesis using n unfolding tails_ok_def tails_in_def p' by simp
qed

lemma get_tail_items:
  assumes "tails_ok to p" and "get_tail to p = Some (a, p')"
  shows "tails_ok to p' \<and> tails_in to p = a # tails_in to p'"
proof -
  let ?g = "p_tail_got p to" and ?q = "p_tail_put p to"
  let ?n = "unat (?q - ?g)"
  have ne: "?q \<noteq> ?g" and a: "a = p_tails p to (slot_of_seq ?g)" and p': "p' = p\<lparr>p_tail_got := (p_tail_got p)(to := ?g + 1)\<rparr>"
    using assms(2) by (auto simp: get_tail_cases split: if_splits)
  have "?n \<noteq> 0" using ne by (simp add: unat_eq_0)
  have m: "unat (?q - (?g + 1)) = ?n - 1"
  proof -
    have "1 \<le> ?q - ?g" using ne by (simp add: word_le_nat_alt Suc_le_eq unat_gt_0)
    from unat_sub_le [OF this] show ?thesis by (simp add: algebra_simps)
  qed
  from \<open>?n \<noteq> 0\<close> obtain k where k: "?n = Suc k" by (cases ?n) auto
  have "tails_in to p = a # map (\<lambda>i. p_tails p to (slot_of_seq (?g + 1 + of_nat i))) [0..<k]"
    unfolding tails_in_def k a by (simp add: upt_conv_Cons map_Suc_upt [symmetric] algebra_simps del: upt_Suc)
  moreover have "tails_in to p' = map (\<lambda>i. p_tails p to (slot_of_seq (?g + 1 + of_nat i))) [0..<k]"
    unfolding tails_in_def p' by (simp add: m k)
  ultimately show ?thesis using assms(1) m unfolding tails_ok_def p' by simp
qed

lemma put_tail_full:
  "to = (if lane = 0 then 1 else 0) \<Longrightarrow> put_tail lane a p = None \<longleftrightarrow> BOND_SIGNALS \<le> length (tails_in to p)"
  by (auto simp: put_tail_cases Let_def tails_in_def word_le_nat_alt)

lemma get_tail_empty: "get_tail to p = None \<longleftrightarrow> tails_in to p = []"
  by (auto simp: get_tail_cases tails_in_def unat_eq_0)

interpretation tails0: bounded_queue "tails_in 0" "tails_ok 0" "put_tail 1" "get_tail 0" BOND_SIGNALS
  by unfold_locales
    (erule put_tail_items, simp_all add: put_tail_full [of 0] get_tail_empty get_tail_items)

interpretation tails1: bounded_queue "tails_in 1" "tails_ok 1" "put_tail 0" "get_tail 1" BOND_SIGNALS
  by unfold_locales
    (erule put_tail_items, simp_all add: put_tail_full [of 1] get_tail_empty get_tail_items)

subsection \<open>Properties\<close>

text \<open>
  A write count that travels as its low 32 bits comes back whole: widened against this end's
  count of the same link it is the sender's count, as long as the two are less than 2\^{}31 apart.
\<close>

lemma widen_recovers_count:
  assumes "unat count < unat near + 2 ^ 31" and "unat near < unat count + 2 ^ 31"
  shows "widen near (ucast count) = count"
  using scast_ucast_small [OF signed_distance [OF assms]] by (simp add: widen_def ucast_diff)

text \<open>
  C20: the tails that lane 0's joined parts announce to lane 1 are a bounded queue: whatever the order
  in which the two lanes announce and take, lane 1 takes the announcements in the order they were
  made, none twice and none that was not made, and never more than 4096 are waiting.
\<close>

theorem tails_in_order:
  assumes "queue_run (put_tail 0) (get_tail 1) ops p = (announced, taken, p')" and "tails_ok 1 p"
  shows "tails_in 1 p @ announced = taken @ tails_in 1 p' \<and> length (tails_in 1 p') \<le> BOND_SIGNALS"
proof -
  have "length (tails_in 1 p) \<le> BOND_SIGNALS" using assms(2) by (simp add: tails_ok_def tails_in_def)
  with tails1.run_keeps [OF assms] show ?thesis by blast
qed

definition sample_tails :: bond where
  "sample_tails = \<lparr>p_down = False, p_bonded = 2, p_length = 64,
     p_pending = (\<lambda>_. \<lparr>g_seq = 0, g_need = replicate BOND_LINKS 0, g_off = 0, g_value = 0\<rparr>), p_placed = (\<lambda>_. 0),
     p_rx_signal = 1, p_waiting = 0, p_tails = (\<lambda>_ _. \<lparr>a_off = 0, a_len = 0, a_ordinal = 0\<rparr>),
     p_tail_put = (\<lambda>_. 0), p_tail_got = (\<lambda>_. 0)\<rparr>"

theorem tails_in_order_witness:
  "\<exists>announced taken p'. queue_run (put_tail 0) (get_tail 1)
      [Put \<lparr>a_off = 8, a_len = 4, a_ordinal = 1\<rparr>, Get, Get] sample_tails = (announced, taken, p') \<and>
    announced = taken @ tails_in 1 p'"
proof -
  obtain announced taken p' where r: "queue_run (put_tail 0) (get_tail 1)
      [Put \<lparr>a_off = 8, a_len = 4, a_ordinal = 1\<rparr>, Get, Get] sample_tails = (announced, taken, p')"
    by (cases "queue_run (put_tail 0) (get_tail 1) [Put \<lparr>a_off = 8, a_len = 4, a_ordinal = 1\<rparr>, Get, Get] sample_tails") auto
  have "tails_ok 1 sample_tails" "tails_in 1 sample_tails = []" by (simp_all add: tails_ok_def tails_in_def sample_tails_def)
  with tails_in_order [OF r] r show ?thesis by simp
qed

end
