(* ===== verification/Bond_Conc.thy ===== *)
theory Bond_Conc
  imports Bond_Rx
begin

section \<open>The links' threads on one bond (rpc/libmcdma\_fabric.c)\<close>

text \<open>
  Each link of a bond places its messages on its own thread, so the hooks of different links run at
  the same time. Here they run in the atomic steps the code has: \<open>bond_placed\<close> stores the link's
  count, then loads \<open>waiting\<close>, then drains under \<open>rx_lock\<close>; a drain compares the next signal's
  watermarks with the counts one by one, while other links may store theirs; \<open>bond_signal\<close> enters
  its signal and raises \<open>waiting\<close> under the lock. The counts and \<open>waiting\<close> are accessed
  sequentially consistently, as in the code, so an execution is an interleaving of these steps.
\<close>

subsection \<open>Threads and their steps\<close>

datatype pc = Idle | Stored | Wants | Checking nat | Leaving

record conc =
  c_bond :: bond
  c_mem :: mem
  c_pc :: "nat \<Rightarrow> pc"
  c_lock :: "nat option"
  c_log :: "bond_signal list"

abbreviation at :: "conc \<Rightarrow> nat \<Rightarrow> pc \<Rightarrow> conc" where
  "at c k x \<equiv> c\<lparr>c_pc := (c_pc c)(k := x)\<rparr>"

abbreviation placed_one :: "nat \<Rightarrow> bond \<Rightarrow> bond" where
  "placed_one k p \<equiv> p\<lparr>p_placed := (p_placed p)(k := p_placed p k + 1)\<rparr>"

text \<open>The steps of the thread of link \<open>k\<close>; \<open>c_log\<close> records what was published and is read by no step.\<close>

inductive conc_step :: "conc \<Rightarrow> conc \<Rightarrow> bool" where
  store: "k < p_bonded (c_bond c) \<Longrightarrow> c_pc c k = Idle \<Longrightarrow> p_placed (c_bond c) k < p_placed (c_bond c) k + 1 \<Longrightarrow>
    conc_step c (at (c\<lparr>c_bond := placed_one k (c_bond c)\<rparr>) k Stored)"
| none_waits: "c_pc c k = Stored \<Longrightarrow> p_waiting (c_bond c) = 0 \<Longrightarrow> conc_step c (at c k Idle)"
| some_waits: "c_pc c k = Stored \<Longrightarrow> p_waiting (c_bond c) \<noteq> 0 \<Longrightarrow> conc_step c (at c k Wants)"
| lock: "c_pc c k = Wants \<Longrightarrow> c_lock c = None \<Longrightarrow> conc_step c (at (c\<lparr>c_lock := Some k\<rparr>) k (Checking 0))"
| signal: "k < p_bonded (c_bond c) \<Longrightarrow> c_pc c k = Idle \<Longrightarrow> c_lock c = None \<Longrightarrow> \<not> bond_signal_bad (c_bond c) seq off \<Longrightarrow>
    conc_step c (at (c\<lparr>c_bond := bond_enqueue seq need off v (c_bond c), c_lock := Some k\<rparr>) k (Checking 0))"
| refused: "c_pc c k = Idle \<Longrightarrow> c_lock c = None \<Longrightarrow> bond_signal_bad (c_bond c) seq off \<Longrightarrow>
    conc_step c (c\<lparr>c_bond := (c_bond c)\<lparr>p_down := True\<rparr>\<rparr>)"
| fails: "conc_step c (c\<lparr>c_bond := (c_bond c)\<lparr>p_down := True\<rparr>\<rparr>)"
| stop: "c_pc c k = Checking 0 \<Longrightarrow> p_down (c_bond c) \<or> g_seq (next_signal (c_bond c)) \<noteq> p_rx_signal (c_bond c) \<Longrightarrow>
    conc_step c (at c k Leaving)"
| covers: "c_pc c k = Checking j \<Longrightarrow> j < p_bonded (c_bond c) \<Longrightarrow>
    j = 0 \<longrightarrow> \<not> p_down (c_bond c) \<and> g_seq (next_signal (c_bond c)) = p_rx_signal (c_bond c) \<Longrightarrow>
    g_need (next_signal (c_bond c)) ! j \<le> p_placed (c_bond c) j \<Longrightarrow> conc_step c (at c k (Checking (Suc j)))"
| short: "c_pc c k = Checking j \<Longrightarrow> j < p_bonded (c_bond c) \<Longrightarrow>
    \<not> g_need (next_signal (c_bond c)) ! j \<le> p_placed (c_bond c) j \<Longrightarrow> conc_step c (at c k Leaving)"
| publishes: "c_pc c k = Checking (p_bonded (c_bond c)) \<Longrightarrow> 0 < p_bonded (c_bond c) \<Longrightarrow>
    publish (c_mem c, c_bond c) = (m', p') \<Longrightarrow>
    conc_step c (at (c\<lparr>c_bond := p', c_mem := m', c_log := c_log c @ [next_signal (c_bond c)]\<rparr>) k (Checking 0))"
| unlock: "c_pc c k = Leaving \<Longrightarrow> conc_step c (at (c\<lparr>c_lock := None\<rparr>) k Idle)"

text \<open>A bond as \<open>mcdma_fabric_connect_links\<close> makes it: nothing placed, the first signal is number 1.\<close>

definition fresh_bond :: "nat \<Rightarrow> u64 \<Rightarrow> bond" where
  "fresh_bond n len = \<lparr>p_down = False, p_bonded = n, p_length = len,
     p_pending = (\<lambda>_. \<lparr>g_seq = 0, g_need = replicate BOND_LINKS 0, g_off = 0, g_value = 0\<rparr>), p_placed = (\<lambda>_. 0),
     p_rx_signal = 1, p_waiting = 0, p_tails = (\<lambda>_ _. \<lparr>a_off = 0, a_len = 0, a_ordinal = 0\<rparr>),
     p_tail_put = (\<lambda>_. 0), p_tail_got = (\<lambda>_. 0)\<rparr>"

definition conc_start :: "nat \<Rightarrow> u64 \<Rightarrow> mem \<Rightarrow> conc" where
  "conc_start n len m = \<lparr>c_bond = fresh_bond n len, c_mem = m, c_pc = (\<lambda>_. Idle), c_lock = None, c_log = []\<rparr>"

subsection \<open>Invariant\<close>

text \<open>
  The thread inside the lock is its holder; one that has checked \<open>j\<close> links has the next signal in
  front of it, covered on those links. The log has every signal in sequence, each covered.
  \<open>waiting\<close> counts the signals in the queue. A signal that could be published has a thread that
  will still look at it.
\<close>

definition holds :: "pc \<Rightarrow> bool" where
  "holds x = (case x of Checking _ \<Rightarrow> True | Leaving \<Rightarrow> True | _ \<Rightarrow> False)"

definition active :: "pc \<Rightarrow> bool" where
  "active x = (case x of Stored \<Rightarrow> True | Wants \<Rightarrow> True | Checking _ \<Rightarrow> True | _ \<Rightarrow> False)"

definition checked :: "bond \<Rightarrow> nat \<Rightarrow> bool" where
  "checked p j \<longleftrightarrow> (0 < j \<longrightarrow> g_seq (next_signal p) = p_rx_signal p) \<and>
     (\<forall>i < j. i < p_bonded p \<longrightarrow> g_need (next_signal p) ! i \<le> p_placed p i)"

definition lock_inv :: "conc \<Rightarrow> bool" where
  "lock_inv c \<longleftrightarrow> (\<forall>k. holds (c_pc c k) \<longleftrightarrow> c_lock c = Some k) \<and> (\<forall>k j. c_pc c k = Checking j \<longrightarrow> checked (c_bond c) j)"

definition log_inv :: "conc \<Rightarrow> bool" where
  "log_inv c \<longleftrightarrow> map g_seq (c_log c) = map (\<lambda>i. of_nat (Suc i)) [0..<length (c_log c)] \<and>
     p_rx_signal (c_bond c) = of_nat (Suc (length (c_log c))) \<and> (\<forall>s \<in> set (c_log c). covered (c_bond c) s)"

definition wake_inv :: "conc \<Rightarrow> bool" where
  "wake_inv c \<longleftrightarrow> p_waiting (c_bond c) = of_nat (card (pending_slots (c_bond c))) \<and>
     (\<not> p_down (c_bond c) \<longrightarrow> signal_ready (c_bond c) \<longrightarrow> (\<exists>k. active (c_pc c k)))"

lemma card_pending: "card (pending_slots p) \<le> BOND_SIGNALS"
proof -
  have "card (pending_slots p) \<le> card {..<BOND_SIGNALS :: nat}" by (rule card_mono) (auto simp: pending_slots_def)
  then show ?thesis by simp
qed

lemma waiting_zero:
  assumes "p_waiting p = of_nat (card (pending_slots p))" and "p_waiting p = 0" and "p_rx_signal p \<noteq> 0"
  shows "\<not> signal_ready p"
proof -
  have "unat (of_nat (card (pending_slots p)) :: u32) = card (pending_slots p)"
    using card_pending [of p] by (simp add: unat_of_nat)
  with assms(1,2) have "pending_slots p = {}" by simp
  then have "g_seq (next_signal p) = 0"
    using slot_of_seq_less [of "p_rx_signal p"] unfolding pending_slots_def next_signal_def by blast
  with assms(3) show ?thesis by (simp add: signal_ready_def)
qed

subsection \<open>Every step keeps it\<close>

lemma pc_simps [simp]:
  "holds Idle = False" "holds Stored = False" "holds Wants = False" "holds (Checking j) = True" "holds Leaving = True"
  "active Idle = False" "active Stored = True" "active Wants = True" "active (Checking j) = True" "active Leaving = False"
  by (simp_all add: holds_def active_def)

lemma next_signal_upd [simp]:
  "next_signal (p\<lparr>p_placed := f\<rparr>) = next_signal p" "next_signal (p\<lparr>p_down := b\<rparr>) = next_signal p"
  by (simp_all add: next_signal_def)

lemma pending_upd [simp]:
  "pending_slots (p\<lparr>p_placed := f\<rparr>) = pending_slots p" "pending_slots (p\<lparr>p_down := b\<rparr>) = pending_slots p"
  by (simp_all add: pending_slots_def)

lemma checked_simps [simp]: "checked p 0" "checked (p\<lparr>p_down := b\<rparr>) j = checked p j"
  by (simp_all add: checked_def)

lemma placed_grows:
  assumes "p_placed p k < p_placed p k + 1"
  shows "checked p j \<Longrightarrow> checked (placed_one k p) j" "covered p s \<Longrightarrow> covered (placed_one k p) s"
  using assms by (auto simp: checked_def covered_def dest: order.strict_trans1 less_imp_le)

lemma publish_fields:
  assumes "publish (m, p) = (m', p')"
  shows "p_placed p' = p_placed p" "p_bonded p' = p_bonded p" "p_rx_signal p' = p_rx_signal p + 1"
    "p_waiting p' = p_waiting p - 1" "covered p' = covered p" "p_down p' = p_down p"
  using assms by (auto simp: publish_def covered_def fun_eq_iff)

lemma step_bonded: "conc_step c c' \<Longrightarrow> p_bonded (c_bond c') = p_bonded (c_bond c)"
  by (induction rule: conc_step.induct) (simp_all add: bond_enqueue_def publish_fields)

lemma step_lock_inv:
  assumes "conc_step c c'" and "lock_inv c"
  shows "lock_inv c'"
  using assms
proof (induction rule: conc_step.induct)
  case (store k c)
  then have "c_lock c \<noteq> Some k" by (metis lock_inv_def pc_simps(1))
  with store show ?case by (auto simp: lock_inv_def intro: placed_grows)
next
  case (none_waits c k)
  then have "c_lock c \<noteq> Some k" by (metis lock_inv_def pc_simps(2))
  with none_waits show ?case by (auto simp: lock_inv_def)
next
  case (some_waits c k)
  then have "c_lock c \<noteq> Some k" by (metis lock_inv_def pc_simps(2))
  with some_waits show ?case by (auto simp: lock_inv_def)
next
  case (signal k c seq off need v)
  then have "\<not> holds (c_pc c i)" for i by (simp add: lock_inv_def)
  then have "c_pc c i \<noteq> Checking j" for i j by (metis pc_simps(4))
  with signal show ?case by (simp add: lock_inv_def)
next
  case (publishes c k m' p')
  then have "c_lock c = Some k" by (metis lock_inv_def pc_simps(4))
  then have "c_pc c i \<noteq> Checking j" if "i \<noteq> k" for i j
    using that publishes(4) by (metis lock_inv_def option.inject pc_simps(4))
  with publishes show ?case by (auto simp: lock_inv_def)
next
  case (unlock c k)
  then have "c_lock c = Some k" by (metis lock_inv_def pc_simps(5))
  with unlock show ?case by (auto simp: lock_inv_def)
qed (auto simp: lock_inv_def checked_def less_Suc_eq split: if_splits)

lemma step_log_inv:
  assumes "conc_step c c'" and "lock_inv c" and "log_inv c"
  shows "log_inv c'"
  using assms
proof (induction rule: conc_step.induct)
  case (store k c)
  then show ?case by (auto simp: log_inv_def intro: placed_grows)
next
  case (signal k c seq off need v)
  then show ?case by (simp add: log_inv_def bond_enqueue_def covered_def)
next
  case (publishes c k m' p')
  then have "checked (c_bond c) (p_bonded (c_bond c))" by (simp add: lock_inv_def)
  with publishes(2) have "g_seq (next_signal (c_bond c)) = p_rx_signal (c_bond c)" "covered (c_bond c) (next_signal (c_bond c))"
    by (simp_all add: checked_def covered_def)
  with publishes(5) publish_fields [OF publishes(3)] show ?case by (simp add: log_inv_def)
qed (auto simp: log_inv_def covered_def)

lemma enqueue_pending:
  assumes "\<not> bond_signal_bad p seq off" and "p_rx_signal p \<noteq> 0"
  shows "card (pending_slots (bond_enqueue seq need off v p)) = Suc (card (pending_slots p))"
proof -
  have "seq \<noteq> 0" using assms by (auto simp: bond_signal_bad_def word_less_nat_alt unat_gt_0)
  then have "pending_slots (bond_enqueue seq need off v p) = insert (slot_of_seq seq) (pending_slots p)"
    by (auto simp: pending_slots_def bond_enqueue_def)
  moreover have "slot_of_seq seq \<notin> pending_slots p" using assms(1) by (simp add: bond_signal_bad_def pending_slots_def)
  ultimately show ?thesis by simp
qed

lemma step_wake_inv:
  assumes "conc_step c c'" and "lock_inv c" and "wake_inv c" and "p_rx_signal (c_bond c) \<noteq> 0"
  shows "wake_inv c'"
  using assms
proof (induction rule: conc_step.induct)
  case (store k c)
  then show ?case by (auto simp: wake_inv_def intro: exI [of _ k])
next
  case (none_waits c k)
  then show ?case using waiting_zero by (simp add: wake_inv_def)
next
  case (signal k c seq off need v)
  then have "p_waiting (bond_enqueue seq need off v (c_bond c)) = of_nat (Suc (card (pending_slots (c_bond c))))"
    by (simp add: wake_inv_def bond_enqueue_def)
  then show ?case using enqueue_pending [OF signal(4,7)] by (auto simp: wake_inv_def intro: exI [of _ k])
next
  case (publishes c k m' p')
  then have "checked (c_bond c) (p_bonded (c_bond c))" by (simp add: lock_inv_def)
  with publishes(2,6) have "g_seq (next_signal (c_bond c)) \<noteq> 0" by (simp add: checked_def)
  from card_publish [OF this, of "c_mem c"] publishes publish_fields(4) [OF publishes(3)] show ?case
    by (auto simp: wake_inv_def intro: exI [of _ k])
next
  case (unlock c k)
  then show ?case by (auto simp: wake_inv_def) (metis pc_simps(10))
next
  case (stop c k)
  then show ?case by (auto simp: wake_inv_def signal_ready_def)
next
  case (short c k j)
  then show ?case by (auto simp: wake_inv_def signal_ready_def covered_def)
qed (auto simp: wake_inv_def)

definition conc_inv :: "conc \<Rightarrow> bool" where
  "conc_inv c \<longleftrightarrow> lock_inv c \<and> log_inv c \<and> (length (c_log c) < 2 ^ 64 - 1 \<longrightarrow> wake_inv c)"

lemma conc_start_inv: "conc_inv (conc_start n len m)"
  by (simp add: conc_inv_def conc_start_def fresh_bond_def lock_inv_def log_inv_def wake_inv_def pending_slots_def
      signal_ready_def next_signal_def)

lemma step_log_grows: "conc_step c c' \<Longrightarrow> length (c_log c) \<le> length (c_log c')"
  by (induction rule: conc_step.induct) simp_all

lemma step_conc_inv:
  assumes "conc_step c c'" and "conc_inv c"
  shows "conc_inv c'"
proof -
  have i: "lock_inv c" "log_inv c" and w: "length (c_log c) < 2 ^ 64 - 1 \<Longrightarrow> wake_inv c"
    using assms(2) by (simp_all add: conc_inv_def)
  have "wake_inv c'" if "length (c_log c') < 2 ^ 64 - 1"
  proof (rule step_wake_inv [OF assms(1) i(1)])
    have l: "length (c_log c) < 2 ^ 64 - 1" using that step_log_grows [OF assms(1)] by simp
    then show "wake_inv c" by (rule w)
    have "unat (of_nat (Suc (length (c_log c))) :: u64) = Suc (length (c_log c))" using l by (simp add: unat_of_nat del: of_nat_Suc)
    then show "p_rx_signal (c_bond c) \<noteq> 0" using i(2) by (auto simp: log_inv_def)
  qed
  with step_lock_inv [OF assms(1) i(1)] step_log_inv [OF assms(1) i] show ?thesis by (simp add: conc_inv_def)
qed

lemma reach_conc_inv: "conc_step\<^sup>*\<^sup>* (conc_start n len m) c \<Longrightarrow> conc_inv c"
  by (induction rule: rtranclp_induct) (auto intro: conc_start_inv step_conc_inv)

subsection \<open>A hook on its own\<close>

text \<open>Without interference, the steps of a hook give what its function gives.\<close>

lemma run_checks:
  assumes "c_pc c k = Checking 0" and "\<not> p_down (c_bond c)" and "g_seq (next_signal (c_bond c)) = p_rx_signal (c_bond c)"
    and "j \<le> p_bonded (c_bond c)" and "\<forall>i < j. g_need (next_signal (c_bond c)) ! i \<le> p_placed (c_bond c) i"
  shows "conc_step\<^sup>*\<^sup>* c (at c k (Checking j))"
  using assms(4,5)
proof (induction j)
  case 0
  have "at c k (Checking 0) = c" using assms(1) by (metis fun_upd_triv conc.surjective conc.update_convs(3))
  then show ?case by (simp only: rtranclp.rtrancl_refl)
next
  case (Suc j)
  have "conc_step (at c k (Checking j)) (at (at c k (Checking j)) k (Checking (Suc j)))"
    by (rule conc_step.covers) (use Suc.prems assms(2,3) in simp_all)
  moreover have "at (at c k (Checking j)) k (Checking (Suc j)) = at c k (Checking (Suc j))" by simp
  moreover have "conc_step\<^sup>*\<^sup>* c (at c k (Checking j))" by (rule Suc.IH) (use Suc.prems in simp_all)
  ultimately show ?case by (metis rtranclp.rtrancl_into_rtrancl)
qed

lemma run_drain:
  assumes "c_pc c k = Checking 0" and "0 < p_bonded (c_bond c)"
  shows "\<exists>c'. conc_step\<^sup>*\<^sup>* c c' \<and> c_pc c' = (c_pc c)(k := Leaving) \<and> c_lock c' = c_lock c \<and>
    (c_mem c', c_bond c') = bond_drain (c_mem c, c_bond c)"
  using assms
proof (induction "(c_mem c, c_bond c)" arbitrary: c rule: bond_drain.induct)
  case (1 c)
  let ?p = "c_bond c"
  consider (go) "\<not> p_down ?p \<and> signal_ready ?p" | (gone) "p_down ?p \<or> g_seq (next_signal ?p) \<noteq> p_rx_signal ?p"
    | (uncovered) "\<not> p_down ?p" "g_seq (next_signal ?p) = p_rx_signal ?p" "\<not> covered ?p (next_signal ?p)"
    by (auto simp: signal_ready_def)
  then show ?case
  proof cases
    case go
    obtain m' p' where e: "publish (c_mem c, ?p) = (m', p')" by fastforce
    let ?c1 = "at c k (Checking (p_bonded ?p))"
    let ?c2 = "at (?c1\<lparr>c_bond := p', c_mem := m', c_log := c_log c @ [next_signal ?p]\<rparr>) k (Checking 0)"
    have "conc_step\<^sup>*\<^sup>* c ?c1" using go by (intro run_checks "1.prems") (auto simp: signal_ready_def covered_def)
    moreover have "conc_step ?c1 (at (?c1\<lparr>c_bond := p', c_mem := m', c_log := c_log ?c1 @ [next_signal (c_bond ?c1)]\<rparr>) k (Checking 0))"
      using e "1.prems"(2) by (intro conc_step.publishes) simp_all
    ultimately have r: "conc_step\<^sup>*\<^sup>* c ?c2" by simp
    have "\<exists>c'. conc_step\<^sup>*\<^sup>* ?c2 c' \<and> c_pc c' = (c_pc ?c2)(k := Leaving) \<and> c_lock c' = c_lock ?c2 \<and>
        (c_mem c', c_bond c') = bond_drain (c_mem ?c2, c_bond ?c2)"
      using "1.prems"(2) publish_fields(2) [OF e] by (intro "1.hyps" [OF go]) (simp_all add: e)
    then obtain c' where "conc_step\<^sup>*\<^sup>* ?c2 c'" "c_pc c' = (c_pc c)(k := Leaving)" "c_lock c' = c_lock c"
        "(c_mem c', c_bond c') = bond_drain (m', p')" by auto
    moreover have "bond_drain (c_mem c, ?p) = bond_drain (m', p')" using go e by (simp add: bond_drain.simps [of "c_mem c"])
    ultimately show ?thesis using rtranclp_trans [OF r, of c'] by (intro exI [of _ c']) (simp only: simp_thms)
  next
    case gone
    then have "conc_step c (at c k Leaving)" by (intro conc_step.stop "1.prems")
    moreover have "bond_drain (c_mem c, ?p) = (c_mem c, ?p)"
      using gone by (subst bond_drain.simps) (auto simp: signal_ready_def)
    ultimately show ?thesis by (intro exI [of _ "at c k Leaving"]) auto
  next
    case uncovered
    let ?bad = "\<lambda>i. i < p_bonded ?p \<and> \<not> g_need (next_signal ?p) ! i \<le> p_placed ?p i"
    define j where "j = (LEAST i. ?bad i)"
    have "\<exists>i. ?bad i" using uncovered(3) by (auto simp: covered_def)
    then have j: "?bad j" and l: "\<And>i. i < j \<Longrightarrow> \<not> ?bad i" unfolding j_def by (metis (mono_tags, lifting) LeastI_ex, metis (mono_tags, lifting) not_less_Least)
    have "conc_step\<^sup>*\<^sup>* c (at c k (Checking j))" using j l by (intro run_checks "1.prems" uncovered) auto
    moreover have "conc_step (at c k (Checking j)) (at (at c k (Checking j)) k Leaving)"
      by (rule conc_step.short) (use j in auto)
    ultimately have "conc_step\<^sup>*\<^sup>* c (at c k Leaving)" by simp
    moreover have "bond_drain (c_mem c, ?p) = (c_mem c, ?p)"
      using uncovered by (subst bond_drain.simps) (auto simp: signal_ready_def)
    ultimately show ?thesis by (intro exI [of _ "at c k Leaving"]) auto
  qed
qed

lemma run_locked:
  assumes "c_pc c k = Checking 0" and "0 < p_bonded (c_bond c)"
  shows "\<exists>c'. conc_step\<^sup>*\<^sup>* c c' \<and> c_pc c' = (c_pc c)(k := Idle) \<and> c_lock c' = None \<and>
    (c_mem c', c_bond c') = bond_drain (c_mem c, c_bond c)"
proof -
  obtain c1 where c1: "conc_step\<^sup>*\<^sup>* c c1" "c_pc c1 = (c_pc c)(k := Leaving)"
      "(c_mem c1, c_bond c1) = bond_drain (c_mem c, c_bond c)"
    using run_drain [OF assms] by blast
  have "conc_step c1 (at (c1\<lparr>c_lock := None\<rparr>) k Idle)" by (rule conc_step.unlock) (simp add: c1(2))
  with c1 show ?thesis by (intro exI [of _ "at (c1\<lparr>c_lock := None\<rparr>) k Idle"]) (auto intro: rtranclp.rtrancl_into_rtrancl)
qed

lemma run_placed:
  assumes "k < p_bonded (c_bond c)" and "c_pc c k = Idle" and "c_lock c = None"
    and "p_placed (c_bond c) k < p_placed (c_bond c) k + 1"
  shows "\<exists>c'. conc_step\<^sup>*\<^sup>* c c' \<and> c_pc c' = c_pc c \<and> c_lock c' = None \<and>
    (c_mem c', c_bond c') = bond_placed k (p_placed (c_bond c) k + 1) (c_mem c, c_bond c)"
proof -
  define c1 where "c1 = at (c\<lparr>c_bond := placed_one k (c_bond c)\<rparr>) k Stored"
  have s1: "conc_step c c1" unfolding c1_def by (rule conc_step.store [OF assms(1,2,4)])
  have pc0: "(c_pc c)(k := Idle) = c_pc c" using assms(2) by auto
  show ?thesis
  proof (cases "p_waiting (c_bond c) = 0")
    case True
    have "conc_step c1 (at c1 k Idle)" by (rule conc_step.none_waits) (simp_all add: c1_def True)
    then have "conc_step\<^sup>*\<^sup>* c (at c1 k Idle)" by (rule rtranclp.rtrancl_into_rtrancl [OF r_into_rtranclp [of conc_step, OF s1]])
    then show ?thesis
      by (intro exI [of _ "at c1 k Idle"]) (simp add: c1_def pc0 assms(3) True bond_placed_def)
  next
    case False
    define c2 where "c2 = at c1 k Wants"
    define c3 where "c3 = at (c2\<lparr>c_lock := Some k\<rparr>) k (Checking 0)"
    have s2: "conc_step c1 c2" unfolding c2_def by (rule conc_step.some_waits) (simp_all add: c1_def False)
    have s3: "conc_step c2 c3" unfolding c3_def by (rule conc_step.lock) (simp_all add: c2_def c1_def assms(3))
    have r: "conc_step\<^sup>*\<^sup>* c c3"
      by (rule rtranclp.rtrancl_into_rtrancl [OF rtranclp.rtrancl_into_rtrancl [OF r_into_rtranclp [of conc_step, OF s1] s2] s3])
    obtain c' where c': "conc_step\<^sup>*\<^sup>* c3 c'" "c_pc c' = (c_pc c3)(k := Idle)" "c_lock c' = None"
        "(c_mem c', c_bond c') = bond_drain (c_mem c3, c_bond c3)"
      using run_locked [of c3 k] assms(1) by (auto simp: c3_def c2_def c1_def)
    then show ?thesis using rtranclp_trans [OF r c'(1)]
      by (intro exI [of _ c']) (simp add: c3_def c2_def c1_def pc0 False bond_placed_def)
  qed
qed

lemma run_signal:
  assumes "k < p_bonded (c_bond c)" and "c_pc c k = Idle" and "c_lock c = None"
  shows "\<exists>c'. conc_step\<^sup>*\<^sup>* c c' \<and> c_pc c' = c_pc c \<and> c_lock c' = None \<and>
    (c_mem c', c_bond c') = snd (bond_signal seq need off v (c_mem c, c_bond c))"
proof (cases "bond_signal_bad (c_bond c) seq off")
  case True
  from conc_step.refused [OF assms(2,3) this] show ?thesis
    using assms(3) True by (intro exI [of _ "c\<lparr>c_bond := (c_bond c)\<lparr>p_down := True\<rparr>\<rparr>"]) (auto simp: bond_signal_def)
next
  case False
  define c1 where "c1 = at (c\<lparr>c_bond := bond_enqueue seq need off v (c_bond c), c_lock := Some k\<rparr>) k (Checking 0)"
  have r: "conc_step\<^sup>*\<^sup>* c c1" unfolding c1_def using conc_step.signal [OF assms False] by blast
  obtain c' where c': "conc_step\<^sup>*\<^sup>* c1 c'" "c_pc c' = (c_pc c1)(k := Idle)" "c_lock c' = None"
      "(c_mem c', c_bond c') = bond_drain (c_mem c1, c_bond c1)"
    using run_locked [of c1 k] assms(1) by (auto simp: c1_def bond_enqueue_def)
  have "(c_pc c)(k := Idle) = c_pc c" using assms(2) by auto
  then show ?thesis using rtranclp_trans [OF r c'(1)] c' False
    by (intro exI [of _ c']) (simp add: c1_def bond_signal_def)
qed

subsection \<open>A sample run\<close>

text \<open>A bond of two links on a window of 64 bytes; link 0 places a write, then link 1 brings signal 1 that covers it.\<close>

definition sample_start :: conc where
  "sample_start = conc_start 2 64 (\<lambda>_. 0)"

definition sample_placed :: bond where
  "sample_placed = snd (bond_placed 0 1 (\<lambda>_. 0, fresh_bond 2 64))"

definition sample_published :: "mem \<times> bond" where
  "sample_published = snd (bond_signal 1 [1, 0] 8 5 (\<lambda>_. 0, sample_placed))"

lemma sample_placed_eq: "sample_placed = (fresh_bond 2 64)\<lparr>p_placed := (\<lambda>_. 0)(0 := 1)\<rparr>"
  by (simp add: sample_placed_def bond_placed_def fresh_bond_def)

lemma sample_bonded: "p_bonded sample_placed = 2"
  by (simp add: sample_placed_eq fresh_bond_def)

lemma sample_fields [simp]:
  "p_bonded (fresh_bond n len) = n" "p_placed (fresh_bond n len) = (\<lambda>_. 0)" "c_pc sample_start = (\<lambda>_. Idle)"
  "c_lock sample_start = None" "c_mem sample_start = (\<lambda>_. 0)" "c_bond sample_start = fresh_bond 2 64"
  "p_down (fresh_bond n len) = False" "c_log sample_start = []"
  by (simp_all add: sample_start_def conc_start_def fresh_bond_def)

lemma sample_run:
  "\<exists>c. conc_step\<^sup>*\<^sup>* sample_start c \<and> (\<forall>k. c_pc c k = Idle) \<and> (c_mem c, c_bond c) = sample_published"
proof -
  obtain c1 where c1: "conc_step\<^sup>*\<^sup>* sample_start c1" "c_pc c1 = c_pc sample_start" "c_lock c1 = None"
      "(c_mem c1, c_bond c1) = bond_placed 0 1 (\<lambda>_. 0, fresh_bond 2 64)"
    using run_placed [of 0 sample_start] by auto
  have m: "c_mem c1 = (\<lambda>_. 0)" "c_bond c1 = sample_placed"
    using c1(4) by (auto simp: sample_placed_def bond_placed_def fresh_bond_def)
  obtain c2 where c2: "conc_step\<^sup>*\<^sup>* c1 c2" "c_pc c2 = c_pc c1" "(c_mem c2, c_bond c2) = sample_published"
    using run_signal [of 1 c1 1 "[1, 0]" 8 5] by (auto simp: m sample_bonded c1(2,3) sample_published_def)
  from rtranclp_trans [OF c1(1) c2(1)] show ?thesis
    by (intro exI [of _ c2]) (simp add: c2(2,3) c1(2))
qed

subsection \<open>Properties\<close>

text \<open>
  C9: however the threads of a bond's links interleave, the signals it publishes are numbers 1, 2,
  3 and so on with none left out or repeated, and each one only after every link has placed at
  least the writes the signal covers on that link.
\<close>

theorem signals_in_sequence:
  assumes "conc_step\<^sup>*\<^sup>* (conc_start n len m) c"
  shows "map g_seq (c_log c) = map (\<lambda>i. of_nat (Suc i)) [0..<length (c_log c)] \<and>
    (\<forall>s \<in> set (c_log c). \<forall>k < n. g_need s ! k \<le> p_placed (c_bond c) k)"
proof -
  have "p_bonded (c_bond c) = n"
    using assms by (induction rule: rtranclp_induct) (auto simp: conc_start_def fresh_bond_def step_bonded)
  with reach_conc_inv [OF assms] show ?thesis by (auto simp: conc_inv_def log_inv_def covered_def)
qed

theorem signals_in_sequence_witness:
  "\<exists>c. conc_step\<^sup>*\<^sup>* sample_start c \<and> (\<forall>s \<in> set (c_log c). \<forall>k < 2. g_need s ! k \<le> p_placed (c_bond c) k)"
proof -
  obtain c where c: "conc_step\<^sup>*\<^sup>* sample_start c" using sample_run by blast
  with signals_in_sequence [of 2 64 "\<lambda>_. 0" c] show ?thesis unfolding sample_start_def by blast
qed

text \<open>
  C10: no notification is lost. Whenever the threads of all links are done, however their steps
  interleaved, no signal is left in the queue that could be published (fewer than 2\^{}64 - 1
  signals having been).
\<close>

theorem no_signal_lost:
  assumes "conc_step\<^sup>*\<^sup>* (conc_start n len m) c" and "\<And>k. c_pc c k = Idle" and "\<not> p_down (c_bond c)"
    and "length (c_log c) < 2 ^ 64 - 1"
  shows "\<not> signal_ready (c_bond c)"
  using reach_conc_inv [OF assms(1)] assms(2-4) by (simp add: conc_inv_def wake_inv_def)

theorem no_signal_lost_witness: "\<not> signal_ready (c_bond sample_start)"
proof -
  have "conc_step\<^sup>*\<^sup>* (conc_start 2 64 (\<lambda>_. 0)) sample_start" by (simp add: sample_start_def)
  from no_signal_lost [OF this] show ?thesis by simp
qed

text \<open>
  A hook that runs without interference is an execution of these steps: what \<open>bond_placed\<close> and
  \<open>bond_signal\<close> make of the window and the bond is what some sequence of the thread's steps makes of
  them, with the lock free again at the end.
\<close>

theorem hooks_are_steps:
  assumes "k < p_bonded (c_bond c)" and "c_pc c k = Idle" and "c_lock c = None"
    and "p_placed (c_bond c) k < p_placed (c_bond c) k + 1"
  shows "(\<exists>c'. conc_step\<^sup>*\<^sup>* c c' \<and> c_pc c' = c_pc c \<and> c_lock c' = None \<and>
      (c_mem c', c_bond c') = bond_placed k (p_placed (c_bond c) k + 1) (c_mem c, c_bond c)) \<and>
    (\<exists>c'. conc_step\<^sup>*\<^sup>* c c' \<and> c_pc c' = c_pc c \<and> c_lock c' = None \<and>
      (c_mem c', c_bond c') = snd (bond_signal seq need off v (c_mem c, c_bond c)))"
  using run_placed [OF assms] run_signal [OF assms(1-3)] by blast

theorem hooks_are_steps_witness:
  "\<exists>c'. conc_step\<^sup>*\<^sup>* sample_start c' \<and> (c_mem c', c_bond c') = bond_placed 0 1 (\<lambda>_. 0, fresh_bond 2 64)"
  using hooks_are_steps [of 0 sample_start 1 "[1, 0]" 8 5] by auto

end
