(* ===== verification/Bond_Ranges.thy ===== *)
theory Bond_Ranges
  imports Bond_Rx
begin

section \<open>What a bond's sender remembers (rpc/libmcdma\_fabric.c)\<close>

text \<open>
  A bond's links place their messages independently, so the sender keeps the remote ranges that
  earlier calls wrote or signalled since the last flush, with the latest write on each link. A later
  call that overlaps one waits for it at the receiver. The table is bounded: ranges that meet are
  merged, and a full table is folded into one range over everything, the floor. This theory has the
  table and its operations, and shows that the answer always covers what an unbounded history would
  give.
\<close>

abbreviation (input) BOND_RANGES :: "'a :: numeral" where "BOND_RANGES \<equiv> 128"

record bond_range =
  rg_off :: u64
  rg_end :: u64
  rg_ord :: "u64 list"
  rg_signal :: bool

text \<open>The fields \<open>ranges\<close>, \<open>nranges\<close> (the length of the list), \<open>floor\<close> and \<open>floored\<close> of a peer.\<close>

record range_table =
  rt_ranges :: "bond_range list"
  rt_floor :: bond_range
  rt_floored :: bool

definition no_ord :: "u64 list" where
  "no_ord = replicate BOND_LINKS 0"

definition empty_table :: range_table where
  "empty_table = \<lparr>rt_ranges = [], rt_floor = \<lparr>rg_off = 0, rg_end = 0, rg_ord = no_ord, rg_signal = False\<rparr>, rt_floored = False\<rparr>"

subsection \<open>Operations\<close>

definition bond_cover :: "u64 list \<times> bool \<Rightarrow> bond_range \<Rightarrow> u64 list \<times> bool" where
  "bond_cover = (\<lambda>(ord, signal) r. (map2 (\<lambda>o1 o2. if o1 < o2 then o2 else o1) ord (rg_ord r), signal \<or> rg_signal r))"

definition bond_overlap :: "range_table \<Rightarrow> u64 \<Rightarrow> u64 \<Rightarrow> u64 list \<times> bool" where
  "bond_overlap t off len =
     (let start = (if len \<noteq> 0 \<and> rt_floored t then bond_cover (no_ord, False) (rt_floor t) else (no_ord, False))
      in if len = 0 then start
         else foldl bond_cover start (filter (\<lambda>r. off < rg_end r \<and> rg_off r < off + len) (rt_ranges t)))"

text \<open>\<open>*q = p->ranges[--p->nranges]\<close>: the last entry takes the place of entry \<open>i\<close>.\<close>

definition swap_remove :: "nat \<Rightarrow> 'a list \<Rightarrow> 'a list" where
  "swap_remove i xs = butlast (xs[i := last xs])"

lemma length_swap_remove [simp]: "length (swap_remove i xs) = length xs - 1"
  by (simp add: swap_remove_def)

definition meets :: "bond_range \<Rightarrow> bond_range \<Rightarrow> bool" where
  "meets q r \<longleftrightarrow> rg_off q < rg_end r \<and> rg_off r < rg_end q"

definition grown :: "bond_range \<Rightarrow> bond_range \<Rightarrow> bond_range" where
  "grown q r = (case bond_cover (rg_ord r, rg_signal r) q of (ord, signal) \<Rightarrow>
     \<lparr>rg_off = (if rg_off q < rg_off r then rg_off q else rg_off r),
      rg_end = (if rg_end q > rg_end r then rg_end q else rg_end r), rg_ord = ord, rg_signal = signal\<rparr>)"

function merge_loop :: "bond_range list \<Rightarrow> bond_range \<Rightarrow> nat \<Rightarrow> bond_range list \<times> bond_range" where
  "merge_loop rs r i =
     (if \<not> i < length rs then (rs, r)
      else if \<not> meets (rs ! i) r then merge_loop rs r (Suc i)
      else merge_loop (swap_remove i rs) (grown (rs ! i) r) 0)"
  by pat_completeness auto
termination
  by (relation "inv_image (less_than <*lex*> less_than) (\<lambda>(rs, r, i). (length rs, length rs - i))") auto

declare merge_loop.simps [simp del]

definition bond_remember :: "range_table \<Rightarrow> u64 \<Rightarrow> u64 \<Rightarrow> u64 list \<Rightarrow> bool \<Rightarrow> range_table" where
  "bond_remember t off len ord signal =
     (if len = 0 then t
      else
        let (rs, r) = merge_loop (rt_ranges t) \<lparr>rg_off = off, rg_end = off + len, rg_ord = ord, rg_signal = signal\<rparr> 0;
            t1 = (if length rs = BOND_RANGES
                  then let floor = (if rt_floored t then rt_floor t
                             else \<lparr>rg_off = 0, rg_end = - 1, rg_ord = no_ord, rg_signal = False\<rparr>);
                           (ord1, signal1) = foldl bond_cover (rg_ord floor, rg_signal floor) rs
                       in t\<lparr>rt_ranges := [], rt_floor := floor\<lparr>rg_ord := ord1, rg_signal := signal1\<rparr>, rt_floored := True\<rparr>
                  else t\<lparr>rt_ranges := rs\<rparr>)
        in t1\<lparr>rt_ranges := rt_ranges t1 @ [r]\<rparr>)"

definition bond_flagged :: "range_table \<Rightarrow> range_table" where
  "bond_flagged t = t\<lparr>rt_floor := (if rt_floored t then (rt_floor t)\<lparr>rg_signal := True\<rparr> else rt_floor t),
     rt_ranges := map (\<lambda>r. r\<lparr>rg_signal := True\<rparr>) (rt_ranges t)\<rparr>"

text \<open>What a completed flush does to the table (\<open>bond_flush_locked\<close>).\<close>

definition bond_forget :: "range_table \<Rightarrow> range_table" where
  "bond_forget t = t\<lparr>rt_ranges := [], rt_floored := False\<rparr>"

subsection \<open>The history it stands for\<close>

datatype range_op = Remember u64 u64 "u64 list" bool | Flagged | Forget

fun range_step :: "range_op \<Rightarrow> range_table \<Rightarrow> range_table" where
  "range_step (Remember off len ord signal) t = bond_remember t off len ord signal"
| "range_step Flagged t = bond_flagged t"
| "range_step Forget t = bond_forget t"

text \<open>Every remembered range as it was given, flagged where a later signal covered it.\<close>

fun history :: "range_op list \<Rightarrow> bond_range list \<Rightarrow> bond_range list" where
  "history [] h = h"
| "history (Remember off len ord signal # ops) h =
     history ops (if len = 0 then h else \<lparr>rg_off = off, rg_end = off + len, rg_ord = ord, rg_signal = signal\<rparr> # h)"
| "history (Flagged # ops) h = history ops (map (\<lambda>r. r\<lparr>rg_signal := True\<rparr>) h)"
| "history (Forget # ops) h = history ops []"

fun op_ok :: "range_op \<Rightarrow> bool" where
  "op_ok (Remember off len ord signal) \<longleftrightarrow> off \<le> off + len \<and> length ord = BOND_LINKS"
| "op_ok Flagged = True"
| "op_ok Forget = True"

text \<open>\<open>(ord, signal)\<close> is at least what a range says.\<close>

definition at_least :: "u64 list \<times> bool \<Rightarrow> u64 list \<Rightarrow> bool \<Rightarrow> bool" where
  "at_least a ord signal \<longleftrightarrow> length (fst a) = BOND_LINKS \<and> length ord = BOND_LINKS \<and>
     (\<forall>k < BOND_LINKS. ord ! k \<le> fst a ! k) \<and> (signal \<longrightarrow> snd a)"

definition within :: "bond_range \<Rightarrow> bond_range \<Rightarrow> bool" where
  "within h r \<longleftrightarrow> rg_off r \<le> rg_off h \<and> rg_end h \<le> rg_end r \<and> at_least (rg_ord r, rg_signal r) (rg_ord h) (rg_signal h)"

definition represents :: "range_table \<Rightarrow> bond_range list \<Rightarrow> bool" where
  "represents t hs \<longleftrightarrow> length (rt_ranges t) \<le> BOND_RANGES \<and>
     (\<forall>r \<in> set (rt_ranges t). length (rg_ord r) = BOND_LINKS) \<and>
     (rt_floored t \<longrightarrow> length (rg_ord (rt_floor t)) = BOND_LINKS) \<and>
     (\<forall>h \<in> set hs. (\<exists>r \<in> set (rt_ranges t). within h r) \<or>
        rt_floored t \<and> at_least (rg_ord (rt_floor t), rg_signal (rt_floor t)) (rg_ord h) (rg_signal h))"

lemma at_least_trans:
  "at_least a b sb \<Longrightarrow> at_least (b, sb) c sc \<Longrightarrow> at_least a c sc"
  by (auto simp: at_least_def intro: order_trans)

lemma within_trans: "within a b \<Longrightarrow> within b c \<Longrightarrow> within a c"
  by (auto simp: within_def intro: at_least_trans order_trans)

lemma at_least_refl: "length ord = BOND_LINKS \<Longrightarrow> at_least (ord, s) ord s"
  by (simp add: at_least_def)

lemma bond_cover_least:
  assumes "length (fst a) = BOND_LINKS" and "length (rg_ord r) = BOND_LINKS"
  shows "at_least (bond_cover a r) (fst a) (snd a)" "at_least (bond_cover a r) (rg_ord r) (rg_signal r)"
    "length (fst (bond_cover a r)) = BOND_LINKS"
  using assms by (auto simp: bond_cover_def at_least_def split_beta)

lemma fold_cover_least:
  assumes "\<forall>r \<in> set rs. length (rg_ord r) = BOND_LINKS" and "length (fst a) = BOND_LINKS"
  shows "length (fst (foldl bond_cover a rs)) = BOND_LINKS \<and> at_least (foldl bond_cover a rs) (fst a) (snd a) \<and>
    (\<forall>r \<in> set rs. at_least (foldl bond_cover a rs) (rg_ord r) (rg_signal r))"
  using assms
proof (induction rs arbitrary: a)
  case Nil
  then show ?case using at_least_refl [of "fst a" "snd a"] by simp
next
  case (Cons r rs)
  let ?b = "bond_cover a r"
  have b: "at_least ?b (fst a) (snd a)" "at_least ?b (rg_ord r) (rg_signal r)" "length (fst ?b) = BOND_LINKS"
    using bond_cover_least [of a r] Cons.prems by simp_all
  with Cons have i: "length (fst (foldl bond_cover ?b rs)) = BOND_LINKS" "at_least (foldl bond_cover ?b rs) (fst ?b) (snd ?b)"
    "\<forall>r \<in> set rs. at_least (foldl bond_cover ?b rs) (rg_ord r) (rg_signal r)" by simp_all
  have "at_least (foldl bond_cover ?b rs) x s" if "at_least ?b x s" for x s
    using at_least_trans [OF i(2)] that by simp
  with i b show ?case by auto
qed

subsection \<open>Each operation keeps it\<close>

lemma swap_remove_set:
  assumes "i < length xs"
  shows "set xs \<subseteq> insert (xs ! i) (set (swap_remove i xs))" "set (swap_remove i xs) \<subseteq> set xs"
proof -
  let ?ys = "xs[i := last xs]"
  have ne: "xs \<noteq> []" using assms by auto
  have l: "last ?ys = last xs" using assms ne by (cases "i = length xs - 1") (auto simp: last_conv_nth nth_list_update)
  show "set xs \<subseteq> insert (xs ! i) (set (swap_remove i xs))"
  proof
    fix x assume "x \<in> set xs"
    then obtain j where j: "j < length xs" "x = xs ! j" by (auto simp: in_set_conv_nth)
    consider "j = i" | "j \<noteq> i" "j < length xs - 1" | "j \<noteq> i" "j = length xs - 1" using j by linarith
    then show "x \<in> insert (xs ! i) (set (swap_remove i xs))"
    proof cases
      case 2
      then have "swap_remove i xs ! j = x" using j by (simp add: swap_remove_def nth_butlast)
      then show ?thesis using 2 by (auto simp: in_set_conv_nth intro!: exI [of _ j])
    next
      case 3
      then have "swap_remove i xs ! i = x" using assms j ne by (simp add: swap_remove_def nth_butlast last_conv_nth)
      then show ?thesis using 3 assms by (auto simp: in_set_conv_nth intro!: exI [of _ i])
    qed (simp add: j)
  qed
  show "set (swap_remove i xs) \<subseteq> set xs"
    using set_update_subset_insert [of xs i "last xs"] ne by (auto simp: swap_remove_def dest!: in_set_butlastD)
qed

lemma grown_within:
  assumes "length (rg_ord q) = BOND_LINKS" and "length (rg_ord r) = BOND_LINKS"
  shows "within q (grown q r)" "within r (grown q r)" "length (rg_ord (grown q r)) = BOND_LINKS"
  using bond_cover_least [of "(rg_ord r, rg_signal r)" q] assms
  by (auto simp: grown_def within_def split_beta)

lemma merge_keeps:
  assumes "merge_loop rs r i = (rs', r')" and "\<forall>x \<in> set rs. length (rg_ord x) = BOND_LINKS" and "length (rg_ord r) = BOND_LINKS"
  shows "length rs' \<le> length rs \<and> set rs' \<subseteq> set rs \<and> length (rg_ord r') = BOND_LINKS \<and> within r r' \<and>
    (\<forall>x \<in> set rs. x \<in> set rs' \<or> within x r')"
  using assms
proof (induction rs r i rule: merge_loop.induct)
  case (1 rs r i)
  have refl: "within r r" using "1.prems"(3) by (simp add: within_def at_least_refl)
  show ?case
  proof (cases "i < length rs \<and> meets (rs ! i) r")
    case True
    then have i: "i < length rs" and m: "meets (rs ! i) r" by simp_all
    let ?q = "rs ! i"
    have q: "length (rg_ord ?q) = BOND_LINKS" using "1.prems"(2) i by simp
    note g = grown_within [OF q "1.prems"(3)]
    note w = swap_remove_set [OF i]
    have "merge_loop (swap_remove i rs) (grown ?q r) 0 = (rs', r')"
      using "1.prems"(1) True by (subst (asm) merge_loop.simps) simp
    then have ih: "length rs' \<le> length (swap_remove i rs) \<and> set rs' \<subseteq> set (swap_remove i rs) \<and>
        length (rg_ord r') = BOND_LINKS \<and> within (grown ?q r) r' \<and>
        (\<forall>x \<in> set (swap_remove i rs). x \<in> set rs' \<or> within x r')"
      using "1.IH"(2) i m "1.prems"(2) w(2) g(3) by blast
    with w g show ?thesis by (auto intro: within_trans)
  next
    case False
    show ?thesis
    proof (cases "i < length rs")
      case True
      with False "1.prems"(1) have "merge_loop rs r (Suc i) = (rs', r')" by (subst (asm) merge_loop.simps) simp
      with "1.IH"(1) True False "1.prems"(2,3) show ?thesis by blast
    next
      case no: False
      with "1.prems"(1) have "rs' = rs" "r' = r" by (subst (asm) merge_loop.simps; simp)+
      with refl "1.prems"(3) show ?thesis by simp
    qed
  qed
qed

lemma remember_represents:
  assumes "represents t hs" and "length ord = BOND_LINKS" and "len \<noteq> 0"
  shows "represents (bond_remember t off len ord signal) (\<lparr>rg_off = off, rg_end = off + len, rg_ord = ord, rg_signal = signal\<rparr> # hs)"
proof -
  let ?n = "\<lparr>rg_off = off, rg_end = off + len, rg_ord = ord, rg_signal = signal\<rparr>"
  obtain rs r where m: "merge_loop (rt_ranges t) ?n 0 = (rs, r)" by fastforce
  have o: "\<forall>x \<in> set (rt_ranges t). length (rg_ord x) = BOND_LINKS" and c: "length (rt_ranges t) \<le> BOND_RANGES"
    and fl: "rt_floored t \<Longrightarrow> length (rg_ord (rt_floor t)) = BOND_LINKS"
    using assms(1) by (simp_all add: represents_def)
  have "length (rg_ord ?n) = BOND_LINKS" using assms(2) by simp
  note k = merge_keeps [OF m o this]
  have mem: "(\<exists>x \<in> set rs \<union> {r}. within h x) \<or>
      rt_floored t \<and> at_least (rg_ord (rt_floor t), rg_signal (rt_floor t)) (rg_ord h) (rg_signal h)"
    if "h \<in> set (?n # hs)" for h
  proof (cases "h = ?n")
    case False
    with that have "h \<in> set hs" by simp
    with assms(1) k show ?thesis unfolding represents_def by (meson UnI1 UnI2 singletonI within_trans)
  qed (use k in auto)
  show ?thesis
  proof (cases "length rs = BOND_RANGES")
    case False
    then have "bond_remember t off len ord signal = t\<lparr>rt_ranges := rs @ [r]\<rparr>"
      using m assms(3) by (simp add: bond_remember_def)
    then show ?thesis using k c o fl mem False unfolding represents_def by (auto dest!: subsetD)
  next
    case True
    define f where "f = (if rt_floored t then rt_floor t else \<lparr>rg_off = 0, rg_end = - 1, rg_ord = no_ord, rg_signal = False\<rparr>)"
    define a where "a = foldl bond_cover (rg_ord f, rg_signal f) rs"
    have "length (rg_ord f) = BOND_LINKS" using fl by (simp add: f_def no_ord_def)
    then have a: "length (fst a) = BOND_LINKS" "at_least a (rg_ord f) (rg_signal f)"
      "\<forall>x \<in> set rs. at_least a (rg_ord x) (rg_signal x)"
      using fold_cover_least [of rs "(rg_ord f, rg_signal f)"] k o unfolding a_def by auto
    have e: "bond_remember t off len ord signal =
        t\<lparr>rt_ranges := [r], rt_floor := f\<lparr>rg_ord := fst a, rg_signal := snd a\<rparr>, rt_floored := True\<rparr>"
      using m assms(3) True by (simp add: bond_remember_def a_def f_def split_beta Let_def)
    have "within h r \<or> at_least a (rg_ord h) (rg_signal h)" if "h \<in> set (?n # hs)" for h
      using mem [OF that] a at_least_trans [of a] by (fastforce simp: within_def f_def)
    then show ?thesis using a(1) k unfolding e represents_def by auto
  qed
qed

lemma flagged_represents: "represents t hs \<Longrightarrow> represents (bond_flagged t) (map (\<lambda>r. r\<lparr>rg_signal := True\<rparr>) hs)"
  unfolding represents_def bond_flagged_def by (fastforce simp: within_def at_least_def)

lemma forget_represents: "represents (bond_forget t) []"
  by (simp add: represents_def bond_forget_def)

lemma remember_zero [simp]: "bond_remember t off 0 ord signal = t"
  by (simp add: bond_remember_def)

lemma run_represents:
  assumes "\<forall>op \<in> set ops. op_ok op" and "represents t hs"
  shows "represents (fold range_step ops t) (history ops hs)"
  using assms
proof (induction ops arbitrary: t hs)
  case (Cons op ops)
  have "represents (range_step op t) (history [op] hs)"
    using Cons.prems by (cases op) (auto intro: remember_represents flagged_represents forget_represents)
  moreover have "history (op # ops) hs = history ops (history [op] hs)" by (cases op) simp_all
  ultimately show ?case using Cons by simp
qed simp

lemma overlap_represents:
  assumes "represents t hs" and "h \<in> set hs" and "rg_off h < off + len" and "off < rg_end h" and "len \<noteq> 0"
  shows "at_least (bond_overlap t off len) (rg_ord h) (rg_signal h)"
proof -
  define start where "start = (if rt_floored t then bond_cover (no_ord, False) (rt_floor t) else (no_ord, False))"
  define rs where "rs = filter (\<lambda>r. off < rg_end r \<and> rg_off r < off + len) (rt_ranges t)"
  have e: "bond_overlap t off len = foldl bond_cover start rs"
    using assms(5) by (simp add: bond_overlap_def start_def rs_def)
  have n: "length (fst (no_ord, False)) = BOND_LINKS" by (simp add: no_ord_def)
  have st: "length (fst start) = BOND_LINKS" and fl: "rt_floored t \<Longrightarrow> at_least start (rg_ord (rt_floor t)) (rg_signal (rt_floor t))"
    using bond_cover_least [OF n, of "rt_floor t"] assms(1) n by (auto simp: start_def represents_def)
  have f: "at_least (foldl bond_cover start rs) (fst start) (snd start)"
    "\<forall>r \<in> set rs. at_least (foldl bond_cover start rs) (rg_ord r) (rg_signal r)"
    using fold_cover_least [of rs start] st assms(1) by (auto simp: rs_def represents_def)
  from assms(1,2) consider (range) r where "r \<in> set (rt_ranges t)" "within h r"
    | (floor) "rt_floored t" "at_least (rg_ord (rt_floor t), rg_signal (rt_floor t)) (rg_ord h) (rg_signal h)"
    by (auto simp: represents_def)
  then show ?thesis
  proof cases
    case range
    then have "r \<in> set rs" using assms(3,4) by (auto simp: rs_def within_def intro: order.strict_trans1 order.strict_trans2)
    then have "at_least (foldl bond_cover start rs) (rg_ord r) (rg_signal r)" using f(2) by blast
    from at_least_trans [OF this] range(2) show ?thesis by (simp add: e within_def)
  next
    case floor
    have "at_least (foldl bond_cover start rs) (rg_ord (rt_floor t)) (rg_signal (rt_floor t))"
      using at_least_trans [OF f(1)] fl [OF floor(1)] by simp
    from at_least_trans [OF this floor(2)] show ?thesis by (simp add: e)
  qed
qed

subsection \<open>Property\<close>

text \<open>
  C12: the bounded table refines the unbounded history. After any sequence of remembered ranges,
  signals and flushes, the answer for a range covers every range remembered since the last flush
  that shares a byte with it: on each link it names that range's write or a later one, and it says
  that a signal must be waited for when one covers that range. The table never exceeds its 128
  entries.
\<close>

theorem overlap_covers_history:
  assumes "\<forall>op \<in> set ops. op_ok op" and "h \<in> set (history ops [])"
    and "rg_off h < off + len" and "off < rg_end h" and "len \<noteq> 0"
    and "bond_overlap (fold range_step ops empty_table) off len = (ord, signal)"
  shows "(\<forall>k < BOND_LINKS. rg_ord h ! k \<le> ord ! k) \<and> (rg_signal h \<longrightarrow> signal) \<and>
    length (rt_ranges (fold range_step ops empty_table)) \<le> BOND_RANGES"
proof -
  have "represents empty_table []" by (simp add: represents_def empty_table_def)
  then have r: "represents (fold range_step ops empty_table) (history ops [])" by (rule run_represents [OF assms(1)])
  from overlap_represents [OF this assms(2-5)] r show ?thesis by (simp add: assms(6) at_least_def represents_def)
qed

theorem overlap_covers_history_witness:
  "\<exists>ord signal. bond_overlap (fold range_step [Remember 0 16 (7 # replicate 23 0) False, Remember 8 16 (0 # 9 # replicate 22 0) False,
      Flagged] empty_table) 20 4 = (ord, signal) \<and> 9 \<le> ord ! 1 \<and> signal"
proof -
  let ?ops = "[Remember 0 16 (7 # replicate 23 0) False, Remember 8 16 (0 # 9 # replicate 22 0) False, Flagged]"
  let ?h = "\<lparr>rg_off = 8, rg_end = 24, rg_ord = 0 # 9 # replicate 22 0, rg_signal = True\<rparr>"
  obtain ord signal where o: "bond_overlap (fold range_step ?ops empty_table) 20 4 = (ord, signal)" by fastforce
  have p: "\<forall>op \<in> set ?ops. op_ok op" "?h \<in> set (history ?ops [])" by (simp_all add: word_le_nat_alt)
  have q: "rg_off ?h < 20 + 4" "20 < rg_end ?h" "(4 :: u64) \<noteq> 0" by simp_all
  note c = overlap_covers_history [OF p q o]
  have "rg_ord ?h ! 1 \<le> ord ! 1" by (rule conjunct1 [OF c, THEN spec, THEN mp]) simp
  moreover have "signal" using c by simp
  ultimately show ?thesis using o by (intro exI [of _ ord] exI [of _ signal]) (simp only: bond_range.simps nth_Cons_0 nth_Cons_Suc One_nat_def simp_thms)
qed

end
