(* ===== verification/Bond_Plan.thy ===== *)
theory Bond_Plan
  imports Link_Tb_Props Bond_Rx "HOL-Library.Signed_Division"
begin

section \<open>How a bond divides its writes (rpc/libmcdma\_fabric.c, rpc/fabric\_bond\_n.h)\<close>

text \<open>
  The choices a bond's sender makes before it posts anything: which link takes the next chunk, where
  a write-and-signal is cut between two links, and how large each link's part of a parallel write
  is. They are functions of the links' queues, rates and largest messages.
\<close>

abbreviation (input) BOND_SPLIT :: "'a :: numeral" where "BOND_SPLIT \<equiv> 40960"
abbreviation (input) BOND_PART :: "'a :: numeral" where "BOND_PART \<equiv> 2048"
abbreviation (input) BOND_RATE :: "'a :: numeral" where "BOND_RATE \<equiv> 8000"
abbreviation (input) WS_ROOM :: "'a :: numeral" where "WS_ROOM \<equiv> 64"

record bond_load =
  ld_backlog :: u64
  ld_rate :: u64
  ld_max :: u64

record bond_room =
  rm_backlog :: u64
  rm_take :: u64
  rm_ready :: bool

record bond_plan =
  pl_head :: nat
  pl_first :: u64

subsection \<open>The ready link with less queued\<close>

text \<open>The loop of \<open>bond_choose\<close> from index \<open>i\<close> on; \<open>best\<close> is -1 as None.\<close>

definition better :: "bond_room list \<Rightarrow> nat option \<Rightarrow> nat \<Rightarrow> nat option" where
  "better rooms best k =
     (if rm_ready (rooms ! k) \<and> (case best of None \<Rightarrow> True | Some b \<Rightarrow> rm_backlog (rooms ! k) < rm_backlog (rooms ! b))
      then Some k else best)"

definition bond_choose :: "nat \<Rightarrow> u32 \<Rightarrow> bond_room list \<Rightarrow> nat option \<times> u32" where
  "bond_choose n turn rooms =
     (let best = foldl (better rooms) None (map (\<lambda>i. unat ((turn + of_nat i) mod of_nat n)) [0..<n])
      in (best, case best of None \<Rightarrow> turn | Some b \<Rightarrow> (of_nat b + 1) mod of_nat n))"

subsection \<open>The link that would finish first\<close>

definition bond_finish :: "bond_load \<Rightarrow> u64 \<Rightarrow> u64" where
  "bond_finish l bytes = (ld_backlog l + bytes) * 1000 div ld_rate l"

definition bond_pick :: "u32 \<Rightarrow> bond_load list \<Rightarrow> u64 \<Rightarrow> nat \<times> u32" where
  "bond_pick turn load bytes =
     (let a = bond_finish (load ! 0) bytes; b = bond_finish (load ! 1) bytes;
          k = (if b < a then 1 else 0) :: nat;
          soon = (if k = 1 then b else a); late = (if k = 1 then a else b)
      in if late - soon \<le> late div 4 then (unat (turn mod 2), (turn + 1) mod 2) else (k, turn))"

subsection \<open>A write-and-signal as at most one message a link\<close>

text \<open>
  The cut that has both links finish together: the bytes link 0 would carry. The source computes it
  in 64-bit signed integers, whose division rounds towards zero; queued bytes and rates are far
  below where they overflow.
\<close>

definition plan_zero :: "bond_load list \<Rightarrow> u64 \<Rightarrow> u64" where
  "plan_zero load len =
     (let r0 = sint (ld_rate (load ! 0)); r1 = sint (ld_rate (load ! 1));
          r0 = (if 3 * r1 < r0 then 3 * r1 else r0); r1 = (if 3 * r0 < r1 then 3 * r0 else r1);
          x = (r0 * sint (ld_backlog (load ! 1) + len) - r1 * sint (ld_backlog (load ! 0))) sdiv (r0 + r1)
      in if x < 0 then 0 else if int (unat len) < x then len else of_int x)"

text \<open>The limits of the head's part, and the part itself: whole packets where it can be, inside the limits.\<close>

definition plan_lo :: "region \<Rightarrow> u64 \<Rightarrow> u64 \<Rightarrow> u64 \<Rightarrow> u64" where
  "plan_lo win off len max_tail =
     (let final = (off + len - 1) div r_seg win * r_seg win;
          lo = (if off < final \<and> BOND_PART < final - off then final - off else BOND_PART)
      in if max_tail < len \<and> lo < len - max_tail then len - max_tail else lo)"

definition plan_hi :: "u64 \<Rightarrow> u64 \<Rightarrow> u64 \<Rightarrow> u64" where
  "plan_hi space len max_head =
     (let hi = len - BOND_PART; carry = (if WS_ROOM < max_head then max_head - WS_ROOM else 0);
          hi = (if space < hi then space else hi)
      in if carry < hi then carry else hi)"

definition plan_first :: "u64 \<Rightarrow> u64 \<Rightarrow> u64 \<Rightarrow> u64" where
  "plan_first first lo hi =
     (let whole = (first + WS_ROOM + TB_PACKET div 2) div TB_PACKET * TB_PACKET;
          first = (if WS_ROOM < whole then whole - WS_ROOM else first)
      in if first < lo then lo else if hi < first then hi else first)"

text \<open>
  \<open>bond_plan\<close>: None when no message a link can carry it. \<open>s\<close> is either link, whose window
  \<open>tb_tail_clean\<close> reads.
\<close>

definition plan_room :: "region \<Rightarrow> u64 \<Rightarrow> u64" where
  "plan_room win off = ((off - WS_ROOM) div r_seg win + 1) * r_seg win - off"

definition plan_cut :: "'b link \<Rightarrow> region \<Rightarrow> bond_load list \<Rightarrow> u64 \<Rightarrow> u64 \<Rightarrow> u32 \<Rightarrow> bond_plan option" where
  "plan_cut s win load off len turn =
     (let zero = plan_zero load len; h = unat (turn mod 2);
          lo = plan_lo win off len (ld_max (load ! (1 - h))); hi = plan_hi (plan_room win off) len (ld_max (load ! h));
          first = plan_first (if h = 1 then len - zero else zero) lo hi;
          first = (if \<not> tb_tail_clean s (Some win) (off + first) then if first < hi then first + 1 else first - 1 else first)
      in if BOND_PART \<le> zero \<and> BOND_PART \<le> len - zero \<and> lo \<le> hi \<and> lo \<le> first \<and> first \<le> hi \<and>
            tb_tail_clean s (Some win) (off + first)
         then Some \<lparr>pl_head = h, pl_first = first\<rparr> else None)"

definition plan_whole :: "region \<Rightarrow> bond_load list \<Rightarrow> u64 \<Rightarrow> u64 \<Rightarrow> nat \<Rightarrow> bond_plan option" where
  "plan_whole win load off len k =
     (if len \<le> plan_room win off \<and> WS_ROOM + len \<le> ld_max (load ! k) then Some \<lparr>pl_head = k, pl_first = len\<rparr>
      else if len \<le> plan_room win off \<and> WS_ROOM + len \<le> ld_max (load ! (1 - k)) then Some \<lparr>pl_head = 1 - k, pl_first = len\<rparr>
      else None)"

definition bond_plan :: "'b link \<Rightarrow> region \<Rightarrow> bond_load list \<Rightarrow> u64 \<Rightarrow> u64 \<Rightarrow> u32 \<Rightarrow> bond_plan option \<times> u32" where
  "bond_plan s win load off len turn =
     (if (off - WS_ROOM) div r_seg win \<noteq> off div r_seg win then (None, turn)
      else case (if BOND_SPLIT \<le> len then plan_cut s win load off len turn else None) of
        Some plan \<Rightarrow> (Some plan, turn XOR 1)
      | None \<Rightarrow> (case bond_pick turn load len of (k, turn1) \<Rightarrow> (plan_whole win load off len k, turn1)))"

subsection \<open>The parts of a parallel write\<close>

definition part_rate :: "u64 \<Rightarrow> bond_load \<Rightarrow> u64" where
  "part_rate fastest l =
     (let rate = (if ld_rate l \<noteq> 0 then ld_rate l else BOND_RATE);
          rate = (if rate < fastest div 3 then fastest div 3 else rate)
      in if 1048576 < rate then 1048576 else rate)"

definition part_size :: "u64 \<Rightarrow> u64 \<Rightarrow> u64 \<Rightarrow> u64 \<Rightarrow> u64" where
  "part_size minimum rest tot rate = minimum + (rest div tot * rate + (rest mod tot) * rate div tot) div 64 * 64"

definition bond_parts :: "bond_load list \<Rightarrow> u64 \<Rightarrow> u64 list" where
  "bond_parts load len =
     (let n = length load;
          fastest = foldl (\<lambda>f l. if f < ld_rate l then ld_rate l else f) 0 load;
          rates = map (part_rate fastest) load; tot = sum_list rates;
          minimum = len div of_nat n div 64 * 64;
          minimum = (if BOND_PART < minimum then BOND_PART else minimum);
          rest = len - of_nat n * minimum;
          sizes = map (part_size minimum rest tot) (take (n - 1) rates)
      in sizes @ [len - sum_list sizes])"

subsection \<open>The chosen link\<close>

lemma better_ready:
  assumes "foldl (better rs) best ks = Some b" and "\<forall>a. best = Some a \<longrightarrow> rm_ready (rs ! a)"
  shows "rm_ready (rs ! b)"
  using assms by (induction ks arbitrary: best) (auto simp: better_def split: if_splits option.splits)

lemma better_least:
  "(\<forall>k \<in> set ks. rm_ready (rs ! k) \<longrightarrow> (\<exists>b. foldl (better rs) best ks = Some b \<and> rm_backlog (rs ! b) \<le> rm_backlog (rs ! k))) \<and>
   (\<forall>a. best = Some a \<longrightarrow> (\<exists>b. foldl (better rs) best ks = Some b \<and> rm_backlog (rs ! b) \<le> rm_backlog (rs ! a)))"
proof (induction ks arbitrary: best)
  case (Cons k ks)
  let ?b1 = "better rs best k"
  have i: "\<And>j. j \<in> set ks \<Longrightarrow> rm_ready (rs ! j) \<Longrightarrow>
      \<exists>b. foldl (better rs) ?b1 ks = Some b \<and> rm_backlog (rs ! b) \<le> rm_backlog (rs ! j)"
    "\<And>a. ?b1 = Some a \<Longrightarrow> \<exists>b. foldl (better rs) ?b1 ks = Some b \<and> rm_backlog (rs ! b) \<le> rm_backlog (rs ! a)"
    using Cons [of ?b1] by blast+
  have k: "\<exists>a. ?b1 = Some a \<and> rm_backlog (rs ! a) \<le> rm_backlog (rs ! k)" if "rm_ready (rs ! k)"
    using that by (auto simp: better_def not_less split: option.splits)
  have a: "\<exists>a'. ?b1 = Some a' \<and> rm_backlog (rs ! a') \<le> rm_backlog (rs ! a)" if "best = Some a" for a
    using that by (auto simp: better_def)
  show ?case using i k a by (fastforce intro: order_trans)
qed simp

lemma turns_cover:
  assumes "unat turn + n < 2 ^ 32" and "k < n"
  shows "\<exists>i < n. unat ((turn + of_nat i) mod of_nat n :: u32) = k"
proof -
  have m: "unat ((turn + of_nat i) mod of_nat n :: u32) = (unat turn + i) mod n" if "i < n" for i
    using assms(1) that by (simp add: unat_mod unat_word_ariths unat_of_nat)
  define i where "i = (k + n - unat turn mod n) mod n"
  have n: "0 < n" using assms(2) by simp
  have "(unat turn + i) mod n = (unat turn mod n + (k + n - unat turn mod n)) mod n"
    unfolding i_def by (simp add: mod_add_left_eq mod_add_right_eq)
  also have "unat turn mod n + (k + n - unat turn mod n) = k + n"
    using mod_less_divisor [OF n, of "unat turn"] by simp
  finally have "(unat turn + i) mod n = k" using assms(2) by simp
  moreover have "i < n" using n by (simp add: i_def)
  ultimately show ?thesis using m by auto
qed

lemma bond_choose_least:
  assumes "bond_choose n turn rooms = (best, turn')" and "unat turn + n < 2 ^ 32" and "k < n" and "rm_ready (rooms ! k)"
  shows "\<exists>b. best = Some b \<and> rm_ready (rooms ! b) \<and> rm_backlog (rooms ! b) \<le> rm_backlog (rooms ! k)"
proof -
  let ?ks = "map (\<lambda>i. unat ((turn + of_nat i) mod of_nat n :: u32)) [0..<n]"
  have b: "best = foldl (better rooms) None ?ks" using assms(1) by (simp add: bond_choose_def Let_def)
  have "k \<in> set ?ks" using turns_cover [OF assms(2,3)] by (auto simp: image_iff)
  then show ?thesis using better_least [of ?ks rooms None] better_ready [of rooms None ?ks] assms(4) by (auto simp: b)
qed

subsection \<open>A planned message can be sent\<close>

lemma div_same:
  fixes a b s :: nat
  assumes "a \<le> b" and "b < (a div s + 1) * s"
  shows "a div s = b div s"
proof -
  have "0 < s" using assms by (cases s) auto
  have "b div s < a div s + 1" using assms(2) \<open>0 < s\<close> by (simp add: div_less_iff_less_mult)
  with div_le_mono [OF assms(1), of s] show ?thesis by simp
qed

lemma unat_round_down: "unat (a div s * s :: u64) = unat a div unat s * unat s"
proof -
  have "unat a div unat s * unat s < 2 ^ 64"
    by (rule le_less_trans [OF div_times_less_eq_dividend]) (use unat_lt_64 [of a] in simp)
  then show ?thesis using unat_mult_lem [of "a div s" s] by (simp add: unat_div)
qed

text \<open>A source range inside a window whose length and registration unit do not overflow together.\<close>

definition plan_pre :: "region \<Rightarrow> u64 \<Rightarrow> u64 \<Rightarrow> bool" where
  "plan_pre win off len \<longleftrightarrow> r_seg win \<noteq> 0 \<and> unat (r_length win) + unat (r_seg win) < 2 ^ 64 \<and> WS_ROOM \<le> off \<and>
     unat off + unat len \<le> unat (r_length win) \<and> len \<noteq> 0"

lemma plan_pre_nat:
  assumes "plan_pre win off len"
  shows "unat (off - WS_ROOM) = unat off - WS_ROOM" "WS_ROOM \<le> unat off" "0 < unat len" "0 < unat (r_seg win)"
    "unat (off + len - 1) = unat off + unat len - 1"
proof -
  show o: "WS_ROOM \<le> unat off" "0 < unat len" "0 < unat (r_seg win)"
    using assms by (simp_all add: plan_pre_def word_le_nat_alt unat_gt_0)
  show "unat (off - WS_ROOM) = unat off - WS_ROOM" using assms by (simp add: plan_pre_def unat_sub_le)
  have "unat (off + len) = unat off + unat len"
    using assms unat_lt_64 [of "r_length win"] by (intro unat_add_small) (simp add: plan_pre_def)
  then show "unat (off + len - 1) = unat off + unat len - 1"
    using o unat_sub_le [of 1 "off + len"] by (simp add: word_le_nat_alt)
qed

lemma plan_room_nat:
  assumes "plan_pre win off len" and "(off - WS_ROOM) div r_seg win = off div r_seg win"
  shows "unat (plan_room win off) = ((unat off - WS_ROOM) div unat (r_seg win) + 1) * unat (r_seg win) - unat off"
    "unat off < ((unat off - WS_ROOM) div unat (r_seg win) + 1) * unat (r_seg win)"
proof -
  let ?s = "unat (r_seg win)" and ?o = "unat off"
  note n = plan_pre_nat [OF assms(1)]
  have d: "(?o - WS_ROOM) div ?s = ?o div ?s" using arg_cong [OF assms(2), of unat] n(1) by (simp add: unat_div)
  show lt: "?o < ((?o - WS_ROOM) div ?s + 1) * ?s"
    unfolding d using n(4) by (metis Suc_eq_plus1 dividend_less_div_times mult.commute mult_Suc)
  have "(?o - WS_ROOM) div ?s * ?s \<le> ?o" by (metis div_times_less_eq_dividend le_trans diff_le_self)
  then have "((?o - WS_ROOM) div ?s + 1) * ?s \<le> ?o + ?s" by simp
  also have "\<dots> < 2 ^ 64" using assms(1) by (simp add: plan_pre_def)
  finally have b: "((?o - WS_ROOM) div ?s + 1) * ?s < 2 ^ 64" .
  have q: "(?o - WS_ROOM) div ?s + 1 < 2 ^ 64"
    using b n(4) by (metis le_less_trans mult.right_neutral mult_le_mono2 Suc_leI One_nat_def)
  have "unat ((off - WS_ROOM) div r_seg win + 1) = (?o - WS_ROOM) div ?s + 1"
    using q n(1) by (subst unat_add_small) (simp_all add: unat_div)
  then have u: "unat (((off - WS_ROOM) div r_seg win + 1) * r_seg win) = ((?o - WS_ROOM) div ?s + 1) * ?s"
    using b by (simp add: unat_word_ariths)
  then have "off \<le> ((off - WS_ROOM) div r_seg win + 1) * r_seg win" using lt by (simp add: word_le_nat_alt)
  then show "unat (plan_room win off) = ((?o - WS_ROOM) div ?s + 1) * ?s - ?o"
    unfolding plan_room_def by (simp only: unat_sub_le u)
qed

lemma head_in_registration:
  assumes "plan_pre win off len" and "(off - WS_ROOM) div r_seg win = off div r_seg win"
    and "first \<noteq> 0" and "first \<le> plan_room win off" and "first \<le> len"
  shows "(off - WS_ROOM) div r_seg win = (off + first - 1) div r_seg win"
proof -
  let ?s = "unat (r_seg win)" and ?o = "unat off"
  have pre: "plan_pre win off first" using assms(1,3,5) by (simp add: plan_pre_def word_le_nat_alt)
  note n = plan_pre_nat [OF pre] and r = plan_room_nat [OF assms(1,2)]
  have "?o + unat first \<le> ((?o - WS_ROOM) div ?s + 1) * ?s" using assms(4) r by (simp add: word_le_nat_alt)
  then have "(?o - WS_ROOM) div ?s = (?o + unat first - 1) div ?s" using n by (intro div_same) simp_all
  then show ?thesis using n by (simp add: word_unat_eq_iff unat_div)
qed

lemma tail_in_registration:
  assumes "plan_pre win off len" and "plan_lo win off len mx \<le> first" and "first < len"
  shows "(off + first) div r_seg win = (off + len - 1) div r_seg win" "len - first \<le> mx"
proof -
  let ?s = "unat (r_seg win)" and ?o = "unat off" and ?l = "unat len" and ?f = "unat first"
  note n = plan_pre_nat [OF assms(1)]
  have f: "?f < ?l" using assms(3) by (simp add: word_less_nat_alt)
  have of1: "unat (off + first) = ?o + ?f"
    using assms(1) f unat_lt_64 [of "r_length win"] by (intro unat_add_small) (simp add: plan_pre_def)
  define fin where "fin = (off + len - 1) div r_seg win * r_seg win"
  have fn: "unat fin = (?o + ?l - 1) div ?s * ?s" by (simp only: fin_def unat_round_down n(5))
  have "plan_lo win off len mx \<ge> (if off < fin \<and> BOND_PART < fin - off then fin - off else BOND_PART)"
    by (simp add: plan_lo_def Let_def fin_def less_imp_le)
  then have lo: "(if off < fin \<and> BOND_PART < fin - off then fin - off else BOND_PART) \<le> first" using assms(2) by (rule order_trans)
  have "unat fin \<le> ?o + ?f"
  proof (cases "off < fin")
    case True
    then have "fin - off \<le> first" using lo by (auto simp: not_less split: if_splits intro: order_trans)
    then show ?thesis using True by (simp add: word_le_nat_alt word_less_nat_alt unat_sub_le)
  qed (simp add: word_less_nat_alt)
  then have "(?o + ?l - 1) div ?s \<le> (?o + ?f) div ?s" using fn n(4) by (simp add: less_eq_div_iff_mult_less_eq)
  moreover have "(?o + ?f) div ?s \<le> (?o + ?l - 1) div ?s" using f by (intro div_le_mono) simp
  ultimately show "(off + first) div r_seg win = (off + len - 1) div r_seg win"
    by (simp add: word_unat_eq_iff unat_div of1 n(5))
  show "len - first \<le> mx"
  proof (cases "mx < len")
    case True
    then have "len - mx \<le> plan_lo win off len mx" by (auto simp: plan_lo_def Let_def not_less)
    then have "len - mx \<le> first" using assms(2) by (rule order_trans)
    then show ?thesis using True assms(3) by (simp add: word_le_nat_alt word_less_nat_alt unat_sub_le)
  next
    case False
    have "len - first \<le> len" using assms(3) by (simp add: word_le_nat_alt word_less_nat_alt unat_sub_le)
    with False show ?thesis by simp
  qed
qed

lemma plan_cut_facts:
  assumes "plan_cut s win load off len turn = Some p" and "BOND_SPLIT \<le> len"
  shows "pl_head p < 2" "plan_lo win off len (ld_max (load ! (1 - pl_head p))) \<le> pl_first p" "pl_first p < len"
    "pl_first p \<noteq> 0" "pl_first p \<le> plan_room win off" "WS_ROOM \<le> ld_max (load ! pl_head p)"
    "pl_first p \<le> ld_max (load ! pl_head p) - WS_ROOM" "tb_tail_clean s (Some win) (off + pl_first p)"
proof -
  define h where "h = unat (turn mod 2)"
  define lo where "lo = plan_lo win off len (ld_max (load ! (1 - h)))"
  define hi where "hi = plan_hi (plan_room win off) len (ld_max (load ! h))"
  have f: "pl_head p = h" "lo \<le> pl_first p" "pl_first p \<le> hi" "tb_tail_clean s (Some win) (off + pl_first p)"
    using assms(1) unfolding plan_cut_def Let_def h_def lo_def hi_def by (auto split: if_splits)
  have l: "BOND_PART \<le> lo" by (auto simp: lo_def plan_lo_def Let_def intro: less_imp_le order.strict_trans)
  have h: "hi \<le> len - BOND_PART" "hi \<le> plan_room win off" "hi \<le> (if WS_ROOM < ld_max (load ! h) then ld_max (load ! h) - WS_ROOM else 0)"
    by (auto simp: hi_def plan_hi_def Let_def word_gt_0)
  have p: "BOND_PART \<le> pl_first p" using l f(2) by (rule order_trans)
  have nz: "pl_first p \<noteq> 0" using p by auto
  show "pl_head p < 2" by (simp add: f(1) h_def unat_mod)
  show "plan_lo win off len (ld_max (load ! (1 - pl_head p))) \<le> pl_first p" using f(1,2) by (simp add: lo_def)
  show "pl_first p \<noteq> 0" "pl_first p \<le> plan_room win off" using nz f(3) h(2) by (simp_all add: order_trans)
  have "len - BOND_PART < len" using assms(2) by (simp add: word_le_nat_alt word_less_nat_alt unat_sub_le)
  with f(3) h(1) show "pl_first p < len" by (meson le_less_trans)
  have "pl_first p \<le> (if WS_ROOM < ld_max (load ! h) then ld_max (load ! h) - WS_ROOM else 0)" using f(3) h(3) by (rule order_trans)
  with nz show "WS_ROOM \<le> ld_max (load ! pl_head p)" "pl_first p \<le> ld_max (load ! pl_head p) - WS_ROOM"
    by (auto simp: f(1) split: if_splits)
  show "tb_tail_clean s (Some win) (off + pl_first p)" by (rule f(4))
qed

lemma can_head:
  assumes "plan_pre win off len" and "(off - WS_ROOM) div r_seg win = off div r_seg win" and "first \<noteq> 0"
    and "first \<le> plan_room win off" and "first \<le> len" and "WS_ROOM \<le> msg_max s" and "first \<le> msg_max s - WS_ROOM"
  shows "tb_can_bond_write_signal s (Some win) off first \<noteq> 2"
proof -
  have "unat first + 64 \<le> unat (msg_max s)" using assms(6,7) by (simp add: word_le_nat_alt unat_sub_le)
  then have "\<not> msg_max s < first" "\<not> msg_max s - first < 64" by (simp_all add: word_less_nat_alt word_le_nat_alt unat_sub_le)
  with head_in_registration [OF assms(1-5)] assms(1) show ?thesis
    by (auto simp: tb_can_bond_write_signal_def plan_pre_def not_less)
qed

lemma can_tail:
  assumes "plan_pre win off len" and "plan_lo win off len (msg_max s) \<le> first" and "first < len"
    and "tb_tail_clean s (Some win) (off + first)"
  shows "tb_can_bond_tail s (Some win) (off + first) (len - first) \<noteq> 2"
proof -
  note t = tail_in_registration [OF assms(1-3)]
  have "off + first + (len - first) - 1 = off + len - 1" by simp
  moreover have "\<not> msg_max s < len - first" using t(2) by (simp add: not_less)
  ultimately show ?thesis using t(1) assms(4) by (simp add: tb_can_bond_tail_def)
qed

lemma plan_sends:
  assumes "bond_plan s win load off len turn = (Some p, turn')" and "plan_pre win off len"
  shows "pl_head p < 2 \<and> pl_first p \<noteq> 0 \<and> pl_first p \<le> len \<and>
    (msg_max a = ld_max (load ! pl_head p) \<longrightarrow> tb_can_bond_write_signal a (Some win) off (pl_first p) \<noteq> 2) \<and>
    (pl_first p < len \<longrightarrow> msg_max b = ld_max (load ! (1 - pl_head p)) \<longrightarrow> w_win b = w_win s \<longrightarrow>
       tb_can_bond_tail b (Some win) (off + pl_first p) (len - pl_first p) \<noteq> 2)"
proof -
  have seg: "(off - WS_ROOM) div r_seg win = off div r_seg win" using assms(1) by (auto simp: bond_plan_def split: if_splits)
  have len: "len \<noteq> 0" using assms(2) by (simp add: plan_pre_def)
  consider (cut) "plan_cut s win load off len turn = Some p" "BOND_SPLIT \<le> len"
    | (whole) k where "plan_whole win load off len k = Some p" "k < 2"
  proof (cases "if BOND_SPLIT \<le> len then plan_cut s win load off len turn else None")
    case None
    have "fst (bond_pick turn load len) < 2" by (simp add: bond_pick_def Let_def unat_mod)
    with None assms(1) seg whole show ?thesis by (auto simp: bond_plan_def split: prod.splits)
  next
    case (Some q)
    with assms(1) seg cut show ?thesis by (auto simp: bond_plan_def split: if_splits)
  qed
  then show ?thesis
  proof cases
    case cut
    note f = plan_cut_facts [OF cut]
    have "tb_tail_clean b (Some win) (off + pl_first p)" if "w_win b = w_win s"
      using f(8) that by (simp add: tb_tail_clean_def)
    moreover have "pl_first p \<le> len" using f(3) by (rule less_imp_le)
    ultimately show ?thesis using f(1-7) can_head [OF assms(2) seg f(4,5), of a] can_tail [OF assms(2) _ f(3), of b] by simp
  next
    case whole
    then have w: "pl_head p < 2" "pl_first p = len" "len \<le> plan_room win off" "WS_ROOM + len \<le> ld_max (load ! pl_head p)"
      by (auto simp: plan_whole_def split: if_splits)
    have "unat (WS_ROOM + len) = 64 + unat len"
      using assms(2) unat_lt_64 [of "r_length win"] by (subst unat_add_small) (simp_all add: plan_pre_def word_le_nat_alt)
    then have "64 + unat len \<le> unat (ld_max (load ! pl_head p))" using w(4) by (simp add: word_le_nat_alt)
    then have "WS_ROOM \<le> ld_max (load ! pl_head p)" "len \<le> ld_max (load ! pl_head p) - WS_ROOM"
      by (simp_all add: word_le_nat_alt unat_sub_le)
    then show ?thesis using w len can_head [OF assms(2) seg len w(3), of a] by simp
  qed
qed

subsection \<open>The parts tile the write\<close>

lemma part_rate_bounds: "1 \<le> unat (part_rate fastest l)" "unat (part_rate fastest l) \<le> 1048576"
proof -
  define a where "a = (if ld_rate l \<noteq> 0 then ld_rate l else BOND_RATE)"
  define b where "b = (if a < fastest div 3 then fastest div 3 else a)"
  have e: "part_rate fastest l = (if 1048576 < b then 1048576 else b)" by (simp add: part_rate_def a_def b_def Let_def)
  have "1 \<le> unat a" by (simp add: a_def Suc_le_eq unat_gt_0)
  then have "1 \<le> unat b" unfolding b_def by (auto simp: word_less_nat_alt)
  then show "1 \<le> unat (part_rate fastest l)" "unat (part_rate fastest l) \<le> 1048576"
    unfolding e by (auto simp: word_less_nat_alt not_less)
qed

lemma unat_sum_list:
  "sum_list (map unat xs) < 2 ^ 64 \<Longrightarrow> unat (sum_list xs :: u64) = sum_list (map unat xs)"
  by (induction xs) (simp_all add: unat_add_small)

lemma share_nat:
  fixes rest tot rate :: u64
  assumes "0 < unat tot" and "unat tot < 2 ^ 30" and "unat rate \<le> 2 ^ 20" and "unat rate \<le> unat tot"
  shows "unat (rest div tot * rate + (rest mod tot) * rate div tot) = unat rest * unat rate div unat tot"
proof -
  let ?R = "unat rest" and ?T = "unat tot" and ?r = "unat rate"
  have e: "?R * ?r div ?T = ?R div ?T * ?r + ?R mod ?T * ?r div ?T"
  proof -
    have "?R * ?r = (?R div ?T * ?r) * ?T + ?R mod ?T * ?r"
      by (metis (no_types) distrib_right div_mult_mod_eq mult.assoc mult.commute)
    then show ?thesis using assms(1) by (simp add: add.commute)
  qed
  have "?R * ?r div ?T \<le> ?R * ?T div ?T" using assms(4) by (intro div_le_mono mult_le_mono2)
  then have le: "?R * ?r div ?T \<le> ?R" using assms(1) by simp
  have "?R div ?T * ?r < 2 ^ 64" using le e unat_lt_64 [of rest] by simp
  then have a: "unat (rest div tot * rate) = ?R div ?T * ?r" using unat_mult_lem [of "rest div tot" rate] by (simp add: unat_div)
  have "?R mod ?T \<le> 2 ^ 30" using mod_less_divisor [OF assms(1), of ?R] assms(2) by simp
  then have "?R mod ?T * ?r \<le> 2 ^ 30 * 2 ^ 20" using assms(3) by (rule mult_le_mono)
  then have b: "unat (rest mod tot * rate) = ?R mod ?T * ?r" using unat_mult_lem [of "rest mod tot" rate] by (simp add: unat_mod)
  show ?thesis using a b e le unat_lt_64 [of rest] by (subst unat_add_small) (simp_all add: unat_div)
qed

lemma sum_shares: "0 < T \<Longrightarrow> sum_list (map (\<lambda>r. R * r div T div 64 * 64) rs) \<le> R * sum_list rs div (T :: nat)"
proof (induction rs)
  case (Cons r rs)
  have "R * r div T div 64 * 64 \<le> R * r div T" by (rule div_times_less_eq_dividend)
  moreover have "R * r div T + R * sum_list rs div T \<le> (R * r + R * sum_list rs) div T"
    by (subst div_add1_eq [of "R * r" "R * sum_list rs"]) simp
  ultimately show ?case using Cons by (simp add: distrib_left)
qed simp

lemma part_size_nat:
  assumes "0 < unat tot" and "unat tot < 2 ^ 30" and "unat rate \<le> 2 ^ 20" and "unat rate \<le> unat tot"
    and "unat minimum + unat rest < 2 ^ 64"
  shows "unat (part_size minimum rest tot rate) = unat minimum + unat rest * unat rate div unat tot div 64 * 64"
proof -
  let ?x = "rest div tot * rate + (rest mod tot) * rate div tot"
  note x = share_nat [OF assms(1-4), of rest]
  have u: "unat (?x div 64 * 64) = unat rest * unat rate div unat tot div 64 * 64"
    using unat_round_down [of ?x 64] by (simp add: x)
  have "unat rest * unat rate div unat tot \<le> unat rest * unat tot div unat tot" using assms(4) by (intro div_le_mono mult_le_mono2)
  then have "unat (?x div 64 * 64) \<le> unat rest"
    unfolding u using assms(1) div_times_less_eq_dividend [of "unat rest * unat rate div unat tot" 64] by simp
  then show ?thesis unfolding part_size_def using assms(5) by (subst unat_add_small) (simp_all add: u)
qed

lemma bond_parts_tile:
  fixes load :: "bond_load list" and len :: u64
  assumes "load \<noteq> []" and "length load \<le> BOND_LINKS"
  defines "n \<equiv> length load" and "low \<equiv> min BOND_PART (unat len div length load div 64 * 64)"
  shows "length (bond_parts load len) = n \<and> sum_list (map unat (bond_parts load len)) = unat len \<and>
    (\<forall>p \<in> set (bond_parts load len). low \<le> unat p)"
proof -
  define fastest where "fastest = foldl (\<lambda>f l. if f < ld_rate l then ld_rate l else f) 0 load"
  define rates where "rates = map (part_rate fastest) load"
  define tot where "tot = sum_list rates"
  define m0 where "m0 = len div of_nat n div 64 * 64"
  define minimum where "minimum = (if BOND_PART < m0 then BOND_PART else m0)"
  define rest where "rest = len - of_nat n * minimum"
  define sizes where "sizes = map (part_size minimum rest tot) (take (n - 1) rates)"
  have parts: "bond_parts load len = sizes @ [len - sum_list sizes]"
    by (simp add: bond_parts_def Let_def fastest_def rates_def tot_def m0_def minimum_def rest_def sizes_def n_def)
  have n: "0 < n" "n \<le> 24" using assms(1,2) by (simp_all add: n_def)
  have un: "unat (of_nat n :: u64) = n" using n by (simp add: unat_of_nat)
  have m0: "unat m0 = unat len div n div 64 * 64" using unat_round_down [of "len div of_nat n" 64] by (simp add: m0_def unat_div un)
  have min: "unat minimum = low" unfolding minimum_def low_def by (auto simp: word_less_nat_alt m0 n_def)
  have "low \<le> unat len div n" unfolding low_def n_def [symmetric] by (metis div_times_less_eq_dividend le_trans min.cobounded2)
  then have nl: "n * low \<le> unat len" using n(1) by (metis div_times_less_eq_dividend le_trans mult.commute mult_le_mono1)
  have "n * low < 2 ^ 64" using nl unat_lt_64 [of len] by simp
  then have nm: "unat (of_nat n * minimum) = n * low" using unat_mult_lem [of "of_nat n :: u64" minimum] by (simp add: un min)
  have rest: "unat rest = unat len - n * low" using nl by (simp add: rest_def unat_sub_le word_le_nat_alt nm)
  have r: "\<forall>x \<in> set rates. 1 \<le> unat x \<and> unat x \<le> 1048576" using part_rate_bounds by (auto simp: rates_def)
  have "sum_list (map unat rates) \<le> n * 1048576"
    using sum_list_mono [of rates unat "\<lambda>_. 1048576"] r by (simp add: rates_def n_def sum_list_triv comp_def)
  then have small: "sum_list (map unat rates) \<le> 24 * 1048576" using n(2) by (meson le_trans mult_le_mono1)
  then have tot: "unat tot = sum_list (map unat rates)" unfolding tot_def by (intro unat_sum_list) simp
  have le: "unat x \<le> unat tot" if "x \<in> set rates" for x using member_le_sum_list [of "unat x" "map unat rates"] that by (simp add: tot)
  have ne: "rates \<noteq> []" using assms(1) by (simp add: rates_def)
  then have T: "0 < unat tot" "unat tot < 2 ^ 30" using le [of "hd rates"] r small by (auto simp: tot dest: bspec [of _ _ "hd rates"])
  have "unat minimum + unat rest < 2 ^ 64"
  proof -
    have "low \<le> n * low" using n(1) by simp
    then have "low + (unat len - n * low) < 18446744073709551616" using nl unat_lt_64 [of len] by linarith
    then show ?thesis by (simp only: min rest power_numeral) simp
  qed
  then have sz: "map unat sizes = map (\<lambda>x. low + unat rest * x div unat tot div 64 * 64) (map unat (take (n - 1) rates))"
    unfolding sizes_def using part_size_nat [OF T] r le in_set_takeD [of _ "n - 1" rates] by (auto simp: min)
  have "sum_list (map unat (take (n - 1) rates)) \<le> unat tot"
    unfolding tot by (metis append_take_drop_id le_add1 map_append sum_list.append)
  then have "unat rest * sum_list (map unat (take (n - 1) rates)) div unat tot \<le> unat rest"
    using T(1) by (metis div_le_mono mult_le_mono2 nonzero_mult_div_cancel_right not_gr_zero)
  moreover have "sum_list (map unat sizes) = (n - 1) * low +
      sum_list (map (\<lambda>x. unat rest * x div unat tot div 64 * 64) (map unat (take (n - 1) rates)))"
    unfolding sz using n by (simp add: sum_list_addf sum_list_triv comp_def rates_def n_def)
  ultimately have su: "sum_list (map unat sizes) + low \<le> unat len"
    using sum_shares [OF T(1), of "unat rest" "map unat (take (n - 1) rates)"] nl n(1)
    by (cases n) (simp_all add: rest)
  then have "unat (sum_list sizes) = sum_list (map unat sizes)" using unat_lt_64 [of len] by (intro unat_sum_list) simp
  then have "unat (len - sum_list sizes) = unat len - sum_list (map unat sizes)"
    using su by (simp add: unat_sub_le word_le_nat_alt)
  moreover have "\<forall>p \<in> set sizes. low \<le> unat p" using sz by (metis (no_types, lifting) in_set_conv_nth le_add1 length_map nth_map)
  moreover have "length sizes = n - 1" by (simp add: sizes_def rates_def n_def)
  ultimately show ?thesis using su n by (auto simp: parts)
qed

subsection \<open>Properties\<close>

text \<open>
  C19: the parts of a parallel write tile it: one part a link, their sizes add up to the whole, and no
  link's part is empty once the write has 64 bytes a link. None of the 64-bit sums or products of the
  computation wraps, whatever the measured rates.
\<close>

theorem parts_tile:
  assumes "load \<noteq> []" and "length load \<le> BOND_LINKS"
  shows "length (bond_parts load len) = length load \<and> sum_list (map unat (bond_parts load len)) = unat len \<and>
    (\<forall>p \<in> set (bond_parts load len). min BOND_PART (unat len div length load div 64 * 64) \<le> unat p)"
  using bond_parts_tile [OF assms] .

theorem parts_tile_witness:
  "sum_list (map unat (bond_parts (replicate 3 \<lparr>ld_backlog = 0, ld_rate = 0, ld_max = 0\<rparr>) 100000)) = 100000"
  using parts_tile [of "replicate 3 \<lparr>ld_backlog = 0, ld_rate = 0, ld_max = 0\<rparr>" 100000] by simp

text \<open>
  C18: what \<open>bond_plan\<close> plans, the links can represent: the head's message and the tail each stay
  inside one registration of the source and inside the largest message of their link, and the tail
  does not start with the magic by which a receiver knows a head. So the room checks of the two links
  never answer 2 (not representable) for a planned write, and none of it is left out.
\<close>

theorem plan_representable:
  assumes "bond_plan s win load off len turn = (Some p, turn')" and "plan_pre win off len"
    and "msg_max a = ld_max (load ! pl_head p)" and "msg_max b = ld_max (load ! (1 - pl_head p))" and "w_win b = w_win s"
  shows "pl_head p < 2 \<and> pl_first p \<noteq> 0 \<and> pl_first p \<le> len \<and>
    tb_can_bond_write_signal a (Some win) off (pl_first p) \<noteq> 2 \<and>
    (pl_first p < len \<longrightarrow> tb_can_bond_tail b (Some win) (off + pl_first p) (len - pl_first p) \<noteq> 2)"
  using plan_sends [OF assms(1,2), of a b] assms(3-5) by simp

theorem plan_representable_witness:
  "bond_plan up window [\<lparr>ld_backlog = 0, ld_rate = 8000, ld_max = 16384\<rparr>, \<lparr>ld_backlog = 0, ld_rate = 8000, ld_max = 16384\<rparr>] 64 100 0 =
     (Some \<lparr>pl_head = 0, pl_first = 100\<rparr>, 1) \<and>
   tb_can_bond_write_signal up (Some window) 64 100 \<noteq> 2"
proof -
  let ?load = "[\<lparr>ld_backlog = 0, ld_rate = 8000, ld_max = 16384\<rparr>, \<lparr>ld_backlog = 0, ld_rate = 8000, ld_max = 16384\<rparr>]"
  have "plan_room window 64 = 16320" by (simp add: plan_room_def window_def)
  moreover have "bond_pick 0 ?load 100 = (0, 1)" by (simp add: bond_pick_def Let_def bond_finish_def)
  ultimately have p: "bond_plan up window ?load 64 100 0 = (Some \<lparr>pl_head = 0, pl_first = 100\<rparr>, 1)"
    by (simp add: bond_plan_def plan_whole_def) (simp add: window_def)
  have "plan_pre window 64 100" by (simp add: plan_pre_def window_def)
  from plan_representable [OF p this, of up up] p show ?thesis by simp
qed

text \<open>
  \<open>bond_choose\<close> finds a ready link whenever there is one, and of the ready links one with the
  least queued.
\<close>

theorem choose_least_loaded:
  assumes "bond_choose n turn rooms = (best, turn')" and "unat turn + n < 2 ^ 32" and "k < n" and "rm_ready (rooms ! k)"
  shows "\<exists>b. best = Some b \<and> rm_ready (rooms ! b) \<and> rm_backlog (rooms ! b) \<le> rm_backlog (rooms ! k)"
  using bond_choose_least [OF assms] .

theorem choose_least_loaded_witness:
  "\<exists>b. fst (bond_choose 2 1 [\<lparr>rm_backlog = 9, rm_take = 1, rm_ready = True\<rparr>, \<lparr>rm_backlog = 3, rm_take = 1, rm_ready = True\<rparr>]) = Some b \<and>
    rm_backlog ([\<lparr>rm_backlog = 9, rm_take = 1, rm_ready = True\<rparr>, \<lparr>rm_backlog = 3, rm_take = 1, rm_ready = True\<rparr>] ! b) \<le> 3"
proof -
  let ?r = "[\<lparr>rm_backlog = 9, rm_take = 1, rm_ready = True\<rparr>, \<lparr>rm_backlog = 3, rm_take = 1, rm_ready = True\<rparr>]"
  obtain best turn' where c: "bond_choose 2 1 ?r = (best, turn')" by fastforce
  from choose_least_loaded [OF c, of 1] show ?thesis by (auto simp: c)
qed

end
