(* ===== verification/Fabric_Setup.thy ===== *)
theory Fabric_Setup
  imports Bond_Rx
begin

section \<open>Names, ports and budgets of a fabric (rpc/libmcdma\_fabric.c)\<close>

text \<open>
  What \<open>mcdma_fabric_open\<close> and \<open>mcdma_fabric_connect\<close> check and compute from their arguments: the
  list of links in a device or interface string, the names of peers, the ports of the lanes, and the
  queue pairs each device has left for another peer.
\<close>

abbreviation (input) MAX_PEERS :: "'a :: numeral" where "MAX_PEERS \<equiv> 16"
abbreviation (input) MAX_LINKS :: "'a :: numeral" where "MAX_LINKS \<equiv> 8"

subsection \<open>Link strings\<close>

abbreviation (input) plus_sign :: char where "plus_sign \<equiv> CHR ''+''"

definition bad_char :: "char \<Rightarrow> bool" where
  "bad_char c \<longleftrightarrow> (of_char c :: nat) \<le> 32 \<or> (of_char c :: nat) = 127"

definition entry_of :: "string \<Rightarrow> string" where
  "entry_of at = takeWhile (\<lambda>c. c \<noteq> plus_sign) at"

definition rest_of :: "string \<Rightarrow> string" where
  "rest_of at = dropWhile (\<lambda>c. c \<noteq> plus_sign) at"

text \<open>The loop over the string, with the entries found so far; None is the result 0.\<close>

function split_loop :: "bool \<Rightarrow> string list \<Rightarrow> string \<Rightarrow> string list option" where
  "split_loop different out at =
     (if at = [] then Some out
      else
        let e = entry_of at; n = length e in
        if n = 0 \<or> 128 \<le> n \<or> length out = MAX_LINKS then None
        else if \<exists>c \<in> set e. bad_char c then None
        else if different \<and> e \<in> set out then None
        else if rest_of at = [] then Some (out @ [e])
        else if tl (rest_of at) = [] then None
        else split_loop different (out @ [e]) (tl (rest_of at)))"
  by pat_completeness auto
termination
proof (relation "measure (\<lambda>(_, _, at). length at)", goal_cases)
  case (2 different out at)
  then have "length (tl (rest_of at)) < length (rest_of at)" by simp
  also have "\<dots> \<le> length at" by (simp add: rest_of_def length_dropWhile_le)
  finally show ?case by simp
qed simp

declare split_loop.simps [simp del]

definition split_links :: "string \<Rightarrow> bool \<Rightarrow> string list option" where
  "split_links s different = (if s = [] then None else split_loop different [] s)"

fun join_links :: "string list \<Rightarrow> string" where
  "join_links [] = []"
| "join_links [x] = x"
| "join_links (x # y # xs) = x @ plus_sign # join_links (y # xs)"

definition link_ok :: "string \<Rightarrow> bool" where
  "link_ok x \<longleftrightarrow> x \<noteq> [] \<and> length x < 128 \<and> (\<forall>c \<in> set x. \<not> bad_char c \<and> c \<noteq> plus_sign)"

lemma entry_plain [simp]: "plus_sign \<notin> set x \<Longrightarrow> entry_of x = x" "plus_sign \<notin> set x \<Longrightarrow> rest_of x = []"
  by (auto simp: entry_of_def rest_of_def takeWhile_eq_all_conv)

lemma entry_joined [simp]:
  "plus_sign \<notin> set x \<Longrightarrow> entry_of (x @ plus_sign # y) = x" "plus_sign \<notin> set x \<Longrightarrow> rest_of (x @ plus_sign # y) = plus_sign # y"
  by (induction x) (auto simp: entry_of_def rest_of_def)

lemma split_at: "at = entry_of at @ rest_of at" "rest_of at \<noteq> [] \<Longrightarrow> hd (rest_of at) = plus_sign" "plus_sign \<notin> set (entry_of at)"
  using hd_dropWhile [of "\<lambda>c. c \<noteq> plus_sign" at] by (auto simp: entry_of_def rest_of_def dest: set_takeWhileD)

lemma split_loop_join:
  assumes "xs \<noteq> []" and "\<forall>x \<in> set xs. link_ok x" and "length out + length xs \<le> MAX_LINKS"
    and "different \<longrightarrow> distinct (out @ xs)"
  shows "split_loop different out (join_links xs) = Some (out @ xs)"
  using assms
proof (induction xs arbitrary: out rule: join_links.induct)
  case (2 x)
  have x: "plus_sign \<notin> set x" "x \<noteq> []" "length x < 128" "\<forall>c \<in> set x. \<not> bad_char c" using "2.prems"(2) by (auto simp: link_ok_def)
  show ?case unfolding join_links.simps using x "2.prems"(3,4) by (subst split_loop.simps) (simp add: Let_def)
next
  case (3 x y xs)
  have x: "plus_sign \<notin> set x" "x \<noteq> []" "length x < 128" "\<forall>c \<in> set x. \<not> bad_char c" using "3.prems"(2) by (auto simp: link_ok_def)
  have "join_links (y # xs) \<noteq> []" using "3.prems"(2) by (cases xs) (auto simp: link_ok_def)
  moreover have "split_loop different (out @ [x]) (join_links (y # xs)) = Some ((out @ [x]) @ y # xs)"
    using "3.prems" by (intro "3.IH") auto
  ultimately show ?case using x "3.prems"(3,4) by (subst split_loop.simps) (simp add: Let_def)
qed simp

lemma join_Cons: "ys \<noteq> [] \<Longrightarrow> join_links (x # ys) = x @ plus_sign # join_links ys"
  by (cases ys) simp_all

lemma split_loop_sound:
  assumes "split_loop different out at = Some xs" and "at \<noteq> []"
  shows "\<exists>ys. xs = out @ ys \<and> ys \<noteq> [] \<and> at = join_links ys \<and> (\<forall>y \<in> set ys. link_ok y) \<and>
    (length out \<le> MAX_LINKS \<longrightarrow> length xs \<le> MAX_LINKS) \<and> (different \<longrightarrow> distinct out \<longrightarrow> distinct xs)"
  using assms
proof (induction different out at rule: split_loop.induct)
  case (1 different out at)
  let ?e = "entry_of at"
  have ok: "?e \<noteq> []" "length ?e < 128" "length out \<noteq> MAX_LINKS" "\<forall>c \<in> set ?e. \<not> bad_char c" "different \<longrightarrow> ?e \<notin> set out"
    using "1.prems" by (auto simp: split_loop.simps [of different out at] Let_def split: if_splits)
  then have l: "link_ok ?e" using split_at(3) [of at] by (auto simp: link_ok_def)
  show ?case
  proof (cases "rest_of at = []")
    case True
    then have "xs = out @ [?e]" "at = ?e"
      using "1.prems" ok split_at(1) [of at] by (auto simp: split_loop.simps [of different out at] Let_def split: if_splits)
    then show ?thesis using l ok by (intro exI [of _ "[?e]"]) auto
  next
    case False
    then have r: "rest_of at = plus_sign # tl (rest_of at)" using split_at(2) [of at] by (cases "rest_of at") auto
    have ne: "tl (rest_of at) \<noteq> []" and rec: "split_loop different (out @ [?e]) (tl (rest_of at)) = Some xs"
      using "1.prems" ok False by (auto simp: split_loop.simps [of different out at] Let_def split: if_splits)
    have "\<exists>ys. xs = (out @ [?e]) @ ys \<and> ys \<noteq> [] \<and> tl (rest_of at) = join_links ys \<and> (\<forall>y \<in> set ys. link_ok y) \<and>
        (length (out @ [?e]) \<le> MAX_LINKS \<longrightarrow> length xs \<le> MAX_LINKS) \<and> (different \<longrightarrow> distinct (out @ [?e]) \<longrightarrow> distinct xs)"
      using "1.IH" [OF "1.prems"(2) refl refl] ok False ne rec by auto
    then obtain ys where "xs = (out @ [?e]) @ ys" and ys: "ys \<noteq> []" "tl (rest_of at) = join_links ys" "\<forall>y \<in> set ys. link_ok y"
      "length (out @ [?e]) \<le> MAX_LINKS \<longrightarrow> length xs \<le> MAX_LINKS" "different \<longrightarrow> distinct (out @ [?e]) \<longrightarrow> distinct xs" by blast
    have "at = join_links (?e # ys)" using split_at(1) [of at] r ys(1,2) by (simp add: join_Cons)
    moreover have "xs = out @ ?e # ys" using \<open>xs = (out @ [?e]) @ ys\<close> by simp
    ultimately show ?thesis using ys l ok by (intro exI [of _ "?e # ys"]) (simp del: length_append distinct_append, auto)
  qed
qed

subsection \<open>Peer names\<close>

definition name_char :: "char \<Rightarrow> bool" where
  "name_char c \<longleftrightarrow> (let n = of_char c :: nat in
     (65 \<le> n \<and> n \<le> 90) \<or> (97 \<le> n \<and> n \<le> 122) \<or> (48 \<le> n \<and> n \<le> 57) \<or> c = CHR ''_'' \<or> c = CHR ''-'')"

definition valid_name :: "string \<Rightarrow> bool" where
  "valid_name name \<longleftrightarrow> (\<forall>c \<in> set name. name_char c) \<and> 1 \<le> length name \<and> length name \<le> 20"

subsection \<open>Lane ports\<close>

text \<open>\<open>n\<close> is the number of ports given; the least and the largest of them space the blocks of the later queue pairs.\<close>

definition lane_port :: "u16 list \<Rightarrow> nat \<Rightarrow> nat \<Rightarrow> nat \<Rightarrow> nat \<Rightarrow> nat" where
  "lane_port input devices lanes spread k =
     (if length input = lanes then unat (input ! k) else unat (input ! (k mod devices)) + k div devices * spread)"

definition lane_ports :: "u16 list option \<Rightarrow> nat \<Rightarrow> nat \<Rightarrow> u16 list option" where
  "lane_ports input devices lanes =
     (case input of
        None \<Rightarrow> None
      | Some ps \<Rightarrow>
          if length ps \<noteq> devices \<and> length ps \<noteq> lanes then None
          else if 0 \<in> set ps \<or> \<not> distinct ps then None
          else
            let lo = foldl (\<lambda>m p. if unat p < m then unat p else m) 65535 ps;
                hi = foldl (\<lambda>m p. if m < unat p then unat p else m) 0 ps;
                out = map (lane_port ps devices lanes (hi - lo + 1)) [0..<lanes]
            in if \<exists>p \<in> set out. 65535 < p then None else Some (map of_nat out))"

lemma fold_least:
  fixes f :: "'a \<Rightarrow> nat"
  shows "foldl (\<lambda>m p. if f p < m then f p else m) m0 ps \<le> m0 \<and>
    (\<forall>p \<in> set ps. foldl (\<lambda>m p. if f p < m then f p else m) m0 ps \<le> f p)"
proof (induction ps arbitrary: m0)
  case (Cons p ps)
  show ?case using Cons [of "if f p < m0 then f p else m0"] by (auto split: if_splits)
qed simp

lemma fold_greatest:
  fixes f :: "'a \<Rightarrow> nat"
  shows "m0 \<le> foldl (\<lambda>m p. if m < f p then f p else m) m0 ps \<and>
    (\<forall>p \<in> set ps. f p \<le> foldl (\<lambda>m p. if m < f p then f p else m) m0 ps)"
proof (induction ps arbitrary: m0)
  case (Cons p ps)
  show ?case using Cons [of "if m0 < f p then f p else m0"] by (auto split: if_splits)
qed simp

lemma block_distinct:
  fixes lo hi :: nat
  assumes "lo \<le> a" "a \<le> hi" and "lo \<le> b" "b \<le> hi" and "a + q * (hi - lo + 1) = b + r * (hi - lo + 1)"
  shows "a = b \<and> q = r"
proof -
  define s where "s = hi - lo + 1"
  have d: "(x + k * s) div s = k" if "x < s" for x k using that by simp
  have "a - lo < s" "b - lo < s" using assms(1-4) by (simp_all add: s_def)
  then have "(a - lo + q * s) div s = q" "(b - lo + r * s) div s = r" by (simp_all only: d)
  moreover have "a - lo + q * s = b - lo + r * s" using assms unfolding s_def by linarith
  ultimately show ?thesis using assms by (simp add: s_def)
qed

lemma lane_port_inj:
  assumes "distinct ps" and "0 < devices" and "length ps = devices \<or> length ps = lanes" and "k < lanes" "j < lanes"
    and "\<forall>p \<in> set ps. lo \<le> unat p \<and> unat p \<le> hi"
    and "lane_port ps devices lanes (hi - lo + 1) k = lane_port ps devices lanes (hi - lo + 1) j"
  shows "k = j"
proof (cases "length ps = lanes")
  case True
  then have "unat (ps ! k) = unat (ps ! j)" using assms(7) by (simp add: lane_port_def)
  then have "ps ! k = ps ! j" by (simp add: word_unat_eq_iff)
  with True assms(1,4,5) show ?thesis by (simp add: nth_eq_iff_index_eq)
next
  case False
  then have l: "length ps = devices" using assms(3) by simp
  let ?a = "k mod devices" and ?b = "j mod devices"
  have ab: "?a < length ps" "?b < length ps" using assms(2) l by simp_all
  have "unat (ps ! ?a) + k div devices * (hi - lo + 1) = unat (ps ! ?b) + j div devices * (hi - lo + 1)"
    using assms(7) False by (simp add: lane_port_def)
  then have "unat (ps ! ?a) = unat (ps ! ?b) \<and> k div devices = j div devices"
    using assms(6) nth_mem [OF ab(1)] nth_mem [OF ab(2)] by (intro block_distinct) auto
  then have "?a = ?b" "k div devices = j div devices" using assms(1) ab by (auto simp: word_unat_eq_iff [symmetric] nth_eq_iff_index_eq)
  then show ?thesis by (metis div_mult_mod_eq)
qed

lemma lane_ports_distinct:
  assumes "lane_ports input devices lanes = Some out" and "0 < devices"
  shows "length out = lanes \<and> distinct out \<and> 0 \<notin> set out"
proof -
  obtain ps where ps: "input = Some ps" using assms(1) by (cases input) (simp_all add: lane_ports_def)
  define lo hi where "lo = foldl (\<lambda>m p. if unat p < m then unat p else m) 65535 ps"
    and "hi = foldl (\<lambda>m p. if m < unat p then unat p else m) 0 ps"
  define f where "f = lane_port ps devices lanes (hi - lo + 1)"
  have ok: "length ps = devices \<or> length ps = lanes" "0 \<notin> set ps" "distinct ps" "\<forall>k < lanes. f k \<le> 65535"
      "out = map (\<lambda>k. of_nat (f k)) [0..<lanes]"
    using assms(1) unfolding ps lane_ports_def f_def lo_def hi_def by (auto simp: Let_def not_less split: if_splits)
  have b: "\<forall>p \<in> set ps. lo \<le> unat p \<and> unat p \<le> hi"
    using fold_least [of unat 65535 ps] fold_greatest [of 0 unat ps] by (auto simp: lo_def hi_def)
  have u: "unat (of_nat (f k) :: u16) = f k" if "k < lanes" for k
  proof -
    have "f k < 65536" using ok(4) that by (simp add: less_Suc_eq_le [of _ 65535, simplified])
    then show ?thesis by (simp add: unat_of_nat)
  qed
  have inj: "k = j" if "k < lanes" "j < lanes" "f k = f j" for k j
    using lane_port_inj [OF ok(3) assms(2) ok(1) that(1,2) b] that(3) by (simp add: f_def)
  have "distinct out" unfolding ok(5)
    using inj u by (auto simp: distinct_map intro!: inj_onI dest!: arg_cong [of _ _ unat])
  moreover have "0 < f k" if "k < lanes" for k
  proof -
    have "(if length ps = lanes then k else k mod devices) < length ps" using ok(1) that assms(2) by auto
    then have "0 < unat (ps ! (if length ps = lanes then k else k mod devices))"
      using ok(2) by (metis nth_mem unat_gt_0)
    then show ?thesis by (auto simp: f_def lane_port_def split: if_splits)
  qed
  then have "0 \<notin> set out" unfolding ok(5) using u by (force dest!: arg_cong [of _ _ unat])
  ultimately show ?thesis by (simp add: ok(5))
qed

subsection \<open>The budget of queue pairs\<close>

text \<open>
  The fields a fabric reserves against: how many peers it has reserved, its devices with their
  limits of queue pairs (0 for none) and the queue pairs a peer takes on each.
\<close>

record budget =
  f_reserved :: int
  f_qps :: int
  f_qp_limit :: "u32 list"

definition reserve_peer :: "budget \<Rightarrow> bool \<times> budget" where
  "reserve_peer f =
     (let bad = (f_reserved f = MAX_PEERS \<or>
            (\<exists>limit \<in> set (f_qp_limit f). limit \<noteq> 0 \<and> limit < of_int ((f_reserved f + 1) * f_qps f)))
      in (\<not> bad, if bad then f else f\<lparr>f_reserved := f_reserved f + 1\<rparr>))"

definition unreserve_peer :: "budget \<Rightarrow> budget" where
  "unreserve_peer f = f\<lparr>f_reserved := f_reserved f - 1\<rparr>"

inductive budget_step :: "budget \<Rightarrow> budget \<Rightarrow> bool" where
  reserve: "reserve_peer f = (ok, f') \<Longrightarrow> budget_step f f'"
| unreserve: "0 < f_reserved f \<Longrightarrow> budget_step f (unreserve_peer f)"

definition budget_ok :: "budget \<Rightarrow> bool" where
  "budget_ok f \<longleftrightarrow> 0 \<le> f_reserved f \<and> f_reserved f \<le> MAX_PEERS \<and> 1 \<le> f_qps f \<and> f_qps f \<le> 3 \<and>
     (\<forall>limit \<in> set (f_qp_limit f). limit \<noteq> 0 \<longrightarrow> f_reserved f * f_qps f \<le> int (unat limit))"

lemma small_word: "0 \<le> x \<Longrightarrow> x \<le> 51 \<Longrightarrow> int (unat (of_int x :: u32)) = x"
  by (simp add: uint_word_of_int_eq take_bit_int_eq_self)

lemma budget_step_ok:
  assumes "budget_step f f'" and "budget_ok f"
  shows "budget_ok f' \<and> f_qps f' = f_qps f \<and> f_qp_limit f' = f_qp_limit f"
  using assms
proof (induction rule: budget_step.induct)
  case (reserve f ok f')
  show ?case
  proof (cases "f' = f")
    case False
    then have f': "f' = f\<lparr>f_reserved := f_reserved f + 1\<rparr>" "f_reserved f \<noteq> MAX_PEERS"
      and l: "\<forall>limit \<in> set (f_qp_limit f). limit \<noteq> 0 \<longrightarrow> of_int ((f_reserved f + 1) * f_qps f) \<le> limit"
      using reserve(1) by (auto simp: reserve_peer_def Let_def not_less split: if_splits)
    have "0 \<le> (f_reserved f + 1) * f_qps f" using reserve(2) by (simp add: budget_ok_def)
    moreover have "(f_reserved f + 1) * f_qps f \<le> 17 * 3"
      by (rule mult_mono) (use reserve(2) in \<open>simp_all add: budget_ok_def\<close>)
    ultimately have "int (unat (of_int ((f_reserved f + 1) * f_qps f) :: u32)) = (f_reserved f + 1) * f_qps f"
      by (intro small_word) simp_all
    then have "(f_reserved f + 1) * f_qps f \<le> int (unat limit)" if "limit \<in> set (f_qp_limit f)" "limit \<noteq> 0" for limit
      using l that by (metis of_nat_le_iff word_le_nat_alt)
    then show ?thesis using reserve(2) f' by (simp add: budget_ok_def)
  qed (use reserve in simp)
next
  case (unreserve f)
  then have "(f_reserved f - 1) * f_qps f \<le> b" if "f_reserved f * f_qps f \<le> b" for b
    using that by (simp add: budget_ok_def left_diff_distrib)
  with unreserve show ?case by (simp add: budget_ok_def unreserve_peer_def)
qed

subsection \<open>Properties\<close>

text \<open>
  C21: a link string and its entries determine each other. \<open>split_links\<close> accepts exactly the strings
  made by joining one to eight well-formed entries with a plus sign (distinct ones where devices are
  named), and gives back those entries.
\<close>

theorem split_links_exact:
  "split_links s different = Some xs \<longleftrightarrow>
     s = join_links xs \<and> xs \<noteq> [] \<and> length xs \<le> MAX_LINKS \<and> (\<forall>x \<in> set xs. link_ok x) \<and> (different \<longrightarrow> distinct xs)"
proof
  assume "split_links s different = Some xs"
  then have "s \<noteq> []" "split_loop different [] s = Some xs" by (simp_all add: split_links_def split: if_splits)
  with split_loop_sound [of different "[]" s xs] show "s = join_links xs \<and> xs \<noteq> [] \<and> length xs \<le> MAX_LINKS \<and>
      (\<forall>x \<in> set xs. link_ok x) \<and> (different \<longrightarrow> distinct xs)" by auto
next
  assume a: "s = join_links xs \<and> xs \<noteq> [] \<and> length xs \<le> MAX_LINKS \<and> (\<forall>x \<in> set xs. link_ok x) \<and> (different \<longrightarrow> distinct xs)"
  then have "split_loop different [] s = Some xs" using split_loop_join [of xs "[]" different] by simp
  moreover have "s \<noteq> []" using a by (cases xs rule: join_links.cases) (auto simp: link_ok_def)
  ultimately show "split_links s different = Some xs" by (simp add: split_links_def)
qed

theorem split_links_exact_witness: "split_links ''rdma_en2+rdma_en3'' True = Some [''rdma_en2'', ''rdma_en3'']"
  by (subst split_links_exact) (simp add: link_ok_def bad_char_def)

text \<open>
  C11: the lanes of a peer never share a port: whenever \<open>lane_ports\<close> accepts the ports it is given,
  the expanded list has one nonzero port a lane, all of them different, also where the queue pairs
  after the first use blocks above the given ports.
\<close>

theorem lane_ports_disjoint:
  assumes "lane_ports input devices lanes = Some out" and "0 < devices"
  shows "length out = lanes \<and> distinct out \<and> 0 \<notin> set out"
  using lane_ports_distinct [OF assms] .

theorem lane_ports_disjoint_witness:
  "lane_ports (Some [7000, 7005]) 2 4 = Some [7000, 7005, 7006, 7011] \<and> distinct [7000, 7005, 7006, 7011 :: u16]"
proof -
  have l: "lane_ports (Some [7000, 7005]) 2 4 = Some [7000, 7005, 7006, 7011]"
    by (simp add: lane_ports_def Let_def lane_port_def upt_rec)
  from lane_ports_disjoint [OF this] l show ?thesis by (intro conjI) simp_all
qed

text \<open>
  C22: a fabric never promises more queue pairs than a device grants: however peers come and go, the
  peers it has reserved are at most 16, and on every device with a limit their queue pairs together
  stay within it.
\<close>

theorem peers_within_budget:
  assumes "budget_step\<^sup>*\<^sup>* f f'" and "f_reserved f = 0" and "1 \<le> f_qps f" "f_qps f \<le> 3"
  shows "0 \<le> f_reserved f' \<and> f_reserved f' \<le> MAX_PEERS \<and>
    (\<forall>limit \<in> set (f_qp_limit f). limit \<noteq> 0 \<longrightarrow> f_reserved f' * f_qps f \<le> int (unat limit))"
proof -
  have "budget_ok f' \<and> f_qps f' = f_qps f \<and> f_qp_limit f' = f_qp_limit f"
    using assms(1)
  proof (induction rule: rtranclp_induct)
    case (step g h)
    then show ?case using budget_step_ok [of g h] by auto
  qed (use assms in \<open>simp add: budget_ok_def\<close>)
  then show ?thesis by (auto simp: budget_ok_def)
qed

theorem peers_within_budget_witness:
  "f_reserved (snd (reserve_peer \<lparr>f_reserved = 0, f_qps = 2, f_qp_limit = [3]\<rparr>)) * 2 \<le> 3"
proof -
  let ?f = "\<lparr>f_reserved = 0, f_qps = 2, f_qp_limit = [3]\<rparr>"
  have "budget_step\<^sup>*\<^sup>* ?f (snd (reserve_peer ?f))"
    using budget_step.reserve [of ?f "fst (reserve_peer ?f)" "snd (reserve_peer ?f)"] by auto
  from peers_within_budget [OF this] show ?thesis by simp
qed

end
