(* ===== verification/Nic_Wqe.thy ===== *)
theory Nic_Wqe
  imports Prelude
begin

section \<open>Work requests of the adapter, from the kernel and from user space\<close>

text \<open>
  \<open>include/cx5_user_post.h\<close> posts from a process into a queue page it shares with the kernel;
  \<open>core/cx5_verbs.cpp\<close> is the kernel's encoder of the same requests. Both are modelled as they
  are written, stores into byte memory in program order, and shown to give the adapter the same
  bytes. A pointer that the code checks for NULL is an option where the check is on a field of a
  request; a page or a buffer that is an argument is never NULL here. The machine is little-endian.
\<close>

abbreviation (input) SQ_OFFSET :: "'a :: numeral" where "SQ_OFFSET \<equiv> 512"
abbreviation (input) DBR_OFFSET :: "'a :: numeral" where "DBR_OFFSET \<equiv> 4096"
abbreviation (input) UAR_DOORBELL :: "'a :: numeral" where "UAR_DOORBELL \<equiv> 2048"
abbreviation (input) WQE_WRITE :: "'a :: numeral" where "WQE_WRITE \<equiv> 8"
abbreviation (input) WQE_WRITE_IMM :: "'a :: numeral" where "WQE_WRITE_IMM \<equiv> 9"
abbreviation (input) WQE_SEND :: "'a :: numeral" where "WQE_SEND \<equiv> 10"
abbreviation (input) WQE_SEND_IMM :: "'a :: numeral" where "WQE_SEND_IMM \<equiv> 11"
abbreviation (input) WQE_READ :: "'a :: numeral" where "WQE_READ \<equiv> 16"
abbreviation (input) MAX_SEND_SGE :: "'a :: numeral" where "MAX_SEND_SGE \<equiv> 3"
abbreviation (input) MAX_RDMA_SGE :: "'a :: numeral" where "MAX_RDMA_SGE \<equiv> 2"
abbreviation (input) MAX_INLINE_SEND :: "'a :: numeral" where "MAX_INLINE_SEND \<equiv> 44"
abbreviation (input) MAX_INLINE_RDMA :: "'a :: numeral" where "MAX_INLINE_RDMA \<equiv> 28"
abbreviation (input) SEND_FENCE :: "'a :: numeral" where "SEND_FENCE \<equiv> 1"
abbreviation (input) SEND_SIGNALED :: "'a :: numeral" where "SEND_SIGNALED \<equiv> 2"
abbreviation (input) SEND_SOLICITED :: "'a :: numeral" where "SEND_SOLICITED \<equiv> 4"
abbreviation (input) INFO_OFFSET :: "'a :: numeral" where "INFO_OFFSET \<equiv> 8192"
abbreviation (input) INFO_MAGIC :: "'a :: numeral" where "INFO_MAGIC \<equiv> 1296253510"
abbreviation (input) BF_BANKS :: "'a :: numeral" where "BF_BANKS \<equiv> 2"
abbreviation (input) UINT64_MAX :: u64 where "UINT64_MAX \<equiv> -1"

subsection \<open>Byte order\<close>

definition read_be32 :: "mem \<Rightarrow> nat \<Rightarrow> u32" where
  "read_be32 p a = push_bit 24 (ucast (p a)) OR push_bit 16 (ucast (p (a + 1))) OR
     push_bit 8 (ucast (p (a + 2))) OR ucast (p (a + 3))"

definition write_be32 :: "mem \<Rightarrow> nat \<Rightarrow> u32 \<Rightarrow> mem" where
  "write_be32 p a v = mem_write p a (map (\<lambda>n. ucast (drop_bit (24 - n * 8) v)) [0..<4])"

definition read_be64 :: "mem \<Rightarrow> nat \<Rightarrow> u64" where
  "read_be64 p a = push_bit 32 (ucast (read_be32 p a)) OR ucast (read_be32 p (a + 4))"

definition write_be64 :: "mem \<Rightarrow> nat \<Rightarrow> u64 \<Rightarrow> mem" where
  "write_be64 p a v = write_be32 (write_be32 p a (ucast (drop_bit 32 v))) (a + 4) (ucast v)"

definition mcdma_put_be32 :: "mem \<Rightarrow> nat \<Rightarrow> u32 \<Rightarrow> mem" where
  "mcdma_put_be32 p a v = p(a := ucast (drop_bit 24 v), a + 1 := ucast (drop_bit 16 v),
     a + 2 := ucast (drop_bit 8 v), a + 3 := ucast v)"

definition mcdma_put_be64 :: "mem \<Rightarrow> nat \<Rightarrow> u64 \<Rightarrow> mem" where
  "mcdma_put_be64 p a v = mcdma_put_be32 (mcdma_put_be32 p a (ucast (drop_bit 32 v))) (a + 4) (ucast v)"

definition mcdma_put_le32 :: "mem \<Rightarrow> nat \<Rightarrow> u32 \<Rightarrow> mem" where
  "mcdma_put_le32 p a v = mem_write p a (put_le 4 v)"

definition mcdma_get_le32 :: "mem \<Rightarrow> nat \<Rightarrow> u32" where
  "mcdma_get_le32 p a = get_le (mem_read p a 4)"

lemma upt_4: "[0..<4] = [0, 1, 2, 3 :: nat]"
  by (simp add: upt_rec)

lemma put_be_4: "put_be 4 (v :: u32) = [ucast (drop_bit 24 v), ucast (drop_bit 16 v), ucast (drop_bit 8 v), ucast v]"
  by (simp add: put_be_def put_le_def upt_4)

lemma mem_write_4: "mem_write p a [w, x, y, z] = p(a := w, a + 1 := x, a + 2 := y, a + 3 := z)"
proof (rule ext)
  fix i
  consider "i < a \<or> a + 4 \<le> i" | "i = a" | "i = a + 1" | "i = a + 2" | "i = a + 3" by linarith
  then show "mem_write p a [w, x, y, z] i = (p(a := w, a + 1 := x, a + 2 := y, a + 3 := z)) i"
    by cases (auto simp: mem_write_def)
qed

lemma write_be32_eq: "write_be32 p a v = mem_write p a (put_be 4 v)"
  by (simp add: write_be32_def put_be_4 upt_4)

lemma put_be32_eq: "mcdma_put_be32 p a v = mem_write p a (put_be 4 v)"
  by (simp add: mcdma_put_be32_def put_be_4 mem_write_4)

lemma put_be_8: "put_be 8 (v :: u64) = put_be 4 (ucast (drop_bit 32 v) :: u32) @ put_be 4 (ucast v :: u32)"
proof -
  have "[0..<8] = [0, 1, 2, 3, 4, 5, 6, 7 :: nat]" by (simp add: upt_rec)
  moreover have "(ucast (drop_bit n (ucast w :: u32)) :: u8) = ucast (drop_bit n w)" if "n \<le> 24" for n and w :: u64
    using that by (intro bit_word_eqI) (auto simp: bit_simps)
  moreover have "(ucast (ucast w :: u32) :: u8) = ucast w" for w :: u64
    by (intro bit_word_eqI) (auto simp: bit_simps)
  ultimately show ?thesis by (simp add: put_be_def put_le_def upt_4)
qed

lemma write_be64_eq: "write_be64 p a v = mem_write p a (put_be 8 v)"
  by (simp add: write_be64_def write_be32_eq put_be_8 mem_write_append)

lemma put_be64_eq: "mcdma_put_be64 p a v = mem_write p a (put_be 8 v)"
  by (simp add: mcdma_put_be64_def put_be32_eq put_be_8 mem_write_append)

subsection \<open>Requests\<close>

record send_sge =
  sge_address :: u64
  sge_lkey :: u32
  sge_length :: u32

record send_request =
  sr_opcode :: u8
  sr_flags :: u8
  sr_immediate :: u32
  sr_remote :: u64
  sr_rkey :: u32
  sr_sge :: "send_sge list"
  sr_sge_count :: u32
  sr_inline_data :: "mem option"
  sr_inline_bytes :: u32

definition rdma_opcode :: "u8 \<Rightarrow> bool" where
  "rdma_opcode opcode \<longleftrightarrow> opcode = WQE_WRITE \<or> opcode = WQE_WRITE_IMM \<or> opcode = WQE_READ"

definition immediate_opcode :: "u8 \<Rightarrow> bool" where
  "immediate_opcode opcode \<longleftrightarrow> opcode = WQE_WRITE_IMM \<or> opcode = WQE_SEND_IMM"

text \<open>The loop over the scatter entries: their lengths together, or None for the \<open>return 0\<close> inside it.\<close>

fun sge_total :: "send_sge list \<Rightarrow> u64 \<Rightarrow> u64 option" where
  "sge_total [] acc = Some acc"
| "sge_total (s # ss) acc =
     (if sge_length s = 0 \<or> sge_lkey s = 0 \<or> UINT64_MAX - ucast (sge_length s) < sge_address s then None
      else sge_total ss (acc + ucast (sge_length s)))"

definition request_bytes :: "send_request \<Rightarrow> u32" where
  "request_bytes r =
     (let rdma = rdma_opcode (sr_opcode r) in
      if \<not> rdma \<and> sr_opcode r \<noteq> WQE_SEND \<and> sr_opcode r \<noteq> WQE_SEND_IMM then 0
      else if sr_flags r AND NOT (SEND_FENCE OR SEND_SIGNALED OR SEND_SOLICITED) \<noteq> 0 then 0
      else if rdma \<and> sr_rkey r = 0 then 0
      else
        let bytes =
          (if sr_inline_data r \<noteq> None \<or> sr_inline_bytes r \<noteq> 0
           then if sr_inline_data r = None \<or> sr_sge_count r \<noteq> 0 \<or> sr_opcode r = WQE_READ then None
                else if sr_inline_bytes r < 1 \<or> (if rdma then MAX_INLINE_RDMA else MAX_INLINE_SEND) < sr_inline_bytes r then None
                else Some (ucast (sr_inline_bytes r))
           else if sr_sge_count r < 1 \<or> (if rdma then MAX_RDMA_SGE else MAX_SEND_SGE) < sr_sge_count r then None
           else sge_total (take (unat (sr_sge_count r)) (sr_sge r)) 0)
        in case bytes of
             None \<Rightarrow> 0
           | Some n \<Rightarrow> if n = 0 \<or> 0x7fffffff < n \<or> (rdma \<and> UINT64_MAX - n < sr_remote r) then 0 else ucast n)"

subsection \<open>The kernel's encoder\<close>

fun kernel_sges :: "send_sge list \<Rightarrow> nat \<Rightarrow> mem \<Rightarrow> mem" where
  "kernel_sges [] at p = p"
| "kernel_sges (s # ss) at p =
     kernel_sges ss (at + 16)
       (write_be64 (write_be32 (write_be32 p at (sge_length s)) (at + 4) (sge_lkey s)) (at + 8) (sge_address s))"

definition encode_send_request :: "mem \<Rightarrow> nat \<Rightarrow> u32 \<Rightarrow> u16 \<Rightarrow> send_request \<Rightarrow> mem option" where
  "encode_send_request p capacity qpn producer r =
     (if capacity < 64 \<or> 0xffffff < qpn \<or> request_bytes r = 0 then None
      else
        let rdma = rdma_opcode (sr_opcode r);
            data_units = (if sr_inline_data r \<noteq> None then (4 + sr_inline_bytes r + 15) div 16 else sr_sge_count r);
            ds = 1 + (if rdma then 1 else 0) + data_units
        in
        if 4 < ds then None
        else
          let p1 = mem_write p 0 (replicate 64 0);
              p2 = write_be32 p1 0 (push_bit 8 (ucast producer) OR ucast (sr_opcode r));
              p3 = write_be32 p2 4 (push_bit 8 qpn OR ds);
              p4 = p3(11 := 8 OR (if sr_flags r AND SEND_FENCE \<noteq> 0 then 0x80 else 0)
                              OR (if sr_flags r AND SEND_SOLICITED \<noteq> 0 then 2 else 0));
              p5 = (if immediate_opcode (sr_opcode r) then mem_write p4 12 (put_le 4 (sr_immediate r)) else p4);
              p6 = (if rdma then write_be32 (write_be64 p5 16 (sr_remote r)) 24 (sr_rkey r) else p5);
              at = (if rdma then 32 else 16 :: nat)
          in Some (case sr_inline_data r of
               Some d \<Rightarrow> mem_write (write_be32 p6 at (0x80000000 OR sr_inline_bytes r)) (at + 4)
                           (mem_read d 0 (unat (sr_inline_bytes r)))
             | None \<Rightarrow> kernel_sges (take (unat (sr_sge_count r)) (sr_sge r)) at p6))"

definition one_sge :: "u8 \<Rightarrow> u64 \<Rightarrow> u32 \<Rightarrow> u32 \<Rightarrow> u64 \<Rightarrow> u32 \<Rightarrow> send_request" where
  "one_sge opcode local lkey len remote rkey =
     \<lparr>sr_opcode = opcode, sr_flags = 0, sr_immediate = 0, sr_remote = remote, sr_rkey = rkey,
      sr_sge = [\<lparr>sge_address = local, sge_lkey = lkey, sge_length = len\<rparr>,
                \<lparr>sge_address = 0, sge_lkey = 0, sge_length = 0\<rparr>, \<lparr>sge_address = 0, sge_lkey = 0, sge_length = 0\<rparr>],
      sr_sge_count = 1, sr_inline_data = None, sr_inline_bytes = 0\<rparr>"

definition encode_wqe ::
    "mem \<Rightarrow> nat \<Rightarrow> u32 \<Rightarrow> u16 \<Rightarrow> u8 \<Rightarrow> u64 \<Rightarrow> u32 \<Rightarrow> u32 \<Rightarrow> u64 \<Rightarrow> u32 \<Rightarrow> mem option" where
  "encode_wqe p capacity qpn producer opcode local lkey len remote rkey =
     (if opcode \<noteq> WQE_WRITE \<and> opcode \<noteq> WQE_SEND \<and> opcode \<noteq> WQE_READ then None
      else encode_send_request p capacity qpn producer (one_sge opcode local lkey len remote rkey))"

subsection \<open>Posting from user space\<close>

definition mcdma_rdma_opcode :: "u8 \<Rightarrow> bool" where
  "mcdma_rdma_opcode opcode \<longleftrightarrow> opcode = WQE_WRITE \<or> opcode = WQE_WRITE_IMM \<or> opcode = WQE_READ"

fun user_total :: "send_sge list \<Rightarrow> u64 \<Rightarrow> u64 option" where
  "user_total [] acc = Some acc"
| "user_total (s # ss) acc =
     (if sge_length s = 0 \<or> sge_lkey s = 0 \<or> UINT64_MAX - ucast (sge_length s) < sge_address s then None
      else user_total ss (acc + ucast (sge_length s)))"

definition mcdma_request_bytes :: "send_request \<Rightarrow> u32" where
  "mcdma_request_bytes r =
     (let rdma = mcdma_rdma_opcode (sr_opcode r) in
      if \<not> rdma \<and> sr_opcode r \<noteq> WQE_SEND \<and> sr_opcode r \<noteq> WQE_SEND_IMM then 0
      else if sr_flags r AND NOT (SEND_FENCE OR SEND_SIGNALED OR SEND_SOLICITED) \<noteq> 0 then 0
      else if rdma \<and> sr_rkey r = 0 then 0
      else
        let bytes =
          (if sr_inline_data r \<noteq> None \<or> sr_inline_bytes r \<noteq> 0
           then if sr_inline_data r = None \<or> sr_sge_count r \<noteq> 0 \<or> sr_opcode r = WQE_READ then None
                else if sr_inline_bytes r < 1 \<or> (if rdma then MAX_INLINE_RDMA else MAX_INLINE_SEND) < sr_inline_bytes r then None
                else Some (ucast (sr_inline_bytes r))
           else if sr_sge_count r < 1 \<or> (if rdma then MAX_RDMA_SGE else MAX_SEND_SGE) < sr_sge_count r then None
           else user_total (take (unat (sr_sge_count r)) (sr_sge r)) 0)
        in case bytes of
             None \<Rightarrow> 0
           | Some n \<Rightarrow> if n = 0 \<or> 0x7fffffff < n \<or> (rdma \<and> UINT64_MAX - n < sr_remote r) then 0 else ucast n)"

definition sq_slot :: "u32 \<Rightarrow> nat" where
  "sq_slot producer = SQ_OFFSET + unat (producer AND 31) * 64"

fun user_sges :: "send_sge list \<Rightarrow> nat \<Rightarrow> nat \<Rightarrow> mem \<Rightarrow> mem" where
  "user_sges [] wqe at p = p"
| "user_sges (s # ss) wqe at p =
     user_sges ss wqe (at + 16)
       (mcdma_put_be64 (mcdma_put_be32 (mcdma_put_be32 p (wqe + at) (sge_length s)) (wqe + at + 4) (sge_lkey s))
          (wqe + at + 8) (sge_address s))"

text \<open>The doorbell value, 0 where the request cannot be encoded, and the queue page afterwards.\<close>

definition mcdma_encode_send_request :: "mem \<Rightarrow> u32 \<Rightarrow> u32 \<Rightarrow> send_request \<Rightarrow> u64 \<times> mem" where
  "mcdma_encode_send_request page qpn producer r =
     (if 0xffffff < qpn \<or> mcdma_request_bytes r = 0 then (0, page)
      else
        let rdma = mcdma_rdma_opcode (sr_opcode r);
            data_units = (if sr_inline_data r \<noteq> None then (4 + sr_inline_bytes r + 15) div 16 else sr_sge_count r);
            ds = 1 + (if rdma then 1 else 0) + data_units
        in
        if 4 < ds then (0, page)
        else
          let wqe = sq_slot producer;
              p1 = mem_write page wqe (replicate 64 0);
              p2 = mcdma_put_be32 p1 wqe (push_bit 8 (ucast (ucast producer :: u16)) OR ucast (sr_opcode r));
              p3 = mcdma_put_be32 p2 (wqe + 4) (push_bit 8 qpn OR ds);
              p4 = p3(wqe + 11 := 8 OR (if sr_flags r AND SEND_FENCE \<noteq> 0 then 0x80 else 0)
                                    OR (if sr_flags r AND SEND_SOLICITED \<noteq> 0 then 2 else 0));
              p5 = (if sr_opcode r = WQE_WRITE_IMM \<or> sr_opcode r = WQE_SEND_IMM
                    then mem_write p4 (wqe + 12) (put_le 4 (sr_immediate r)) else p4);
              p6 = (if rdma then mcdma_put_be32 (mcdma_put_be64 p5 (wqe + 16) (sr_remote r)) (wqe + 24) (sr_rkey r) else p5);
              at = (if rdma then 32 else 16 :: nat);
              p7 = (case sr_inline_data r of
                 Some d \<Rightarrow> mem_write (mcdma_put_be32 p6 (wqe + at) (0x80000000 OR sr_inline_bytes r)) (wqe + at + 4)
                             (mem_read d 0 (unat (sr_inline_bytes r)))
               | None \<Rightarrow> user_sges (take (unat (sr_sge_count r)) (sr_sge r)) wqe at p6)
          in (get_le (mem_read p7 wqe 8), p7))"

definition mcdma_encode_send_wqe ::
    "mem \<Rightarrow> u32 \<Rightarrow> u32 \<Rightarrow> u8 \<Rightarrow> u64 \<Rightarrow> u32 \<Rightarrow> u32 \<Rightarrow> u64 \<Rightarrow> u32 \<Rightarrow> u64 \<times> mem" where
  "mcdma_encode_send_wqe page qpn producer opcode local lkey len remote rkey =
     (if opcode \<noteq> WQE_WRITE \<and> opcode \<noteq> WQE_SEND \<and> opcode \<noteq> WQE_READ then (0, page)
      else mcdma_encode_send_request page qpn producer (one_sge opcode local lkey len remote rkey))"

definition mcdma_encode_recv_wqe :: "mem \<Rightarrow> u32 \<Rightarrow> u64 \<Rightarrow> u32 \<Rightarrow> u32 \<Rightarrow> bool \<times> mem" where
  "mcdma_encode_recv_wqe page producer address len lkey =
     (if len = 0 \<or> lkey = 0 \<or> UINT64_MAX - ucast len < address then (False, page)
      else let entry = unat (producer AND 31) * 16
           in (True, mcdma_put_be64 (mcdma_put_be32 (mcdma_put_be32 page entry len) (entry + 4) lkey) (entry + 8) address))"

text \<open>
  Ringing: the doorbell record in the queue page first, then the register in the page of the
  context; the barriers between them order the stores, which here are in program order.
\<close>

definition mcdma_ring_send :: "mem \<Rightarrow> mem \<Rightarrow> u32 \<Rightarrow> u64 \<Rightarrow> mem \<times> mem" where
  "mcdma_ring_send page uar producer_after doorbell =
     (mcdma_put_be32 page (DBR_OFFSET + 4) producer_after, mem_write uar UAR_DOORBELL (put_le 8 doorbell))"

definition mcdma_publish_recv :: "mem \<Rightarrow> u32 \<Rightarrow> mem" where
  "mcdma_publish_recv page producer_after = mcdma_put_be32 page DBR_OFFSET producer_after"

definition mcdma_ring_send_wc :: "mem \<Rightarrow> mem \<Rightarrow> u32 \<Rightarrow> u64 \<Rightarrow> mem \<times> mem" where
  "mcdma_ring_send_wc page uar producer_after doorbell = mcdma_ring_send page uar producer_after doorbell"

text \<open>
  The vector path moves 64 bytes through four registers: \<open>vld4q\<close> puts word 4l + j into lane l of
  register j, and \<open>vst4q\<close> stores it back from there.
\<close>

definition vld4q :: "mem \<Rightarrow> nat \<Rightarrow> nat \<Rightarrow> nat \<Rightarrow> u64" where
  "vld4q src a j l = get_le (mem_read src (a + 8 * (4 * l + j)) 8)"

fun vst4q :: "mem \<Rightarrow> nat \<Rightarrow> (nat \<Rightarrow> nat \<Rightarrow> u64) \<Rightarrow> mem" where
  "vst4q dst a v = mem_write dst a (concat (map (\<lambda>i. put_le 8 (v (i mod 4) (i div 4))) [0..<8]))"

definition bf_vector :: "mem \<Rightarrow> nat \<Rightarrow> mem \<Rightarrow> nat \<Rightarrow> nat \<Rightarrow> mem" where
  "bf_vector page wqe uar bank bytes =
     (let u1 = vst4q uar bank (vld4q page wqe)
      in if bytes \<le> 64 then u1 else vst4q u1 (bank + 64) (\<lambda>j l. 0))"

fun bf_scalar :: "nat \<Rightarrow> mem \<Rightarrow> nat \<Rightarrow> mem \<Rightarrow> nat \<Rightarrow> mem" where
  "bf_scalar 0 page wqe uar bank = uar"
| "bf_scalar (Suc i) page wqe uar bank =
     mem_write (bf_scalar i page wqe uar bank) (bank + i * 8)
       (put_le 8 (if i < 8 then get_le (mem_read page (wqe + i * 8) 8) else (0 :: u64)))"

definition mcdma_ring_send_bf :: "mem \<Rightarrow> mem \<Rightarrow> u32 \<Rightarrow> u32 \<Rightarrow> u32 \<Rightarrow> u32 \<Rightarrow> bool \<Rightarrow> mem \<times> mem" where
  "mcdma_ring_send_bf page uar producer_after index bank_offset bytes vector =
     (let wqe = sq_slot index;
          page' = mcdma_put_be32 page (DBR_OFFSET + 4) producer_after;
          n = (if bytes \<noteq> 64 \<and> bytes \<noteq> 128 then 64 else unat bytes)
      in (page', if vector then bf_vector page' wqe uar (unat bank_offset) n
                 else bf_scalar (n div 8) page' wqe uar (unat bank_offset)))"

subsection \<open>The capability block\<close>

definition mcdma_info_write :: "mem \<Rightarrow> u32 \<Rightarrow> u32 \<Rightarrow> mem" where
  "mcdma_info_write page flags bank_bytes =
     (let p = INFO_OFFSET; m0 = mem_write page p (replicate 32 0);
          m1 = mcdma_put_le32 m0 p INFO_MAGIC;
          m2 = mcdma_put_le32 m1 (p + 4) flags;
          m3 = mcdma_put_le32 m2 (p + 8) (if flags AND 1 \<noteq> 0 then bank_bytes else 0);
          m4 = mcdma_put_le32 m3 (p + 12) BF_BANKS
      in mcdma_put_le32 m4 (p + 16) UAR_DOORBELL)"

definition mcdma_info_read :: "mem \<Rightarrow> (u32 \<times> u32) option" where
  "mcdma_info_read page =
     (let p = INFO_OFFSET; bytes = mcdma_get_le32 page (p + 8) in
      if mcdma_get_le32 page p \<noteq> INFO_MAGIC \<or> mcdma_get_le32 page (p + 12) \<noteq> BF_BANKS \<or>
         mcdma_get_le32 page (p + 16) \<noteq> UAR_DOORBELL then None
      else if bytes \<noteq> 0 \<and> (bytes < 128 \<or> 1024 < bytes \<or> bytes AND (bytes - 1) \<noteq> 0) then None
      else Some (mcdma_get_le32 page (p + 4), bytes))"

subsection \<open>A work entry as a sequence of stores\<close>

text \<open>
  Both encoders clear 64 bytes and then store fields inside them. \<open>stores\<close> is such a sequence at
  a base address, \<open>patched\<close> its effect on the 64 bytes alone.
\<close>

definition stores :: "nat \<Rightarrow> (nat \<times> u8 list) list \<Rightarrow> mem \<Rightarrow> mem" where
  "stores a ws m = fold (\<lambda>(k, bs) m. mem_write m (a + k) bs) ws m"

definition splice :: "nat \<Rightarrow> 'a list \<Rightarrow> 'a list \<Rightarrow> 'a list" where
  "splice k bs w = take k w @ bs @ drop (k + length bs) w"

definition patched :: "(nat \<times> u8 list) list \<Rightarrow> u8 list \<Rightarrow> u8 list" where
  "patched ws w = fold (\<lambda>(k, bs). splice k bs) ws w"

definition inside_64 :: "(nat \<times> u8 list) list \<Rightarrow> bool" where
  "inside_64 ws \<longleftrightarrow> (\<forall>(k, bs) \<in> set ws. k + length bs \<le> 64)"

lemma stores_simps [simp]:
  "stores a [] m = m" "stores a ((k, bs) # ws) m = stores a ws (mem_write m (a + k) bs)"
  by (simp_all add: stores_def)

lemma stores_append: "stores a (ws @ ws') m = stores a ws' (stores a ws m)"
  by (simp add: stores_def)

lemma inside_64_simps [simp]:
  "inside_64 []" "inside_64 ((k, bs) # ws) \<longleftrightarrow> k + length bs \<le> 64 \<and> inside_64 ws"
  "inside_64 (ws @ ws') \<longleftrightarrow> inside_64 ws \<and> inside_64 ws'"
  by (auto simp: inside_64_def)

lemma length_splice [simp]: "k + length bs \<le> length w \<Longrightarrow> length (splice k bs w) = length w"
  by (simp add: splice_def)

lemma splice_mem_write:
  "k + length bs \<le> length w \<Longrightarrow> mem_write (mem_write m a w) (a + k) bs = mem_write m a (splice k bs w)"
  by (rule ext) (auto simp: mem_write_def splice_def nth_append)

lemma stores_patched:
  "inside_64 ws \<Longrightarrow> length w = 64 \<Longrightarrow>
     stores a ws (mem_write m a w) = mem_write m a (patched ws w) \<and> length (patched ws w) = 64"
proof (induction ws arbitrary: w)
  case (Cons x ws)
  obtain k bs where x: "x = (k, bs)" by fastforce
  have "k + length bs \<le> length w" "inside_64 ws" using Cons.prems by (auto simp: x)
  then show ?case using Cons.IH [of "splice k bs w"] Cons.prems(2) by (simp add: x splice_mem_write patched_def)
qed (simp add: patched_def)

text \<open>The stores after clearing that a request asks for.\<close>

fun sge_stores :: "send_sge list \<Rightarrow> nat \<Rightarrow> (nat \<times> u8 list) list" where
  "sge_stores [] at = []"
| "sge_stores (s # ss) at =
     [(at, put_be 4 (sge_length s)), (at + 4, put_be 4 (sge_lkey s)), (at + 8, put_be 8 (sge_address s))] @
     sge_stores ss (at + 16)"

definition tail_stores :: "u32 \<Rightarrow> send_request \<Rightarrow> (nat \<times> u8 list) list" where
  "tail_stores qpn r =
     (let rdma = rdma_opcode (sr_opcode r); at = (if rdma then 32 else 16);
          ds = 1 + (if rdma then 1 else 0) +
            (if sr_inline_data r \<noteq> None then (4 + sr_inline_bytes r + 15) div 16 else sr_sge_count r)
      in [(4, put_be 4 (push_bit 8 qpn OR ds)),
          (11, [8 OR (if sr_flags r AND SEND_FENCE \<noteq> 0 then 0x80 else 0)
                  OR (if sr_flags r AND SEND_SOLICITED \<noteq> 0 then 2 else 0)])] @
         (if immediate_opcode (sr_opcode r) then [(12, put_le 4 (sr_immediate r))] else []) @
         (if rdma then [(16, put_be 8 (sr_remote r)), (24, put_be 4 (sr_rkey r))] else []) @
         (case sr_inline_data r of
            Some d \<Rightarrow> [(at, put_be 4 (0x80000000 OR sr_inline_bytes r)), (at + 4, mem_read d 0 (unat (sr_inline_bytes r)))]
          | None \<Rightarrow> sge_stores (take (unat (sr_sge_count r)) (sr_sge r)) at))"

definition head_store :: "u16 \<Rightarrow> send_request \<Rightarrow> u8 list" where
  "head_store producer r = put_be 4 (push_bit 8 (ucast producer) OR ucast (sr_opcode r) :: u32)"

lemma mem_write_1: "m(a := x) = mem_write m a [x]"
  by (rule ext) (auto simp: mem_write_def)

lemma kernel_sges_stores: "kernel_sges ss at p = stores 0 (sge_stores ss at) p"
  by (induction ss arbitrary: at p) (simp_all add: write_be32_eq write_be64_eq stores_append)

lemma user_sges_stores: "user_sges ss wqe at p = stores wqe (sge_stores ss at) p"
  by (induction ss arbitrary: at p) (simp_all add: put_be32_eq put_be64_eq stores_append ac_simps)

lemma sge_stores_inside: "at + 16 * length ss \<le> 64 \<Longrightarrow> inside_64 (sge_stores ss at)"
  by (induction ss arbitrary: at) simp_all

lemma user_total_eq: "user_total ss n = sge_total ss n"
  by (induction ss arbitrary: n) simp_all

lemma request_bytes_eq: "mcdma_request_bytes r = request_bytes r"
  unfolding mcdma_request_bytes_def request_bytes_def mcdma_rdma_opcode_def rdma_opcode_def user_total_eq ..

lemma request_bytes_limits:
  assumes "request_bytes r \<noteq> 0"
  shows "sr_opcode r \<noteq> 0"
    and "sr_inline_data r = None \<Longrightarrow> unat (sr_sge_count r) \<le> (if rdma_opcode (sr_opcode r) then 2 else 3)"
    and "sr_inline_data r = Some d \<Longrightarrow> unat (sr_inline_bytes r) \<le> (if rdma_opcode (sr_opcode r) then 28 else 44)"
  using assms
  by (auto simp: request_bytes_def rdma_opcode_def Let_def word_le_nat_alt not_less split: if_splits option.splits)

lemma tail_stores_inside:
  assumes "request_bytes r \<noteq> 0"
  shows "inside_64 (tail_stores qpn r)"
proof (cases "sr_inline_data r")
  case None
  have "inside_64 (sge_stores (take (unat (sr_sge_count r)) (sr_sge r)) (if rdma_opcode (sr_opcode r) then 32 else 16))"
    using request_bytes_limits(2) [OF assms None] by (intro sge_stores_inside) (simp split: if_splits)
  then show ?thesis using None by (simp add: tail_stores_def Let_def)
next
  case (Some d)
  then show ?thesis using request_bytes_limits(3) [OF assms Some] by (simp add: tail_stores_def Let_def split: if_splits)
qed

lemma kernel_encodes:
  "encode_send_request p 64 qpn producer r =
     (if 0xffffff < qpn \<or> request_bytes r = 0 \<or>
         4 < 1 + (if rdma_opcode (sr_opcode r) then 1 else 0) +
           (if sr_inline_data r \<noteq> None then (4 + sr_inline_bytes r + 15) div 16 else sr_sge_count r) then None
      else Some (stores 0 (tail_stores qpn r) (mem_write (mem_write p 0 (replicate 64 0)) 0 (head_store producer r))))"
  unfolding encode_send_request_def Let_def tail_stores_def head_store_def write_be32_eq write_be64_eq
    kernel_sges_stores mem_write_1
  by (simp add: stores_append split: option.splits)

lemma user_encodes:
  "mcdma_encode_send_request page qpn producer r =
     (if 0xffffff < qpn \<or> request_bytes r = 0 \<or>
         4 < 1 + (if rdma_opcode (sr_opcode r) then 1 else 0) +
           (if sr_inline_data r \<noteq> None then (4 + sr_inline_bytes r + 15) div 16 else sr_sge_count r) then (0, page)
      else let a = sq_slot producer; page' = stores a (tail_stores qpn r)
                 (mem_write (mem_write page a (replicate 64 0)) a (head_store (ucast producer) r))
           in (get_le (mem_read page' a 8), page'))"
  unfolding mcdma_encode_send_request_def Let_def tail_stores_def head_store_def put_be32_eq put_be64_eq
    user_sges_stores mem_write_1 request_bytes_eq mcdma_rdma_opcode_def rdma_opcode_def immediate_opcode_def
  by (simp add: stores_append add.assoc split: option.splits)

text \<open>
  The first store of an entry, seen after the others: its last byte is the opcode, so a doorbell
  value is never 0.
\<close>

lemma stores_keep: "\<forall>(k, bs) \<in> set ws. n \<le> k \<Longrightarrow> i < a + n \<Longrightarrow> stores a ws m i = m i"
proof (induction ws arbitrary: m)
  case (Cons x ws)
  obtain k bs where x: "x = (k, bs)" by fastforce
  with Cons show ?case by (simp add: mem_write_outside)
qed simp

lemma sge_stores_from: "\<forall>(k, bs) \<in> set (sge_stores ss at). at \<le> k"
proof (induction ss arbitrary: at)
  case (Cons s ss)
  then show ?case using Cons.IH [of "at + 16"] by fastforce
qed simp

lemma tail_stores_from: "\<forall>(k, bs) \<in> set (tail_stores qpn r). 4 \<le> k"
proof -
  have "4 \<le> k" if "(k, bs) \<in> set (sge_stores ss at)" "4 \<le> at" for ss at k bs
    using sge_stores_from [of ss at] that by fastforce
  then show ?thesis by (auto simp: tail_stores_def Let_def split: option.splits if_splits)
qed

lemma head_store_opcode: "head_store producer r ! 3 = sr_opcode r"
proof -
  have "(ucast (push_bit 8 (ucast producer) OR ucast (sr_opcode r) :: u32) :: u8) = sr_opcode r"
    by (rule bit_word_eqI) (auto simp: bit_simps)
  then show ?thesis by (simp add: head_store_def put_be_4)
qed

lemma get_le_8_zero: "length bs = 8 \<Longrightarrow> i < 8 \<Longrightarrow> bs ! i \<noteq> 0 \<Longrightarrow> get_le bs \<noteq> (0 :: u64)"
  using le64.put_get [of bs] by (auto simp: put_le_def)

lemma user_doorbell:
  assumes "request_bytes r \<noteq> 0"
  shows "get_le (mem_read (stores a (tail_stores qpn r)
           (mem_write (mem_write page a (replicate 64 0)) a (head_store producer r))) a 8) \<noteq> (0 :: u64)"
proof (rule get_le_8_zero [where i = 3])
  have "stores a (tail_stores qpn r) m (a + 3) = m (a + 3)" for m
    by (rule stores_keep [OF tail_stores_from]) simp
  moreover have "length (head_store producer r) = 4" by (simp add: head_store_def)
  ultimately show "mem_read (stores a (tail_stores qpn r)
           (mem_write (mem_write page a (replicate 64 0)) a (head_store producer r))) a 8 ! 3 \<noteq> 0"
    using request_bytes_limits(1) [OF assms] by (simp add: mem_write_apply head_store_opcode)
qed simp_all

subsection \<open>Pushing and the capability block\<close>

lemma concat_blocks:
  "concat (map (\<lambda>i. mem_read m (a + i * n) n) [0..<k]) = mem_read m a (k * n)"
proof (induction k)
  case (Suc k)
  then show ?case using mem_read_append [of m a "k * n" n] by (simp add: add.commute [of n])
qed simp

lemma put_le_zero: "put_le n (0 :: 'a :: len word) = replicate n 0"
  by (rule nth_equalityI) (simp_all add: put_le_def)

lemma vst4q_vld4q: "vst4q uar bank (vld4q page wqe) = mem_write uar bank (mem_read page wqe 64)"
proof -
  have "put_le 8 (vld4q page wqe (i mod 4) (i div 4)) = mem_read page (wqe + i * 8) 8" for i
  proof -
    have "8 * (4 * (i div 4) + i mod 4) = i * 8" by (simp add: mult.commute)
    then show ?thesis unfolding vld4q_def by (simp add: mult.commute)
  qed
  then show ?thesis using concat_blocks [of page wqe 8 8] by (simp add: numeral_2_eq_2 [symmetric])
qed

lemma vst4q_zero: "vst4q uar bank (\<lambda>j l. 0) = mem_write uar bank (replicate 64 0)"
proof -
  have "concat (map (\<lambda>i. replicate 8 (0 :: u8)) [0..<8 :: nat]) = replicate 64 0"
    by (simp add: upt_rec replicate_add [symmetric] numeral_eq_Suc del: replicate_Suc)
  then show ?thesis by (simp add: put_le_zero)
qed

lemma bf_scalar_prefix:
  "k \<le> 8 \<Longrightarrow> bf_scalar k page wqe uar bank = mem_write uar bank (mem_read page wqe (k * 8))"
proof (induction k)
  case (Suc k)
  then have "bf_scalar (Suc k) page wqe uar bank =
      mem_write uar bank (mem_read page wqe (k * 8) @ mem_read page (wqe + k * 8) 8)"
    by (simp add: mem_write_append)
  then show ?case using mem_read_append [of page wqe "k * 8" 8] by (simp add: ac_simps)
qed simp

lemma bf_scalar_zeros:
  "bf_scalar (8 + k) page wqe uar bank = mem_write (mem_write uar bank (mem_read page wqe 64)) (bank + 64) (replicate (k * 8) 0)"
proof (induction k)
  case 0
  then show ?case using bf_scalar_prefix [of 8] by simp
next
  case (Suc k)
  have "bf_scalar (8 + Suc k) page wqe uar bank =
      mem_write (mem_write (mem_write uar bank (mem_read page wqe 64)) (bank + 64) (replicate (k * 8) 0)) (bank + (8 + k) * 8) (replicate 8 0)"
    using Suc by (simp only: add_Suc_right bf_scalar.simps) (simp add: put_le_zero)
  also have "bank + (8 + k) * 8 = bank + 64 + length (replicate (k * 8) (0 :: u8))" by simp
  finally show ?case by (simp only: mem_write_append [symmetric] replicate_add [symmetric]) (simp add: ac_simps)
qed

lemma bf_paths: "n = 64 \<or> n = 128 \<Longrightarrow> bf_vector page wqe uar bank n = bf_scalar (n div 8) page wqe uar bank"
  using bf_scalar_prefix [of 8] bf_scalar_zeros [of 8]
  by (auto simp: bf_vector_def Let_def vst4q_vld4q vst4q_zero simp del: vst4q.simps bf_scalar.simps)

lemma and_31_below: "unat (i AND 31 :: u32) \<le> 31"
  using word_and_le1 [of i 31] by (simp add: word_le_nat_alt)

lemma sq_slot_below: "sq_slot i + 64 \<le> 2560"
  using and_31_below [of i] by (simp add: sq_slot_def)

lemma rq_slot_below: "unat (i AND 31 :: u32) * 16 + 16 \<le> 512"
  using and_31_below [of i] by simp

text \<open>What a process does to its queue page after the kernel has handed it out.\<close>

inductive page_step :: "mem \<Rightarrow> mem \<Rightarrow> bool" where
  send: "page_step page (snd (mcdma_encode_send_request page qpn producer r))"
| recv: "page_step page (snd (mcdma_encode_recv_wqe page producer address len lkey))"
| ring: "page_step page (fst (mcdma_ring_send page uar producer doorbell))"
| ring_bf: "page_step page (fst (mcdma_ring_send_bf page uar producer index bank bytes vector))"
| publish: "page_step page (mcdma_publish_recv page producer)"

lemma user_page:
  "\<exists>w. length w = 64 \<and> (snd (mcdma_encode_send_request page qpn producer r) = page \<or>
     snd (mcdma_encode_send_request page qpn producer r) = mem_write page (sq_slot producer) w)"
proof (cases "request_bytes r = 0")
  case True
  then show ?thesis by (auto simp: user_encodes intro: exI [of _ "replicate 64 0"])
next
  case False
  let ?a = "sq_slot producer" and ?w = "patched (tail_stores qpn r) (splice 0 (head_store (ucast producer) r) (replicate 64 0))"
  have h: "length (head_store (ucast producer) r) = 4" by (simp add: head_store_def)
  have "mem_write (mem_write page ?a (replicate 64 0)) ?a (head_store (ucast producer) r) =
      mem_write page ?a (splice 0 (head_store (ucast producer) r) (replicate 64 0))"
    using splice_mem_write [of 0 "head_store (ucast producer) r" "replicate 64 0" page ?a] h by simp
  then have "stores ?a (tail_stores qpn r) (mem_write (mem_write page ?a (replicate 64 0)) ?a (head_store (ucast producer) r))
      = mem_write page ?a ?w \<and> length ?w = 64"
    using stores_patched [OF tail_stores_inside [OF False]] h by simp
  then show ?thesis by (intro exI [of _ ?w]) (simp add: user_encodes Let_def)
qed

lemma page_step_keeps: "page_step page page' \<Longrightarrow> 4104 \<le> i \<Longrightarrow> page' i = page i"
proof (induction rule: page_step.induct)
  case (send page qpn producer r)
  then show ?case using user_page [of page qpn producer r] sq_slot_below [of producer] by (auto simp: mem_write_outside)
next
  case (recv page producer address len lkey)
  then show ?case using rq_slot_below [of producer]
    by (simp add: mcdma_encode_recv_wqe_def Let_def put_be32_eq put_be64_eq mem_write_outside)
qed (simp_all add: mcdma_ring_send_def mcdma_ring_send_bf_def mcdma_publish_recv_def Let_def put_be32_eq mem_write_outside)

lemma page_steps_keep: "page_step\<^sup>*\<^sup>* page page' \<Longrightarrow> 4104 \<le> i \<Longrightarrow> page' i = page i"
  by (induction rule: rtranclp_induct) (simp_all add: page_step_keeps)

lemma get_le32_cong: "(\<And>i. a \<le> i \<Longrightarrow> m i = m' i) \<Longrightarrow> mcdma_get_le32 m a = mcdma_get_le32 m' a"
  by (simp add: mcdma_get_le32_def mem_read_def)

lemma info_read_cong: "(\<And>i. INFO_OFFSET \<le> i \<Longrightarrow> m i = m' i) \<Longrightarrow> mcdma_info_read m = mcdma_info_read m'"
  using get_le32_cong [of "INFO_OFFSET" m m'] get_le32_cong [of "INFO_OFFSET + 4" m m']
    get_le32_cong [of "INFO_OFFSET + 8" m m'] get_le32_cong [of "INFO_OFFSET + 12" m m']
    get_le32_cong [of "INFO_OFFSET + 16" m m']
  by (simp add: mcdma_info_read_def Let_def)

lemma get_put_le32: "mcdma_get_le32 (mcdma_put_le32 m a v) a = v"
  using mem_read_write_same [of m a "put_le 4 v"] by (simp add: mcdma_get_le32_def mcdma_put_le32_def)

lemma get_put_le32_other: "b + 4 \<le> a \<or> a + 4 \<le> b \<Longrightarrow> mcdma_get_le32 (mcdma_put_le32 m a v) b = mcdma_get_le32 m b"
  by (simp add: mcdma_get_le32_def mcdma_put_le32_def mem_read_write_disjoint)

subsection \<open>Properties\<close>

text \<open>
  C27: the adapter sees the same work entry whichever side wrote it. For every request, queue pair and
  index, the user encoder accepts exactly what the kernel's encoder accepts, leaves in the slot of
  that index the 64 bytes the kernel would, touches nothing else of the page, and returns the first
  eight of them as the doorbell value, which is never the 0 that reports a refusal.
\<close>

theorem encoders_agree:
  "mcdma_encode_send_request page qpn producer r =
     (case encode_send_request wqe 64 qpn (ucast producer) r of
        None \<Rightarrow> (0, page)
      | Some w \<Rightarrow> (get_le (mem_read w 0 8), mem_write page (sq_slot producer) (mem_read w 0 64))) \<and>
   (fst (mcdma_encode_send_request page qpn producer r) = 0 \<longleftrightarrow>
     encode_send_request wqe 64 qpn (ucast producer) r = None)"
proof (cases "request_bytes r = 0")
  case True
  then show ?thesis by (simp add: user_encodes kernel_encodes)
next
  case False
  let ?h = "head_store (ucast producer) r"
  let ?s = "\<lambda>a m. stores a (tail_stores qpn r) (mem_write (mem_write m a (replicate 64 0)) a ?h)"
  let ?w = "patched (tail_stores qpn r) (splice 0 ?h (replicate 64 0))"
  have "mem_write (mem_write m a (replicate 64 0)) a ?h = mem_write m a (splice 0 ?h (replicate 64 0))" for a m
    using splice_mem_write [of 0 ?h "replicate 64 0" m a] by (simp add: head_store_def)
  then have s: "?s a m = mem_write m a ?w" and w: "length ?w = 64" for a m
    using stores_patched [OF tail_stores_inside [OF False]] by (simp_all add: head_store_def)
  have r: "mem_read (mem_write m a ?w) a k = take k ?w" if "k \<le> 64" for m a k
    using take_mem_read [OF that, of "mem_write m a ?w" a] mem_read_write_same [of m a ?w] w by simp
  have "get_le (take 8 ?w) \<noteq> (0 :: u64)"
    using user_doorbell [OF False, of 0 qpn "\<lambda>_. 0" "ucast producer"] r [of 8 "\<lambda>_. 0" 0] by (simp add: s)
  then show ?thesis using r [of 8 wqe 0] r [of 64 wqe 0] r [of 8 page "sq_slot producer"] w
    by (simp add: user_encodes kernel_encodes s Let_def)
qed

text \<open>
  C28: a push leaves the same bytes in the bank of the register page whether it goes out through
  vector registers or as scalar stores: the entry at the index, followed by 64 zero bytes where 128
  are asked for, with the doorbell record already set.
\<close>

theorem push_delivers_entry:
  "mcdma_ring_send_bf page uar producer_after index bank bytes vector =
     (mem_write page (DBR_OFFSET + 4) (put_be 4 producer_after),
      mem_write uar (unat bank) (mem_read page (sq_slot index) 64 @ (if bytes = 128 then replicate 64 0 else [])))"
proof -
  let ?page = "mem_write page (DBR_OFFSET + 4) (put_be 4 producer_after)"
  have "mem_read ?page (sq_slot index) 64 = mem_read page (sq_slot index) 64"
    using sq_slot_below [of index] by (simp add: mem_read_write_disjoint)
  moreover have "bf_scalar 8 ?page (sq_slot index) uar (unat bank) = mem_write uar (unat bank) (mem_read ?page (sq_slot index) 64)"
    "bf_scalar 16 ?page (sq_slot index) uar (unat bank) =
       mem_write uar (unat bank) (mem_read ?page (sq_slot index) 64 @ replicate 64 0)"
    using bf_scalar_prefix [of 8] bf_scalar_zeros [of 8] by (simp_all add: mem_write_append)
  ultimately show ?thesis
    by (simp add: mcdma_ring_send_bf_def Let_def put_be32_eq bf_paths del: bf_scalar.simps)
qed

text \<open>
  C29: what the kernel publishes in the capability block, the provider reads, also after any sequence
  of posts, doorbells and pushes into the same page: the flags unchanged, and the size of a bank only
  where the page of the context is write-combined.
\<close>

theorem info_survives_posting:
  assumes "page_step\<^sup>*\<^sup>* (mcdma_info_write page flags bank_bytes) page'"
    and "bank_bytes = 0 \<or> 128 \<le> bank_bytes \<and> bank_bytes \<le> 1024 \<and> bank_bytes AND (bank_bytes - 1) = 0"
  shows "mcdma_info_read page' = Some (flags, if flags AND 1 \<noteq> 0 then bank_bytes else 0)"
proof -
  have "mcdma_info_read page' = mcdma_info_read (mcdma_info_write page flags bank_bytes)"
    using page_steps_keep [OF assms(1)] by (intro info_read_cong) simp
  also have "\<dots> = Some (flags, if flags AND 1 \<noteq> 0 then bank_bytes else 0)"
    using assms(2) by (simp add: mcdma_info_read_def mcdma_info_write_def Let_def get_put_le32 get_put_le32_other not_less [symmetric])
  finally show ?thesis .
qed

theorem info_survives_posting_witness:
  "mcdma_info_read (mcdma_publish_recv (mcdma_info_write (\<lambda>_. 7) 3 512) 9) = Some (3, 512)"
proof -
  have "page_step\<^sup>*\<^sup>* (mcdma_info_write (\<lambda>_. 7) 3 512) (mcdma_publish_recv (mcdma_info_write (\<lambda>_. 7) 3 512) 9)"
    by (rule r_into_rtranclp [of page_step, OF page_step.publish])
  from info_survives_posting [OF this] show ?thesis by simp
qed

end
