(* ===== verification/Nic_Queue.thy ===== *)
theory Nic_Queue
  imports Prelude
begin

section \<open>Outstanding work: the kernel's records and the process's mirror of them\<close>

text \<open>
  Both sides of the driver remember each posted request in one of 32 slots until the adapter reports
  its 16-bit counter: \<open>WorkQueue\<close> in \<open>include/cx5_work_queue.hpp\<close> for the kernel,
  \<open>struct mcdma_user_queue\<close> in \<open>include/cx5_user_completion.h\<close> for the process. Each is
  shown to be a map from counters to requests (locale \<open>work_tracker\<close>), which makes the mirror and
  the kernel's queue answer alike.
\<close>

abbreviation (input) USER_SLOTS :: "'a :: numeral" where "USER_SLOTS \<equiv> 32"
abbreviation (input) USER_MAX_PENDING :: "'a :: numeral" where "USER_MAX_PENDING \<equiv> 31"

subsection \<open>The specification: a map from counters\<close>

type_synonym 'w works = "u16 \<Rightarrow> 'w option"

definition slot16 :: "u16 \<Rightarrow> nat" where
  "slot16 c = unat (c AND 31)"

definition slot32 :: "u32 \<Rightarrow> nat" where
  "slot32 p = unat (p AND 31)"

definition works_full :: "'w works \<Rightarrow> u32 \<Rightarrow> bool" where
  "works_full m p \<longleftrightarrow> 31 \<le> card (dom m) \<or> (\<exists>c \<in> dom m. slot16 c = slot32 p)"

datatype 'w work_op = Post 'w | Complete u16
datatype 'w work_out = Posted bool | Completed "'w option"

text \<open>What the two sides of a queue see: a post is taken unless the map is full or the request unfit.\<close>

fun works_run :: "('w \<Rightarrow> bool) \<Rightarrow> 'w work_op list \<Rightarrow> 'w works \<times> u32 \<Rightarrow> 'w work_out list" where
  "works_run fit [] s = []"
| "works_run fit (Post w # ops) (m, p) =
     (if works_full m p \<or> \<not> fit w then Posted False # works_run fit ops (m, p)
      else Posted True # works_run fit ops (m(ucast p \<mapsto> w), p + 1))"
| "works_run fit (Complete c # ops) (m, p) = Completed (m c) # works_run fit ops (m(c := None), p)"

fun queue_outs :: "('w \<Rightarrow> 's \<Rightarrow> 's option) \<Rightarrow> (u16 \<Rightarrow> 's \<Rightarrow> ('w \<times> 's) option) \<Rightarrow> 'w work_op list \<Rightarrow> 's \<Rightarrow> 'w work_out list" where
  "queue_outs post complete [] s = []"
| "queue_outs post complete (Post w # ops) s =
     (case post w s of
        None \<Rightarrow> Posted False # queue_outs post complete ops s
      | Some s' \<Rightarrow> Posted True # queue_outs post complete ops s')"
| "queue_outs post complete (Complete c # ops) s =
     (case complete c s of
        None \<Rightarrow> Completed None # queue_outs post complete ops s
      | Some (w, s') \<Rightarrow> Completed (Some w) # queue_outs post complete ops s')"

locale work_tracker =
  fixes works :: "'s \<Rightarrow> 'w works" and next_of :: "'s \<Rightarrow> u32" and ok :: "'s \<Rightarrow> bool" and fit :: "'w \<Rightarrow> bool"
    and post :: "'w \<Rightarrow> 's \<Rightarrow> 's option" and complete :: "u16 \<Rightarrow> 's \<Rightarrow> ('w \<times> 's) option"
  assumes post_None: "ok s \<Longrightarrow> post w s = None \<longleftrightarrow> works_full (works s) (next_of s) \<or> \<not> fit w"
    and post_Some: "ok s \<Longrightarrow> post w s = Some s' \<Longrightarrow>
      ok s' \<and> works s' = (works s)(ucast (next_of s) \<mapsto> w) \<and> next_of s' = next_of s + 1"
    and complete_None: "ok s \<Longrightarrow> complete c s = None \<longleftrightarrow> works s c = None"
    and complete_Some: "ok s \<Longrightarrow> complete c s = Some (w, s') \<Longrightarrow>
      ok s' \<and> works s c = Some w \<and> works s' = (works s)(c := None) \<and> next_of s' = next_of s"
begin

lemma queue_outs_spec: "ok s \<Longrightarrow> queue_outs post complete ops s = works_run fit ops (works s, next_of s)"
proof (induction ops arbitrary: s)
  case (Cons op ops)
  show ?case
  proof (cases op)
    case (Post w)
    show ?thesis
    proof (cases "post w s")
      case None
      then show ?thesis using Cons Post post_None [of s w] by simp
    next
      case (Some s')
      note p = post_Some [OF Cons.prems Some]
      have "works_run fit (Post w # ops) (works s, next_of s) = Posted True # works_run fit ops (works s', next_of s')"
        using Some p post_None [OF Cons.prems, of w] by simp
      then show ?thesis using Cons.IH p Some Post by (simp add: fun_upd_def)
    qed
  next
    case (Complete c)
    show ?thesis
    proof (cases "complete c s")
      case None
      then have n: "works s c = None" using complete_None [OF Cons.prems] by simp
      then have "(works s)(c := None) = works s" by auto
      with Cons None n Complete show ?thesis by simp
    next
      case (Some ws)
      obtain w s' where ws: "ws = (w, s')" by fastforce
      note p = complete_Some [OF Cons.prems Some [unfolded ws]]
      have "works_run fit (Complete c # ops) (works s, next_of s) = Completed (Some w) # works_run fit ops (works s', next_of s')"
        using p by simp
      then show ?thesis using Cons.IH p Some ws Complete by (simp add: fun_upd_def)
    qed
  qed
qed simp

end

text \<open>Two sides that differ only in what they keep of a request give corresponding answers.\<close>

fun map_op :: "('w \<Rightarrow> 'v) \<Rightarrow> 'w work_op \<Rightarrow> 'v work_op" where
  "map_op f (Post w) = Post (f w)"
| "map_op f (Complete c) = Complete c"

fun map_out :: "('w \<Rightarrow> 'v) \<Rightarrow> 'w work_out \<Rightarrow> 'v work_out" where
  "map_out f (Posted b) = Posted b"
| "map_out f (Completed w) = Completed (map_option f w)"

lemma works_full_map: "works_full (map_option f \<circ> m) p = works_full m p"
  by (simp add: works_full_def dom_def)

lemma works_run_map:
  assumes "\<forall>w. Post w \<in> set ops \<longrightarrow> fit' (f w) = fit w"
  shows "works_run fit' (map (map_op f) ops) (map_option f \<circ> m, p) = map (map_out f) (works_run fit ops (m, p))"
  using assms
proof (induction ops arbitrary: m p)
  case (Cons op ops)
  then have IH: "works_run fit' (map (map_op f) ops) (map_option f \<circ> m, p) = map (map_out f) (works_run fit ops (m, p))" for m p
    by (intro Cons.IH) simp
  have c: "(map_option f \<circ> m)(c := None) = map_option f \<circ> m(c := None)"
    and w: "(map_option f \<circ> m)(c \<mapsto> f w) = map_option f \<circ> m(c \<mapsto> w)" for c w by auto
  show ?case
  proof (cases op)
    case (Post x)
    then have fits: "fit' (f x) = fit x" using Cons.prems by simp
    have "works_run fit' (map (map_op f) (op # ops)) (map_option f \<circ> m, p) =
        (if works_full m p \<or> \<not> fit x then Posted False # works_run fit' (map (map_op f) ops) (map_option f \<circ> m, p)
         else Posted True # works_run fit' (map (map_op f) ops) (map_option f \<circ> m(ucast p \<mapsto> x), p + 1))"
      by (simp only: Post list.map map_op.simps works_run.simps works_full_map fits w)
    also have "\<dots> = map (map_out f) (works_run fit (op # ops) (m, p))"
      by (simp only: IH Post works_run.simps list.map map_out.simps split: if_splits) (simp add: fun_upd_def)
    finally show ?thesis .
  next
    case (Complete x)
    have "works_run fit' (map (map_op f) (op # ops)) (map_option f \<circ> m, p) =
        Completed (map_option f (m x)) # works_run fit' (map (map_op f) ops) (map_option f \<circ> m(x := None), p)"
      by (simp only: Complete list.map map_op.simps works_run.simps c comp_apply)
    also have "\<dots> = map (map_out f) (works_run fit (op # ops) (m, p))"
      by (simp only: IH Complete works_run.simps list.map map_out.simps)
    finally show ?thesis .
  qed
qed simp

subsection \<open>The process's queue (include/cx5_user_completion.h)\<close>

record user_record =
  ur_id :: u64
  ur_length :: u32
  ur_counter :: u16
  ur_opcode :: u8
  ur_occupied :: bool

record user_queue =
  uq_records :: "user_record list"
  uq_producer :: u32
  uq_pending :: u32

definition no_record :: user_record where
  "no_record = \<lparr>ur_id = 0, ur_length = 0, ur_counter = 0, ur_opcode = 0, ur_occupied = False\<rparr>"

definition mcdma_user_queue_reset :: "user_queue \<Rightarrow> user_queue" where
  "mcdma_user_queue_reset q = \<lparr>uq_records = replicate USER_SLOTS no_record, uq_producer = 0, uq_pending = 0\<rparr>"

definition mcdma_user_queue_can_post :: "user_queue \<Rightarrow> bool" where
  "mcdma_user_queue_can_post q \<longleftrightarrow>
     uq_pending q < USER_MAX_PENDING \<and> \<not> ur_occupied (uq_records q ! slot32 (uq_producer q))"

definition mcdma_user_queue_post :: "user_queue \<Rightarrow> u64 \<Rightarrow> u8 \<Rightarrow> u32 \<Rightarrow> bool \<times> user_queue" where
  "mcdma_user_queue_post q wr_id opcode len =
     (if \<not> mcdma_user_queue_can_post q \<or> len = 0 then (False, q)
      else
        let r = \<lparr>ur_id = wr_id, ur_length = len, ur_counter = ucast (uq_producer q), ur_opcode = opcode, ur_occupied = True\<rparr>
        in (True, \<lparr>uq_records = (uq_records q)[slot32 (uq_producer q) := r], uq_producer = uq_producer q + 1,
                   uq_pending = uq_pending q + 1\<rparr>))"

fun mcdma_user_queue_rollback :: "user_queue \<Rightarrow> nat \<Rightarrow> user_queue" where
  "mcdma_user_queue_rollback q 0 = q"
| "mcdma_user_queue_rollback q (Suc count) =
     (if uq_producer q = 0 then q
      else
        let i = slot32 (uq_producer q - 1); r = uq_records q ! i
        in if \<not> ur_occupied r \<or> ur_counter r \<noteq> ucast (uq_producer q - 1) then q
           else mcdma_user_queue_rollback
                  \<lparr>uq_records = (uq_records q)[i := no_record], uq_producer = uq_producer q - 1,
                   uq_pending = uq_pending q - 1\<rparr> count)"

definition mcdma_user_queue_complete :: "user_queue \<Rightarrow> u16 \<Rightarrow> user_record option \<times> user_queue" where
  "mcdma_user_queue_complete q counter =
     (let r = uq_records q ! slot16 counter in
      if \<not> ur_occupied r \<or> ur_counter r \<noteq> counter then (None, q)
      else (Some r, q\<lparr>uq_records := (uq_records q)[slot16 counter := no_record], uq_pending := uq_pending q - 1\<rparr>))"

subsection \<open>The kernel's queue (include/cx5_work_queue.hpp)\<close>

record work_record =
  wk_id :: u64
  wk_length :: u32
  wk_lkey :: u32
  wk_counter :: u16
  wk_opcode :: u8
  wk_occupied :: bool
  wk_lkeys :: "u32 list"
  wk_lkey_count :: u8

record work_queue =
  wq_records :: "work_record list"
  wq_pending :: u32

definition no_work :: work_record where
  "no_work = \<lparr>wk_id = 0, wk_length = 0, wk_lkey = 0, wk_counter = 0, wk_opcode = 0, wk_occupied = False,
     wk_lkeys = [0, 0, 0], wk_lkey_count = 0\<rparr>"

definition new_work_queue :: work_queue where
  "new_work_queue = \<lparr>wq_records = replicate 32 no_work, wq_pending = 0\<rparr>"

definition can_post :: "work_queue \<Rightarrow> u32 \<Rightarrow> bool" where
  "can_post q producer \<longleftrightarrow> wq_pending q < 31 \<and> \<not> wk_occupied (wq_records q ! slot32 producer)"

definition work_post :: "work_queue \<Rightarrow> u32 \<Rightarrow> u64 \<Rightarrow> u8 \<Rightarrow> u32 \<Rightarrow> u32 list \<Rightarrow> bool \<times> work_queue" where
  "work_post q producer wr_id opcode len lkeys =
     (if \<not> can_post q producer \<or> len = 0 \<or> lkeys = [] \<or> 3 < length lkeys \<or> 0 \<in> set lkeys then (False, q)
      else
        let r = \<lparr>wk_id = wr_id, wk_length = len, wk_lkey = hd lkeys, wk_counter = ucast producer, wk_opcode = opcode,
              wk_occupied = True, wk_lkeys = lkeys @ replicate (3 - length lkeys) 0, wk_lkey_count = of_nat (length lkeys)\<rparr>
        in (True, \<lparr>wq_records = (wq_records q)[slot32 producer := r], wq_pending = wq_pending q + 1\<rparr>))"

definition work_complete :: "work_queue \<Rightarrow> u16 \<Rightarrow> work_record option \<times> work_queue" where
  "work_complete q counter =
     (let r = wq_records q ! slot16 counter in
      if \<not> wk_occupied r \<or> wk_counter r \<noteq> counter then (None, q)
      else (Some r, \<lparr>wq_records = (wq_records q)[slot16 counter := no_work], wq_pending = wq_pending q - 1\<rparr>))"

definition work_references :: "work_queue \<Rightarrow> u32 \<Rightarrow> bool" where
  "work_references q lkey \<longleftrightarrow>
     (\<exists>r \<in> set (wq_records q). wk_occupied r \<and> lkey \<in> set (take (unat (wk_lkey_count r)) (wk_lkeys r)))"

definition work_removed :: "work_queue \<Rightarrow> work_queue" where
  "work_removed q = \<lparr>wq_records = replicate 32 no_work, wq_pending = 0\<rparr>"

subsection \<open>Slots\<close>

lemma and_31: "unat (a AND 31 :: 'a :: len word) = unat a mod 32"
proof -
  have "a AND 31 = take_bit 5 a" by (simp add: take_bit_eq_mask mask_eq_exp_minus_1)
  then have "unat (a AND 31) = take_bit 5 (unat a)" by (simp only: unsigned_take_bit_eq)
  then show ?thesis by (simp add: take_bit_eq_mod)
qed

lemma slot16_less [simp]: "slot16 c < 32"
  by (simp add: slot16_def and_31)

lemma slot32_less [simp]: "slot32 p < 32"
  by (simp add: slot32_def and_31)

lemma slot16_ucast [simp]: "slot16 (ucast p) = slot32 p"
  by (simp add: slot16_def slot32_def and_31 unsigned_ucast_eq take_bit_eq_mod mod_mod_cancel)

text \<open>
  32 slots, each with an optional counter: how both queues are seen. \<open>slots_ok\<close> says that a counter
  sits in its slot and that \<open>pending\<close> counts the counters.
\<close>

definition slots_ok :: "(nat \<Rightarrow> u16 option) \<Rightarrow> u32 \<Rightarrow> bool" where
  "slots_ok f pending \<longleftrightarrow> (\<forall>i c. f i = Some c \<longrightarrow> i < 32 \<and> slot16 c = i) \<and> unat pending = card (dom f)"

lemma slots_finite: "slots_ok f n \<Longrightarrow> finite (dom f) \<and> dom f \<subseteq> {..<32}"
  by (auto simp: slots_ok_def intro: finite_subset [of _ "{..<32}"])

lemma slots_card: "slots_ok f n \<Longrightarrow> card (dom f) \<le> 32"
  using card_mono [of "{..<32 :: nat}" "dom f"] slots_finite [of f n] by simp

lemma slots_put:
  assumes "slots_ok f n" and "f (slot16 c) = None"
  shows "slots_ok (f(slot16 c \<mapsto> c)) (n + 1)"
proof -
  have "unat (n + 1) = unat n + 1"
    using assms slots_card [of f n] by (subst unat_add_small) (auto simp: slots_ok_def)
  moreover have "card (dom (f(slot16 c \<mapsto> c))) = card (dom f) + 1"
    using assms slots_finite [OF assms(1)] by (simp add: domIff)
  ultimately show ?thesis using assms(1) by (auto simp: slots_ok_def)
qed

lemma slots_take:
  assumes "slots_ok f n" and "f i = Some c"
  shows "slots_ok (f(i := None)) (n - 1)"
proof -
  have i: "i \<in> dom f" using assms(2) by auto
  then have "0 < card (dom f)" using slots_finite [OF assms(1)] card_gt_0_iff by blast
  then have "unat (n - 1) = unat n - 1"
    using assms(1) by (subst unat_sub_le) (auto simp: slots_ok_def word_le_nat_alt)
  moreover have "card (dom (f(i := None))) = card (dom f) - 1"
    using i slots_finite [OF assms(1)] by (simp add: card_Diff_singleton)
  ultimately show ?thesis using assms(1) by (auto simp: slots_ok_def)
qed

text \<open>The counters of the slots are exactly the counters of the map they hold.\<close>

definition holds_counter :: "(nat \<Rightarrow> u16 option) \<Rightarrow> 'w works \<Rightarrow> bool" where
  "holds_counter f m \<longleftrightarrow> (\<forall>c. c \<in> dom m \<longleftrightarrow> f (slot16 c) = Some c)"

lemma holds_card:
  assumes "holds_counter f m" and "slots_ok f n"
  shows "card (dom m) = card (dom f)"
proof (rule bij_betw_same_card)
  have "inj_on slot16 (dom m)"
    using assms(1) by (intro inj_onI) (metis holds_counter_def option.inject)
  moreover have "slot16 ` dom m = dom f"
  proof
    show "slot16 ` dom m \<subseteq> dom f" using assms(1) by (auto simp: holds_counter_def)
    show "dom f \<subseteq> slot16 ` dom m"
    proof
      fix i assume "i \<in> dom f"
      then obtain c where c: "f i = Some c" by auto
      then have "slot16 c = i" using assms(2) by (auto simp: slots_ok_def)
      then have "c \<in> dom m" using assms(1) c by (simp add: holds_counter_def)
      with \<open>slot16 c = i\<close> show "i \<in> slot16 ` dom m" by auto
    qed
  qed
  ultimately show "bij_betw slot16 (dom m) (dom f)" by (simp add: bij_betw_def)
qed

lemma works_full_slots:
  assumes "holds_counter f m" and "slots_ok f n"
  shows "works_full m p \<longleftrightarrow> \<not> (n < 31 \<and> f (slot32 p) = None)"
proof -
  have "n < 31 \<longleftrightarrow> card (dom m) < 31"
    using assms holds_card [OF assms] by (simp add: slots_ok_def word_less_nat_alt)
  moreover have "(\<exists>c \<in> dom m. slot16 c = slot32 p) \<longleftrightarrow> f (slot32 p) \<noteq> None"
    using assms unfolding holds_counter_def slots_ok_def by (metis not_None_eq)
  ultimately show ?thesis by (auto simp: works_full_def)
qed

lemma holds_put:
  assumes "holds_counter f m" and "f (slot16 c) = None"
  shows "holds_counter (f(slot16 c \<mapsto> c)) (m(c \<mapsto> w))"
  using assms unfolding holds_counter_def by (auto simp: dom_def)

subsection \<open>Both queues as maps\<close>

type_synonym user_work = "u64 \<times> u8 \<times> u32"
type_synonym kernel_work = "u64 \<times> u8 \<times> u32 \<times> u32 list"

definition user_works :: "user_queue \<Rightarrow> user_work works" where
  "user_works q c =
     (let r = uq_records q ! slot16 c
      in if ur_occupied r \<and> ur_counter r = c then Some (ur_id r, ur_opcode r, ur_length r) else None)"

definition user_slots :: "user_queue \<Rightarrow> nat \<Rightarrow> u16 option" where
  "user_slots q i = (if i < 32 \<and> ur_occupied (uq_records q ! i) then Some (ur_counter (uq_records q ! i)) else None)"

definition user_ok :: "user_queue \<Rightarrow> bool" where
  "user_ok q \<longleftrightarrow> length (uq_records q) = 32 \<and> slots_ok (user_slots q) (uq_pending q)"

definition user_fit :: "user_work \<Rightarrow> bool" where
  "user_fit w \<longleftrightarrow> snd (snd w) \<noteq> 0"

definition user_post :: "user_work \<Rightarrow> user_queue \<Rightarrow> user_queue option" where
  "user_post w q = (case mcdma_user_queue_post q (fst w) (fst (snd w)) (snd (snd w)) of (b, q') \<Rightarrow> if b then Some q' else None)"

definition user_complete :: "u16 \<Rightarrow> user_queue \<Rightarrow> (user_work \<times> user_queue) option" where
  "user_complete c q =
     (case mcdma_user_queue_complete q c of
        (None, _) \<Rightarrow> None | (Some r, q') \<Rightarrow> Some ((ur_id r, ur_opcode r, ur_length r), q'))"

lemma user_holds: "holds_counter (user_slots q) (user_works q)"
  by (auto simp: holds_counter_def user_slots_def user_works_def Let_def dom_def split: if_splits)

lemma user_can_post:
  "user_ok q \<Longrightarrow> mcdma_user_queue_can_post q \<longleftrightarrow> \<not> works_full (user_works q) (uq_producer q)"
  using works_full_slots [OF user_holds, of q "uq_pending q" "uq_producer q"]
  by (simp add: user_ok_def mcdma_user_queue_can_post_def user_slots_def)

lemma user_works_put:
  assumes "length (uq_records q) = 32" "ur_occupied r" "\<not> ur_occupied (uq_records q ! slot16 (ur_counter r))"
  shows "user_works (q\<lparr>uq_records := (uq_records q)[slot16 (ur_counter r) := r]\<rparr>) =
           (user_works q)(ur_counter r \<mapsto> (ur_id r, ur_opcode r, ur_length r))"
proof (rule ext)
  fix c
  show "user_works (q\<lparr>uq_records := (uq_records q)[slot16 (ur_counter r) := r]\<rparr>) c =
      ((user_works q)(ur_counter r \<mapsto> (ur_id r, ur_opcode r, ur_length r))) c"
    using assms by (cases "slot16 c = slot16 (ur_counter r)") (auto simp: user_works_def Let_def)
qed

lemma user_slots_put:
  assumes "length (uq_records q) = 32" "ur_occupied r"
  shows "user_slots (q\<lparr>uq_records := (uq_records q)[slot16 (ur_counter r) := r]\<rparr>) =
           (user_slots q)(slot16 (ur_counter r) \<mapsto> ur_counter r)"
  using assms by (auto simp: user_slots_def fun_eq_iff nth_list_update)

lemma user_works_take:
  assumes "user_ok q" "user_works q c \<noteq> None"
  shows "user_works (q\<lparr>uq_records := (uq_records q)[slot16 c := no_record]\<rparr>) = (user_works q)(c := None)"
proof (rule ext)
  fix d
  show "user_works (q\<lparr>uq_records := (uq_records q)[slot16 c := no_record]\<rparr>) d = ((user_works q)(c := None)) d"
    using assms by (cases "slot16 d = slot16 c")
      (auto simp: user_works_def user_ok_def no_record_def Let_def split: if_splits)
qed

lemma user_slots_take:
  "length (uq_records q) = 32 \<Longrightarrow>
     user_slots (q\<lparr>uq_records := (uq_records q)[slot16 c := no_record]\<rparr>) = (user_slots q)(slot16 c := None)"
  by (auto simp: user_slots_def no_record_def fun_eq_iff nth_list_update)

lemma user_fields [simp]:
  "user_works (q\<lparr>uq_pending := n\<rparr>) = user_works q" "user_slots (q\<lparr>uq_pending := n\<rparr>) = user_slots q"
  "user_works (q\<lparr>uq_producer := p\<rparr>) = user_works q" "user_slots (q\<lparr>uq_producer := p\<rparr>) = user_slots q"
  by (simp_all add: user_works_def user_slots_def fun_eq_iff)

lemma user_post_eq:
  "mcdma_user_queue_post q wr_id opcode len =
     (if \<not> mcdma_user_queue_can_post q \<or> len = 0 then (False, q)
      else (True, q\<lparr>uq_records := (uq_records q)[slot16 (ucast (uq_producer q)) :=
              \<lparr>ur_id = wr_id, ur_length = len, ur_counter = ucast (uq_producer q), ur_opcode = opcode, ur_occupied = True\<rparr>],
            uq_producer := uq_producer q + 1, uq_pending := uq_pending q + 1\<rparr>))"
  by (simp add: mcdma_user_queue_post_def Let_def)

lemma user_complete_eq:
  "mcdma_user_queue_complete q c =
     (if user_works q c = None then (None, q)
      else (Some (uq_records q ! slot16 c),
            q\<lparr>uq_records := (uq_records q)[slot16 c := no_record], uq_pending := uq_pending q - 1\<rparr>))"
  by (auto simp: mcdma_user_queue_complete_def user_works_def Let_def split: if_splits)

interpretation mirror: work_tracker user_works uq_producer user_ok user_fit user_post user_complete
proof
  fix s w s'
  assume ok: "user_ok s"
  show "user_post w s = None \<longleftrightarrow> works_full (user_works s) (uq_producer s) \<or> \<not> user_fit w"
    using user_can_post [OF ok] by (simp add: user_post_def user_fit_def mcdma_user_queue_post_def Let_def split: if_splits)
  assume "user_post w s = Some s'"
  then have can: "mcdma_user_queue_can_post s" and s': "s' = snd (mcdma_user_queue_post s (fst w) (fst (snd w)) (snd (snd w)))"
    and nz: "snd (snd w) \<noteq> 0"
    by (auto simp: user_post_def mcdma_user_queue_post_def Let_def split: if_splits)
  let ?r = "\<lparr>ur_id = fst w, ur_length = snd (snd w), ur_counter = ucast (uq_producer s), ur_opcode = fst (snd w), ur_occupied = True\<rparr>"
  have len: "length (uq_records s) = 32" and free: "\<not> ur_occupied (uq_records s ! slot16 (ur_counter ?r))"
    using ok can by (simp_all add: user_ok_def mcdma_user_queue_can_post_def)
  have s'': "s' = (s\<lparr>uq_records := (uq_records s)[slot16 (ur_counter ?r) := ?r]\<rparr>)\<lparr>uq_producer := uq_producer s + 1,
      uq_pending := uq_pending s + 1\<rparr>"
    using can nz by (simp add: s' user_post_eq)
  have "user_slots s (slot16 (ur_counter ?r)) = None" using free by (simp add: user_slots_def)
  then have "slots_ok ((user_slots s)(slot16 (ur_counter ?r) \<mapsto> ur_counter ?r)) (uq_pending s + 1)"
    using ok by (intro slots_put) (simp_all add: user_ok_def)
  then show "user_ok s' \<and> user_works s' = (user_works s)(ucast (uq_producer s) \<mapsto> w) \<and> uq_producer s' = uq_producer s + 1"
    using user_works_put [OF len _ free] user_slots_put [OF len, of ?r] len by (simp add: s'' user_ok_def)
next
  fix s c w s'
  assume ok: "user_ok s"
  show "user_complete c s = None \<longleftrightarrow> user_works s c = None"
    by (simp add: user_complete_def user_complete_eq)
  assume "user_complete c s = Some (w, s')"
  then have h: "user_works s c \<noteq> None" and w: "user_works s c = Some w"
    and s': "s' = (s\<lparr>uq_records := (uq_records s)[slot16 c := no_record]\<rparr>)\<lparr>uq_pending := uq_pending s - 1\<rparr>"
    by (auto simp: user_complete_def user_complete_eq user_works_def Let_def split: if_splits)
  have "user_slots s (slot16 c) = Some c" using user_holds [of s] h by (auto simp: holds_counter_def)
  then have "slots_ok ((user_slots s)(slot16 c := None)) (uq_pending s - 1)"
    using ok by (intro slots_take) (simp_all add: user_ok_def)
  then show "user_ok s' \<and> user_works s c = Some w \<and> user_works s' = (user_works s)(c := None) \<and> uq_producer s' = uq_producer s"
    using user_works_take [OF ok h] user_slots_take [of s c] ok w by (simp add: s' user_ok_def)
qed

text \<open>
  The kernel keeps the producer beside the queue, in its record of the queue pair, and counts it up
  after a request is recorded.
\<close>

record kernel_side =
  ks_queue :: work_queue
  ks_producer :: u32

definition work_of :: "work_record \<Rightarrow> kernel_work" where
  "work_of r = (wk_id r, wk_opcode r, wk_length r, take (unat (wk_lkey_count r)) (wk_lkeys r))"

definition kernel_works :: "kernel_side \<Rightarrow> kernel_work works" where
  "kernel_works k c =
     (let r = wq_records (ks_queue k) ! slot16 c in if wk_occupied r \<and> wk_counter r = c then Some (work_of r) else None)"

definition kernel_slots :: "kernel_side \<Rightarrow> nat \<Rightarrow> u16 option" where
  "kernel_slots k i =
     (if i < 32 \<and> wk_occupied (wq_records (ks_queue k) ! i) then Some (wk_counter (wq_records (ks_queue k) ! i)) else None)"

definition kernel_ok :: "kernel_side \<Rightarrow> bool" where
  "kernel_ok k \<longleftrightarrow> length (wq_records (ks_queue k)) = 32 \<and> slots_ok (kernel_slots k) (wq_pending (ks_queue k))"

fun kernel_fit :: "kernel_work \<Rightarrow> bool" where
  "kernel_fit (wr_id, opcode, len, lkeys) \<longleftrightarrow> len \<noteq> 0 \<and> lkeys \<noteq> [] \<and> length lkeys \<le> 3 \<and> 0 \<notin> set lkeys"

fun kernel_post :: "kernel_work \<Rightarrow> kernel_side \<Rightarrow> kernel_side option" where
  "kernel_post (wr_id, opcode, len, lkeys) k =
     (case work_post (ks_queue k) (ks_producer k) wr_id opcode len lkeys of
        (b, q) \<Rightarrow> if b then Some \<lparr>ks_queue = q, ks_producer = ks_producer k + 1\<rparr> else None)"

definition kernel_complete :: "u16 \<Rightarrow> kernel_side \<Rightarrow> (kernel_work \<times> kernel_side) option" where
  "kernel_complete c k =
     (case work_complete (ks_queue k) c of
        (None, _) \<Rightarrow> None | (Some r, q) \<Rightarrow> Some (work_of r, k\<lparr>ks_queue := q\<rparr>))"

lemma kernel_holds: "holds_counter (kernel_slots k) (kernel_works k)"
  by (auto simp: work_of_def holds_counter_def kernel_slots_def kernel_works_def Let_def dom_def split: if_splits)

lemma kernel_can_post:
  "kernel_ok k \<Longrightarrow> can_post (ks_queue k) (ks_producer k) \<longleftrightarrow> \<not> works_full (kernel_works k) (ks_producer k)"
  using works_full_slots [OF kernel_holds, of k "wq_pending (ks_queue k)" "ks_producer k"]
  by (simp add: kernel_ok_def can_post_def kernel_slots_def)

lemma kernel_works_set:
  assumes "length (wq_records q) = 32" and "wk_occupied r \<longrightarrow> wk_counter r = c"
    and "\<not> wk_occupied (wq_records q ! slot16 c) \<or> wk_counter (wq_records q ! slot16 c) = c"
  shows "kernel_works \<lparr>ks_queue = \<lparr>wq_records = (wq_records q)[slot16 c := r], wq_pending = n\<rparr>, ks_producer = p\<rparr> =
           (kernel_works \<lparr>ks_queue = q, ks_producer = p'\<rparr>)(c := if wk_occupied r then Some (work_of r) else None)"
proof (rule ext)
  fix d
  consider "slot16 d \<noteq> slot16 c" | "d = c" | "slot16 d = slot16 c" "d \<noteq> c" by blast
  then show "kernel_works \<lparr>ks_queue = \<lparr>wq_records = (wq_records q)[slot16 c := r], wq_pending = n\<rparr>, ks_producer = p\<rparr> d =
      ((kernel_works \<lparr>ks_queue = q, ks_producer = p'\<rparr>)(c := if wk_occupied r then Some (work_of r) else None)) d"
  proof cases
    case 1
    then show ?thesis by (auto simp: kernel_works_def)
  next
    case 2
    then show ?thesis using assms(1,2) by (simp add: kernel_works_def)
  next
    case 3
    then have "\<not> (wk_occupied r \<and> wk_counter r = d)" "\<not> (wk_occupied (wq_records q ! slot16 c) \<and> wk_counter (wq_records q ! slot16 c) = d)"
      using assms(2,3) by blast+
    with 3 assms(1) show ?thesis by (auto simp: kernel_works_def)
  qed
qed

lemma kernel_slots_set:
  "length (wq_records q) = 32 \<Longrightarrow>
     kernel_slots \<lparr>ks_queue = \<lparr>wq_records = (wq_records q)[slot16 c := r], wq_pending = n\<rparr>, ks_producer = p\<rparr> =
       (kernel_slots \<lparr>ks_queue = q, ks_producer = p'\<rparr>)(slot16 c := if wk_occupied r then Some (wk_counter r) else None)"
  by (auto simp: kernel_slots_def nth_list_update fun_eq_iff)

lemma kernel_any_producer [simp]:
  "kernel_works \<lparr>ks_queue = ks_queue k, ks_producer = p\<rparr> = kernel_works k"
  "kernel_slots \<lparr>ks_queue = ks_queue k, ks_producer = p\<rparr> = kernel_slots k"
  by (simp_all add: kernel_works_def kernel_slots_def fun_eq_iff)

definition new_work :: "u32 \<Rightarrow> kernel_work \<Rightarrow> work_record" where
  "new_work producer w =
     (case w of (wr_id, opcode, len, lkeys) \<Rightarrow>
        \<lparr>wk_id = wr_id, wk_length = len, wk_lkey = hd lkeys, wk_counter = ucast producer, wk_opcode = opcode,
         wk_occupied = True, wk_lkeys = lkeys @ replicate (3 - length lkeys) 0, wk_lkey_count = of_nat (length lkeys)\<rparr>)"

lemma new_work_fields: "wk_occupied (new_work p w)" "wk_counter (new_work p w) = ucast p"
  by (simp_all add: new_work_def split: prod.split)

lemma work_of_new: "kernel_fit w \<Longrightarrow> work_of (new_work p w) = w"
proof -
  assume fit: "kernel_fit w"
  obtain wr_id opcode len lkeys where w: "w = (wr_id, opcode, len, lkeys)" by (cases w) auto
  have "unat (of_nat (length lkeys) :: u8) = length lkeys" using fit w by (simp add: unat_of_nat)
  then show ?thesis by (simp add: w new_work_def work_of_def)
qed

lemma kernel_post_eq:
  "kernel_post w k =
     (if can_post (ks_queue k) (ks_producer k) \<and> kernel_fit w
      then Some \<lparr>ks_queue = \<lparr>wq_records = (wq_records (ks_queue k))[slot16 (ucast (ks_producer k)) := new_work (ks_producer k) w],
                  wq_pending = wq_pending (ks_queue k) + 1\<rparr>, ks_producer = ks_producer k + 1\<rparr>
      else None)"
  by (cases w) (auto simp: work_post_def new_work_def Let_def)

lemma kernel_complete_eq:
  "kernel_complete c k =
     (case kernel_works k c of
        None \<Rightarrow> None
      | Some w \<Rightarrow> Some (w, \<lparr>ks_queue = \<lparr>wq_records = (wq_records (ks_queue k))[slot16 c := no_work],
                            wq_pending = wq_pending (ks_queue k) - 1\<rparr>, ks_producer = ks_producer k\<rparr>))"
  by (auto simp: kernel_complete_def work_complete_def kernel_works_def Let_def)

interpretation kernel: work_tracker kernel_works ks_producer kernel_ok kernel_fit kernel_post kernel_complete
proof
  fix s w s'
  assume ok: "kernel_ok s"
  let ?c = "ucast (ks_producer s) :: u16" and ?q = "ks_queue s" and ?r = "new_work (ks_producer s) w"
  show "kernel_post w s = None \<longleftrightarrow> works_full (kernel_works s) (ks_producer s) \<or> \<not> kernel_fit w"
    using kernel_can_post [OF ok] by (simp add: kernel_post_eq)
  assume "kernel_post w s = Some s'"
  then have can: "can_post ?q (ks_producer s)" and fit: "kernel_fit w"
    and s': "s' = \<lparr>ks_queue = \<lparr>wq_records = (wq_records ?q)[slot16 ?c := ?r], wq_pending = wq_pending ?q + 1\<rparr>,
                 ks_producer = ks_producer s + 1\<rparr>"
    by (auto simp: kernel_post_eq split: if_splits)
  have len: "length (wq_records ?q) = 32" and free: "\<not> wk_occupied (wq_records ?q ! slot16 ?c)"
    using ok can by (simp_all add: kernel_ok_def can_post_def)
  have "kernel_slots s (slot16 ?c) = None" using free by (simp add: kernel_slots_def)
  then have "slots_ok ((kernel_slots s)(slot16 ?c \<mapsto> ?c)) (wq_pending ?q + 1)"
    using ok by (intro slots_put) (simp_all add: kernel_ok_def)
  then show "kernel_ok s' \<and> kernel_works s' = (kernel_works s)(?c \<mapsto> w) \<and> ks_producer s' = ks_producer s + 1"
    using kernel_works_set [OF len, of ?r ?c _ _ "ks_producer s"] kernel_slots_set [OF len, of ?c ?r _ _ "ks_producer s"]
      free len work_of_new [OF fit] by (simp add: s' kernel_ok_def new_work_fields)
next
  fix s c w s'
  assume ok: "kernel_ok s"
  let ?q = "ks_queue s"
  show "kernel_complete c s = None \<longleftrightarrow> kernel_works s c = None"
    by (simp add: kernel_complete_eq split: option.splits)
  assume "kernel_complete c s = Some (w, s')"
  then have h: "kernel_works s c = Some w"
    and s': "s' = \<lparr>ks_queue = \<lparr>wq_records = (wq_records ?q)[slot16 c := no_work], wq_pending = wq_pending ?q - 1\<rparr>,
                 ks_producer = ks_producer s\<rparr>"
    by (auto simp: kernel_complete_eq split: option.splits)
  have len: "length (wq_records ?q) = 32" using ok by (simp add: kernel_ok_def)
  have "kernel_slots s (slot16 c) = Some c" using kernel_holds [of s] h by (auto simp: holds_counter_def)
  moreover from this have "wk_counter (wq_records ?q ! slot16 c) = c" by (simp add: kernel_slots_def split: if_splits)
  ultimately show "kernel_ok s' \<and> kernel_works s c = Some w \<and> kernel_works s' = (kernel_works s)(c := None) \<and>
      ks_producer s' = ks_producer s"
    using kernel_works_set [OF len, of no_work c _ _ "ks_producer s"] kernel_slots_set [OF len, of c no_work _ _ "ks_producer s"]
      slots_take [of "kernel_slots s" "wq_pending ?q" "slot16 c" c] ok len h by (simp add: s' kernel_ok_def no_work_def)
qed

subsection \<open>Taking posts back\<close>

lemma rollback_step:
  assumes "user_ok q"
  shows "mcdma_user_queue_rollback q (Suc n) =
    (if uq_producer q = 0 then q
     else case user_complete (ucast (uq_producer q - 1)) q of
       None \<Rightarrow> q | Some (w, q') \<Rightarrow> mcdma_user_queue_rollback (q'\<lparr>uq_producer := uq_producer q - 1\<rparr>) n)"
  by (cases q) (auto simp: user_complete_def mcdma_user_queue_complete_def Let_def)

fun post_all :: "user_work list \<Rightarrow> user_queue \<Rightarrow> user_queue option" where
  "post_all [] q = Some q"
| "post_all (w # ws) q = (case user_post w q of None \<Rightarrow> None | Some q' \<Rightarrow> post_all ws q')"

lemma post_all_snoc:
  "post_all (ws @ [w]) q = (case post_all ws q of None \<Rightarrow> None | Some q' \<Rightarrow> user_post w q')"
  by (induction ws arbitrary: q) (simp_all split: option.splits)

definition same_works :: "user_queue \<Rightarrow> user_queue \<Rightarrow> bool" where
  "same_works q q' \<longleftrightarrow> user_ok q \<and> user_works q = user_works q' \<and> uq_producer q = uq_producer q'"

lemma post_all_ok:
  "post_all ws q = Some q' \<Longrightarrow> user_ok q \<Longrightarrow> user_ok q' \<and> uq_producer q' = uq_producer q + of_nat (length ws)"
proof (induction ws arbitrary: q)
  case (Cons w ws)
  then obtain q1 where q1: "user_post w q = Some q1" "post_all ws q1 = Some q'" by (auto split: option.splits)
  with Cons mirror.post_Some [OF Cons.prems(2) q1(1)] show ?case by simp
qed simp

lemma rollback_undo:
  assumes "post_all ws q = Some q'" and "user_ok q" and "same_works q3 q'"
    and "unat (uq_producer q) + length ws < 2 ^ 32"
  shows "same_works (mcdma_user_queue_rollback q3 (length ws)) q"
  using assms
proof (induction ws arbitrary: q' q3 rule: rev_induct)
  case (snoc w ws)
  obtain q1 where q1: "post_all ws q = Some q1" "user_post w q1 = Some q'"
    using snoc.prems(1) by (auto simp: post_all_snoc split: option.splits)
  have ok1: "user_ok q1" and p1: "uq_producer q1 = uq_producer q + of_nat (length ws)"
    using post_all_ok [OF q1(1) snoc.prems(2)] by simp_all
  let ?c = "ucast (uq_producer q1) :: u16"
  have p: "user_works q' = (user_works q1)(?c \<mapsto> w)" "uq_producer q' = uq_producer q1 + 1"
    using mirror.post_Some [OF ok1 q1(2)] by simp_all
  have "user_works q1 ?c = None"
    using mirror.post_None [OF ok1, of w] q1(2) slot16_ucast [of "uq_producer q1"]
    by (auto simp: works_full_def simp del: slot16_ucast)
  then have undone: "(user_works q')(?c := None) = user_works q1" using p(1) by auto
  have ok3: "user_ok q3" and w3: "user_works q3 = user_works q'" and p3: "uq_producer q3 = uq_producer q1 + 1"
    using snoc.prems(3) p by (simp_all add: same_works_def)
  have "unat (uq_producer q1) = unat (uq_producer q) + length ws"
    using snoc.prems(4) by (simp add: p1 unat_word_ariths unat_of_nat)
  then have "unat (uq_producer q1 + 1) = unat (uq_producer q1) + 1"
    using snoc.prems(4) unat_add_small [of "uq_producer q1" 1] by simp
  then have nz: "uq_producer q3 \<noteq> 0" using p3 by auto
  obtain q4 where q4: "user_complete ?c q3 = Some (w, q4)"
    using mirror.complete_None [OF ok3, of ?c] mirror.complete_Some [OF ok3, of ?c] w3 p(1) by (cases "user_complete ?c q3") auto
  note c4 = mirror.complete_Some [OF ok3 q4]
  have "same_works (q4\<lparr>uq_producer := uq_producer q1\<rparr>) q1"
    using c4 undone w3 by (simp add: same_works_def user_ok_def)
  then have "same_works (mcdma_user_queue_rollback (q4\<lparr>uq_producer := uq_producer q1\<rparr>) (length ws)) q"
    using snoc.IH [OF q1(1) snoc.prems(2)] snoc.prems(4) by simp
  then show ?case using nz q4 p3 by (simp add: rollback_step [OF ok3] del: mcdma_user_queue_rollback.simps)
qed simp

lemma post_all_append:
  "post_all (ws @ vs) q = (case post_all ws q of None \<Rightarrow> None | Some q' \<Rightarrow> post_all vs q')"
  by (induction ws arbitrary: q) (simp_all split: option.splits)

lemma post_all_pending:
  "post_all ws q = Some q' \<Longrightarrow> ws \<noteq> [] \<Longrightarrow> unat (uq_pending q) + length ws \<le> 31"
proof (induction ws arbitrary: q)
  case (Cons w ws)
  obtain q1 where q1: "user_post w q = Some q1" "post_all ws q1 = Some q'" using Cons.prems(1) by (auto split: option.splits)
  obtain wr_id opcode len where w: "w = (wr_id, opcode, len)" by (cases w)
  have "uq_pending q < 31 \<and> uq_pending q1 = uq_pending q + 1"
    using q1(1) by (auto simp: w user_post_def user_post_eq mcdma_user_queue_can_post_def Let_def split: if_splits)
  then have "unat (uq_pending q) < 31" "uq_pending q1 = uq_pending q + 1" by (simp_all add: word_less_nat_alt)
  then have "unat (uq_pending q) < 31" "unat (uq_pending q1) = unat (uq_pending q) + 1"
    using unat_add_small [of "uq_pending q" 1] by simp_all
  then show ?case using Cons.IH [OF q1(2)] by (cases ws) simp_all
qed simp

text \<open>Taking back stops for good where it stops.\<close>

lemma rollback_add:
  "mcdma_user_queue_rollback q (m + n) = mcdma_user_queue_rollback (mcdma_user_queue_rollback q m) n"
proof (induction q m rule: mcdma_user_queue_rollback.induct)
  case (2 q m)
  show ?case
  proof (cases "uq_producer q = 0 \<or> (let r = uq_records q ! slot32 (uq_producer q - 1) in
      \<not> ur_occupied r \<or> ur_counter r \<noteq> ucast (uq_producer q - 1))")
    case True
    then have "mcdma_user_queue_rollback q k = q" for k by (cases k) (auto simp: Let_def)
    then show ?thesis by metis
  next
    case False
    with 2 show ?thesis by (simp add: Let_def)
  qed
qed simp

lemma rollback_undo_wrapped:
  assumes "post_all ws q = Some q'" and "user_ok q" and "\<not> unat (uq_producer q) + length ws < 2 ^ 32"
  shows "\<exists>q1. post_all (take (2 ^ 32 - unat (uq_producer q)) ws) q = Some q1 \<and>
    same_works (mcdma_user_queue_rollback q' (length ws)) q1"
proof -
  let ?k = "2 ^ 32 - unat (uq_producer q)"
  have p: "unat (uq_producer q) < 2 ^ 32" using unsigned_less [of "uq_producer q"] by simp
  have k: "?k \<le> length ws" "length ws \<le> 31" using assms(3) p post_all_pending [OF assms(1)] by (cases ws; simp)+
  obtain q1 where q1: "post_all (take ?k ws) q = Some q1" "post_all (drop ?k ws) q1 = Some q'"
    using assms(1) post_all_append [of "take ?k ws" "drop ?k ws" q] by (auto split: option.splits)
  have "(of_nat ?k :: u32) = - uq_producer q"
    using p by (simp add: word_eq_iff_unsigned of_nat_diff)
  then have z: "user_ok q1" "uq_producer q1 = 0"
    using post_all_ok [OF q1(1) assms(2)] k(1) by (simp_all add: min_def)
  have q': "same_works q' q'" using post_all_ok [OF q1(2) z(1)] by (simp add: same_works_def)
  let ?r = "mcdma_user_queue_rollback q' (length ws - ?k)"
  have r: "same_works ?r q1"
    using rollback_undo [OF q1(2) z(1) q'] z(2) k(2) by simp
  then have "mcdma_user_queue_rollback ?r ?k = ?r" using z(2) by (cases ?k) (simp_all add: same_works_def)
  then have "mcdma_user_queue_rollback q' (length ws) = ?r"
    using rollback_add [of q' "length ws - ?k" ?k] k(1) by simp
  with q1(1) r show ?thesis by auto
qed

lemma reset_works: "user_works (mcdma_user_queue_reset q) = (\<lambda>_. None)" "user_ok (mcdma_user_queue_reset q)"
  "uq_producer (mcdma_user_queue_reset q) = 0"
  by (auto simp: user_works_def user_ok_def user_slots_def slots_ok_def mcdma_user_queue_reset_def no_record_def fun_eq_iff dom_def)

lemma new_works: "kernel_works \<lparr>ks_queue = new_work_queue, ks_producer = p\<rparr> = (\<lambda>_. None)"
  "kernel_ok \<lparr>ks_queue = new_work_queue, ks_producer = p\<rparr>"
  by (auto simp: kernel_works_def kernel_ok_def kernel_slots_def slots_ok_def new_work_queue_def no_work_def fun_eq_iff dom_def)

fun forget_keys :: "kernel_work \<Rightarrow> user_work" where
  "forget_keys (wr_id, opcode, len, lkeys) = (wr_id, opcode, len)"

subsection \<open>Properties\<close>

text \<open>
  C30: the process's mirror answers as the kernel's queue does. From a fresh start, through any
  sequence of posts (with keys the kernel takes) and of completions of any counters, stale and
  duplicate ones included, both accept the same posts and give back the same request for each
  completion, or neither.
\<close>

theorem mirror_answers_alike:
  assumes "\<forall>wr_id opcode len lkeys. Post (wr_id, opcode, len, lkeys) \<in> set ops \<longrightarrow>
      lkeys \<noteq> [] \<and> length lkeys \<le> 3 \<and> 0 \<notin> set lkeys"
  shows "queue_outs user_post user_complete (map (map_op forget_keys) ops) (mcdma_user_queue_reset q) =
    map (map_out forget_keys) (queue_outs kernel_post kernel_complete ops \<lparr>ks_queue = new_work_queue, ks_producer = 0\<rparr>)"
proof -
  let ?k = "\<lparr>ks_queue = new_work_queue, ks_producer = 0\<rparr>" and ?u = "mcdma_user_queue_reset q"
  have "queue_outs user_post user_complete (map (map_op forget_keys) ops) ?u =
      works_run user_fit (map (map_op forget_keys) ops) (user_works ?u, uq_producer ?u)"
    by (rule mirror.queue_outs_spec [OF reset_works(2)])
  also have "\<dots> = works_run user_fit (map (map_op forget_keys) ops) (map_option forget_keys \<circ> (\<lambda>_. None), 0)"
    by (simp add: reset_works comp_def)
  also have "\<dots> = map (map_out forget_keys) (works_run kernel_fit ops (\<lambda>_. None, 0))"
    using assms by (intro works_run_map) (auto simp: user_fit_def)
  also have "works_run kernel_fit ops (\<lambda>_. None, 0) = queue_outs kernel_post kernel_complete ops ?k"
    using kernel.queue_outs_spec [OF new_works(2), of ops 0] by (simp add: new_works)
  finally show ?thesis .
qed

theorem mirror_answers_alike_witness:
  "\<forall>q. queue_outs user_post user_complete [Post (7, 8, 64), Complete 0, Complete 0] (mcdma_user_queue_reset q) =
     [Posted True, Completed (Some (7, 8, 64)), Completed None]"
proof
  fix q
  have "queue_outs kernel_post kernel_complete [Post (7, 8, 64, [5]), Complete 0, Complete 0]
      \<lparr>ks_queue = new_work_queue, ks_producer = 0\<rparr> = [Posted True, Completed (Some (7, 8, 64, [5])), Completed None]"
    by (simp only: kernel.queue_outs_spec [OF new_works(2)] new_works) (simp add: works_full_def)
  with mirror_answers_alike [of "[Post (7, 8, 64, [5]), Complete 0, Complete 0]" q]
  show "queue_outs user_post user_complete [Post (7, 8, 64), Complete 0, Complete 0] (mcdma_user_queue_reset q) =
     [Posted True, Completed (Some (7, 8, 64)), Completed None]" by simp
qed

text \<open>
  C31: taking back as many posts as were accepted. As long as the 32-bit index did not come round
  during these posts, the queue is as it was before them, with the same outstanding requests under
  the same counters and the same next index. When it did come round, the loop stops at index 0 and
  the queue is as it was when the index became 0: the posts before that, at least one, stay.
\<close>

theorem rollback_undoes_posts:
  assumes "post_all ws q = Some q'" and "user_ok q"
  shows "\<exists>q1. post_all (if unat (uq_producer q) + length ws < 2 ^ 32 then [] else take (2 ^ 32 - unat (uq_producer q)) ws) q =
      Some q1 \<and>
    user_works (mcdma_user_queue_rollback q' (length ws)) = user_works q1 \<and>
    uq_producer (mcdma_user_queue_rollback q' (length ws)) = uq_producer q1 \<and>
    user_ok (mcdma_user_queue_rollback q' (length ws))"
proof (cases "unat (uq_producer q) + length ws < 2 ^ 32")
  case True
  then show ?thesis
    using rollback_undo [OF assms _ True, of q'] post_all_ok [OF assms] by (simp add: same_works_def)
next
  case False
  with rollback_undo_wrapped [OF assms False] show ?thesis by (auto simp: same_works_def)
qed

text \<open>Two posts of a new queue are taken back; one that brings the index round stays.\<close>

theorem rollback_undoes_posts_witness:
  "\<forall>q. (\<exists>q'. post_all [(1, 8, 64), (2, 16, 32)] (mcdma_user_queue_reset q) = Some q' \<and>
     user_works (mcdma_user_queue_rollback q' 2) = (\<lambda>_. None)) \<and>
   (\<exists>q'. post_all [(1, 8, 64)] ((mcdma_user_queue_reset q)\<lparr>uq_producer := 0xffffffff\<rparr>) = Some q' \<and>
     user_works (mcdma_user_queue_rollback q' 1) = [0xffff \<mapsto> (1, 8, 64)])"
proof (intro allI conjI)
  fix q
  let ?u = "mcdma_user_queue_reset q"
  obtain q1 where q1: "user_post (1, 8, 64) ?u = Some q1"
    using mirror.post_None [OF reset_works(2), of "(1, 8, 64)" q] by (auto simp: reset_works works_full_def user_fit_def)
  note p1 = mirror.post_Some [OF reset_works(2) q1]
  obtain q2 where q2: "user_post (2, 16, 32) q1 = Some q2"
    using mirror.post_None [of q1 "(2, 16, 32)"] p1
    by (auto simp: reset_works works_full_def user_fit_def slot16_def slot32_def)
  have p: "post_all [(1, 8, 64), (2, 16, 32)] ?u = Some q2" by (simp add: q1 q2)
  have n: "length [(1, 8, 64), (2, 16, 32) :: user_work] = 2" "unat (uq_producer ?u) + 2 < 2 ^ 32" by (simp_all add: reset_works)
  from rollback_undoes_posts [OF p reset_works(2), unfolded n(1)] n(2) p
  show "\<exists>q'. post_all [(1, 8, 64), (2, 16, 32)] ?u = Some q' \<and> user_works (mcdma_user_queue_rollback q' 2) = (\<lambda>_. None)"
    by (auto simp: reset_works)
next
  fix q
  let ?u = "(mcdma_user_queue_reset q)\<lparr>uq_producer := 0xffffffff\<rparr>"
  have u: "user_ok ?u" "user_works ?u = (\<lambda>_. None)" using reset_works(1,2) [of q] by (simp_all add: user_ok_def user_works_def user_slots_def)
  obtain q1 where q1: "user_post (1, 8, 64) ?u = Some q1"
    using mirror.post_None [OF u(1), of "(1, 8, 64)"] by (auto simp: u reset_works works_full_def user_fit_def)
  have p: "post_all [(1, 8, 64)] ?u = Some q1" and n: "length [(1, 8, 64) :: user_work] = 1" by (simp_all add: q1)
  have c: "(4294967295 :: u16) = 0xffff" by simp
  have "user_works q1 = [0xffff \<mapsto> (1, 8, 64)]" using mirror.post_Some [OF u(1) q1] reset_works(1) [of q] c by (simp add: u)
  with rollback_undoes_posts [OF p u(1), unfolded n] p
  show "\<exists>q'. post_all [(1, 8, 64)] ?u = Some q' \<and> user_works (mcdma_user_queue_rollback q' 1) = [0xffff \<mapsto> (1, 8, 64)]"
    by (auto simp: q1)
qed

end
