(* ===== verification/Nic_Cq.thy ===== *)
theory Nic_Cq
  imports Nic_Wqe Nic_Queue
begin

section \<open>Completions: the kernel's poll and the process's decoder\<close>

text \<open>
  The ring of completion entries is one page: 32 entries of 64 bytes, the consumer index the kernel
  publishes at 4096 and a word at 8192 that says the ring is live (\<open>include/cx5_cq_observer.h\<close>).
  The kernel consumes entries (\<open>decode_cqe\<close>, \<open>Hca::poll\<close>, \<open>apple_poll_cq\<close>); a process may
  decode the same entries from its read-only mapping (\<open>mcdma_user_decode\<close>) and report them before
  the kernel does.
\<close>

abbreviation (input) CQ_LIVE_OFFSET :: "'a :: numeral" where "CQ_LIVE_OFFSET \<equiv> 8192"
abbreviation (input) CQ_LIVE_MAGIC :: "'a :: numeral" where "CQ_LIVE_MAGIC \<equiv> 1296253953"

subsection \<open>The ring (include/cx5\_cq\_observer.h)\<close>

definition bswap32 :: "u32 \<Rightarrow> u32" where
  "bswap32 v = get_le (put_be 4 v)"

definition mcdma_cq_set_live :: "mem \<Rightarrow> bool \<Rightarrow> mem" where
  "mcdma_cq_set_live buffer live = mem_write buffer CQ_LIVE_OFFSET (put_le 4 (if live then CQ_LIVE_MAGIC else 0 :: u32))"

definition mcdma_cq_set_consumer :: "mem \<Rightarrow> u32 \<Rightarrow> mem" where
  "mcdma_cq_set_consumer buffer consumer = mem_write buffer 4096 (put_le 4 (bswap32 (consumer AND 0xffffff)))"

definition mcdma_cq_consumer :: "mem \<Rightarrow> u32" where
  "mcdma_cq_consumer buffer = bswap32 (get_le (mem_read buffer 4096 4)) AND 0xffffff"

definition owner_at :: "mem \<Rightarrow> u32 \<Rightarrow> u8" where
  "owner_at buffer index = buffer (slot32 index * 64 + 63)"

definition owned :: "u8 \<Rightarrow> u32 \<Rightarrow> bool" where
  "owned owner index \<longleftrightarrow> drop_bit 4 owner \<noteq> 15 \<and> ucast (owner AND 1) = drop_bit 5 index AND 1"

definition mcdma_cq_entry_ready :: "mem \<Rightarrow> u32 \<Rightarrow> int" where
  "mcdma_cq_entry_ready buffer index =
     (if get_le (mem_read buffer CQ_LIVE_OFFSET 4) \<noteq> (CQ_LIVE_MAGIC :: u32) then -1
      else if owned (owner_at buffer index) index then 1 else 0)"

definition mcdma_cq_entry :: "mem \<Rightarrow> u32 \<Rightarrow> int \<times> u8 list option" where
  "mcdma_cq_entry buffer index =
     (let ready = mcdma_cq_entry_ready buffer index in
      if ready \<noteq> 1 then (ready, None) else (1, Some (mem_read buffer (slot32 index * 64) 64)))"

definition mcdma_cq_observe :: "mem \<Rightarrow> int" where
  "mcdma_cq_observe buffer =
     (if get_le (mem_read buffer CQ_LIVE_OFFSET 4) \<noteq> (CQ_LIVE_MAGIC :: u32) then -1
      else
        let consumer = bswap32 (get_le (mem_read buffer 4096 4))
        in if owned (owner_at buffer consumer) consumer then 1 else 0)"

subsection \<open>Decoding in the kernel\<close>

text \<open>An entry is its 64 bytes; \<open>be32\<close> and \<open>le32\<close> read a word of it.\<close>

definition be32 :: "u8 list \<Rightarrow> nat \<Rightarrow> u32" where
  "be32 cqe a = get_be (take 4 (drop a cqe))"

definition le32 :: "u8 list \<Rightarrow> nat \<Rightarrow> u32" where
  "le32 cqe a = get_le (take 4 (drop a cqe))"

datatype cq_result = Empty | Success | Error | Unsupported

record completion =
  cp_qpn :: u32
  cp_bytes :: u32
  cp_counter :: u16
  cp_opcode :: u8
  cp_syndrome :: u8
  cp_vendor :: u8
  cp_immediate :: u32

definition no_completion :: completion where
  "no_completion = \<lparr>cp_qpn = 0, cp_bytes = 0, cp_counter = 0, cp_opcode = 0, cp_syndrome = 0, cp_vendor = 0, cp_immediate = 0\<rparr>"

definition cqe_opcode :: "u8 list \<Rightarrow> u8" where
  "cqe_opcode cqe = drop_bit 4 (cqe ! 63)"

definition cqe_counter :: "u8 list \<Rightarrow> u16" where
  "cqe_counter cqe = push_bit 8 (ucast (cqe ! 60)) OR ucast (cqe ! 61)"

definition decode_cqe :: "u8 list \<Rightarrow> u32 \<Rightarrow> nat \<Rightarrow> cq_result \<times> completion" where
  "decode_cqe p consumer log_entries =
     (if 23 < log_entries then (Unsupported, no_completion)
      else
        let opcode = cqe_opcode p in
        if opcode = 15 \<or> ucast (p ! 63 AND 1) \<noteq> drop_bit log_entries consumer AND 1 then (Empty, no_completion)
        else
          let out = \<lparr>cp_qpn = be32 p 56 AND 0xffffff, cp_bytes = be32 p 44, cp_counter = cqe_counter p, cp_opcode = opcode,
                cp_syndrome = 0, cp_vendor = 0, cp_immediate = le32 p 40\<rparr>
          in if opcode = 13 \<or> opcode = 14 then (Error, out\<lparr>cp_syndrome := p ! 55, cp_vendor := p ! 54\<rparr>)
             else if opcode = 0 \<or> opcode = 1 \<or> opcode = 2 \<or> opcode = 3 \<or> opcode = 4 then (Success, out)
             else (Unsupported, out))"

text \<open>
  What a poll of one completion queue touches: the ring with its consumer index and credits, the
  queue pairs by number (whether each side completes on this queue, and whether a client context is
  set), and whether the transport is ready or has been quarantined.
\<close>

record kernel_qp =
  kq_sends :: work_queue
  kq_receives :: work_queue
  kq_send_here :: bool
  kq_recv_here :: bool
  kq_user_posted :: bool
  kq_client :: bool

record kernel_cq =
  kc_live :: bool
  kc_ready :: bool
  kc_quarantined :: bool
  kc_buffer :: mem
  kc_consumer :: u32
  kc_outstanding :: u32
  kc_qps :: "u32 \<Rightarrow> kernel_qp option"

definition is_send :: "u8 \<Rightarrow> bool" where
  "is_send opcode \<longleftrightarrow> opcode = 0 \<or> opcode = 13"

definition side :: "u8 \<Rightarrow> kernel_qp \<Rightarrow> work_queue" where
  "side opcode q = (if is_send opcode then kq_sends q else kq_receives q)"

definition set_side :: "u8 \<Rightarrow> work_queue \<Rightarrow> kernel_qp \<Rightarrow> kernel_qp" where
  "set_side opcode w q = (if is_send opcode then q\<lparr>kq_sends := w\<rparr> else q\<lparr>kq_receives := w\<rparr>)"

definition advance :: "kernel_cq \<Rightarrow> kernel_cq" where
  "advance k = k\<lparr>kc_consumer := kc_consumer k + 1, kc_buffer := mcdma_cq_set_consumer (kc_buffer k) (kc_consumer k + 1)\<rparr>"

text \<open>The result, the decoded entry, the work record, whether a client was found and whether it posts itself.\<close>

definition hca_poll :: "kernel_cq \<Rightarrow> (cq_result \<times> completion \<times> work_record \<times> bool \<times> bool) \<times> kernel_cq" where
  "hca_poll k =
     (if \<not> kc_live k \<or> \<not> (kc_ready k \<and> \<not> kc_quarantined k) then ((Unsupported, no_completion, no_work, False, False), k)
      else if \<not> owned (owner_at (kc_buffer k) (kc_consumer k)) (kc_consumer k) then ((Empty, no_completion, no_work, False, False), k)
      else
        case decode_cqe (mem_read (kc_buffer k) (slot32 (kc_consumer k) * 64) 64) (kc_consumer k) 5 of (result, c) \<Rightarrow>
          if result = Empty \<or> result = Unsupported then ((result, c, no_work, False, False), k)
          else
            case kc_qps k (cp_qpn c) of
              None \<Rightarrow> ((Unsupported, c, no_work, False, False), k\<lparr>kc_quarantined := True\<rparr>)
            | Some q \<Rightarrow>
                if \<not> (if is_send (cp_opcode c) then kq_send_here q else kq_recv_here q)
                then ((Unsupported, c, no_work, False, False), k\<lparr>kc_quarantined := True\<rparr>)
                else if kq_user_posted q
                then ((result, c, no_work\<lparr>wk_id := ucast (cp_counter c), wk_counter := cp_counter c, wk_length := cp_bytes c\<rparr>,
                       kq_client q, True), advance k)
                else if kc_outstanding k = 0 then ((Unsupported, c, no_work, False, False), k\<lparr>kc_quarantined := True\<rparr>)
                else
                  case work_complete (side (cp_opcode c) q) (cp_counter c) of
                    (None, _) \<Rightarrow> ((Unsupported, c, no_work, False, False), k\<lparr>kc_quarantined := True\<rparr>)
                  | (Some w, rest) \<Rightarrow>
                      ((result, c, w, kq_client q, False),
                       advance (k\<lparr>kc_qps := (kc_qps k)(cp_qpn c \<mapsto> set_side (cp_opcode c) rest q),
                                  kc_outstanding := kc_outstanding k - 1\<rparr>)))"

definition completion_status :: "u8 \<Rightarrow> u32" where
  "completion_status syndrome =
     (case map_of [(1, 1), (2, 2), (4, 4), (5, 5), (6, 6), (0x10, 7), (0x11, 8), (0x12, 9), (0x13, 10), (0x14, 11),
        (0x15, 12), (0x16, 13), (0x22, 16)] syndrome of Some s \<Rightarrow> s | None \<Rightarrow> 21)"

text \<open>A completion as an application gets it (\<open>AppleWC\<close>, \<open>struct ibv_wc\<close>).\<close>

record wc_out =
  o_id :: u64
  o_status :: u32
  o_opcode :: u32
  o_vendor :: u32
  o_bytes :: u32
  o_flags :: u32
  o_immediate :: u32

definition no_wc :: wc_out where
  "no_wc = \<lparr>o_id = 0, o_status = 0, o_opcode = 0, o_vendor = 0, o_bytes = 0, o_flags = 0, o_immediate = 0\<rparr>"

definition kernel_wc :: "cq_result \<Rightarrow> completion \<Rightarrow> work_record \<Rightarrow> bool \<Rightarrow> wc_out" where
  "kernel_wc result hw work user =
     (let receive = (cp_opcode hw \<noteq> 0 \<and> cp_opcode hw \<noteq> 13);
          with_immediate = (receive \<and> (cp_opcode hw = 1 \<or> cp_opcode hw = 3));
          opcode = (if receive then if cp_opcode hw = 1 then 129 else 128
                    else if user then 0
                    else if wk_opcode work = WQE_WRITE \<or> wk_opcode work = WQE_WRITE_IMM then 1
                    else if wk_opcode work = WQE_READ then 2 else 0);
          c = no_wc\<lparr>o_id := wk_id work, o_opcode := opcode\<rparr>
      in if result = Error
         then c\<lparr>o_status := completion_status (cp_syndrome hw),
                o_vendor := push_bit 8 (ucast (cp_vendor hw)) OR ucast (cp_syndrome hw)\<rparr>
         else if receive \<and> cp_opcode hw \<noteq> 2 \<and> \<not> with_immediate then c\<lparr>o_status := 21, o_vendor := ucast (cp_opcode hw)\<rparr>
         else if receive \<and> \<not> user \<and> cp_opcode hw \<noteq> 1 \<and> wk_length work < cp_bytes hw then c\<lparr>o_status := 1\<rparr>
         else if receive
         then let c1 = c\<lparr>o_bytes := cp_bytes hw\<rparr>
              in if with_immediate then c1\<lparr>o_immediate := cp_immediate hw, o_flags := 2\<rparr> else c1
         else if \<not> user \<and> wk_opcode work = WQE_READ then c\<lparr>o_bytes := wk_length work\<rparr>
         else c)"

text \<open>\<open>apple_poll_cq\<close>: at most \<open>n\<close> more completions after those in \<open>out\<close>; a negative count for an error.\<close>

abbreviation (input) EIO :: "'a :: numeral" where "EIO \<equiv> 5"

fun apple_poll_cq :: "nat \<Rightarrow> kernel_cq \<Rightarrow> wc_out list \<Rightarrow> (int \<times> wc_out list) \<times> kernel_cq" where
  "apple_poll_cq 0 k out = ((int (length out), out), k)"
| "apple_poll_cq (Suc n) k out =
     (case hca_poll k of ((result, hw, work, client, user), k') \<Rightarrow>
        if result = Empty then ((int (length out), out), k')
        else if result = Unsupported then ((if out \<noteq> [] then int (length out) else - EIO, out), k')
        else if \<not> client then ((if out \<noteq> [] then int (length out) else - EIO, out), k'\<lparr>kc_quarantined := True\<rparr>)
        else apple_poll_cq n k' (out @ [kernel_wc result hw work user]))"

subsection \<open>Decoding in the process (include/cx5\_user\_completion.h)\<close>

definition mcdma_user_status :: "u8 \<Rightarrow> u32" where
  "mcdma_user_status syndrome =
     (if syndrome = 1 then 1 else if syndrome = 2 then 2 else if syndrome = 4 then 4 else if syndrome = 5 then 5
      else if syndrome = 6 then 6 else if syndrome = 0x10 then 7 else if syndrome = 0x11 then 8
      else if syndrome = 0x12 then 9 else if syndrome = 0x13 then 10 else if syndrome = 0x14 then 11
      else if syndrome = 0x15 then 12 else if syndrome = 0x16 then 13 else if syndrome = 0x22 then 16 else 21)"

record user_completion =
  uc_id :: u64
  uc_status :: u32
  uc_opcode :: u32
  uc_vendor :: u32
  uc_bytes :: u32
  uc_qpn :: u32
  uc_counter :: u32
  uc_user :: bool
  uc_flags :: u32
  uc_immediate :: u32

text \<open>A queue pair as the process keeps it; the table holds up to 256 of them, found by number.\<close>

record user_qp =
  q_num :: u32
  q_sends :: user_queue
  q_receives :: user_queue
  q_user_posted :: bool
  q_destroyed :: bool

definition found :: "u32 \<Rightarrow> user_qp option \<Rightarrow> bool" where
  "found qpn e \<longleftrightarrow> (case e of None \<Rightarrow> False | Some q \<Rightarrow> \<not> q_destroyed q \<and> q_num q = qpn)"

fun lookup_qp :: "user_qp option list \<Rightarrow> u32 \<Rightarrow> user_qp option" where
  "lookup_qp [] qpn = None"
| "lookup_qp (e # es) qpn = (if found qpn e then e else lookup_qp es qpn)"

fun update_qp :: "user_qp option list \<Rightarrow> u32 \<Rightarrow> user_qp \<Rightarrow> user_qp option list" where
  "update_qp [] qpn q = []"
| "update_qp (e # es) qpn q = (if found qpn e then Some q # es else e # update_qp es qpn q)"

definition user_side :: "u8 \<Rightarrow> user_qp \<Rightarrow> user_queue" where
  "user_side opcode q = (if opcode = 0 \<or> opcode = 13 then q_sends q else q_receives q)"

definition set_user_side :: "u8 \<Rightarrow> user_queue \<Rightarrow> user_qp \<Rightarrow> user_qp" where
  "set_user_side opcode w q = (if opcode = 0 \<or> opcode = 13 then q\<lparr>q_sends := w\<rparr> else q\<lparr>q_receives := w\<rparr>)"

definition user_wc :: "u8 list \<Rightarrow> user_record \<Rightarrow> bool \<Rightarrow> user_completion" where
  "user_wc cqe r user =
     (let opcode = cqe_opcode cqe; send = (opcode = 0 \<or> opcode = 13);
          with_immediate = (\<not> send \<and> (opcode = 1 \<or> opcode = 3));
          out = \<lparr>uc_id = ur_id r, uc_status = 0,
            uc_opcode = (if send then if ur_opcode r = 8 \<or> ur_opcode r = 9 then 1 else if ur_opcode r = 16 then 2 else 0
                         else if opcode = 1 then 129 else 128),
            uc_vendor = 0, uc_bytes = 0, uc_qpn = be32 cqe 56 AND 0xffffff, uc_counter = ucast (cqe_counter cqe),
            uc_user = user, uc_flags = 0, uc_immediate = 0\<rparr>
      in if opcode = 13 \<or> opcode = 14
         then out\<lparr>uc_status := mcdma_user_status (cqe ! 55), uc_vendor := push_bit 8 (ucast (cqe ! 54)) OR ucast (cqe ! 55)\<rparr>
         else if \<not> send \<and> opcode \<noteq> 2 \<and> \<not> with_immediate then out\<lparr>uc_status := 21, uc_vendor := ucast opcode\<rparr>
         else if \<not> send
         then let bytes = be32 cqe 44 in
              if opcode \<noteq> 1 \<and> ur_length r < bytes then out\<lparr>uc_status := 1\<rparr>
              else let out1 = out\<lparr>uc_bytes := bytes\<rparr>
                   in if with_immediate then out1\<lparr>uc_flags := 2, uc_immediate := le32 cqe 40\<rparr> else out1
         else if ur_opcode r = 16 then out\<lparr>uc_bytes := ur_length r\<rparr>
         else out)"

definition mcdma_user_decode :: "u8 list \<Rightarrow> user_qp option list \<Rightarrow> user_completion option \<times> user_qp option list" where
  "mcdma_user_decode cqe qps =
     (let opcode = cqe_opcode cqe in
      if opcode = 15 \<or> (4 < opcode \<and> opcode \<noteq> 13 \<and> opcode \<noteq> 14) then (None, qps)
      else
        let qpn = be32 cqe 56 AND 0xffffff in
        case lookup_qp qps qpn of
          None \<Rightarrow> (None, qps)
        | Some q \<Rightarrow>
            (case mcdma_user_queue_complete (user_side opcode q) (cqe_counter cqe) of
               (None, _) \<Rightarrow> (None, qps)
             | (Some r, rest) \<Rightarrow>
                 (Some (user_wc cqe r (q_user_posted q)), update_qp qps qpn (set_user_side opcode rest q))))"

text \<open>What the application gets, and the check of it against what the kernel reports later (native/user\_provider.c).\<close>

definition publish_wc :: "user_completion \<Rightarrow> wc_out" where
  "publish_wc c = \<lparr>o_id = uc_id c, o_status = uc_status c, o_opcode = uc_opcode c, o_vendor = uc_vendor c,
     o_bytes = uc_bytes c, o_flags = uc_flags c, o_immediate = uc_immediate c\<rparr>"

definition same :: "wc_out \<Rightarrow> user_completion \<Rightarrow> bool" where
  "same wc c \<longleftrightarrow>
     (if uc_user c
      then o_id wc = ucast (uc_counter c) \<and> o_opcode wc AND 128 = uc_opcode c AND 128 \<and>
           (if o_status wc = 0 then uc_status c \<le> 1 else o_status wc = uc_status c) \<and>
           (uc_status c \<noteq> 0 \<or> o_flags wc = uc_flags c \<and> (uc_flags c = 0 \<or> o_immediate wc = uc_immediate c))
      else o_id wc = uc_id c \<and> o_status wc = uc_status c \<and> o_opcode wc = uc_opcode c \<and> o_bytes wc = uc_bytes c \<and>
           (uc_status c \<noteq> 0 \<or> o_flags wc = uc_flags c \<and> (uc_flags c = 0 \<or> o_immediate wc = uc_immediate c)))"

subsection \<open>One entry, decoded on both sides\<close>

lemma status_tables: "completion_status s = mcdma_user_status s"
  by (simp add: completion_status_def mcdma_user_status_def)

lemma decode_cqe_ok:
  assumes "decode_cqe p consumer 5 = (result, hw)" and "result \<noteq> Empty" "result \<noteq> Unsupported"
  shows "cp_qpn hw = be32 p 56 AND 0xffffff" "cp_bytes hw = be32 p 44" "cp_counter hw = cqe_counter p"
    "cp_opcode hw = cqe_opcode p" "cp_immediate hw = le32 p 40"
    "cqe_opcode p \<in> {13, 14} \<Longrightarrow> result = Error \<and> cp_syndrome hw = p ! 55 \<and> cp_vendor hw = p ! 54"
    "cqe_opcode p \<notin> {13, 14} \<Longrightarrow> result = Success"
    "cqe_opcode p \<in> {0, 1, 2, 3, 4, 13, 14}"
  using assms by (auto simp: decode_cqe_def Let_def split: if_splits)

lemma same_kernel:
  assumes "decode_cqe p consumer 5 = (result, hw)" and "result \<noteq> Empty" "result \<noteq> Unsupported"
    and "wk_id w = ur_id r" "wk_opcode w = ur_opcode r" "wk_length w = ur_length r"
  shows "same (kernel_wc result hw w False) (user_wc p r False)"
proof -
  note d = decode_cqe_ok [OF assms(1-3)]
  have o: "cqe_opcode p = 0 \<or> cqe_opcode p = 1 \<or> cqe_opcode p = 2 \<or> cqe_opcode p = 3 \<or> cqe_opcode p = 4 \<or>
      cqe_opcode p = 13 \<or> cqe_opcode p = 14" using d(8) by simp
  then show ?thesis
    by (elim disjE) (use d(1-7) assms(4-6) in \<open>simp_all add: same_def kernel_wc_def user_wc_def no_wc_def status_tables Let_def\<close>)
qed

lemma same_user:
  assumes "decode_cqe p consumer 5 = (result, hw)" and "result \<noteq> Empty" "result \<noteq> Unsupported"
    and "wk_id w = ucast (cp_counter hw)"
  shows "same (kernel_wc result hw w True) (user_wc p r True)"
proof -
  note d = decode_cqe_ok [OF assms(1-3)]
  have o: "cqe_opcode p = 0 \<or> cqe_opcode p = 1 \<or> cqe_opcode p = 2 \<or> cqe_opcode p = 3 \<or> cqe_opcode p = 4 \<or>
      cqe_opcode p = 13 \<or> cqe_opcode p = 14" using d(8) by simp
  have u: "(ucast (ucast (c :: u16) :: u32) :: u64) = ucast c" for c
    by (rule bit_word_eqI) (auto simp: bit_simps dest: bit_imp_le_length)
  from o show ?thesis
    by (elim disjE) (use d(1-7) assms(4) u in \<open>simp_all add: same_def kernel_wc_def user_wc_def no_wc_def status_tables Let_def\<close>)
qed

lemma lookup_update: "lookup_qp qps qpn = Some q \<Longrightarrow> found qpn (Some q') \<Longrightarrow> lookup_qp (update_qp qps qpn q') qpn = Some q'"
  by (induction qps) (auto split: if_splits)

lemma lookup_found: "lookup_qp qps qpn = Some q \<Longrightarrow> found qpn (Some q)"
  by (induction qps) (auto split: if_splits)

lemma found_other: "found qpn e \<Longrightarrow> n \<noteq> qpn \<Longrightarrow> \<not> found n e"
  by (auto simp: found_def split: option.splits)

lemma lookup_update_other:
  "found qpn (Some q') \<Longrightarrow> n \<noteq> qpn \<Longrightarrow> lookup_qp (update_qp qps qpn q') n = lookup_qp qps n"
  by (induction qps) (auto dest: found_other)

text \<open>The process's table mirrors the kernel's: the same requests outstanding in each queue the kernel posts to.\<close>

definition kworks :: "work_queue \<Rightarrow> kernel_work works" where
  "kworks w = kernel_works \<lparr>ks_queue = w, ks_producer = 0\<rparr>"

definition queue_mirrors :: "work_queue \<Rightarrow> user_queue \<Rightarrow> bool" where
  "queue_mirrors w u \<longleftrightarrow> kernel_ok \<lparr>ks_queue = w, ks_producer = 0\<rparr> \<and> user_ok u \<and> user_works u = map_option forget_keys \<circ> kworks w"

definition qp_mirrors :: "kernel_qp \<Rightarrow> user_qp \<Rightarrow> bool" where
  "qp_mirrors kq uq \<longleftrightarrow> q_user_posted uq = kq_user_posted kq \<and>
     (kq_user_posted kq \<or> queue_mirrors (kq_sends kq) (q_sends uq) \<and> queue_mirrors (kq_receives kq) (q_receives uq))"

definition mirrors :: "(u32 \<Rightarrow> kernel_qp option) \<Rightarrow> user_qp option list \<Rightarrow> bool" where
  "mirrors kqps uqps \<longleftrightarrow> (\<forall>qpn kq. kqps qpn = Some kq \<longrightarrow> (\<exists>uq. lookup_qp uqps qpn = Some uq \<and> qp_mirrors kq uq))"

lemma queue_mirrors_complete:
  assumes "queue_mirrors w u" and "work_complete w c = (Some r, w')"
  obtains ur u' where "mcdma_user_queue_complete u c = (Some ur, u')" "queue_mirrors w' u'"
    "wk_id r = ur_id ur" "wk_opcode r = ur_opcode ur" "wk_length r = ur_length ur"
proof -
  let ?k = "\<lparr>ks_queue = w, ks_producer = 0\<rparr>"
  have kok: "kernel_ok ?k" and uok: "user_ok u" and m: "user_works u = map_option forget_keys \<circ> kworks w"
    using assms(1) by (simp_all add: queue_mirrors_def)
  have kc: "kernel_complete c ?k = Some (work_of r, \<lparr>ks_queue = w', ks_producer = 0\<rparr>)"
    using assms(2) by (simp add: kernel_complete_def)
  note k = kernel.complete_Some [OF kok kc]
  then have "user_works u c = Some (forget_keys (work_of r))" by (simp add: m kworks_def)
  then obtain fw u' where uc: "user_complete c u = Some (fw, u')"
    using mirror.complete_None [OF uok, of c] by (cases "user_complete c u") auto
  note u = mirror.complete_Some [OF uok uc]
  obtain ur where ur: "mcdma_user_queue_complete u c = (Some ur, u')" and fw: "fw = (ur_id ur, ur_opcode ur, ur_length ur)"
    using uc by (auto simp: user_complete_def split: prod.splits option.splits)
  have "fw = forget_keys (work_of r)" using u \<open>user_works u c = _\<close> by simp
  then have f: "wk_id r = ur_id ur" "wk_opcode r = ur_opcode ur" "wk_length r = ur_length ur"
    by (simp_all add: fw work_of_def)
  have "user_works u' = map_option forget_keys \<circ> kworks w'" using u k m by (auto simp: kworks_def)
  then have "queue_mirrors w' u'" using u k by (simp add: queue_mirrors_def)
  with ur f show thesis by (intro that)
qed

lemma mirrors_update:
  assumes "mirrors kqps uqps" and "found qpn (Some uq')" and "lookup_qp uqps qpn = Some uq" and "qp_mirrors kq' uq'"
  shows "mirrors (kqps(qpn \<mapsto> kq')) (update_qp uqps qpn uq')"
  using assms lookup_update [OF assms(3,2)] lookup_update_other [OF assms(2)] by (auto simp: mirrors_def)

text \<open>What the adapter completes on a queue the process posts to, the process has posted.\<close>

definition posted_by_user :: "u8 list \<Rightarrow> user_qp option list \<Rightarrow> bool" where
  "posted_by_user cqe uqps \<longleftrightarrow>
     (\<forall>uq. lookup_qp uqps (be32 cqe 56 AND 0xffffff) = Some uq \<longrightarrow> q_user_posted uq \<longrightarrow>
        fst (mcdma_user_queue_complete (user_side (cqe_opcode cqe) uq) (cqe_counter cqe)) \<noteq> None)"

definition next_entry :: "kernel_cq \<Rightarrow> u8 list" where
  "next_entry k = mem_read (kc_buffer k) (slot32 (kc_consumer k) * 64) 64"

lemma set_side_mirrors:
  assumes "qp_mirrors kq uq" and "\<not> kq_user_posted kq" and "queue_mirrors w u"
  shows "qp_mirrors (set_side opcode w kq) (set_user_side opcode u uq)"
  using assms by (simp add: qp_mirrors_def set_side_def set_user_side_def is_send_def)

lemma found_set_user_side: "found qpn (Some (set_user_side opcode u uq)) = found qpn (Some uq)"
  by (simp add: found_def set_user_side_def)

lemma advance_qps [simp]: "kc_qps (advance k) = kc_qps k"
  by (simp add: advance_def)

lemma poll_agrees:
  assumes p: "hca_poll k = ((result, hw, work, client, user), k')" and r: "result \<noteq> Empty" "result \<noteq> Unsupported"
    and m: "mirrors (kc_qps k) uqps" and u: "posted_by_user (next_entry k) uqps"
  shows "\<exists>c uqps'. mcdma_user_decode (next_entry k) uqps = (Some c, uqps') \<and>
    same (kernel_wc result hw work user) c \<and> mirrors (kc_qps k') uqps'"
proof -
  let ?e = "next_entry k"
  obtain d: "decode_cqe ?e (kc_consumer k) 5 = (result, hw)"
    using p r by (cases "decode_cqe ?e (kc_consumer k) 5")
      (auto simp: hca_poll_def next_entry_def split: if_splits option.splits prod.splits)
  note dd = decode_cqe_ok [OF d r]
  obtain kq where kq: "kc_qps k (cp_qpn hw) = Some kq"
    using p r by (auto simp: hca_poll_def next_entry_def [symmetric] d split: if_splits option.splits)
  obtain uq where uq: "lookup_qp uqps (be32 ?e 56 AND 0xffffff) = Some uq" and qm: "qp_mirrors kq uq"
    using m kq dd(1) by (auto simp: mirrors_def)
  have fo: "found (be32 ?e 56 AND 0xffffff) (Some uq)" by (rule lookup_found [OF uq])
  have op: "\<not> (cqe_opcode ?e = 15 \<or> (4 < cqe_opcode ?e \<and> cqe_opcode ?e \<noteq> 13 \<and> cqe_opcode ?e \<noteq> 14))"
    using dd(8) by auto
  have dec: "mcdma_user_decode ?e uqps =
      (case mcdma_user_queue_complete (user_side (cqe_opcode ?e) uq) (cqe_counter ?e) of
         (None, _) \<Rightarrow> (None, uqps)
       | (Some r, rest) \<Rightarrow> (Some (user_wc ?e r (q_user_posted uq)),
           update_qp uqps (be32 ?e 56 AND 0xffffff) (set_user_side (cqe_opcode ?e) rest uq)))"
    unfolding mcdma_user_decode_def Let_def by (simp only: if_not_P [OF op] uq option.case)
  show ?thesis
  proof (cases "kq_user_posted kq")
    case True
    then have up: "q_user_posted uq" using qm by (simp add: qp_mirrors_def)
    obtain ur rest where c: "mcdma_user_queue_complete (user_side (cqe_opcode ?e) uq) (cqe_counter ?e) = (Some ur, rest)"
      using u uq up by (cases "mcdma_user_queue_complete (user_side (cqe_opcode ?e) uq) (cqe_counter ?e)")
        (auto simp: posted_by_user_def)
    have w: "work = no_work\<lparr>wk_id := ucast (cp_counter hw), wk_counter := cp_counter hw, wk_length := cp_bytes hw\<rparr>"
      "user" "kc_qps k' = kc_qps k"
      using p r True kq by (auto simp: hca_poll_def next_entry_def [symmetric] d split: if_splits)
    have s: "same (kernel_wc result hw work user) (user_wc ?e ur True)"
      using same_user [OF d r, of work ur] w by simp
    have "qp_mirrors kq (set_user_side (cqe_opcode ?e) rest uq)"
      using True up by (simp add: qp_mirrors_def set_user_side_def)
    then have "mirrors ((kc_qps k)(be32 ?e 56 AND 0xffffff \<mapsto> kq))
        (update_qp uqps (be32 ?e 56 AND 0xffffff) (set_user_side (cqe_opcode ?e) rest uq))"
      using m fo uq by (intro mirrors_update) (simp_all add: found_set_user_side)
    moreover have "(kc_qps k)(be32 ?e 56 AND 0xffffff \<mapsto> kq) = kc_qps k" using kq dd(1) by (simp add: map_upd_triv)
    ultimately show ?thesis using s w c up by (simp add: dec)
  next
    case False
    obtain w' where c: "work_complete (side (cp_opcode hw) kq) (cp_counter hw) = (Some work, w')" and nu: "\<not> user"
      and k': "kc_qps k' = (kc_qps k)(cp_qpn hw \<mapsto> set_side (cp_opcode hw) w' kq)"
      using p r False kq
      by (auto simp: hca_poll_def next_entry_def [symmetric] d split: if_splits option.splits prod.splits)
    have "queue_mirrors (side (cp_opcode hw) kq) (user_side (cp_opcode hw) uq)"
      using qm False by (simp add: qp_mirrors_def side_def user_side_def is_send_def)
    then obtain ur u' where x: "mcdma_user_queue_complete (user_side (cp_opcode hw) uq) (cp_counter hw) = (Some ur, u')"
      "queue_mirrors w' u'" "wk_id work = ur_id ur" "wk_opcode work = ur_opcode ur" "wk_length work = ur_length ur"
      using c by (rule queue_mirrors_complete)
    have s: "same (kernel_wc result hw work user) (user_wc ?e ur False)"
      using same_kernel [OF d r x(3-5)] nu by simp
    have "mirrors ((kc_qps k)(cp_qpn hw \<mapsto> set_side (cp_opcode hw) w' kq))
        (update_qp uqps (be32 ?e 56 AND 0xffffff) (set_user_side (cp_opcode hw) u' uq))"
      using m fo uq set_side_mirrors [OF qm False x(2)] dd(1) by (simp add: mirrors_update found_set_user_side)
    then show ?thesis using s x(1) k' qm False dd by (simp add: dec qp_mirrors_def)
  qed
qed

end
