(* ===== verification/Nic_Provider.thy ===== *)
theory Nic_Provider
  imports Nic_Cq
begin

section \<open>Reporting completions ahead of the kernel (native/user\_provider.c)\<close>

text \<open>
  In its third mode the provider decodes published entries itself, hands them to the application at
  once, and lets the kernel consume the same entries later, checking each against what it reported.
  Any disagreement retires the queue. The kernel is reached through the system's command helpers, so
  the loops take it as a parameter: \<open>obs\<close> is the ring it shares and \<open>poll n\<close> what polling for at
  most \<open>n\<close> completions answers (never more than \<open>n\<close> of them). The theorems put the kernel of
  \<open>Nic_Cq\<close> there.
\<close>

abbreviation (input) ACK_BATCH :: "'a :: numeral" where "ACK_BATCH \<equiv> 8"
abbreviation (input) ACK_SAFETY :: "'a :: numeral" where "ACK_SAFETY \<equiv> 24"

type_synonym 'k poll = "nat \<Rightarrow> 'k \<Rightarrow> (int \<times> wc_out list) \<times> 'k"

text \<open>
  The part of \<open>struct mcdma_cq\<close> for this mode. \<open>pending\<close> holds what was reported and not yet
  consumed by the kernel, from \<open>head\<close> on.
\<close>

record cq_node =
  n_retired :: bool
  n_ahead :: nat
  n_pending :: "user_completion list"
  n_head :: u32
  n_count :: nat
  n_empty :: nat

definition retire :: "cq_node \<Rightarrow> cq_node" where
  "retire n = n\<lparr>n_retired := True\<rparr>"

definition drop_reported :: "nat \<Rightarrow> cq_node \<Rightarrow> cq_node" where
  "drop_reported j n = n\<lparr>n_ahead := n_ahead n - j, n_head := n_head n + of_nat j, n_count := n_count n - j\<rparr>"

fun check_each :: "wc_out list \<Rightarrow> cq_node \<Rightarrow> cq_node" where
  "check_each [] n = n"
| "check_each (wc # wcs) n =
     (let n1 = (if same wc (n_pending n ! slot32 (n_head n)) then n else retire n)
      in check_each wcs (n1\<lparr>n_head := n_head n + 1, n_count := n_count n - 1, n_ahead := n_ahead n - 1\<rparr>))"

text \<open>None where \<open>fuel\<close> passes of the loop were not enough.\<close>

fun acknowledge :: "nat \<Rightarrow> ('k \<Rightarrow> mem) \<Rightarrow> 'k poll \<Rightarrow> cq_node \<times> 'k \<Rightarrow> (bool \<times> cq_node \<times> 'k) option" where
  "acknowledge 0 obs poll (n, k) = None"
| "acknowledge (Suc fuel) obs poll (n, k) =
     (if n_ahead n = 0 then Some (\<not> n_retired n, n, k)
      else if n_retired n
      then (case poll (n_ahead n) k of ((j, wcs), k') \<Rightarrow>
              if j \<le> 0 then Some (False, n, k')
              else acknowledge fuel obs poll (drop_reported (nat j) n, k'))
      else
        let before = mcdma_cq_consumer (obs k) in
        case poll (n_ahead n) k of ((j, wcs), k') \<Rightarrow>
          if j \<le> 0 \<or> int (n_ahead n) < j then acknowledge fuel obs poll (retire n, k')
          else
            let n1 = check_each wcs n;
                n2 = (if \<not> n_retired n1 \<and> (mcdma_cq_consumer (obs k') - before) AND 0xffffff \<noteq> of_int j then retire n1 else n1)
            in acknowledge fuel obs poll (n2, k'))"

text \<open>Reporting up to \<open>m\<close> entries past the consumer \<open>base\<close>; also gives what it put into the array.\<close>

fun report :: "nat \<Rightarrow> mem \<Rightarrow> u32 \<Rightarrow> user_qp option list \<Rightarrow> cq_node \<Rightarrow> wc_out list \<times> user_qp option list \<times> cq_node" where
  "report 0 ring base qps n = ([], qps, n)"
| "report (Suc m) ring base qps n =
     (if 31 \<le> n_ahead n then ([], qps, n)
      else
        case mcdma_cq_entry ring (base + of_nat (n_ahead n)) of
          (ready, None) \<Rightarrow> ([], qps, if ready < 0 then retire n else n)
        | (ready, Some cqe) \<Rightarrow>
            (case mcdma_user_decode cqe qps of
               (None, qps') \<Rightarrow> ([], qps', retire n)
             | (Some c, qps') \<Rightarrow>
                 (case report m ring base qps'
                         (n\<lparr>n_pending := (n_pending n)[slot32 (n_head n + of_nat (n_count n)) := c],
                            n_count := n_count n + 1, n_ahead := n_ahead n + 1\<rparr>) of
                    (wcs, rest) \<Rightarrow> (publish_wc c # wcs, rest))))"

text \<open>Ordinary polling, with the mirror brought along for what the kernel consumed.\<close>

fun fresh_check :: "wc_out list \<Rightarrow> nat \<Rightarrow> mem \<Rightarrow> u32 \<Rightarrow> user_qp option list \<Rightarrow> cq_node \<Rightarrow> wc_out list \<times> user_qp option list \<times> cq_node" where
  "fresh_check [] i ring base qps n = ([], qps, n)"
| "fresh_check (wc # wcs) i ring base qps n =
     (case mcdma_user_decode (mem_read ring (slot32 (base + of_nat i) * 64) 64) qps of
        (None, qps') \<Rightarrow> (wc # wcs, qps', retire n)
      | (Some c, qps') \<Rightarrow>
          if \<not> same wc c then (wc # wcs, qps', retire n)
          else (case fresh_check wcs (i + 1) ring base qps' n of
                  (out, rest) \<Rightarrow> ((if uc_user c then publish_wc c else wc) # out, rest)))"

definition kernel_fresh ::
    "('k \<Rightarrow> mem) \<Rightarrow> 'k poll \<Rightarrow> nat \<Rightarrow> user_qp option list \<Rightarrow> cq_node \<Rightarrow> 'k \<Rightarrow> (int \<times> wc_out list) \<times> user_qp option list \<times> cq_node \<times> 'k" where
  "kernel_fresh obs poll m qps n k =
     (let base = mcdma_cq_consumer (obs k) in
      case poll m k of ((j, wcs), k') \<Rightarrow>
        case (if n_retired n then (wcs, qps, n) else fresh_check wcs 0 (obs k') base qps n) of (out, qps', n') \<Rightarrow>
          ((if n_retired n' then - EIO else j, out), qps', n', k'))"

definition user_poll ::
    "nat \<Rightarrow> ('k \<Rightarrow> mem) \<Rightarrow> 'k poll \<Rightarrow> nat \<Rightarrow> user_qp option list \<Rightarrow> cq_node \<Rightarrow> 'k \<Rightarrow>
      ((int \<times> wc_out list) \<times> user_qp option list \<times> cq_node \<times> 'k) option" where
  "user_poll fuel obs poll m qps n k =
     (if n_retired n then Some ((- EIO, []), qps, n, k)
      else
        case report m (obs k) (mcdma_cq_consumer (obs k)) qps n of (wcs, qps1, n1) \<Rightarrow>
          if n_retired n1 then Some ((- EIO, wcs), qps1, n1, k)
          else if wcs \<noteq> []
          then let n2 = n1\<lparr>n_empty := 0\<rparr> in
               if ACK_SAFETY \<le> n_ahead n2
               then (case acknowledge fuel obs poll (n2, k) of
                       None \<Rightarrow> None
                     | Some (ok, n3, k3) \<Rightarrow> Some ((if ok then int (length wcs) else - EIO, wcs), qps1, n3, k3))
               else Some ((int (length wcs), wcs), qps1, n2, k)
          else
            let n2 = n1\<lparr>n_empty := n_empty n1 + 1\<rparr> in
            if n_empty n2 < 256 then Some ((0, []), qps1, n2, k)
            else
              let n3 = n2\<lparr>n_empty := 0\<rparr> in
              if n_ahead n3 \<noteq> 0
              then (case acknowledge fuel obs poll (n3, k) of
                      None \<Rightarrow> None
                    | Some (ok, n4, k4) \<Rightarrow> Some ((if ok then 0 else - EIO, []), qps1, n4, k4))
              else Some (kernel_fresh obs poll m qps1 n3 k))"

subsection \<open>The ring's consumer index\<close>

lemma bswap32_twice: "bswap32 (bswap32 v) = v"
proof -
  have "put_be 4 (get_le (put_be 4 v) :: u32) = put_le 4 v"
    by (simp add: put_be_def put_le_get_le)
  then show ?thesis by (simp add: bswap32_def)
qed

lemma consumer_set: "mcdma_cq_consumer (mcdma_cq_set_consumer b c) = c AND 0xffffff"
  using mem_read_write_same [of b 4096 "put_le 4 (bswap32 (c AND 0xffffff))"]
  by (simp add: mcdma_cq_consumer_def mcdma_cq_set_consumer_def bswap32_twice and.assoc)

lemma mask_24: "(c :: u32) AND 0xffffff = take_bit 24 c"
  by (simp add: take_bit_eq_mask mask_eq_exp_minus_1)

lemma take_bit_24_add: "take_bit 24 (take_bit 24 c + a) = take_bit 24 (c + a)" for c a :: u32
  by (simp add: word_uint_eq_iff take_bit_eq_mod uint_mod uint_word_ariths mod_mod_cancel mod_simps)

lemma same_low_bits:
  assumes "take_bit 24 x = take_bit 24 (y :: u32)"
  shows "slot32 x = slot32 y" and "owned w x = owned w y"
proof -
  have b: "bit x i = bit y i" if "i < 24" for i
    using assms that by (metis bit_take_bit_iff)
  have "x AND 31 = y AND 31"
  proof (rule bit_word_eqI)
    fix i assume "i < LENGTH(32)"
    have "bit (31 :: u32) i \<longleftrightarrow> i < 5"
      using bit_mask_iff [of 5 i, where 'a = u32] \<open>i < _\<close> by (simp add: mask_eq_exp_minus_1)
    then show "bit (x AND 31) i = bit (y AND 31) i" using b by (auto simp: bit_and_iff)
  qed
  then show "slot32 x = slot32 y" by (simp add: slot32_def)
  have "drop_bit 5 x AND 1 = drop_bit 5 y AND 1"
    using b [of 5] by (intro bit_word_eqI) (auto simp: bit_simps)
  then show "owned w x = owned w y" by (simp add: owned_def)
qed

lemma ring_index:
  "slot32 ((c AND 0xffffff) + a) = slot32 (c + a)" "owned w ((c AND 0xffffff) + a) = owned w (c + a)"
  using same_low_bits [of "(c AND 0xffffff) + a" "c + a"] by (simp_all add: mask_24 take_bit_24_add)

subsection \<open>The kernel some entries ahead\<close>

text \<open>Polling \<open>n\<close> entries that are all accepted.\<close>

fun kpolls :: "nat \<Rightarrow> kernel_cq \<Rightarrow> (wc_out list \<times> kernel_cq) option" where
  "kpolls 0 k = Some ([], k)"
| "kpolls (Suc n) k =
     (case hca_poll k of ((result, hw, work, client, user), k1) \<Rightarrow>
        if result = Empty \<or> result = Unsupported \<or> \<not> client then None
        else (case kpolls n k1 of None \<Rightarrow> None | Some (wcs, k') \<Rightarrow> Some (kernel_wc result hw work user # wcs, k')))"

lemma hca_poll_cases: obtains result hw work client user k1 where "hca_poll k = ((result, hw, work, client, user), k1)"
  by (cases "hca_poll k" rule: prod.exhaust) (metis prod_cases5)

abbreviation kernel_poll :: "kernel_cq poll" where
  "kernel_poll n k \<equiv> apple_poll_cq n k []"

lemma kpolls_length: "kpolls n k = Some (wcs, k') \<Longrightarrow> length wcs = n"
  by (induction n arbitrary: k wcs) (auto split: prod.splits if_splits option.splits)

lemma apple_poll_kpolls:
  "kpolls n k = Some (wcs, k') \<Longrightarrow> apple_poll_cq n k out = ((int (length out + n), out @ wcs), k')"
proof (induction n arbitrary: k wcs out)
  case (Suc n)
  obtain result hw work client user k1 where h: "hca_poll k = ((result, hw, work, client, user), k1)"
    by (rule hca_poll_cases)
  then have a: "result \<noteq> Empty" "result \<noteq> Unsupported" "client" using Suc.prems by (auto split: if_splits)
  with Suc.prems h obtain ws where w: "kpolls n k1 = Some (ws, k')" "wcs = kernel_wc result hw work user # ws"
    by (auto split: option.splits)
  show ?case using a h w(2) Suc.IH [OF w(1), of "out @ [kernel_wc result hw work user]"] by simp
qed simp

lemma kpolls_snoc:
  "kpolls n k = Some (wcs, k1) \<Longrightarrow> kpolls 1 k1 = Some ([w], k2) \<Longrightarrow> kpolls (Suc n) k = Some (wcs @ [w], k2)"
proof (induction n arbitrary: k wcs)
  case (Suc n)
  obtain result hw work client user k0 where h: "hca_poll k = ((result, hw, work, client, user), k0)"
    by (rule hca_poll_cases)
  then have a: "result \<noteq> Empty" "result \<noteq> Unsupported" "client" using Suc.prems by (auto split: if_splits)
  with Suc.prems h obtain ws where x: "kpolls n k0 = Some (ws, k1)" "wcs = kernel_wc result hw work user # ws"
    by (auto split: option.splits)
  show ?case using a h x(2) Suc.IH [OF x(1) Suc.prems(2)] by (simp del: kpolls.simps(2) add: kpolls.simps(2) [of "Suc n" k])
qed simp

lemma advance_fields:
  "kc_consumer (advance k) = kc_consumer k + 1" "kc_live (advance k) = kc_live k" "kc_ready (advance k) = kc_ready k"
  "mcdma_cq_consumer (kc_buffer (advance k)) = kc_consumer (advance k) AND 0xffffff"
  "i < 4096 \<or> 4100 \<le> i \<Longrightarrow> kc_buffer (advance k) i = kc_buffer k i"
  by (simp_all add: advance_def consumer_set) (simp add: mcdma_cq_set_consumer_def mem_write_outside)

lemma hca_poll_moves:
  assumes "hca_poll k = ((result, hw, work, client, user), k')" "result \<noteq> Empty" "result \<noteq> Unsupported"
  shows "kc_consumer k' = kc_consumer k + 1" "mcdma_cq_consumer (kc_buffer k') = kc_consumer k' AND 0xffffff"
    "i < 4096 \<or> 4100 \<le> i \<Longrightarrow> kc_buffer k' i = kc_buffer k i"
  using assms
  by (auto simp: hca_poll_def advance_fields split: if_splits option.splits prod.splits)

lemma kpolls_moves:
  assumes "kpolls n k = Some (wcs, k')" "mcdma_cq_consumer (kc_buffer k) = kc_consumer k AND 0xffffff"
  shows "kc_consumer k' = kc_consumer k + of_nat n \<and> mcdma_cq_consumer (kc_buffer k') = kc_consumer k' AND 0xffffff \<and>
    (\<forall>i. i < 4096 \<or> 4100 \<le> i \<longrightarrow> kc_buffer k' i = kc_buffer k i)"
  using assms
proof (induction n arbitrary: k wcs)
  case (Suc n)
  obtain result hw work client user k0 where h: "hca_poll k = ((result, hw, work, client, user), k0)"
    by (rule hca_poll_cases)
  then have a: "result \<noteq> Empty" "result \<noteq> Unsupported" using Suc.prems by (auto split: if_splits)
  with Suc.prems h obtain ws where x: "kpolls n k0 = Some (ws, k')" by (auto split: option.splits if_splits)
  show ?case using Suc.IH [OF x hca_poll_moves(2) [OF h a]] hca_poll_moves [OF h a] by (simp add: add.assoc)
qed simp

subsection \<open>Acknowledging\<close>

definition reported :: "cq_node \<Rightarrow> wc_out list \<Rightarrow> bool" where
  "reported n wcs \<longleftrightarrow> (\<forall>i < length wcs. same (wcs ! i) (n_pending n ! slot32 (n_head n + of_nat i)))"

lemma check_each_ok:
  "reported n wcs \<Longrightarrow> check_each wcs n = drop_reported (length wcs) n"
proof (induction wcs arbitrary: n)
  case Nil
  then show ?case by (simp add: drop_reported_def)
next
  case (Cons wc wcs)
  let ?n = "n\<lparr>n_head := n_head n + 1, n_count := n_count n - 1, n_ahead := n_ahead n - 1\<rparr>"
  have "same (((wc # wcs) ! Suc i)) (n_pending n ! slot32 (n_head n + of_nat (Suc i)))" if "i < length wcs" for i
    using Cons.prems [unfolded reported_def, rule_format, of "Suc i"] that by simp
  then have "reported ?n wcs" by (simp add: reported_def add.assoc)
  moreover have "same wc (n_pending n ! slot32 (n_head n))" 
    using Cons.prems [unfolded reported_def, rule_format, of 0] by simp
  ultimately show ?case using Cons.IH [of ?n] by (simp add: drop_reported_def add.assoc)
qed

lemma consumer_diff:
  "n < 32 \<Longrightarrow> ((c + of_nat n AND 0xffffff) - (c AND 0xffffff)) AND 0xffffff = (of_nat n :: u32)"
proof -
  assume n: "n < 32"
  have "take_bit 24 (take_bit 24 (c + of_nat n) - take_bit 24 c) = take_bit 24 (of_nat n :: u32)"
    by (simp add: word_uint_eq_iff take_bit_eq_mod uint_mod uint_word_ariths mod_mod_cancel mod_simps)
  also have "\<dots> = of_nat n" using n by (simp add: take_bit_of_nat take_bit_nat_eq_self)
  finally show ?thesis by (simp add: mask_24)
qed

text \<open>
  The state of a queue between calls: what was reported and not yet consumed is what the kernel will
  report when it consumes those entries, and the process's table mirrors the kernel's as it will be
  then.
\<close>

definition ahead_of :: "kernel_cq \<Rightarrow> user_qp option list \<Rightarrow> cq_node \<Rightarrow> wc_out list \<Rightarrow> kernel_cq \<Rightarrow> bool" where
  "ahead_of k qps n kwcs k' \<longleftrightarrow> \<not> n_retired n \<and> n_count n = n_ahead n \<and> n_ahead n \<le> 31 \<and> length (n_pending n) = 32 \<and>
     mcdma_cq_consumer (kc_buffer k) = kc_consumer k AND 0xffffff \<and>
     kpolls (n_ahead n) k = Some (kwcs, k') \<and> mirrors (kc_qps k') qps \<and> reported n kwcs"

lemma acknowledge_ok:
  assumes "ahead_of k qps n kwcs k'"
  shows "acknowledge (Suc (Suc fuel)) kc_buffer kernel_poll (n, k) = Some (True, drop_reported (n_ahead n) n, k')"
proof (cases "n_ahead n = 0")
  case True
  have "drop_reported 0 n = n" by (simp add: drop_reported_def)
  then show ?thesis using assms True by (simp add: ahead_of_def)
next
  case False
  note a = assms [unfolded ahead_of_def]
  have len: "length kwcs = n_ahead n" using a kpolls_length by blast
  have p: "kernel_poll (n_ahead n) k = ((int (n_ahead n), kwcs), k')"
    using a apple_poll_kpolls [of "n_ahead n" k kwcs k' "[]"] by simp
  have c: "check_each kwcs n = drop_reported (n_ahead n) n" using a check_each_ok [of n kwcs] len by simp
  have m: "(mcdma_cq_consumer (kc_buffer k') - (kc_consumer k AND 0xffffff)) AND 0xffffff = of_nat (n_ahead n)"
    using kpolls_moves [of "n_ahead n" k kwcs k'] a consumer_diff [of "n_ahead n" "kc_consumer k"] by simp
  show ?thesis using False a by (simp add: p c m drop_reported_def Let_def)
qed

lemma ahead_of_acknowledged:
  assumes "ahead_of k qps n kwcs k'"
  shows "ahead_of k' qps (drop_reported (n_ahead n) n) [] k'"
  using assms kpolls_moves [of "n_ahead n" k kwcs k']
  by (simp add: ahead_of_def drop_reported_def reported_def)

subsection \<open>Reporting\<close>

text \<open>
  What is asked of the adapter for the next \<open>m\<close> entries from a state of the kernel and a table of
  the process that mirrors it: an entry it publishes completes a posted request of a queue pair
  known to the kernel, on this queue.
\<close>

fun honest :: "nat \<Rightarrow> kernel_cq \<Rightarrow> user_qp option list \<Rightarrow> bool" where
  "honest 0 k qps \<longleftrightarrow> True"
| "honest (Suc m) k qps \<longleftrightarrow>
     (owned (owner_at (kc_buffer k) (kc_consumer k)) (kc_consumer k) \<longrightarrow>
        (case kpolls 1 k of
           None \<Rightarrow> False
         | Some (_, k') \<Rightarrow> posted_by_user (next_entry k) qps \<and> honest m k' (snd (mcdma_user_decode (next_entry k) qps))))"

definition ring_live :: "mem \<Rightarrow> bool" where
  "ring_live b \<longleftrightarrow> get_le (mem_read b CQ_LIVE_OFFSET 4) = (CQ_LIVE_MAGIC :: u32)"

lemma entry_ahead:
  assumes "ahead_of k qps n kwcs k'" and "ring_live (kc_buffer k)"
  shows "mcdma_cq_entry (kc_buffer k) (mcdma_cq_consumer (kc_buffer k) + of_nat (n_ahead n)) =
    (if owned (owner_at (kc_buffer k') (kc_consumer k')) (kc_consumer k') then (1, Some (next_entry k')) else (0, None))"
proof -
  note a = assms(1) [unfolded ahead_of_def]
  note v = kpolls_moves [of "n_ahead n" k kwcs k']
  have c: "kc_consumer k' = kc_consumer k + of_nat (n_ahead n)" and b: "kc_buffer k' i = kc_buffer k i" if "i < 4096" for i
    using v a that by simp_all
  have s: "slot32 i * 64 + j < 4096" if "j < 64" for i j
    using that slot32_less [of i] by linarith
  have o: "owner_at (kc_buffer k') (kc_consumer k') = owner_at (kc_buffer k) (mcdma_cq_consumer (kc_buffer k) + of_nat (n_ahead n))"
    using a c [of 0] b s [of 63] by (simp add: owner_at_def ring_index)
  have "mem_read (kc_buffer k') (slot32 (kc_consumer k') * 64) 64 =
      mem_read (kc_buffer k) (slot32 (mcdma_cq_consumer (kc_buffer k) + of_nat (n_ahead n)) * 64) 64"
    using a c [of 0] b s by (intro nth_equalityI) (simp_all add: ring_index)
  then have e: "next_entry k' = mem_read (kc_buffer k) (slot32 (mcdma_cq_consumer (kc_buffer k) + of_nat (n_ahead n)) * 64) 64"
    by (simp add: next_entry_def)
  have "owned w (mcdma_cq_consumer (kc_buffer k) + of_nat (n_ahead n)) = owned w (kc_consumer k')" for w
    using a c [of 0] by (simp add: ring_index)
  with assms(2) show ?thesis by (simp add: mcdma_cq_entry_def mcdma_cq_entry_ready_def Let_def ring_live_def o e)
qed

lemma kpolls_1:
  assumes "kpolls 1 k = Some (ws, k')"
  obtains result hw work client user where "hca_poll k = ((result, hw, work, client, user), k')"
    "result \<noteq> Empty" "result \<noteq> Unsupported" "ws = [kernel_wc result hw work user]"
  using assms by (auto split: prod.splits if_splits)

definition add_report :: "user_completion \<Rightarrow> cq_node \<Rightarrow> cq_node" where
  "add_report c n = n\<lparr>n_pending := (n_pending n)[slot32 (n_head n + of_nat (n_count n)) := c],
     n_count := n_count n + 1, n_ahead := n_ahead n + 1\<rparr>"

lemma slot32_distinct:
  assumes "i < j" "j < 32"
  shows "slot32 (h + of_nat i) \<noteq> slot32 (h + of_nat j)"
proof -
  have "slot32 (h + of_nat i) = (unat h + i) mod 32" if "i < 32" for i
    using that by (simp add: slot32_def and_31 unat_word_ariths unat_of_nat mod_mod_cancel)
  then have e: "slot32 (h + of_nat i) = (unat h + i) mod 32" "slot32 (h + of_nat j) = (unat h + j) mod 32"
    using assms by simp_all
  have "(unat h + i) mod 32 \<noteq> (unat h + j) mod 32"
  proof
    assume "(unat h + i) mod 32 = (unat h + j) mod 32"
    then have "32 dvd (unat h + j) - (unat h + i)" using assms(1) by (metis mod_eq_dvd_iff_nat add_le_cancel_left less_imp_le)
    then show False using assms by (auto dest!: dvd_imp_le)
  qed
  then show ?thesis using e by simp
qed

lemma ahead_of_report:
  assumes "ahead_of k qps n kwcs k1" and "n_ahead n < 31" and "kpolls 1 k1 = Some ([w], k2)"
    and "same w c" and "mirrors (kc_qps k2) qps2"
  shows "ahead_of k qps2 (add_report c n) (kwcs @ [w]) k2"
proof -
  note a = assms(1) [unfolded ahead_of_def]
  have len: "length kwcs = n_ahead n" using a kpolls_length by blast
  let ?s = "\<lambda>i. slot32 (n_head n + of_nat i)"
  have "same ((kwcs @ [w]) ! i) ((n_pending n)[?s (n_ahead n) := c] ! ?s i)" if "i < Suc (n_ahead n)" for i
  proof (cases "i = n_ahead n")
    case True
    then show ?thesis using a len assms(4) by (simp add: nth_append)
  next
    case False
    then have "i < n_ahead n" using that by simp
    then have "?s i \<noteq> ?s (n_ahead n)" using slot32_distinct [of i "n_ahead n" "n_head n"] assms(2) by simp
    then show ?thesis using a len \<open>i < n_ahead n\<close> by (simp add: nth_append reported_def)
  qed
  then have "reported (add_report c n) (kwcs @ [w])" using a len by (simp add: reported_def add_report_def)
  then show ?thesis using a assms(2,5) kpolls_snoc [OF _ assms(3), of "n_ahead n" k kwcs]
    by (simp add: ahead_of_def add_report_def del: kpolls.simps)
qed

lemma report_ok:
  assumes "ahead_of k qps n kwcs k1" and "ring_live (kc_buffer k)" and "honest m k1 qps"
    and "report m (kc_buffer k) (mcdma_cq_consumer (kc_buffer k)) qps n = (wcs, qps', n')"
  shows "\<exists>cs more k2. wcs = map publish_wc cs \<and> list_all2 same more cs \<and> ahead_of k qps' n' (kwcs @ more) k2 \<and>
    n_ahead n' = n_ahead n + length cs \<and> n_empty n' = n_empty n \<and>
    (wcs = [] \<and> m \<noteq> 0 \<and> n_ahead n < 31 \<longrightarrow> n' = n \<and> qps' = qps \<and> \<not> owned (owner_at (kc_buffer k1) (kc_consumer k1)) (kc_consumer k1))"
  using assms
proof (induction m arbitrary: qps n kwcs k1 wcs)
  case 0
  then show ?case by (intro exI [of _ "[]"] exI [of _ k1]) simp
next
  case (Suc m)
  let ?o = "owned (owner_at (kc_buffer k1) (kc_consumer k1)) (kc_consumer k1)"
  note e = entry_ahead [OF Suc.prems(1,2)]
  show ?case
  proof (cases "n_ahead n < 31 \<and> ?o")
    case False
    then have "wcs = [] \<and> qps' = qps \<and> n' = n" using Suc.prems(4) e by (auto split: if_splits)
    with False Suc.prems(1) show ?thesis by (intro exI [of _ "[]"] exI [of _ k1]) auto
  next
    case True
    then obtain ws k2 where k2: "kpolls 1 k1 = Some (ws, k2)" and pu: "posted_by_user (next_entry k1) qps"
      and h: "honest m k2 (snd (mcdma_user_decode (next_entry k1) qps))"
      using Suc.prems(3) by (auto split: option.splits)
    obtain result hw work client user where hp: "hca_poll k1 = ((result, hw, work, client, user), k2)"
      and r: "result \<noteq> Empty" "result \<noteq> Unsupported" and ws: "ws = [kernel_wc result hw work user]"
      using kpolls_1 [OF k2] by blast
    have "mirrors (kc_qps k1) qps" using Suc.prems(1) by (simp add: ahead_of_def)
    from poll_agrees [OF hp r this pu] obtain c qps2 where d: "mcdma_user_decode (next_entry k1) qps = (Some c, qps2)"
      and s: "same (kernel_wc result hw work user) c" and mm: "mirrors (kc_qps k2) qps2" by blast
    have a: "ahead_of k qps2 (add_report c n) (kwcs @ ws) k2"
      using ahead_of_report [OF Suc.prems(1) _ k2 [unfolded ws] s mm] True by (simp add: ws)
    obtain wcs1 where rep: "report m (kc_buffer k) (mcdma_cq_consumer (kc_buffer k)) qps2 (add_report c n) = (wcs1, qps', n')"
      and wcs: "wcs = publish_wc c # wcs1"
      using Suc.prems(4) True by (auto simp: e d add_report_def split: prod.splits)
    from Suc.IH [OF a Suc.prems(2) _ rep] h d obtain cs more k3 where
      x: "wcs1 = map publish_wc cs" "list_all2 same more cs" "ahead_of k qps' n' ((kwcs @ ws) @ more) k3"
        "n_ahead n' = n_ahead (add_report c n) + length cs" "n_empty n' = n_empty (add_report c n)"
      by auto
    show ?thesis
      by (intro exI [of _ "c # cs"] exI [of _ "ws @ more"] exI [of _ k3])
        (use x s wcs ws in \<open>simp_all add: add_report_def\<close>)
  qed
qed

lemma ahead_of_empty [simp]: "ahead_of k qps (n\<lparr>n_empty := e\<rparr>) kwcs k' = ahead_of k qps n kwcs k'"
  by (simp add: ahead_of_def reported_def)

lemma fresh_empty:
  assumes "ahead_of k qps n [] k" and "kc_live k" "kc_ready k" "\<not> kc_quarantined k"
    and "m = 0 \<or> \<not> owned (owner_at (kc_buffer k) (kc_consumer k)) (kc_consumer k)"
  shows "kernel_fresh kc_buffer kernel_poll m qps n k = ((0, []), qps, n, k)"
proof -
  have "kernel_poll m k = ((0, []), k)" using assms(2-5) by (cases m) (auto simp: hca_poll_def)
  then show ?thesis using assms(1) by (simp add: kernel_fresh_def ahead_of_def)
qed

subsection \<open>A queue with one completion\<close>

definition sample_ring :: mem where
  "sample_ring = mcdma_cq_set_live (\<lambda>_. 0) True"

definition sample_kernel :: kernel_cq where
  "sample_kernel = \<lparr>kc_live = True, kc_ready = True, kc_quarantined = False, kc_buffer = sample_ring, kc_consumer = 0,
     kc_outstanding = 1,
     kc_qps = [0 \<mapsto> \<lparr>kq_sends = snd (work_post new_work_queue 0 7 8 64 [5]), kq_receives = new_work_queue, kq_send_here = True,
       kq_recv_here = True, kq_user_posted = False, kq_client = True\<rparr>]\<rparr>"

definition sample_qps :: "user_qp option list" where
  "sample_qps =
     (let q = mcdma_user_queue_reset \<lparr>uq_records = [], uq_producer = 0, uq_pending = 0\<rparr>
      in [Some \<lparr>q_num = 0, q_sends = snd (mcdma_user_queue_post q 7 8 64), q_receives = q, q_user_posted = False, q_destroyed = False\<rparr>])"

definition sample_node :: cq_node where
  "sample_node = \<lparr>n_retired = False, n_ahead = 0, n_pending = replicate 32 (user_wc (replicate 64 0) no_record False),
     n_head = 0, n_count = 0, n_empty = 0\<rparr>"

lemma sample_ring_zero: "i < 8192 \<Longrightarrow> sample_ring i = 0"
  by (simp add: sample_ring_def mcdma_cq_set_live_def mem_write_outside)

lemma sample_ring_live: "ring_live sample_ring"
  using mem_read_write_same [of "\<lambda>_. 0" CQ_LIVE_OFFSET "put_le 4 (CQ_LIVE_MAGIC :: u32)"]
  by (simp add: ring_live_def sample_ring_def mcdma_cq_set_live_def)

lemma sample_entry: "next_entry sample_kernel = replicate 64 0"
  by (rule nth_equalityI) (simp_all add: next_entry_def sample_kernel_def slot32_def sample_ring_zero)

lemma sample_owned: "owned (owner_at (kc_buffer sample_kernel) (kc_consumer sample_kernel)) (kc_consumer sample_kernel)"
  by (simp add: sample_kernel_def owned_def owner_at_def slot32_def sample_ring_zero)

lemma get_le_zero: "get_le (replicate n 0) = 0"
  by (induction n) simp_all

lemma zero_fields: "be32 (replicate 64 0) 56 = 0" "be32 (replicate 64 0) 44 = 0" "cqe_counter (replicate 64 0) = 0"
  "cqe_opcode (replicate 64 0) = 0"
  by (simp_all add: be32_def cqe_counter_def cqe_opcode_def get_be_def get_le_zero)

lemma sample_entry_fields:
  "kc_live sample_kernel" "kc_ready sample_kernel" "\<not> kc_quarantined sample_kernel" "kc_consumer sample_kernel = 0"
  "kc_outstanding sample_kernel = 1" "kc_buffer sample_kernel = sample_ring"
  "kc_qps sample_kernel = [0 \<mapsto> \<lparr>kq_sends = snd (work_post new_work_queue 0 7 8 64 [5]), kq_receives = new_work_queue,
     kq_send_here = True, kq_recv_here = True, kq_user_posted = False, kq_client = True\<rparr>]"
  by (simp_all add: sample_kernel_def)

lemma sample_work: "\<exists>r rest. work_complete (snd (work_post new_work_queue 0 7 8 64 [5])) 0 = (Some r, rest)"
  by (simp add: work_complete_def work_post_def can_post_def new_work_queue_def no_work_def slot16_def slot32_def Let_def)

lemma sample_polled: "kpolls 1 sample_kernel \<noteq> None"
proof -
  have d: "decode_cqe (next_entry sample_kernel) 0 5 =
      (Success, \<lparr>cp_qpn = 0, cp_bytes = 0, cp_counter = 0, cp_opcode = 0, cp_syndrome = 0, cp_vendor = 0,
        cp_immediate = le32 (next_entry sample_kernel) 40\<rparr>)"
    by (simp add: decode_cqe_def sample_entry zero_fields)
  obtain r rest where w: "work_complete (snd (work_post new_work_queue 0 7 8 64 [5])) 0 = (Some r, rest)"
    using sample_work by blast
  show ?thesis using sample_owned d w
    unfolding One_nat_def kpolls.simps hca_poll_def next_entry_def [symmetric]
    by (simp add: sample_entry_fields side_def is_send_def)
qed

lemma sample_mirrors: "mirrors (kc_qps sample_kernel) sample_qps"
proof -
  let ?q = "mcdma_user_queue_reset \<lparr>uq_records = [], uq_producer = 0, uq_pending = 0\<rparr>"
  let ?w = "snd (work_post new_work_queue 0 7 8 64 [5])" and ?u = "snd (mcdma_user_queue_post ?q 7 8 64)"
  have "kernel_post (7, 8, 64, [5]) \<lparr>ks_queue = new_work_queue, ks_producer = 0\<rparr> = Some \<lparr>ks_queue = ?w, ks_producer = 1\<rparr>"
    by (simp add: work_post_def can_post_def new_work_queue_def no_work_def slot32_def Let_def)
  moreover have "kernel_slots \<lparr>ks_queue = q, ks_producer = 0\<rparr> = kernel_slots \<lparr>ks_queue = q, ks_producer = 1\<rparr>"
    "kernel_works \<lparr>ks_queue = q, ks_producer = 0\<rparr> = kernel_works \<lparr>ks_queue = q, ks_producer = 1\<rparr>" for q
    by (simp_all add: fun_eq_iff kernel_slots_def kernel_works_def)
  moreover note kernel.post_Some [OF new_works(2) calculation(1)]
  ultimately have k: "kernel_ok \<lparr>ks_queue = ?w, ks_producer = 0\<rparr>" "kworks ?w = [0 \<mapsto> (7, 8, 64, [5])]"
    by (simp_all add: new_works kworks_def kernel_ok_def)
  have "user_post (7, 8, 64) ?q = Some ?u"
    by (simp add: user_post_def mcdma_user_queue_post_def mcdma_user_queue_can_post_def mcdma_user_queue_reset_def
        no_record_def slot32_def Let_def)
  from mirror.post_Some [OF reset_works(2) this]
  have u: "user_ok ?u" "user_works ?u = [0 \<mapsto> (7, 8, 64)]" by (simp_all add: reset_works)
  have "queue_mirrors ?w ?u" using k u by (auto simp: queue_mirrors_def fun_eq_iff)
  moreover have "queue_mirrors new_work_queue ?q"
    by (simp add: queue_mirrors_def new_works reset_works kworks_def comp_def)
  ultimately show ?thesis
    by (simp add: mirrors_def sample_entry_fields sample_qps_def qp_mirrors_def found_def Let_def)
qed

lemma sample_honest: "honest 1 sample_kernel sample_qps"
  using sample_polled by (auto simp: posted_by_user_def sample_qps_def found_def Let_def split: if_splits)

lemma sample_ahead: "ahead_of sample_kernel sample_qps sample_node [] sample_kernel"
proof -
  have "mem_read sample_ring 4096 4 = replicate 4 0"
    by (rule nth_equalityI) (simp_all add: sample_ring_zero)
  then have "mcdma_cq_consumer (kc_buffer sample_kernel) = 0"
    by (simp add: mcdma_cq_consumer_def sample_entry_fields(6) bswap32_def put_be_def put_le_zero get_le_zero)
  then show ?thesis using sample_mirrors by (simp add: ahead_of_def sample_node_def reported_def sample_entry_fields(4))
qed

subsection \<open>Properties\<close>

text \<open>
  What one poll comes to: it reports what was decoded and either leaves the kernel alone or has it
  consume everything reported so far.
\<close>

lemma user_poll_outcome:
  assumes rep: "report m (kc_buffer k) (mcdma_cq_consumer (kc_buffer k)) qps n = (map publish_wc cs, qps', n1)"
    and nr: "\<not> n_retired n" "\<not> n_retired n1"
    and ack: "acknowledge (Suc (Suc fuel)) kc_buffer kernel_poll (n1\<lparr>n_empty := 0\<rparr>, k) = Some (True, n2, k2)"
    and fresh: "cs = [] \<Longrightarrow> n_ahead n1 = 0 \<Longrightarrow>
      kernel_fresh kc_buffer kernel_poll m qps' (n1\<lparr>n_empty := 0\<rparr>) k = ((0, []), qps', n1\<lparr>n_empty := 0\<rparr>, k)"
  shows "(\<exists>x. user_poll (Suc (Suc fuel)) kc_buffer kernel_poll m qps n k =
      Some ((int (length cs), map publish_wc cs), qps', n1\<lparr>n_empty := x\<rparr>, k)) \<or>
    user_poll (Suc (Suc fuel)) kc_buffer kernel_poll m qps n k = Some ((int (length cs), map publish_wc cs), qps', n2, k2)"
proof (cases "cs = []")
  case False
  show ?thesis
  proof (cases "24 \<le> n_ahead n1")
    case True
    then show ?thesis using False nr ack by (intro disjI2) (simp add: user_poll_def rep del: acknowledge.simps)
  next
    case small: False
    then show ?thesis using False nr by (intro disjI1 exI [of _ 0]) (simp add: user_poll_def rep)
  qed
next
  case True
  consider "n_empty n1 + 1 < 256" | "256 \<le> n_empty n1 + 1" "n_ahead n1 \<noteq> 0" | "256 \<le> n_empty n1 + 1" "n_ahead n1 = 0"
    by linarith
  then show ?thesis
  proof cases
    case 1
    then show ?thesis using True nr by (intro disjI1 exI [of _ "n_empty n1 + 1"]) (simp add: user_poll_def rep)
  next
    case 2
    then show ?thesis using True nr ack by (intro disjI2) (simp add: user_poll_def rep del: acknowledge.simps)
  next
    case 3
    then show ?thesis using True nr fresh by (intro disjI1 exI [of _ 0]) (simp add: user_poll_def rep)
  qed
qed

text \<open>
  C32: completions reported from user space are the kernel's. Whenever the process has reported some
  entries ahead of the kernel correctly, and the adapter publishes only completions of posted
  requests, a poll returns, never retires the queue and reports completions that each pass the check
  against what the kernel itself reports for the same ring entries, in the same order; afterwards the
  same holds again, also where the poll let the kernel catch up.
\<close>

theorem reports_match_kernel:
  assumes "ahead_of k qps n kwcs k1" and "ring_live (kc_buffer k)" and "honest m k1 qps"
    and "kc_live k" "kc_ready k" "\<not> kc_quarantined k"
  shows "\<exists>cs more qps' n' k' k2 kwcs'.
    user_poll (Suc (Suc fuel)) kc_buffer kernel_poll m qps n k = Some ((int (length cs), map publish_wc cs), qps', n', k') \<and>
    list_all2 same more cs \<and> kpolls (n_ahead n + length cs) k = Some (kwcs @ more, k2) \<and> ahead_of k' qps' n' kwcs' k2"
proof -
  obtain wcs qps' n1 where rep: "report m (kc_buffer k) (mcdma_cq_consumer (kc_buffer k)) qps n = (wcs, qps', n1)"
    by (metis prod_cases3)
  from report_ok [OF assms(1-3) rep] obtain cs more k2 where
    r: "wcs = map publish_wc cs" "list_all2 same more cs" "ahead_of k qps' n1 (kwcs @ more) k2" "n_ahead n1 = n_ahead n + length cs"
    and e: "wcs = [] \<and> m \<noteq> 0 \<and> n_ahead n < 31 \<longrightarrow>
      n1 = n \<and> qps' = qps \<and> \<not> owned (owner_at (kc_buffer k1) (kc_consumer k1)) (kc_consumer k1)" by blast
  let ?n0 = "n1\<lparr>n_empty := 0\<rparr>"
  have nr: "\<not> n_retired n" "\<not> n_retired n1" using assms(1) r(3) by (simp_all add: ahead_of_def)
  have kp: "kpolls (n_ahead n + length cs) k = Some (kwcs @ more, k2)" using r(3,4) by (simp add: ahead_of_def)
  have a0: "ahead_of k qps' (n1\<lparr>n_empty := x\<rparr>) (kwcs @ more) k2" for x using r(3) by simp
  have fresh: "kernel_fresh kc_buffer kernel_poll m qps' ?n0 k = ((0, []), qps', ?n0, k)" if "cs = []" "n_ahead n1 = 0"
  proof -
    have z: "n_ahead n = 0" "kwcs = []" "k1 = k" using r(4) that assms(1) by (auto simp: ahead_of_def)
    have "m = 0 \<or> \<not> owned (owner_at (kc_buffer k) (kc_consumer k)) (kc_consumer k)" using e that r(1) z by auto
    moreover have "ahead_of k qps' ?n0 [] k" using r(2,3) that z by (auto simp: ahead_of_def reported_def)
    ultimately show ?thesis using fresh_empty assms(4-6) by blast
  qed
  note ack = acknowledge_ok [OF a0 [of 0], of fuel]
  from user_poll_outcome [OF rep [unfolded r(1)] nr _ fresh, of fuel "drop_reported (n_ahead n1) ?n0" k2] ack
  consider x where "user_poll (Suc (Suc fuel)) kc_buffer kernel_poll m qps n k =
      Some ((int (length cs), map publish_wc cs), qps', n1\<lparr>n_empty := x\<rparr>, k)"
    | "user_poll (Suc (Suc fuel)) kc_buffer kernel_poll m qps n k =
      Some ((int (length cs), map publish_wc cs), qps', drop_reported (n_ahead n1) ?n0, k2)" by auto
  then show ?thesis
  proof cases
    case (1 x)
    with r(2) kp a0 show ?thesis by blast
  next
    case 2
    have "ahead_of k2 qps' (drop_reported (n_ahead n1) ?n0) [] k2"
      using ahead_of_acknowledged [OF a0 [of 0]] by simp
    with 2 r(2) kp show ?thesis by blast
  qed
qed

theorem reports_match_kernel_witness:
  "\<exists>cs more qps' n' k' k2 kwcs'.
    user_poll 2 kc_buffer kernel_poll 1 sample_qps sample_node sample_kernel = Some ((int (length cs), map publish_wc cs), qps', n', k') \<and>
    list_all2 same more cs \<and> kpolls (length cs) sample_kernel = Some (more, k2) \<and> ahead_of k' qps' n' kwcs' k2"
  using reports_match_kernel [OF sample_ahead _ sample_honest, of 0] sample_ring_live sample_entry_fields(1-3,6)
  by (simp add: sample_node_def numeral_2_eq_2)

end
