(* ===== verification/Nic_Keys.thy ===== *)
theory Nic_Keys
  imports Nic_Wqe
begin

section \<open>Memory keys: page lists and the commands that install them\<close>

text \<open>
  \<open>core/cx5_verbs.cpp\<close>: the bit fields of a command (\<open>set_bits\<close>, \<open>get_bits\<close>), the
  choice of a page size for a pinned range and its list of device pages, the CREATE_MKEY commands
  and the commands that connect a queue pair. A buffer \<open>p + a\<close> of the source is the byte memory
  \<open>p\<close> and the offset \<open>a\<close>; sizes (\<open>size_t\<close>, and \<open>unsigned\<close> where the code keeps them
  below 64) are natural numbers, addresses and lengths are 64-bit words. A function that returns
  false (0) leaves its buffer as it was and is None here.
\<close>

subsection \<open>Bit fields\<close>

definition field_fits :: "nat \<Rightarrow> nat \<Rightarrow> nat \<Rightarrow> bool" where
  "field_fits bytes offset width \<longleftrightarrow> width \<noteq> 0 \<and> width \<le> 64 \<and> bytes \<le> 2305843009213693951 \<and>
     offset \<le> bytes * 8 \<and> width \<le> bytes * 8 - offset"

definition set_bit_at :: "nat \<Rightarrow> nat \<Rightarrow> u64 \<Rightarrow> nat \<Rightarrow> nat \<Rightarrow> mem \<Rightarrow> mem" where
  "set_bit_at offset width v a n p =
     (let pos = offset + n; m = push_bit (7 - pos mod 8) 1;
          i = a + pos div 8
      in p(i := (p i AND NOT m) OR (if drop_bit (width - 1 - n) v AND 1 \<noteq> 0 then m else 0)))"

definition set_bits :: "mem \<Rightarrow> nat \<Rightarrow> nat \<Rightarrow> nat \<Rightarrow> nat \<Rightarrow> u64 \<Rightarrow> mem option" where
  "set_bits p a bytes offset width v =
     (if \<not> field_fits bytes offset width \<or> (width < 64 \<and> drop_bit width v \<noteq> 0) then None
      else Some (fold (set_bit_at offset width v a) [0..<width] p))"

definition get_bits :: "mem \<Rightarrow> nat \<Rightarrow> nat \<Rightarrow> nat \<Rightarrow> nat \<Rightarrow> u64" where
  "get_bits p a bytes offset width =
     (if \<not> field_fits bytes offset width then 0
      else fold (\<lambda>n v. let pos = offset + n
                       in push_bit 1 v OR ucast (drop_bit (7 - pos mod 8) (p (a + pos div 8)) AND 1))
             [0..<width] 0)"

text \<open>The commands ignore the result of \<open>set_bits\<close>: a value that does not fit is not stored.\<close>

definition set_field :: "nat \<Rightarrow> nat \<Rightarrow> nat \<Rightarrow> nat \<Rightarrow> u64 \<Rightarrow> mem \<Rightarrow> mem" where
  "set_field a bytes offset width v p = (case set_bits p a bytes offset width v of None \<Rightarrow> p | Some p' \<Rightarrow> p')"

subsection \<open>Page lists\<close>

record segment =
  sg_va :: u64
  sg_iova :: u64
  sg_length :: u64

fun segments_loop :: "segment list \<Rightarrow> u64 \<Rightarrow> u64 option" where
  "segments_loop [] expect = Some expect"
| "segments_loop (s # ss) expect =
     (if sg_va s \<noteq> expect \<or> sg_length s = 0 \<or> sg_length s AND 4095 \<noteq> 0 \<or> sg_iova s = 0 \<or> sg_iova s AND 4095 \<noteq> 0 \<or>
         UINT64_MAX - sg_length s < sg_va s \<or> UINT64_MAX - sg_length s < sg_iova s then None
      else segments_loop ss (sg_va s + sg_length s))"

definition segments_valid :: "segment list \<Rightarrow> u64 \<Rightarrow> u64 \<Rightarrow> bool" where
  "segments_valid s start len \<longleftrightarrow> s \<noteq> [] \<and> len \<noteq> 0 \<and> start \<le> UINT64_MAX - len \<and>
     (case segments_loop s (start AND NOT 4095) of None \<Rightarrow> False | Some e \<Rightarrow> start + len \<le> e)"

definition page_mask :: "nat \<Rightarrow> u64" where
  "page_mask lg = push_bit lg 1 - 1"

definition fits_page :: "segment list \<Rightarrow> u64 \<Rightarrow> bool" where
  "fits_page s m \<longleftrightarrow> (\<forall>i \<in> set [0..<length s]. sg_va (s ! i) AND m = sg_iova (s ! i) AND m \<and> (i = 0 \<or> sg_va (s ! i) AND m = 0))"

definition page_entries :: "u64 \<Rightarrow> u64 \<Rightarrow> nat \<Rightarrow> u64" where
  "page_entries start len lg = drop_bit lg ((start AND page_mask lg) + len + page_mask lg)"

text \<open>The loop over page sizes; the source's \<open>break\<close>s end it with the best size so far.\<close>

fun choose_loop :: "nat list \<Rightarrow> segment list \<Rightarrow> u64 \<Rightarrow> u64 \<Rightarrow> u64 \<Rightarrow> nat \<Rightarrow> nat \<Rightarrow> nat" where
  "choose_loop [] s start len alias capacity best = best"
| "choose_loop (lg # lgs) s start len alias capacity best =
     (let m = page_mask lg in
      if (start XOR alias) AND m \<noteq> 0 then best
      else if \<not> fits_page s m then best
      else if UINT64_MAX - (start AND m) - m < len then best
      else choose_loop lgs s start len alias capacity
             (if unat (page_entries start len lg) \<le> capacity then lg else best))"

definition choose_log_page :: "segment list \<Rightarrow> u64 \<Rightarrow> u64 \<Rightarrow> u64 \<Rightarrow> nat \<Rightarrow> nat" where
  "choose_log_page s start len alias capacity =
     (if \<not> segments_valid s start len \<or> (start XOR alias) AND 4095 \<noteq> 0 then 0
      else choose_loop [12..<31] s start len alias capacity 0)"

text \<open>The inner \<open>while\<close>: the first segment from \<open>k\<close> on that ends past \<open>va\<close>, or the last one.\<close>

function seek_segment :: "segment list \<Rightarrow> u64 \<Rightarrow> nat \<Rightarrow> nat" where
  "seek_segment s va k =
     (if k + 1 < length s \<and> sg_va (s ! k) + sg_length (s ! k) \<le> va then seek_segment s va (k + 1) else k)"
  by auto
termination by (relation "measure (\<lambda>(s, va, k). length s - k)") auto

declare seek_segment.simps [simp del]

definition page_entry :: "segment \<Rightarrow> nat \<Rightarrow> u64 \<Rightarrow> nat \<Rightarrow> u64 option" where
  "page_entry g k va lg =
     (let m = page_mask lg; page = push_bit lg 1 in
      if va < sg_va g
      then (if k \<noteq> 0 \<or> page \<le> sg_va g - va \<or> sg_va g AND m \<noteq> sg_iova g AND m then None
            else Some (sg_iova g - (sg_va g - va)))
      else (if sg_length g \<le> va - sg_va g \<or> (sg_va g XOR sg_iova g) AND m \<noteq> 0 \<or> (k \<noteq> 0 \<and> sg_va g AND m \<noteq> 0) then None
            else Some (sg_iova g + (va - sg_va g))))"

fun page_loop :: "nat list \<Rightarrow> segment list \<Rightarrow> u64 \<Rightarrow> nat \<Rightarrow> nat \<Rightarrow> u64 list option" where
  "page_loop [] s base lg k = Some []"
| "page_loop (i # is) s base lg k =
     (let va = base + of_nat i * push_bit lg 1; k' = seek_segment s va k in
      case page_entry (s ! k') k' va lg of
        None \<Rightarrow> None
      | Some e \<Rightarrow> if e AND page_mask lg \<noteq> 0 then None
                  else map_option (Cons e) (page_loop is s base lg k'))"

definition page_list :: "segment list \<Rightarrow> u64 \<Rightarrow> u64 \<Rightarrow> nat \<Rightarrow> nat \<Rightarrow> u64 list option" where
  "page_list s start len lg capacity =
     (if lg < 12 \<or> 30 < lg \<or> \<not> segments_valid s start len then None
      else if UINT64_MAX - (start AND page_mask lg) - page_mask lg < len then None
      else let entries = page_entries start len lg in
           if entries = 0 \<or> capacity < unat entries then None
           else page_loop [0..<unat entries] s (start AND NOT (page_mask lg)) lg 0)"

subsection \<open>Commands\<close>

fun write_pages :: "u64 list \<Rightarrow> nat \<Rightarrow> mem \<Rightarrow> mem" where
  "write_pages [] a p = p"
| "write_pages (x # xs) a p = write_pages xs (a + 8) (write_be64 p a x)"

abbreviation (input) MAX_MKEY_PAGES :: nat where "MAX_MKEY_PAGES \<equiv> 990"

definition create_mkey :: "mem \<Rightarrow> nat \<Rightarrow> u32 \<Rightarrow> u8 \<Rightarrow> u64 \<Rightarrow> u64 \<Rightarrow> u64 list \<Rightarrow> mem option" where
  "create_mkey p capacity pd key base len pages =
     (let count = length pages in
      if key = 0 \<or> 0xffffff < pd \<or> count = 0 \<or> 512 < count \<or> capacity < 0x110 + count * 8 \<or> base AND 4095 \<noteq> 0 \<or>
         len = 0 \<or> of_nat count * 4096 < len \<or> UINT64_MAX - len < base then None
      else if \<exists>x \<in> set pages. x = 0 \<or> x AND 4095 \<noteq> 0 then None
      else let p1 = mem_write p 0 (replicate (0x110 + count * 8) 0);
               p2 = write_be32 p1 0 0x2000000;
               p3 = set_field 16 64 0x12 4 15 p2;
               p4 = set_field 16 64 0x16 2 1 p3;
               p5 = set_field 16 64 0x20 24 0xffffff p4;
               p6 = set_field 16 64 0x38 8 (ucast key) p5;
               p7 = set_field 16 64 0x68 24 (ucast pd) p6;
               p8 = set_field 16 64 0x80 64 base p7;
               p9 = set_field 16 64 0xc0 64 len p8;
               p10 = set_field 16 64 0x1a0 32 (of_nat ((count + 1) div 2)) p9;
               p11 = set_field 16 64 0x1db 5 12 p10;
               p12 = write_be32 p11 0x60 (of_nat ((count + 1) div 2))
           in Some (write_pages pages 0x110 p12))"

text \<open>The command and its size.\<close>

definition create_user_mkey ::
    "mem \<Rightarrow> nat \<Rightarrow> u32 \<Rightarrow> u8 \<Rightarrow> u64 \<Rightarrow> u64 \<Rightarrow> u64 list \<Rightarrow> u32 \<Rightarrow> nat \<Rightarrow> bool \<Rightarrow> (mem \<times> nat) option" where
  "create_user_mkey p capacity pd key base len pages access lg relaxed =
     (let count = length pages in
      if key = 0 \<or> 0xffffff < pd \<or> count = 0 \<or> MAX_MKEY_PAGES < count \<or> len = 0 \<or> lg < 12 \<or> 30 < lg \<or>
         access AND NOT 7 \<noteq> 0 \<or> (access AND 2 \<noteq> 0 \<and> access AND 1 = 0) \<or> UINT64_MAX - len < base then None
      else
        let page = push_bit lg 1 :: u64; m = page - 1; offset = base AND m in
        if UINT64_MAX - offset - m < len \<or> of_nat count * page - offset < len \<or>
           (len + offset + m) div page \<noteq> of_nat count then None
        else
          let padded = (count + 1) div 2 * 2; bytes = 0x110 + padded * 8 in
          if capacity < bytes then None
          else if \<exists>x \<in> set pages. x = 0 \<or> x AND m \<noteq> 0 then None
          else let p1 = mem_write p 0 (replicate bytes 0);
                   p2 = write_be32 p1 0 0x2000000;
                   p3 = set_field 16 64 0x12 1 (if access AND 2 \<noteq> 0 then 1 else 0) p2;
                   p4 = set_field 16 64 0x13 1 (if access AND 4 \<noteq> 0 then 1 else 0) p3;
                   p5 = set_field 16 64 0x14 1 (if access AND 1 \<noteq> 0 then 1 else 0) p4;
                   p6 = set_field 16 64 0x15 1 1 p5;
                   p7 = set_field 16 64 0x16 2 1 p6;
                   p8 = set_field 16 64 0x20 24 0xffffff p7;
                   p9 = set_field 16 64 0x38 8 (ucast key) p8;
                   p10 = set_field 16 64 0x68 24 (ucast pd) p9;
                   p11 = set_field 16 64 0x80 64 base p10;
                   p12 = set_field 16 64 0xc0 64 len p11;
                   p13 = set_field 16 64 0x1a0 32 (of_nat (padded div 2)) p12;
                   p14 = set_field 16 64 0x1da 6 (of_nat lg) p13;
                   p15 = (if relaxed then set_field 16 64 0x1d9 1 1 (set_field 16 64 0xd 1 1 p14) else p14);
                   p16 = write_be32 p15 0x60 (of_nat (padded div 2))
               in Some (write_pages pages 0x110 p16, bytes))"

record rc_connection =
  rc_qpn :: u32
  rc_pd :: u32
  rc_cq :: u32
  rc_remote_qpn :: u32
  rc_send_psn :: u32
  rc_receive_psn :: u32
  rc_doorbell :: u64
  rc_remote_gid :: "u8 list"
  rc_remote_mac :: "u8 list"
  rc_access :: u8
  rc_path_mtu :: u8
  rc_min_rnr_timer :: u8
  rc_retry_count :: u8
  rc_rnr_retry :: u8
  rc_timeout :: u8
  rc_hop_limit :: u8
  rc_log_ack_req_freq :: u8

definition encode_rc_transition :: "mem \<Rightarrow> nat \<Rightarrow> u16 \<Rightarrow> rc_connection \<Rightarrow> mem option" where
  "encode_rc_transition p capacity opcode c =
     (if capacity < 272 \<or> opcode < 0x502 \<or> 0x504 < opcode \<or>
         0xffffff < rc_qpn c \<or> 0xffffff < rc_pd c \<or> 0xffffff < rc_cq c \<or> 0xffffff < rc_remote_qpn c \<or>
         0xffffff < rc_send_psn c \<or> 0xffffff < rc_receive_psn c \<or> rc_doorbell c = 0 \<or> rc_doorbell c AND 7 \<noteq> 0 \<or>
         rc_access c AND NOT 6 \<noteq> 0 \<or> rc_path_mtu c < 1 \<or> 5 < rc_path_mtu c \<or> 31 < rc_min_rnr_timer c \<or>
         7 < rc_retry_count c \<or> 7 < rc_rnr_retry c \<or> 31 < rc_timeout c \<or> rc_hop_limit c = 0 \<or>
         15 < rc_log_ack_req_freq c then None
      else
        let p1 = mem_write p 0 (replicate 272 0);
            p2 = write_be32 p1 0 (push_bit 16 (ucast opcode));
            p3 = write_be32 p2 8 (rc_qpn c);
            p4 = set_field 24 232 0x13 2 3 p3;
            p5 = set_field 24 232 0x28 24 (ucast (rc_pd c)) p4;
            p6 = set_field 24 232 0x3e8 24 (ucast (rc_cq c)) p5;
            p7 = set_field 24 232 0x4e8 24 (ucast (rc_cq c)) p6;
            p8 = set_field 24 232 0x380 4 (ucast (rc_log_ack_req_freq c)) p7
        in Some
          (if opcode = 0x502 then
             let q1 = set_field 24 232 0x490 2 (ucast (drop_bit 1 (rc_access c))) p8;
                 q2 = set_field 24 232 (0xc0 + 0x128) 8 1 q1
             in set_field 24 232 0x500 64 (rc_doorbell c) q2
           else if opcode = 0x503 then
             let q1 = set_field 24 232 0x40 3 (ucast (rc_path_mtu c)) p8;
                 q2 = set_field 24 232 0x43 5 30 q1;
                 q3 = set_field 24 232 0xa8 24 (ucast (rc_remote_qpn c)) q2;
                 q4 = set_field 24 232 0x4a3 5 (ucast (rc_min_rnr_timer c)) q3;
                 q5 = set_field 24 232 0x4a8 24 (ucast (rc_receive_psn c)) q4;
                 q6 = set_field 48 44 0x58 8 (ucast (rc_hop_limit c)) q5;
                 q7 = set_field 48 44 0x110 16 (0xc000 OR ucast (rc_qpn c AND 0x3fff)) q6;
                 q8 = set_field 48 44 0x128 8 1 q7;
                 q9 = mem_write q8 64 (take 16 (rc_remote_gid c))
             in mem_write q9 86 (take 6 (rc_remote_mac c))
           else
             let q1 = set_field 24 232 0x38d 3 (ucast (rc_retry_count c)) p8;
                 q2 = set_field 24 232 0x390 3 (ucast (rc_rnr_retry c)) q1;
                 q3 = set_field 24 232 0x3c8 24 (ucast (rc_send_psn c)) q2
             in set_field 24 232 (0xc0 + 0x40) 5 (ucast (rc_timeout c)) q3))"

subsection \<open>Fields read back\<close>

text \<open>A command as a sequence of bits, most significant bit of each byte first.\<close>

definition wire_bit :: "mem \<Rightarrow> nat \<Rightarrow> bool" where
  "wire_bit p i = bit (p (i div 8)) (7 - i mod 8)"

lemma wire_bit_set:
  assumes "n < width"
  shows "wire_bit (set_bit_at offset width v a n p) i =
    (if i = 8 * a + offset + n then bit v (width - 1 - n) else wire_bit p i)"
proof -
  let ?pos = "offset + n"
  have one: "drop_bit k v AND 1 \<noteq> 0 \<longleftrightarrow> bit v k" for k
    by (simp add: and_one_eq bit_iff_odd_drop_bit mod_2_eq_odd)
  have e: "a + ?pos div 8 = (8 * a + ?pos) div 8" "?pos mod 8 = (8 * a + ?pos) mod 8" by simp_all
  show ?thesis
  proof (cases "i div 8 = a + ?pos div 8")
    case False
    then have "i \<noteq> 8 * a + ?pos" using e(1) by metis
    with False show ?thesis by (simp add: wire_bit_def set_bit_at_def Let_def ac_simps)
  next
    case True
    have "7 - i mod 8 = 7 - ?pos mod 8 \<longleftrightarrow> i mod 8 = ?pos mod 8"
      using mod_less_divisor [of 8 i] mod_less_divisor [of 8 ?pos] by linarith
    moreover have "i = 8 * a + ?pos \<longleftrightarrow> i mod 8 = ?pos mod 8"
      using True e mult_div_mod_eq [of 8 i] mult_div_mod_eq [of 8 "8 * a + ?pos"] by (metis (lifting))
    moreover have "7 - i mod 8 < 8" by simp
    ultimately show ?thesis using True
      by (auto simp: wire_bit_def set_bit_at_def Let_def one bit_simps add.assoc)
  qed
qed

lemma wire_bit_fold:
  "k \<le> width \<Longrightarrow> wire_bit (fold (set_bit_at offset width v a) [0..<k] p) i =
    (if 8 * a + offset \<le> i \<and> i < 8 * a + offset + k then bit v (width - 1 - (i - (8 * a + offset))) else wire_bit p i)"
  by (induction k) (auto simp: wire_bit_set)

lemma unat_drop_bit: "unat (drop_bit n v) = unat (v :: 'a :: len word) div 2 ^ n"
  by (simp only: unsigned_drop_bit_eq) (simp add: drop_bit_eq_div take_bit_nat_eq_self)

lemma drop_zero_below: "width < 64 \<and> drop_bit width v \<noteq> 0 \<longleftrightarrow> \<not> unat v < 2 ^ width" if "width \<le> 64" for v :: u64
proof (cases "width = 64")
  case True
  then show ?thesis using unat_lt_64 [of v] by simp
next
  case False
  with that have "drop_bit width v = 0 \<longleftrightarrow> unat (drop_bit width v) = 0" by (simp add: unat_eq_0)
  also have "\<dots> \<longleftrightarrow> unat v div 2 ^ width = 0" by (simp only: unat_drop_bit)
  finally show ?thesis using False that by (simp add: div_eq_0_iff)
qed

lemma wire_bit_field:
  assumes "field_fits bytes offset width" and "unat v < 2 ^ width"
  shows "wire_bit (set_field a bytes offset width v p) i =
    (if 8 * a + offset \<le> i \<and> i < 8 * a + offset + width then bit v (width - 1 - (i - (8 * a + offset))) else wire_bit p i)"
proof -
  have "set_bits p a bytes offset width v = Some (fold (set_bit_at offset width v a) [0..<width] p)"
    using assms drop_zero_below [of width v] by (simp add: set_bits_def field_fits_def)
  then show ?thesis by (simp add: set_field_def wire_bit_fold)
qed

lemma wire_bit_outside:
  assumes "i < 8 * a + offset \<or> 8 * a + offset + width \<le> i"
  shows "wire_bit (set_field a bytes offset width v p) i = wire_bit p i"
  using assms by (auto simp: set_field_def set_bits_def wire_bit_fold)

definition get_step :: "mem \<Rightarrow> nat \<Rightarrow> nat \<Rightarrow> nat \<Rightarrow> u64 \<Rightarrow> u64" where
  "get_step p a offset n v =
     (let pos = offset + n in push_bit 1 v OR ucast (drop_bit (7 - pos mod 8) (p (a + pos div 8)) AND 1))"

lemma bit_get_step:
  "bit (get_step p a offset n v) k \<longleftrightarrow> (if k = 0 then wire_bit p (8 * a + offset + n) else k < 64 \<and> bit v (k - 1))"
proof -
  have one: "bit (ucast (drop_bit m x AND 1) :: u64) 0 = bit x m" "\<not> bit (ucast (drop_bit m x AND 1) :: u64) (Suc j)"
    for m j and x :: u8 by (simp_all add: bit_simps)
  have "wire_bit p (8 * a + offset + n) = bit (p (a + (offset + n) div 8)) (7 - (offset + n) mod 8)"
    using div_mult_self4 [of 8 a "offset + n"] mod_mult_self4 [of 8 a "offset + n"] by (simp add: wire_bit_def add.assoc)
  then show ?thesis unfolding get_step_def Let_def bit_or_iff bit_push_bit_iff by (cases k) (auto simp only: one, simp_all)
qed

lemma bit_get_fold:
  "w \<le> 64 \<Longrightarrow> bit (fold (get_step p a offset) [0..<w] 0) k \<longleftrightarrow> k < w \<and> wire_bit p (8 * a + offset + w - 1 - k)"
proof (induction w arbitrary: k)
  case (Suc w)
  have "fold (get_step p a offset) [0..<Suc w] 0 = get_step p a offset w (fold (get_step p a offset) [0..<w] 0)" by simp
  with Suc.prems Suc.IH [of "k - 1"] show ?case by (cases k) (auto simp: bit_get_step)
qed simp

lemma bit_get_bits:
  assumes "field_fits bytes offset width"
  shows "bit (get_bits p a bytes offset width) k \<longleftrightarrow> k < width \<and> wire_bit p (8 * a + offset + width - 1 - k)"
proof -
  have "get_bits p a bytes offset width = fold (get_step p a offset) [0..<width] 0"
    using assms by (simp add: get_bits_def get_step_def [abs_def])
  with assms show ?thesis by (simp add: bit_get_fold field_fits_def)
qed

named_theorems field_rules \<open>fields of a command read back\<close>

lemma get_set_same [field_rules]:
  assumes "field_fits bytes offset width" and "unat v < 2 ^ width"
  shows "get_bits (set_field a bytes offset width v p) a bytes offset width = v"
proof (rule bit_word_eqI)
  fix k assume "k < LENGTH(64)"
  have w: "width \<le> 64" "width \<noteq> 0" using assms(1) by (simp_all add: field_fits_def)
  have "\<not> bit v k" if "width \<le> k"
  proof -
    have "v = take_bit width v" using assms(2) by (simp add: word_unat_eq_iff unsigned_take_bit_eq take_bit_nat_eq_self)
    with that show ?thesis by (metis bit_take_bit_iff not_le)
  qed
  moreover have "width - Suc (offset + 8 * a + width - Suc k - (offset + 8 * a)) = k" if "k < width"
    using that by simp
  ultimately show "bit (get_bits (set_field a bytes offset width v p) a bytes offset width) k = bit v k"
    using w by (cases "k < width") (auto simp: bit_get_bits [OF assms(1)] wire_bit_field [OF assms] ac_simps)
qed

lemma get_bits_cong:
  assumes "\<And>i. 8 * a + offset \<le> i \<Longrightarrow> i < 8 * a + offset + width \<Longrightarrow> wire_bit p i = wire_bit q i"
  shows "get_bits p a bytes offset width = get_bits q a bytes offset width"
proof (cases "field_fits bytes offset width")
  case True
  show ?thesis by (rule bit_word_eqI) (use assms in \<open>auto simp: bit_get_bits [OF True]\<close>)
qed (simp add: get_bits_def)

lemma get_set_other [field_rules]:
  assumes "8 * a' + offset' + width' \<le> 8 * a + offset \<or> 8 * a + offset + width \<le> 8 * a' + offset'"
  shows "get_bits (set_field a bytes offset width v p) a' bytes' offset' width' = get_bits p a' bytes' offset' width'"
  using assms by (intro get_bits_cong wire_bit_outside) auto

lemma get_write_other [field_rules]:
  assumes "8 * a' + offset' + width' \<le> 8 * a \<or> 8 * (a + length bs) \<le> 8 * a' + offset'"
  shows "get_bits (mem_write p a bs) a' bytes' offset' width' = get_bits p a' bytes' offset' width'"
proof (rule get_bits_cong)
  fix i assume i: "8 * a' + offset' \<le> i" "i < 8 * a' + offset' + width'"
  then have "i < 8 * a \<or> 8 * (a + length bs) \<le> i" using assms by linarith
  then have "i div 8 < a \<or> a + length bs \<le> i div 8" by (auto simp: less_mult_imp_div_less ac_simps div_le_mono [where k = 8, of "8 * (a + length bs)" i, simplified])
  then show "wire_bit (mem_write p a bs) i = wire_bit p i" by (auto simp: wire_bit_def mem_write_outside)
qed

lemma write_pages_eq: "write_pages xs a p = mem_write p a (concat (map (put_be 8) xs))"
  by (induction xs arbitrary: a p) (simp_all add: write_be64_eq mem_write_append)

subsection \<open>Page lists translate\<close>

lemma page_mask_eq: "lg < 64 \<Longrightarrow> page_mask lg = mask lg"
  by (simp add: page_mask_def mask_eq_exp_minus_1)

lemma unat_page: "lg < 64 \<Longrightarrow> unat (push_bit lg 1 :: u64) = 2 ^ lg"
  by (simp only: unsigned_push_bit_eq) (simp add: take_bit_nat_eq_self)

lemma unat_and_mask: "lg < 64 \<Longrightarrow> unat (x AND page_mask lg) = unat x mod 2 ^ lg"
  by (simp add: page_mask_eq flip: take_bit_eq_mask take_bit_eq_mod) (simp add: unsigned_take_bit_eq)

lemma unat_page_mask: "lg < 64 \<Longrightarrow> unat (page_mask lg) = 2 ^ lg - 1"
  using unat_sub_le [of 1 "push_bit lg 1 :: u64"] by (simp add: page_mask_def word_le_nat_alt unat_page del: push_bit_of_1)

lemma and_mask_eq_iff: "lg < 64 \<Longrightarrow> x AND page_mask lg = y AND page_mask lg \<longleftrightarrow> unat x mod 2 ^ lg = unat y mod 2 ^ lg"
  by (simp add: word_unat_eq_iff unat_and_mask)

lemma and_mask_0_iff: "lg < 64 \<Longrightarrow> x AND page_mask lg = 0 \<longleftrightarrow> unat x mod 2 ^ lg = 0"
  by (simp add: word_unat_eq_iff unat_and_mask)

lemma xor_mask_0_iff: "(x XOR y) AND m = 0 \<longleftrightarrow> x AND m = y AND (m :: u64)"
  by (auto simp: bit_eq_iff bit_simps)

lemma unat_and_not_mask:
  assumes "lg < 64"
  shows "unat (x AND NOT (page_mask lg)) = unat x - unat x mod 2 ^ lg"
proof -
  have d: "(x AND NOT (page_mask lg)) AND (x AND page_mask lg) = 0" by (auto simp: bit_eq_iff bit_simps)
  have "x = (x AND NOT (page_mask lg)) + (x AND page_mask lg)"
    using disjunctive_add_eq_or [OF d] by (auto simp: bit_eq_iff bit_simps)
  then have "x AND NOT (page_mask lg) = x - (x AND page_mask lg)" by (simp add: algebra_simps)
  moreover have "x AND page_mask lg \<le> x" using assms by (simp add: word_le_nat_alt unat_and_mask)
  ultimately show ?thesis using assms by (simp add: unat_sub_le unat_and_mask)
qed

abbreviation (input) "va_of g \<equiv> unat (sg_va g)"
abbreviation (input) "iova_of g \<equiv> unat (sg_iova g)"
abbreviation (input) "end_of g \<equiv> unat (sg_va g) + unat (sg_length g)"

lemma unat_below_max: "unat (UINT64_MAX - l) = 18446744073709551615 - unat l"
  by (subst unat_sub_le) (simp_all add: unsigned_minus_1_eq_mask mask_eq_exp_minus_1)

lemma segments_loop_chain:
  assumes "segments_loop s e = Some e'"
  shows "(\<forall>g \<in> set s. end_of g < 2 ^ 64 \<and> iova_of g + unat (sg_length g) < 2 ^ 64 \<and> sg_length g \<noteq> 0) \<and>
    (s \<noteq> [] \<longrightarrow> sg_va (s ! 0) = e \<and> unat e' = end_of (last s)) \<and>
    (\<forall>i. Suc i < length s \<longrightarrow> va_of (s ! Suc i) = end_of (s ! i))"
  using assms
proof (induction s arbitrary: e)
  case (Cons g gs)
  have no_wrap: "unat a + unat l < 2 ^ 64" if "\<not> UINT64_MAX - l < a" for a l :: u64
    using that unat_lt_64 [of l] by (simp add: word_less_nat_alt not_less unat_below_max)
  have g: "sg_va g = e" "sg_length g \<noteq> 0" "end_of g < 2 ^ 64" "iova_of g + unat (sg_length g) < 2 ^ 64"
    and r: "segments_loop gs (sg_va g + sg_length g) = Some e'"
    using Cons.prems no_wrap by (auto split: if_splits)
  have n: "unat (sg_va g + sg_length g) = end_of g" using g(3) by (simp add: unat_add_small)
  note IH = Cons.IH [OF r]
  have "va_of ((g # gs) ! Suc i) = end_of ((g # gs) ! i)" if "Suc i < length (g # gs)" for i
    using that IH n by (cases i) auto
  moreover have "unat e' = end_of (last (g # gs))" using IH r n by (cases gs) auto
  ultimately show ?case using g IH by auto
qed simp

lemma choose_loop_result:
  assumes "choose_loop lgs s start len alias capacity best = r" and "r \<noteq> best"
  shows "r \<in> set lgs \<and> (start XOR alias) AND page_mask r = 0 \<and> fits_page s (page_mask r) \<and>
    \<not> UINT64_MAX - (start AND page_mask r) - page_mask r < len \<and> unat (page_entries start len r) \<le> capacity"
  using assms
proof (induction lgs arbitrary: best)
  case (Cons lg lgs)
  let ?b = "if unat (page_entries start len lg) \<le> capacity then lg else best"
  from Cons.prems have c: "(start XOR alias) AND page_mask lg = 0" "fits_page s (page_mask lg)"
    "\<not> UINT64_MAX - (start AND page_mask lg) - page_mask lg < len"
    "choose_loop lgs s start len alias capacity ?b = r" by (auto simp: Let_def split: if_splits)
  show ?case
  proof (cases "r = ?b")
    case True
    with Cons.prems(2) c show ?thesis by (auto split: if_splits)
  next
    case False
    with Cons.IH [OF c(4)] show ?thesis by simp
  qed
qed simp

text \<open>What a range needs for its pages to be listed, and what \<open>choose_log_page\<close> checks.\<close>

definition listable :: "segment list \<Rightarrow> u64 \<Rightarrow> u64 \<Rightarrow> nat \<Rightarrow> bool" where
  "listable s start len lg \<longleftrightarrow> segments_valid s start len \<and> 12 \<le> lg \<and> lg \<le> 30 \<and> fits_page s (page_mask lg) \<and>
     \<not> UINT64_MAX - (start AND page_mask lg) - page_mask lg < len"

lemma choose_log_page_listable:
  assumes "choose_log_page s start len alias capacity = lg" and "lg \<noteq> 0"
  shows "listable s start len lg \<and> (start XOR alias) AND page_mask lg = 0 \<and> unat (page_entries start len lg) \<le> capacity"
  using assms choose_loop_result [of "[12..<31]" s start len "alias" capacity 0 lg]
  by (auto simp: choose_log_page_def listable_def split: if_splits)

lemma listable_chain:
  assumes "listable s start len lg"
  shows "s \<noteq> []" "\<And>g. g \<in> set s \<Longrightarrow> end_of g < 2 ^ 64 \<and> iova_of g + unat (sg_length g) < 2 ^ 64 \<and> sg_length g \<noteq> 0"
    "va_of (s ! 0) = unat start - unat start mod 4096" "unat start + unat len \<le> end_of (last s)"
    "\<And>i. Suc i < length s \<Longrightarrow> va_of (s ! Suc i) = end_of (s ! i)"
    "unat start + unat len < 2 ^ 64" "0 < unat len"
proof -
  from assms obtain e where e: "segments_loop s (start AND NOT 4095) = Some e" "start + len \<le> e"
    and v: "s \<noteq> []" "len \<noteq> 0" "start \<le> UINT64_MAX - len"
    by (auto simp: listable_def segments_valid_def split: option.splits)
  note c = segments_loop_chain [OF e(1)]
  show w: "unat start + unat len < 2 ^ 64" using v(3) unat_lt_64 [of len] by (simp add: word_le_nat_alt unat_below_max)
  then have "unat (start + len) = unat start + unat len" by (simp add: unat_add_small)
  with e(2) c v(1) show "unat start + unat len \<le> end_of (last s)" by (simp add: word_le_nat_alt)
  have "unat (start AND NOT 4095) = unat start - unat start mod 4096"
    using unat_and_not_mask [of 12 start] by (simp add: page_mask_def)
  then show "va_of (s ! 0) = unat start - unat start mod 4096" using c v(1) by auto
  show "s \<noteq> []" "0 < unat len" using v by (simp_all add: unat_gt_0)
  show "\<And>g. g \<in> set s \<Longrightarrow> end_of g < 2 ^ 64 \<and> iova_of g + unat (sg_length g) < 2 ^ 64 \<and> sg_length g \<noteq> 0"
    "\<And>i. Suc i < length s \<Longrightarrow> va_of (s ! Suc i) = end_of (s ! i)" using c by auto
qed

lemma segments_ordered:
  assumes "listable s start len lg" and "i < j" and "j < length s"
  shows "end_of (s ! i) \<le> va_of (s ! j)"
  using assms(2,3)
proof (induction j)
  case (Suc j)
  have "va_of (s ! Suc j) = end_of (s ! j)" using listable_chain(5) [OF assms(1)] Suc.prems by blast
  with Suc show ?case by (cases "i = j") auto
qed simp

lemma fits_page_nat:
  assumes "listable s start len lg" and "i < length s"
  shows "va_of (s ! i) mod 2 ^ lg = iova_of (s ! i) mod 2 ^ lg" "i \<noteq> 0 \<Longrightarrow> va_of (s ! i) mod 2 ^ lg = 0"
proof -
  from assms have lg: "lg < 64"
    and f: "sg_va (s ! i) AND page_mask lg = sg_iova (s ! i) AND page_mask lg \<and> (i = 0 \<or> sg_va (s ! i) AND page_mask lg = 0)"
    by (auto simp: listable_def fits_page_def)
  then show "va_of (s ! i) mod 2 ^ lg = iova_of (s ! i) mod 2 ^ lg" by (simp add: and_mask_eq_iff)
  show "i \<noteq> 0 \<Longrightarrow> va_of (s ! i) mod 2 ^ lg = 0" using f and_mask_0_iff [OF lg] by blast
qed

lemma seek_segment_result:
  assumes "k < length s"
  shows "k \<le> seek_segment s va k \<and> seek_segment s va k < length s \<and>
    (\<forall>j. k \<le> j \<and> j < seek_segment s va k \<longrightarrow> sg_va (s ! j) + sg_length (s ! j) \<le> va) \<and>
    (seek_segment s va k + 1 < length s \<longrightarrow> va < sg_va (s ! seek_segment s va k) + sg_length (s ! seek_segment s va k))"
  using assms
proof (induction s va k rule: seek_segment.induct)
  case (1 s va k)
  show ?case
  proof (cases "k + 1 < length s \<and> sg_va (s ! k) + sg_length (s ! k) \<le> va")
    case True
    have e: "seek_segment s va k = seek_segment s va (k + 1)" using True by (subst seek_segment.simps) simp
    have "sg_va (s ! j) + sg_length (s ! j) \<le> va" if "k \<le> j" "j < seek_segment s va (k + 1)" for j
      using 1(1) [OF True] True that by (cases "j = k") auto
    with 1(1) [OF True] True show ?thesis unfolding e by auto
  next
    case False
    then have "seek_segment s va k = k" by (subst seek_segment.simps) (simp only: if_False)
    with False 1(2) show ?thesis by auto
  qed
qed

text \<open>The page at \<open>v\<close>: its entry, and every address of it that is in a segment translated.\<close>

definition translates :: "segment list \<Rightarrow> nat \<Rightarrow> nat \<Rightarrow> nat \<Rightarrow> bool" where
  "translates s lg v e \<longleftrightarrow> (\<forall>g \<in> set s. \<forall>x. va_of g \<le> x \<longrightarrow> x < end_of g \<longrightarrow> v \<le> x \<longrightarrow> x < v + 2 ^ lg \<longrightarrow>
     e + (x - v) + va_of g = iova_of g + x)"

lemma multiple_between:
  assumes "v mod P = 0" and "w mod P = 0" and "v < w" and "w < v + (P :: nat)"
  shows False
proof -
  obtain a b where "v = P * a" "w = P * b" using assms(1,2) by (metis dvdE mod_0_imp_dvd)
  with assms(3,4) have "P * a < P * b" "P * b < P * (a + 1)" by simp_all
  then have "a < b" "b < a + 1" by (metis mult_less_cancel1)+
  then show False by simp
qed

lemma segment_at:
  assumes l: "listable s start len lg" and k: "k < length s" "\<forall>j < k. end_of (s ! j) \<le> v" "v < end_of (s ! k)"
    and v: "v mod 2 ^ lg = 0" and g: "g \<in> set s" "va_of g \<le> x" "x < end_of g" "v \<le> x" "x < v + 2 ^ lg"
  shows "g = s ! k"
proof -
  obtain j where j: "j < length s" "g = s ! j" using g(1) by (auto simp: in_set_conv_nth)
  have "\<not> j < k" using k(2) g j by fastforce
  moreover have "\<not> k < j"
  proof
    assume "k < j"
    then have "v < va_of g" using segments_ordered [OF l _ j(1), of k] k(3) j(2) by simp
    moreover have "va_of g mod 2 ^ lg = 0" using fits_page_nat(2) [OF l j(1)] j \<open>k < j\<close> by simp
    ultimately show False using multiple_between [OF v, of "va_of g"] g(2,5) by linarith
  qed
  ultimately show ?thesis using j(2) by simp
qed

lemma page_entry_below:
  assumes l: "listable s start len lg" and "va_of (s ! 0) - unat va < 2 ^ lg" and "unat va mod 2 ^ lg = 0"
    and "va < sg_va (s ! 0)"
  shows "page_entry (s ! 0) 0 va lg = Some (sg_iova (s ! 0) - (sg_va (s ! 0) - va)) \<and>
    unat (sg_iova (s ! 0) - (sg_va (s ! 0) - va)) + va_of (s ! 0) = iova_of (s ! 0) + unat va \<and>
    unat (sg_iova (s ! 0) - (sg_va (s ! 0) - va)) mod 2 ^ lg = 0"
proof -
  let ?g = "s ! 0"
  have lg: "lg < 64" and s0: "0 < length s" using l listable_chain(1) [OF l] by (auto simp: listable_def)
  have d: "unat (sg_va ?g - va) = va_of ?g - unat va" using assms(4) by (simp add: unat_sub_le)
  have lt: "unat va < va_of ?g" using assms(4) by (simp add: word_less_nat_alt)
  obtain q where q: "unat va = 2 ^ lg * q" using assms(3) by (auto simp: mod_eq_0_iff_dvd)
  have "va_of ?g mod 2 ^ lg = (va_of ?g - unat va) mod 2 ^ lg"
    using lt q by (metis le_add_diff_inverse less_imp_le mod_mult_self4)
  then have m: "iova_of ?g mod 2 ^ lg = va_of ?g - unat va" using fits_page_nat(1) [OF l s0] assms(2) by simp
  then have le: "va_of ?g - unat va \<le> iova_of ?g" by (metis mod_less_eq_dividend)
  then have u: "unat (sg_iova ?g - (sg_va ?g - va)) = iova_of ?g - (va_of ?g - unat va)"
    using d by (simp add: unat_sub_le word_le_nat_alt)
  have "page_entry ?g 0 va lg = Some (sg_iova ?g - (sg_va ?g - va))"
    using assms(2,4) d fits_page_nat(1) [OF l s0] lg
    by (simp add: page_entry_def Let_def word_le_nat_alt unat_page and_mask_eq_iff del: push_bit_of_1)
  moreover have "(iova_of ?g - iova_of ?g mod 2 ^ lg) mod 2 ^ lg = 0" by (simp add: minus_mod_eq_mult_div)
  ultimately show ?thesis using u le lt m by simp
qed

lemma page_entry_inside:
  assumes l: "listable s start len lg" and k: "k < length s" and "unat va mod 2 ^ lg = 0"
    and "sg_va (s ! k) \<le> va" and "unat va < end_of (s ! k)"
  shows "page_entry (s ! k) k va lg = Some (sg_iova (s ! k) + (va - sg_va (s ! k))) \<and>
    unat (sg_iova (s ! k) + (va - sg_va (s ! k))) + va_of (s ! k) = iova_of (s ! k) + unat va \<and>
    unat (sg_iova (s ! k) + (va - sg_va (s ! k))) mod 2 ^ lg = 0"
proof -
  let ?g = "s ! k"
  have lg: "lg < 64" using l by (auto simp: listable_def)
  have d: "unat (va - sg_va ?g) = unat va - va_of ?g" using assms(4) by (simp add: unat_sub_le)
  have le: "va_of ?g \<le> unat va" using assms(4) by (simp add: word_le_nat_alt)
  have "iova_of ?g + unat (sg_length ?g) < 2 ^ 64" using listable_chain(2) [OF l, of ?g] k by simp
  then have u: "unat (sg_iova ?g + (va - sg_va ?g)) = iova_of ?g + (unat va - va_of ?g)"
    using assms(5) d le by (simp add: unat_add_small)
  have "page_entry ?g k va lg = Some (sg_iova ?g + (va - sg_va ?g))"
  proof -
    have "\<not> sg_length ?g \<le> va - sg_va ?g" using assms(5) d le by (simp add: word_le_nat_alt)
    moreover have "k = 0 \<or> sg_va ?g AND page_mask lg = 0" using fits_page_nat(2) [OF l k] lg by (cases "k = 0") (simp_all add: and_mask_0_iff)
    moreover have "(sg_va ?g XOR sg_iova ?g) AND page_mask lg = 0"
      using fits_page_nat(1) [OF l k] lg by (simp add: xor_mask_0_iff and_mask_eq_iff)
    ultimately show ?thesis using assms(4) by (auto simp: page_entry_def Let_def)
  qed
  moreover have "(iova_of ?g + (unat va - va_of ?g)) mod 2 ^ lg = (va_of ?g + (unat va - va_of ?g)) mod 2 ^ lg"
    using fits_page_nat(1) [OF l k] by (metis mod_add_left_eq)
  ultimately show ?thesis using u le assms(3) by simp
qed

lemma page_entry_translates:
  assumes l: "listable s start len lg" and k: "k < length s" "\<forall>j < k. end_of (s ! j) \<le> unat va" "unat va < end_of (s ! k)"
    and v: "unat va mod 2 ^ lg = 0" "unat start - unat start mod 2 ^ lg \<le> unat va"
  shows "\<exists>e. page_entry (s ! k) k va lg = Some e \<and> unat e mod 2 ^ lg = 0 \<and> translates s lg (unat va) (unat e)"
proof -
  have "\<exists>e. page_entry (s ! k) k va lg = Some e \<and> unat e + va_of (s ! k) = iova_of (s ! k) + unat va \<and> unat e mod 2 ^ lg = 0"
  proof (cases "va < sg_va (s ! k)")
    case True
    then have lt: "unat va < va_of (s ! k)" by (simp add: word_less_nat_alt)
    have "k = 0"
    proof (rule ccontr)
      assume "k \<noteq> 0"
      then obtain j where j: "k = Suc j" by (cases k) auto
      then have "va_of (s ! k) = end_of (s ! j)" using listable_chain(5) [OF l, of j] k(1) by simp
      with k(2) j lt show False by fastforce
    qed
    moreover have "va_of (s ! 0) - unat va < 2 ^ lg"
    proof -
      have "unat start - (unat start - unat start mod 2 ^ lg) < 2 ^ lg" by (simp add: diff_diff_cancel)
      with v(2) listable_chain(3) [OF l] show ?thesis by linarith
    qed
    ultimately show ?thesis using page_entry_below [OF l _ v(1)] True by (metis (lifting))
  next
    case False
    then have "sg_va (s ! k) \<le> va" by (simp add: not_less)
    from page_entry_inside [OF l k(1) v(1) this k(3)] show ?thesis by (metis (lifting))
  qed
  then obtain e where e: "page_entry (s ! k) k va lg = Some e" "unat e + va_of (s ! k) = iova_of (s ! k) + unat va"
    "unat e mod 2 ^ lg = 0" by (elim exE conjE) (rule that)
  have "translates s lg (unat va) (unat e)"
    unfolding translates_def
  proof (intro ballI allI impI)
    fix g x assume g: "g \<in> set s" "va_of g \<le> x" "x < end_of g" "unat va \<le> x" "x < unat va + 2 ^ lg"
    have "g = s ! k" by (rule segment_at [OF l k v(1) g])
    with e(2) g(4) show "unat e + (x - unat va) + va_of g = iova_of g + x" by simp
  qed
  with e(1,3) show ?thesis by (intro exI conjI)
qed

lemma page_address:
  assumes "lg < 64" and "unat base + i * 2 ^ lg < 2 ^ 64"
  shows "unat (base + of_nat i * push_bit lg 1 :: u64) = unat base + i * 2 ^ lg"
proof -
  have "push_bit lg 1 = (of_nat (2 ^ lg) :: u64)" by simp
  then have "base + of_nat i * push_bit lg 1 = (of_nat (unat base + i * 2 ^ lg) :: u64)"
    by (simp only: of_nat_add of_nat_mult word_unat_eq_iff) simp
  with assms(2) show ?thesis by (simp only: unat_of_nat) simp
qed

lemma page_loop_lists:
  assumes l: "listable s start len lg" and base: "unat base = unat start - unat start mod 2 ^ lg"
    and within: "\<And>i. i < n \<Longrightarrow> unat base + i * 2 ^ lg < unat start + unat len"
    and "k < length s" and "\<forall>j < k. end_of (s ! j) \<le> unat base + i * 2 ^ lg" and "i \<le> n"
  shows "\<exists>es. page_loop [i..<n] s base lg k = Some es \<and> length es = n - i \<and>
    (\<forall>j < n - i. unat (es ! j) mod 2 ^ lg = 0 \<and> translates s lg (unat base + (i + j) * 2 ^ lg) (unat (es ! j)))"
  using assms(4-6)
proof (induction "n - i" arbitrary: i k)
  case (Suc d)
  have lg: "lg < 64" using l by (simp add: listable_def)
  let ?va = "base + of_nat i * push_bit lg 1 :: u64"
  let ?k = "seek_segment s ?va k"
  have i: "i < n" "d = n - Suc i" using Suc.hyps(2) by auto
  have va: "unat ?va = unat base + i * 2 ^ lg"
    using page_address [OF lg] within [OF i(1)] listable_chain(6) [OF l] by simp
  have sum: "unat (sg_va (s ! j) + sg_length (s ! j)) = end_of (s ! j)" if "j < length s" for j
    using listable_chain(2) [OF l, of "s ! j"] that by (simp add: unat_add_small)
  note sk = seek_segment_result [OF Suc.prems(1), of ?va]
  have below: "\<forall>j < ?k. end_of (s ! j) \<le> unat ?va"
  proof (intro allI impI)
    fix j assume j: "j < ?k"
    then have "j < length s" using sk by linarith
    with sk j show "end_of (s ! j) \<le> unat ?va"
      using Suc.prems(2) va by (cases "j < k") (auto simp: word_le_nat_alt simp flip: sum)
  qed
  have past: "unat ?va < end_of (s ! ?k)"
  proof (cases "?k + 1 < length s")
    case True
    then show ?thesis using sk sum [of ?k] by (simp add: word_less_nat_alt)
  next
    case False
    then have "?k = length s - 1" using sk by linarith
    then have "s ! ?k = last s" using listable_chain(1) [OF l] by (simp add: last_conv_nth)
    then show ?thesis using listable_chain(4) [OF l] within [OF i(1)] va by simp
  qed
  have even: "unat ?va mod 2 ^ lg = 0" using va base by (simp add: minus_mod_eq_mult_div)
  have above: "unat start - unat start mod 2 ^ lg \<le> unat ?va" using va base by simp
  obtain e where e: "page_entry (s ! ?k) ?k ?va lg = Some e" "unat e mod 2 ^ lg = 0" "translates s lg (unat ?va) (unat e)"
    using page_entry_translates [OF l conjunct1 [OF conjunct2 [OF sk]] below past even above] by (elim exE conjE) (rule that)
  have "\<exists>es. page_loop [Suc i..<n] s base lg ?k = Some es \<and> length es = n - Suc i \<and>
    (\<forall>j < n - Suc i. unat (es ! j) mod 2 ^ lg = 0 \<and> translates s lg (unat base + (Suc i + j) * 2 ^ lg) (unat (es ! j)))"
    using sk below va i by (intro Suc.hyps(1)) auto
  then obtain es where es: "page_loop [Suc i..<n] s base lg ?k = Some es" "length es = n - Suc i"
    "\<forall>j < n - Suc i. unat (es ! j) mod 2 ^ lg = 0 \<and> translates s lg (unat base + (Suc i + j) * 2 ^ lg) (unat (es ! j))" by blast
  have "page_loop [i..<n] s base lg k = Some (e # es)"
    using e(1,2) es(1) lg by (simp add: upt_conv_Cons [OF i(1)] Let_def and_mask_0_iff del: push_bit_of_1)
  moreover have "unat ((e # es) ! j) mod 2 ^ lg = 0 \<and> translates s lg (unat base + (i + j) * 2 ^ lg) (unat ((e # es) ! j))"
    if "j < n - i" for j
    using that e(2,3) es(3) va by (cases j) auto
  ultimately show ?case using es(2) i by auto
qed simp

lemma unat_page_entries:
  assumes l: "listable s start len lg"
  shows "unat (page_entries start len lg) = (unat start mod 2 ^ lg + unat len + (2 ^ lg - 1)) div 2 ^ lg"
proof -
  have lg: "lg < 64" "lg \<le> 30" using l by (auto simp: listable_def)
  let ?m = "page_mask lg"
  have P: "(2 :: nat) ^ lg \<le> 2 ^ 30" using lg(2) by (intro power_increasing) auto
  have o: "unat (start AND ?m) = unat start mod 2 ^ lg" "unat start mod 2 ^ lg < 2 ^ lg" using lg by (simp_all add: unat_and_mask)
  have m: "unat ?m = 2 ^ lg - 1" using lg by (simp add: unat_page_mask)
  have small: "unat start mod 2 ^ lg < 2 ^ 30" using o(2) P by linarith
  have "unat (UINT64_MAX - (start AND ?m) - ?m) = 18446744073709551615 - unat start mod 2 ^ lg - (2 ^ lg - 1)"
    using o(1) m P small by (subst unat_sub_le) (simp_all add: unat_below_max word_le_nat_alt)
  with l o(1) P small have all: "unat start mod 2 ^ lg + unat len + (2 ^ lg - 1) < 2 ^ 64"
    by (auto simp: listable_def word_less_nat_alt not_less)
  then have "unat ((start AND ?m) + len) = unat start mod 2 ^ lg + unat len"
    using o add_lessD1 [OF all] by (subst unat_add_small) simp_all
  with all have "unat ((start AND ?m) + len + ?m) = unat start mod 2 ^ lg + unat len + (2 ^ lg - 1)"
    using m by (subst unat_add_small) simp_all
  then show ?thesis by (simp only: page_entries_def unat_drop_bit)
qed

lemma page_of_address:
  fixes S L P :: nat
  assumes "0 < P" and "n = (S mod P + L + (P - 1)) div P"
  shows "i < n \<Longrightarrow> S - S mod P + i * P < S + L" "d < L \<Longrightarrow> (S mod P + d) div P < n"
proof -
  have n: "n * P \<le> S mod P + L + (P - 1)" "S mod P + L \<le> n * P"
  proof -
    show "n * P \<le> S mod P + L + (P - 1)" using assms(2) by (metis div_times_less_eq_dividend)
    have "S mod P + L + (P - 1) < n * P + P" using assms dividend_less_div_times [of P "S mod P + L + (P - 1)"] by simp
    then show "S mod P + L \<le> n * P" using assms(1) by linarith
  qed
  show "S - S mod P + i * P < S + L" if "i < n"
  proof -
    have "i * P + P \<le> n * P" using that mult_le_mono1 [of "Suc i" n P] by simp
    moreover have "S mod P \<le> S" by simp
    ultimately show ?thesis using n(1) assms(1) by linarith
  qed
  show "(S mod P + d) div P < n" if "d < L" using that n(2) assms(1) by (simp add: div_less_iff_less_mult)
qed

lemma page_list_translates:
  assumes l: "listable s start len lg" and "unat (page_entries start len lg) \<le> capacity"
  shows "\<exists>es. page_list s start len lg capacity = Some es \<and>
    (\<forall>d < unat len. \<exists>i < length es. i = (unat start mod 2 ^ lg + d) div 2 ^ lg \<and>
       translates s lg (unat start - unat start mod 2 ^ lg + i * 2 ^ lg) (unat (es ! i)))"
proof -
  have lg: "lg < 64" using l by (simp add: listable_def)
  let ?n = "unat (page_entries start len lg)" and ?b = "start AND NOT (page_mask lg)"
  have base: "unat ?b = unat start - unat start mod 2 ^ lg" using lg by (simp add: unat_and_not_mask)
  note a = page_of_address [OF _ unat_page_entries [OF l], simplified]
  have "0 < ?n" using a(2) [of 0] listable_chain(7) [OF l] by linarith
  then have z: "page_entries start len lg \<noteq> 0" by (simp add: unat_gt_0)
  have "\<exists>es. page_loop [0..<?n] s ?b lg 0 = Some es \<and> length es = ?n - 0 \<and>
    (\<forall>j < ?n - 0. unat (es ! j) mod 2 ^ lg = 0 \<and> translates s lg (unat ?b + (0 + j) * 2 ^ lg) (unat (es ! j)))"
    by (rule page_loop_lists [OF l base]) (use a(1) base listable_chain(1) [OF l] in auto)
  then obtain es where es: "page_loop [0..<?n] s ?b lg 0 = Some es" "length es = ?n"
    "\<forall>j < ?n. translates s lg (unat ?b + j * 2 ^ lg) (unat (es ! j))" by auto
  have "page_list s start len lg capacity = Some es"
    using l assms(2) z es(1) by (auto simp: page_list_def listable_def Let_def)
  with es a(2) base show ?thesis by auto
qed

lemma read_be32_eq: "read_be32 p a = get_be (mem_read p a 4)"
  by (rule bit_word_eqI) (auto simp: read_be32_def get_be_def mem_read_def upt_4 bit_simps)

lemma read_be64_put: "mem_read p a 8 = put_be 8 v \<Longrightarrow> read_be64 p a = v"
proof -
  assume r: "mem_read p a 8 = put_be 8 v"
  have "mem_read p a 8 = mem_read p a 4 @ mem_read p (a + 4) 4" using mem_read_append [of p a 4 4] by simp
  with r have "mem_read p a 4 = put_be 4 (ucast (drop_bit 32 v) :: u32)" "mem_read p (a + 4) 4 = put_be 4 (ucast v :: u32)"
    by (simp_all add: put_be_8)
  then have "read_be64 p a = push_bit 32 (ucast (ucast (drop_bit 32 v) :: u32)) OR ucast (ucast v :: u32)"
    by (simp add: read_be64_def read_be32_eq)
  also have "\<dots> = v" by (rule bit_word_eqI) (auto simp: bit_simps)
  finally show ?thesis .
qed

lemma read_page:
  assumes "i < length xs"
  shows "read_be64 (mem_write p a (concat (map (put_be 8) xs))) (a + 8 * i) = xs ! i"
proof (rule read_be64_put)
  have "mem_read (mem_write p a (concat (map (put_be 8) xs))) (a + 8 * i) 8 = put_be 8 (xs ! i)"
    using assms
  proof (induction xs arbitrary: p a i)
    case (Cons x xs)
    show ?case
    proof (cases i)
      case 0
      then show ?thesis using mem_read_write_same [of p a "put_be 8 x"] by (simp add: mem_write_append mem_read_write_disjoint)
    next
      case (Suc j)
      with Cons show ?thesis using Cons.IH [of j "mem_write p a (put_be 8 x)" "a + 8"] by (simp add: mem_write_append ac_simps)
    qed
  qed simp
  then show "mem_read (mem_write p a (concat (map (put_be 8) xs))) (a + 8 * i) 8 = put_be 8 (xs ! i)" .
qed

subsection \<open>What the adapter does with a key\<close>

text \<open>
  The adapter's side of CREATE_MKEY, as the command describes it: the entry of the page that holds
  the address, counted from the page of the key's base address, and the offset in that page.
\<close>

definition device_address :: "mem \<Rightarrow> nat \<Rightarrow> nat" where
  "device_address p x =
     (let lg = unat (get_bits p 16 64 0x1da 6); base = unat (get_bits p 16 64 0x80 64)
      in unat (read_be64 p (0x110 + 8 * (x div 2 ^ lg - base div 2 ^ lg))) + x mod 2 ^ lg)"

definition key_maps :: "segment list \<Rightarrow> u64 \<Rightarrow> u64 \<Rightarrow> u64 \<Rightarrow> mem \<Rightarrow> bool" where
  "key_maps s start len alias p \<longleftrightarrow>
     (\<forall>g \<in> set s. \<forall>d < unat len. va_of g \<le> unat start + d \<longrightarrow> unat start + d < end_of g \<longrightarrow>
        device_address p (unat alias + d) + va_of g = iova_of g + (unat start + d))"

definition key_grants :: "mem \<Rightarrow> u32 \<Rightarrow> bool" where
  "key_grants p access \<longleftrightarrow> (get_bits p 16 64 0x12 1 = 1 \<longleftrightarrow> access AND 2 \<noteq> 0) \<and>
     (get_bits p 16 64 0x13 1 = 1 \<longleftrightarrow> access AND 4 \<noteq> 0) \<and> (get_bits p 16 64 0x14 1 = 1 \<longleftrightarrow> access AND 1 \<noteq> 0)"

lemma user_mkey_fields:
  assumes "create_user_mkey p capacity pd key base len pages access lg relaxed = Some (p', bytes)"
  shows "get_bits p' 16 64 0x80 64 = base" and "unat (get_bits p' 16 64 0x1da 6) = lg"
    and "i < length pages \<Longrightarrow> read_be64 p' (0x110 + 8 * i) = pages ! i"
    and "get_bits p' 16 64 0x12 1 = (if access AND 2 \<noteq> 0 then 1 else 0)"
    and "get_bits p' 16 64 0x13 1 = (if access AND 4 \<noteq> 0 then 1 else 0)"
    and "get_bits p' 16 64 0x14 1 = (if access AND 1 \<noteq> 0 then 1 else 0)"
    and "unat base + unat len < 2 ^ 64"
proof -
  define f where "f = (\<lambda>p2. let
       p3 = set_field 16 64 0x12 1 (if access AND 2 \<noteq> 0 then 1 else 0) p2;
       p4 = set_field 16 64 0x13 1 (if access AND 4 \<noteq> 0 then 1 else 0) p3;
       p5 = set_field 16 64 0x14 1 (if access AND 1 \<noteq> 0 then 1 else 0) p4;
       p6 = set_field 16 64 0x15 1 1 p5;
       p7 = set_field 16 64 0x16 2 1 p6;
       p8 = set_field 16 64 0x20 24 0xffffff p7;
       p9 = set_field 16 64 0x38 8 (ucast key) p8;
       p10 = set_field 16 64 0x68 24 (ucast pd) p9;
       p11 = set_field 16 64 0x80 64 base p10;
       p12 = set_field 16 64 0xc0 64 len p11;
       p13 = set_field 16 64 0x1a0 32 (of_nat ((length pages + 1) div 2 * 2 div 2)) p12
     in set_field 16 64 0x1da 6 (of_nat lg) p13)"
  obtain q z where p': "p' = write_pages pages 0x110 (write_be32 z 0x60 (of_nat ((length pages + 1) div 2 * 2 div 2)))"
    and z: "z = (if relaxed then set_field 16 64 0x1d9 1 1 (set_field 16 64 0xd 1 1 (f q)) else f q)"
    and lg: "lg \<le> 30" and b: "\<not> UINT64_MAX - len < base"
    using assms by (auto simp: create_user_mkey_def Let_def f_def split: if_splits)
  have l: "unat (of_nat lg :: u64) = lg" "lg < 64" using lg by (simp_all add: unat_of_nat)
  have w: "unat (if c then 1 else 0 :: u64) < 2 ^ 1" for c by simp
  have k: "get_bits p' 16 64 0x80 64 = get_bits (f q) 16 64 0x80 64" "get_bits p' 16 64 0x1da 6 = get_bits (f q) 16 64 0x1da 6"
    "get_bits p' 16 64 0x12 1 = get_bits (f q) 16 64 0x12 1" "get_bits p' 16 64 0x13 1 = get_bits (f q) 16 64 0x13 1"
    "get_bits p' 16 64 0x14 1 = get_bits (f q) 16 64 0x14 1"
    by (simp_all add: p' z write_pages_eq write_be32_eq field_rules)
  show "get_bits p' 16 64 0x80 64 = base" unfolding k f_def Let_def using unat_lt_64 [of base]
    by (simp add: field_rules field_fits_def)
  show "unat (get_bits p' 16 64 0x1da 6) = lg" unfolding k f_def Let_def using l
    by (simp add: field_rules field_fits_def)
  show "get_bits p' 16 64 0x12 1 = (if access AND 2 \<noteq> 0 then 1 else 0)" unfolding k f_def Let_def
    using get_set_same [OF _ w] by (simp add: get_set_other field_fits_def)
  show "get_bits p' 16 64 0x13 1 = (if access AND 4 \<noteq> 0 then 1 else 0)" unfolding k f_def Let_def
    using get_set_same [OF _ w] by (simp add: get_set_other field_fits_def)
  show "get_bits p' 16 64 0x14 1 = (if access AND 1 \<noteq> 0 then 1 else 0)" unfolding k f_def Let_def
    using get_set_same [OF _ w] by (simp add: get_set_other field_fits_def)
  show "read_be64 p' (0x110 + 8 * i) = pages ! i" if "i < length pages"
    using read_page [OF that] by (simp add: p' write_pages_eq)
  show "unat base + unat len < 2 ^ 64" using b unat_lt_64 [of len] by (simp add: word_less_nat_alt not_less unat_below_max)
qed

lemma same_page:
  fixes A S P d :: nat
  assumes "A mod P = S mod P" and "0 < P"
  shows "(A + d) div P - A div P = (S mod P + d) div P" "(A + d) mod P = (S + d) mod P"
proof -
  have "A + d = (A mod P + d) + P * (A div P)" by (metis (no_types) add.commute add.left_commute mult_div_mod_eq)
  then have "(A + d) div P = A div P + (A mod P + d) div P" using assms(2) by (metis add.commute div_mult_self2 less_not_refl)
  then show "(A + d) div P - A div P = (S mod P + d) div P" using assms(1) by simp
  show "(A + d) mod P = (S + d) mod P" using assms(1) by (metis mod_add_left_eq)
qed

lemma in_page:
  fixes S P d :: nat
  assumes "0 < P"
  shows "S + d = S - S mod P + (S mod P + d) div P * P + (S + d) mod P"
proof -
  have "S + d = S - S mod P + (S mod P + d)" by simp
  also have "S mod P + d = (S mod P + d) div P * P + (S mod P + d) mod P" by simp
  also have "(S mod P + d) mod P = (S + d) mod P" by (simp add: mod_add_left_eq)
  finally show ?thesis using mod_less_eq_dividend [of S P] by linarith
qed

text \<open>
  C33: memory keys translate. When a page size was chosen for a pinned range, its page list is never
  refused, and a key made from that list sends every address of the range, as the adapter looks it
  up under the key's own base address, to the device address that the range's segment gives it; the
  key grants remote write, remote read and local write exactly as asked.
\<close>

theorem mkey_translates:
  assumes "choose_log_page s start len alias capacity = lg" and "lg \<noteq> 0"
  shows "\<exists>pages. page_list s start len lg capacity = Some pages \<and>
    (\<forall>p room pd key access relaxed p' bytes.
       create_user_mkey p room pd key alias len pages access lg relaxed = Some (p', bytes) \<longrightarrow>
       key_maps s start len alias p' \<and> key_grants p' access)"
proof -
  note c = choose_log_page_listable [OF assms]
  have l: "listable s start len lg" and lg: "lg < 64" using c by (auto simp: listable_def)
  obtain pages where pages: "page_list s start len lg capacity = Some pages"
    and each: "\<forall>d < unat len. \<exists>i < length pages. i = (unat start mod 2 ^ lg + d) div 2 ^ lg \<and>
       translates s lg (unat start - unat start mod 2 ^ lg + i * 2 ^ lg) (unat (pages ! i))"
    using page_list_translates [OF l] c by blast
  have m: "unat alias mod 2 ^ lg = unat start mod 2 ^ lg" using c lg by (simp add: xor_mask_0_iff and_mask_eq_iff)
  have "device_address p' (unat alias + d) + va_of g = iova_of g + (unat start + d)"
    if k: "create_user_mkey p room pd key alias len pages access lg relaxed = Some (p', bytes)"
      and g: "g \<in> set s" "d < unat len" "va_of g \<le> unat start + d" "unat start + d < end_of g"
    for p room pd key access relaxed p' bytes g d
  proof -
    let ?i = "(unat start mod 2 ^ lg + d) div 2 ^ lg"
    have i: "?i < length pages" "translates s lg (unat start - unat start mod 2 ^ lg + ?i * 2 ^ lg) (unat (pages ! ?i))"
      using each g(2) by blast+
    have a: "device_address p' (unat alias + d) = unat (pages ! ?i) + (unat start + d) mod 2 ^ lg"
      using user_mkey_fields(1-3) [OF k] i(1) same_page [OF m, of d] by (simp add: device_address_def)
    have x: "unat start + d = unat start - unat start mod 2 ^ lg + ?i * 2 ^ lg + (unat start + d) mod 2 ^ lg"
      by (rule in_page) simp
    have "unat (pages ! ?i) + (unat start + d - (unat start - unat start mod 2 ^ lg + ?i * 2 ^ lg)) + va_of g = iova_of g + (unat start + d)"
    proof -
      let ?v = "unat start - unat start mod 2 ^ lg + ?i * 2 ^ lg"
      have "(unat start + d) mod 2 ^ lg < 2 ^ lg" by simp
      then have "?v \<le> unat start + d" "unat start + d < ?v + 2 ^ lg" using x by linarith+
      with i(2) g show ?thesis unfolding translates_def by blast
    qed
    with a x show ?thesis by linarith
  qed
  then have "key_maps s start len alias p' \<and> key_grants p' access"
    if k: "create_user_mkey p room pd key alias len pages access lg relaxed = Some (p', bytes)"
    for p room pd key access relaxed p' bytes
    using k user_mkey_fields(4-6) [OF k] unfolding key_maps_def key_grants_def by (intro conjI ballI allI impI) auto
  with pages show ?thesis by (intro exI [of _ pages]) blast
qed

definition sample_segments :: "segment list" where
  "sample_segments = [\<lparr>sg_va = 0x1000, sg_iova = 0x81000, sg_length = 0x1000\<rparr>,
     \<lparr>sg_va = 0x2000, sg_iova = 0x40000, sg_length = 0x2000\<rparr>]"

theorem mkey_translates_witness:
  "page_list sample_segments 0x1800 0x1000 13 990 = Some [0x80000, 0x40000] \<and>
   (\<exists>p' bytes. create_user_mkey (\<lambda>_. 7) 8192 5 9 0x7800 0x1000 [0x80000, 0x40000] 3 13 False = Some (p', bytes) \<and>
     device_address p' 0x8010 = 0x40010)"
proof -
  have c: "choose_log_page sample_segments 0x1800 0x1000 0x7800 990 = 13" by code_simp
  have l: "page_list sample_segments 0x1800 0x1000 13 990 = Some [0x80000, 0x40000]" by code_simp
  obtain p' bytes where k: "create_user_mkey (\<lambda>_. 7) 8192 5 9 0x7800 0x1000 [0x80000, 0x40000] 3 13 False = Some (p', bytes)"
    by (simp add: create_user_mkey_def Let_def)
  let ?g = "\<lparr>sg_va = 0x2000, sg_iova = 0x40000, sg_length = 0x2000\<rparr> :: segment"
  have "device_address p' (unat (0x7800 :: u64) + 0x810) + unat (sg_va ?g) = unat (sg_iova ?g) + (unat (0x1800 :: u64) + 0x810)"
  proof -
    have nz: "(13 :: nat) \<noteq> 0" by simp
    from mkey_translates [OF c nz] obtain pages where a: "page_list sample_segments 0x1800 0x1000 13 990 = Some pages"
      and b: "\<And>p room pd key access relaxed p' bytes.
        create_user_mkey p room pd key 0x7800 0x1000 pages access 13 relaxed = Some (p', bytes) \<Longrightarrow>
        key_maps sample_segments 0x1800 0x1000 0x7800 p'" by blast
    have "pages = [0x80000, 0x40000]" using a l by simp
    then have "key_maps sample_segments 0x1800 0x1000 0x7800 p'" using b k by blast
    moreover have "?g \<in> set sample_segments" by (simp add: sample_segments_def)
    ultimately have "\<forall>d < unat (0x1000 :: u64). va_of ?g \<le> unat (0x1800 :: u64) + d \<longrightarrow> unat (0x1800 :: u64) + d < end_of ?g \<longrightarrow>
        device_address p' (unat (0x7800 :: u64) + d) + va_of ?g = iova_of ?g + (unat (0x1800 :: u64) + d)"
      unfolding key_maps_def by (rule bspec)
    from spec [OF this, of "0x810"] show ?thesis by simp
  qed
  then have "device_address p' 0x8010 = 0x40010" by simp
  with l k show ?thesis by blast
qed

end
