(* ===== verification/Nic_Cmd.thy ===== *)
theory Nic_Cmd
  imports Nic_Keys
begin

section \<open>Commands to the adapter's firmware\<close>

text \<open>
  \<open>core/cx5_protocol.cpp\<close> (the command entry, its chains of mailboxes, the register check at
  start, the command lease), \<open>include/command_wait.hpp\<close> (the bounded wait) and
  \<open>Transport::execute\<close> of \<open>native/kernel_transport.cpp\<close>, which puts them together. The
  adapter is a parameter: what it does to the queue memory between two looks at it, whether the
  device is gone, and what a register read gives. Buffers are byte memories with offsets; a buffer
  that may be NULL by design (the payload of an output chain) is an option.
\<close>

abbreviation (input) COMMAND_BYTES :: nat where "COMMAND_BYTES \<equiv> 64"
abbreviation (input) MAILBOX_DATA :: nat where "MAILBOX_DATA \<equiv> 512"
abbreviation (input) MAILBOX_RECORD :: nat where "MAILBOX_RECORD \<equiv> 576"
abbreviation (input) MAILBOX_STRIDE :: nat where "MAILBOX_STRIDE \<equiv> 1024"
abbreviation (input) MAX_COMMAND_BYTES :: nat where "MAX_COMMAND_BYTES \<equiv> 8192"
abbreviation (input) MAX_MAILBOXES :: nat where "MAX_MAILBOXES \<equiv> 16"

datatype command_error =
    E_none | E_wrong_device | E_removed | E_initializing | E_command_revision | E_queue_geometry
  | E_invalid_length | E_invalid_token | E_busy | E_poisoned | E_delivery | E_firmware
  | E_token_mismatch | E_invalid_address | E_bad_mailbox | E_timeout

definition mailbox_count :: "nat \<Rightarrow> nat" where
  "mailbox_count bytes = (if bytes \<le> 16 then 0 else (bytes - 16 + MAILBOX_DATA - 1) div MAILBOX_DATA)"

text \<open>The signature loops: the complement of the exclusive or of the bytes from \<open>a\<close> on.\<close>

definition xor_bytes :: "mem \<Rightarrow> nat \<Rightarrow> nat \<Rightarrow> u8" where
  "xor_bytes p a n = fold (\<lambda>j c. c XOR p (a + j)) [0..<n] 0xff"

subsection \<open>The command entry\<close>

definition encode_command :: "mem \<Rightarrow> mem \<Rightarrow> nat \<Rightarrow> nat \<Rightarrow> u8 \<Rightarrow> u64 \<Rightarrow> u64 \<Rightarrow> command_error \<times> mem" where
  "encode_command e inp n out token input_dma output_dma =
     (if n < 8 \<or> out < 8 \<or> MAX_COMMAND_BYTES < n \<or> MAX_COMMAND_BYTES < out then (E_invalid_length, e)
      else if token = 0 then (E_invalid_token, e)
      else if (16 < n \<and> (input_dma = 0 \<or> input_dma AND 1023 \<noteq> 0)) \<or> (16 < out \<and> (output_dma = 0 \<or> output_dma AND 1023 \<noteq> 0))
      then (E_invalid_address, e)
      else
        let saved = mem_read inp 0 (min n 16) @ replicate (16 - min n 16) 0;
            e1 = mem_write e 0 (replicate COMMAND_BYTES 0);
            e2 = write_be32 (e1(0 := 7)) 4 (of_nat n);
            e3 = write_be64 e2 8 (if 16 < n then input_dma else 0);
            e4 = mem_write e3 16 saved;
            e5 = write_be64 e4 48 (if 16 < out then output_dma else 0);
            e6 = (write_be32 e5 56 (of_nat out))(60 := token, 63 := 1)
        in (E_none, e6(61 := xor_bytes e6 0 COMMAND_BYTES)))"

definition encode_inline :: "mem \<Rightarrow> mem \<Rightarrow> nat \<Rightarrow> nat \<Rightarrow> u8 \<Rightarrow> command_error \<times> mem" where
  "encode_inline e inp n out t =
     (if n < 8 \<or> 16 < n \<or> out < 8 \<or> 16 < out then (E_invalid_length, e)
      else if t = 0 then (E_invalid_token, e)
      else
        let saved = mem_read inp 0 n;
            e1 = mem_write e 0 (replicate COMMAND_BYTES 0);
            e2 = write_be32 (e1(0 := 7)) 4 (of_nat n);
            e3 = mem_write e2 16 saved;
            e4 = (write_be32 e3 56 (of_nat out))(60 := t, 63 := 1)
        in (E_none, e4(61 := xor_bytes e4 0 COMMAND_BYTES)))"

text \<open>The error, the output buffer, and the two status bytes.\<close>

definition decode_inline :: "mem \<Rightarrow> u8 \<Rightarrow> mem \<Rightarrow> nat \<Rightarrow> command_error \<times> mem \<times> u8 \<times> u8" where
  "decode_inline e t out n =
     (if n < 8 \<or> 16 < n then (E_invalid_length, out, 0, 0)
      else if t = 0 then (E_invalid_token, out, 0, 0)
      else if e 63 AND 1 \<noteq> 0 then (E_busy, out, 0, 0)
      else if e 60 \<noteq> t then (E_token_mismatch, out, 0, 0)
      else let delivery = drop_bit 1 (e 63) in
        if delivery \<noteq> 0 then (E_delivery, out, delivery, 0)
        else if read_be32 e 56 \<noteq> of_nat n then (E_invalid_length, out, delivery, 0)
        else let fw = e 32 in
          if fw \<noteq> 0 then (E_firmware, out, delivery, fw)
          else (E_none, mem_write out 0 (mem_read e 32 n), delivery, fw))"

subsection \<open>Mailboxes\<close>

definition chain_blocks :: "nat \<Rightarrow> nat" where
  "chain_blocks bytes = (bytes + MAILBOX_DATA - 1) div MAILBOX_DATA"

definition mailbox_extent :: "nat \<Rightarrow> nat \<Rightarrow> u64 \<Rightarrow> bool" where
  "mailbox_extent bytes capacity dma \<longleftrightarrow>
     bytes \<noteq> 0 \<and> bytes \<le> MAX_COMMAND_BYTES - 16 \<and> dma \<noteq> 0 \<and> dma AND 1023 = 0 \<and>
     chain_blocks bytes \<le> MAX_MAILBOXES \<and> chain_blocks bytes * MAILBOX_STRIDE \<le> capacity \<and>
     dma \<le> UINT64_MAX - of_nat (chain_blocks bytes * MAILBOX_STRIDE)"

definition next_block :: "nat \<Rightarrow> nat \<Rightarrow> u64 \<Rightarrow> u64" where
  "next_block count i dma = (if i + 1 < count then dma + of_nat ((i + 1) * MAILBOX_STRIDE) else 0)"

definition prepare_block :: "nat \<Rightarrow> nat \<Rightarrow> u64 \<Rightarrow> mem option \<Rightarrow> nat \<Rightarrow> u8 \<Rightarrow> nat \<Rightarrow> mem \<Rightarrow> mem" where
  "prepare_block a count dma payload bytes token i p =
     (let b = a + i * MAILBOX_STRIDE;
          n = min (bytes - i * MAILBOX_DATA) MAILBOX_DATA;
          p1 = (case payload of None \<Rightarrow> p | Some d \<Rightarrow> mem_write p b (mem_read d (i * MAILBOX_DATA) n));
          p2 = write_be64 p1 (b + 0x230) (next_block count i dma);
          p3 = (write_be32 p2 (b + 0x238) (of_nat i))(b + 0x23d := token);
          p4 = p3(b + 0x23e := xor_bytes p3 (b + 0x200) 0x3e)
      in p4(b + 0x23f := xor_bytes p4 b 0x23f))"

definition prepare_mailboxes ::
    "mem \<Rightarrow> nat \<Rightarrow> nat \<Rightarrow> u64 \<Rightarrow> mem option \<Rightarrow> nat \<Rightarrow> u8 \<Rightarrow> command_error \<times> mem" where
  "prepare_mailboxes p a capacity dma payload bytes token =
     (if \<not> mailbox_extent bytes capacity dma then (E_invalid_length, p)
      else if token = 0 then (E_invalid_token, p)
      else let count = chain_blocks bytes in
        (E_none, fold (prepare_block a count dma payload bytes token) [0..<count]
           (mem_write p a (replicate (count * MAILBOX_STRIDE) 0))))"

definition block_ok :: "mem \<Rightarrow> nat \<Rightarrow> nat \<Rightarrow> u64 \<Rightarrow> u8 \<Rightarrow> nat \<Rightarrow> bool" where
  "block_ok p a count dma token i \<longleftrightarrow>
     (let b = a + i * MAILBOX_STRIDE in
      read_be64 p (b + 0x230) = next_block count i dma \<and> read_be32 p (b + 0x238) = of_nat i \<and> p (b + 0x23d) = token)"

definition collect_block :: "mem \<Rightarrow> nat \<Rightarrow> nat \<Rightarrow> nat \<Rightarrow> mem \<Rightarrow> mem" where
  "collect_block p a bytes i payload =
     mem_write payload (i * MAILBOX_DATA)
       (mem_read p (a + i * MAILBOX_STRIDE) (min (bytes - i * MAILBOX_DATA) MAILBOX_DATA))"

definition collect_mailboxes ::
    "mem \<Rightarrow> nat \<Rightarrow> nat \<Rightarrow> u64 \<Rightarrow> mem \<Rightarrow> nat \<Rightarrow> u8 \<Rightarrow> command_error \<times> mem" where
  "collect_mailboxes p a capacity dma payload bytes token =
     (if \<not> mailbox_extent bytes capacity dma then (E_invalid_length, payload)
      else if token = 0 then (E_invalid_token, payload)
      else let count = chain_blocks bytes in
        if \<exists>i \<in> set [0..<count]. \<not> block_ok p a count dma token i then (E_bad_mailbox, payload)
        else (E_none, fold (collect_block p a bytes) [0..<count] payload))"

subsection \<open>Registers at start\<close>

record registers =
  rg_identity :: u32
  rg_revision :: u32
  rg_firmware :: u32
  rg_interface :: u32
  rg_geometry :: u32
  rg_initializing :: u32

record device =
  dv_major :: u16
  dv_minor :: u16
  dv_patch :: u16
  dv_command_revision :: u16
  dv_pci_revision :: u8
  dv_log_slots :: u8
  dv_log_stride :: u8

definition no_device :: device where
  "no_device = \<lparr>dv_major = 0, dv_minor = 0, dv_patch = 0, dv_command_revision = 0,
     dv_pci_revision = 0, dv_log_slots = 0, dv_log_stride = 0\<rparr>"

definition inspect :: "registers \<Rightarrow> command_error \<times> device" where
  "inspect r =
     (if rg_identity r = -1 \<or> rg_firmware r = -1 \<or> rg_interface r = -1 \<or> rg_geometry r = -1 \<or> rg_initializing r = -1
      then (E_removed, no_device)
      else if rg_identity r \<noteq> 0x101915b3 \<and> rg_identity r \<noteq> 0x101715b3 then (E_wrong_device, no_device)
      else if rg_initializing r AND 0x80000000 \<noteq> 0 then (E_initializing, no_device)
      else if drop_bit 16 (rg_interface r) \<noteq> 5 then (E_command_revision, no_device)
      else let slots = drop_bit 4 (rg_geometry r) AND 15; stride = rg_geometry r AND 15 in
        if 5 < slots \<or> stride < 6 \<or> 12 < stride \<or> 12 < slots + stride then (E_queue_geometry, no_device)
        else (E_none, \<lparr>dv_major = ucast (rg_firmware r), dv_minor = ucast (drop_bit 16 (rg_firmware r)),
               dv_patch = ucast (rg_interface r), dv_command_revision = ucast (drop_bit 16 (rg_interface r)),
               dv_pci_revision = ucast (rg_revision r), dv_log_slots = ucast slots, dv_log_stride = ucast stride\<rparr>))"

subsection \<open>The command lease\<close>

datatype lease_state = Idle | Submitted | Quarantined

record command_lease =
  cl_state :: lease_state
  cl_token :: u8

definition lease_begin :: "u8 \<Rightarrow> command_lease \<Rightarrow> command_error \<times> command_lease" where
  "lease_begin t l =
     (if cl_state l = Quarantined then (E_poisoned, l)
      else if cl_state l = Submitted then (E_busy, l)
      else if t = 0 then (E_invalid_token, l)
      else (E_none, \<lparr>cl_state = Submitted, cl_token = t\<rparr>))"

definition lease_finish :: "u8 \<Rightarrow> command_lease \<Rightarrow> command_error \<times> command_lease" where
  "lease_finish t l =
     (if cl_state l = Quarantined then (E_poisoned, l)
      else if cl_state l \<noteq> Submitted then (E_busy, l)
      else if t \<noteq> cl_token l then (E_token_mismatch, l\<lparr>cl_state := Quarantined\<rparr>)
      else (E_none, l\<lparr>cl_state := Idle\<rparr>))"

definition lease_timeout :: "command_lease \<Rightarrow> command_lease" where
  "lease_timeout l = (if cl_state l = Submitted then l\<lparr>cl_state := Quarantined\<rparr> else l)"

definition releasable :: "command_lease \<Rightarrow> bool" where
  "releasable l \<longleftrightarrow> cl_state l = Idle"

subsection \<open>Waiting for a command\<close>

datatype command_wait = W_complete | W_removed | W_timeout

text \<open>
  The world outside is a state \<open>'w\<close>: \<open>gone\<close> asks whether the device was removed, and
  \<open>adapter\<close> is what the adapter did to the queue memory until the next look at it. Steps left,
  polls so far, the memory and the world.
\<close>

fun wait_loop :: "('w \<Rightarrow> bool \<times> 'w) \<Rightarrow> ('w \<Rightarrow> mem \<Rightarrow> mem \<times> 'w) \<Rightarrow> nat \<Rightarrow> u32 \<Rightarrow> mem \<Rightarrow> 'w \<Rightarrow> command_wait \<times> u32 \<times> mem \<times> 'w" where
  "wait_loop gone adapter left polls q w =
     (case gone w of (True, w1) \<Rightarrow> (W_removed, polls, q, w1)
      | (False, w1) \<Rightarrow> (case adapter w1 q of (q1, w2) \<Rightarrow>
          if q1 63 AND 1 = 0 then (W_complete, polls + 1, q1, w2)
          else (case left of 0 \<Rightarrow> (W_timeout, polls + 1, q1, w2)
                | Suc n \<Rightarrow> wait_loop gone adapter n (polls + 1) q1 w2)))"

definition wait_command :: "('w \<Rightarrow> bool \<times> 'w) \<Rightarrow> ('w \<Rightarrow> mem \<Rightarrow> mem \<times> 'w) \<Rightarrow> mem \<Rightarrow> 'w \<Rightarrow> command_wait \<times> u32 \<times> mem \<times> 'w" where
  "wait_command gone adapter q w = wait_loop gone adapter 5040 0 q w"

subsection \<open>Running a command\<close>

record command_result =
  cr_opcode :: u32
  cr_transport_error :: command_error
  cr_delivery_status :: u32
  cr_firmware_status :: u32
  cr_syndrome :: u32
  cr_completed :: bool
  cr_polls :: u32

definition no_result :: command_result where
  "no_result = \<lparr>cr_opcode = 0, cr_transport_error = E_none, cr_delivery_status = 0, cr_firmware_status = 0,
     cr_syndrome = 0, cr_completed = False, cr_polls = 0\<rparr>"

record transport =
  tr_bound :: bool
  tr_enabled :: bool
  tr_initialized :: bool
  tr_quarantined :: bool
  tr_resources :: u32
  tr_last :: command_result
  tr_token :: u8
  tr_queue :: mem
  tr_dma :: u64

text \<open>
  \<open>inactive\<close> is \<open>!pci_ || pci_->isInactive()\<close>, \<open>bell\<close> the write of the doorbell register followed by
  the read of register 0: false when the write is refused or the device does not answer.
\<close>

record 'w adapter_ops =
  inactive :: "'w \<Rightarrow> bool \<times> 'w"
  bell :: "mem \<Rightarrow> 'w \<Rightarrow> bool \<times> 'w"
  answer :: "'w \<Rightarrow> mem \<Rightarrow> mem \<times> 'w"

definition transport_ready :: "'w adapter_ops \<Rightarrow> transport \<Rightarrow> 'w \<Rightarrow> bool \<times> 'w" where
  "transport_ready ops t w =
     (if tr_bound t \<and> \<not> tr_quarantined t then (case inactive ops w of (b, w1) \<Rightarrow> (\<not> b, w1)) else (False, w))"

text \<open>What is left of \<open>execute\<close> once the entry says that the command is done.\<close>

definition execute_done :: "nat \<Rightarrow> mem \<Rightarrow> transport \<Rightarrow> bool \<times> mem \<times> transport" where
  "execute_done out_bytes out t =
     (let q = tr_queue t; r = (tr_last t)\<lparr>cr_completed := True\<rparr>;
          delivery = ucast (drop_bit 1 (q 63)) :: u32;
          r1 = (if q 60 \<noteq> tr_token t then r else r\<lparr>cr_delivery_status := delivery\<rparr>);
          err = (if q 60 \<noteq> tr_token t then E_token_mismatch
                 else if delivery \<noteq> 0 then E_delivery
                 else if read_be32 q 56 \<noteq> of_nat out_bytes then E_invalid_length else E_none);
          (r2, err', out') =
            (if err = E_none
             then let ra = r1\<lparr>cr_firmware_status := ucast (q 32), cr_syndrome := read_be32 q 36\<rparr>;
                      o1 = mem_write out 0 (mem_read q 32 16)
                  in if 16 < out_bytes \<and> cr_firmware_status ra = 0
                     then (case collect_mailboxes q 0x5000 (MAX_MAILBOXES * MAILBOX_STRIDE) (tr_dma t + 0x5000)
                                  (\<lambda>i. o1 (16 + i)) (out_bytes - 16) (tr_token t) of
                             (e, d) \<Rightarrow> (ra, e, if e = E_none then mem_write o1 16 (mem_read d 0 (out_bytes - 16)) else o1))
                     else (ra, err, o1)
             else (r1, err, out));
          ok = (err' = E_none \<and> cr_firmware_status r2 = 0);
          t1 = t\<lparr>tr_last := r2\<lparr>cr_transport_error := err'\<rparr>, tr_quarantined := tr_quarantined t \<or> err' \<noteq> E_none\<rparr>;
          t2 = (if \<not> ok then t1
                else if cr_opcode r2 = 0x104 then t1\<lparr>tr_enabled := True\<rparr>
                else if cr_opcode r2 = 0x105 then t1\<lparr>tr_enabled := False\<rparr>
                else if cr_opcode r2 = 0x102 then t1\<lparr>tr_initialized := True\<rparr>
                else if cr_opcode r2 = 0x103 then t1\<lparr>tr_initialized := False\<rparr> else t1)
      in (ok, out', t2))"

definition next_token :: "u8 \<Rightarrow> u8" where
  "next_token t = (if t + 1 = 0 then t + 1 + 1 else t + 1)"

text \<open>The entry and the chains in queue memory, or the error that ends the command before the doorbell.\<close>

definition prepare_command :: "mem \<Rightarrow> nat \<Rightarrow> nat \<Rightarrow> u8 \<Rightarrow> u64 \<Rightarrow> mem \<Rightarrow> command_error \<times> mem" where
  "prepare_command inp in_bytes out_bytes token dma q =
     (let chain = MAX_MAILBOXES * MAILBOX_STRIDE;
          (e1, q1) = (if 16 < in_bytes
                      then prepare_mailboxes q 0x1000 chain (dma + 0x1000) (Some (\<lambda>i. inp (16 + i))) (in_bytes - 16) token
                      else (E_none, q));
          (e2, q2) = (if 16 < out_bytes \<and> e1 = E_none
                      then prepare_mailboxes q1 0x5000 chain (dma + 0x5000) None (out_bytes - 16) token
                      else (e1, q1))
      in if e2 = E_none
         then encode_command q2 inp in_bytes out_bytes token (if 16 < in_bytes then dma + 0x1000 else 0)
                (if 16 < out_bytes then dma + 0x5000 else 0)
         else (e2, q2))"

definition execute :: "'w adapter_ops \<Rightarrow> mem \<Rightarrow> nat \<Rightarrow> mem \<Rightarrow> nat \<Rightarrow> transport \<Rightarrow> 'w \<Rightarrow> bool \<times> mem \<times> transport \<times> 'w" where
  "execute ops inp in_bytes out out_bytes t w =
     (let t0 = t\<lparr>tr_last := no_result\<rparr> in
      if in_bytes < 16 \<or> out_bytes < 16 then (False, out, t0, w)
      else (case transport_ready ops t0 w of
        (False, w1) \<Rightarrow> (False, out, t0, w1)
      | (True, w1) \<Rightarrow>
          (let r0 = no_result\<lparr>cr_opcode := ucast (ucast (drop_bit 16 (read_be32 inp 0)) :: u16)\<rparr>;
               token = next_token (tr_token t);
               (err, q) = prepare_command inp in_bytes out_bytes token (tr_dma t) (tr_queue t);
               t1 = t0\<lparr>tr_last := r0, tr_token := token, tr_queue := q\<rparr>
           in if err \<noteq> E_none then (False, out, t1\<lparr>tr_last := r0\<lparr>cr_transport_error := err\<rparr>\<rparr>, w1)
              else (case bell ops q w1 of
                (False, w2) \<Rightarrow> (False, out, t1\<lparr>tr_last := r0\<lparr>cr_transport_error := E_removed\<rparr>, tr_quarantined := True\<rparr>, w2)
              | (True, w2) \<Rightarrow>
                  (case wait_command (inactive ops) (answer ops) q w2 of (waited, polls, q', w3) \<Rightarrow>
                     (let t2 = t1\<lparr>tr_queue := q', tr_last := r0\<lparr>cr_polls := polls\<rparr>\<rparr> in
                      if waited = W_complete
                      then (case execute_done out_bytes out t2 of (ok, out', t3) \<Rightarrow> (ok, out', t3, w3))
                      else (False, out, t2\<lparr>tr_last := (tr_last t2)\<lparr>cr_transport_error :=
                              (if waited = W_removed then E_removed else E_timeout)\<rparr>, tr_quarantined := True\<rparr>, w3)))))))"

subsection \<open>What the adapter reads\<close>

text \<open>
  The adapter follows the chain from a pointer: each block has to carry its number, the command's
  token and both signatures; the pointer of the last one is 0.
\<close>

fun chain_walk :: "nat \<Rightarrow> mem \<Rightarrow> nat \<Rightarrow> u64 \<Rightarrow> u8 \<Rightarrow> u64 \<Rightarrow> u32 \<Rightarrow> u8 list option" where
  "chain_walk fuel p a dma token ptr k =
     (if ptr = 0 then Some []
      else case fuel of 0 \<Rightarrow> None
      | Suc n \<Rightarrow> (let b = a + unat (ptr - dma) in
          if read_be32 p (b + 0x238) \<noteq> k \<or> p (b + 0x23d) \<noteq> token \<or> xor_bytes p (b + 0x200) 0x3f \<noteq> 0 \<or> xor_bytes p b 0x240 \<noteq> 0
          then None
          else map_option (append (mem_read p b MAILBOX_DATA)) (chain_walk n p a dma token (read_be64 p (b + 0x230)) (k + 1))))"

declare chain_walk.simps [simp del]

definition fetch_command :: "mem \<Rightarrow> u64 \<Rightarrow> u8 list option" where
  "fetch_command q dma =
     (if q 0 \<noteq> 7 \<or> q 63 AND 1 = 0 \<or> xor_bytes q 0 COMMAND_BYTES \<noteq> 0 then None
      else let n = unat (read_be32 q 4) in
        if n \<le> 16 then Some (mem_read q 16 n)
        else map_option (\<lambda>d. take n (mem_read q 16 16 @ d))
               (chain_walk MAX_MAILBOXES q 0x1000 (dma + 0x1000) (q 60) (read_be64 q 8) 0))"

subsubsection \<open>Signatures\<close>

lemma xor_bytes_Suc: "xor_bytes p a (Suc n) = xor_bytes p a n XOR p (a + n)"
  by (simp add: xor_bytes_def)

lemma xor_bytes_cong: "(\<And>i. i < n \<Longrightarrow> p (a + i) = q (a + i)) \<Longrightarrow> xor_bytes p a n = xor_bytes q a n"
  by (induction n) (simp_all add: xor_bytes_Suc, simp add: xor_bytes_def)

lemma xor_bytes_upd: "k < n \<Longrightarrow> xor_bytes (p(a + k := v)) a n = xor_bytes p a n XOR p (a + k) XOR v"
proof (induction n)
  case (Suc n)
  show ?case
  proof (cases "k = n")
    case True
    have "xor_bytes (p(a + n := v)) a n = xor_bytes p a n" by (rule xor_bytes_cong) simp
    with True show ?thesis by (simp only: xor_bytes_Suc fun_upd_same) (simp add: xor.assoc)
  next
    case False
    with Suc show ?thesis by (simp add: xor_bytes_Suc ac_simps)
  qed
qed simp

lemma xor_bytes_signed: "k < n \<Longrightarrow> p (a + k) = 0 \<Longrightarrow> xor_bytes (p(a + k := xor_bytes p a n)) a n = 0"
  by (simp add: xor_bytes_upd)

lemma xor_bytes_sealed: "xor_bytes (p(a + n := xor_bytes p a n)) a (Suc n) = 0"
proof -
  have "xor_bytes (p(a + n := xor_bytes p a n)) a n = xor_bytes p a n" by (rule xor_bytes_cong) simp
  then show ?thesis by (simp add: xor_bytes_Suc)
qed

subsubsection \<open>Reading what was stored\<close>

lemma read_be32_put: "mem_read p a 4 = put_be 4 v \<Longrightarrow> read_be32 p a = v"
  by (simp add: read_be32_eq)

lemma read_be32_cong: "(\<And>i. i < 4 \<Longrightarrow> p (a + i) = q (a + i)) \<Longrightarrow> read_be32 p a = read_be32 q a"
proof -
  assume "\<And>i. i < 4 \<Longrightarrow> p (a + i) = q (a + i)"
  then have "mem_read p a 4 = mem_read q a 4" by (auto simp: mem_read_def)
  then show ?thesis by (simp add: read_be32_eq)
qed

lemma read_be64_cong: "(\<And>i. i < 8 \<Longrightarrow> p (a + i) = q (a + i)) \<Longrightarrow> read_be64 p a = read_be64 q a"
proof -
  assume e: "\<And>i. i < 8 \<Longrightarrow> p (a + i) = q (a + i)"
  have "p (a + 4 + i) = q (a + 4 + i)" if "i < 4" for i using e [of "4 + i"] that by (simp add: ac_simps)
  then have "read_be32 p a = read_be32 q a" "read_be32 p (a + 4) = read_be32 q (a + 4)"
    using e by (auto intro!: read_be32_cong)
  then show ?thesis by (simp add: read_be64_def)
qed

lemma read_write_be32 [simp]: "read_be32 (write_be32 p a v) a = v"
  using mem_read_write_same [of p a "put_be 4 v"] by (intro read_be32_put) (simp add: write_be32_eq)

lemma read_write_be64 [simp]: "read_be64 (write_be64 p a v) a = v"
  using mem_read_write_same [of p a "put_be 8 v"] by (intro read_be64_put) (simp add: write_be64_eq)

lemma write_be32_outside: "i < a \<or> a + 4 \<le> i \<Longrightarrow> write_be32 p a v i = p i"
  by (simp add: write_be32_eq mem_write_outside)

lemma write_be64_outside: "i < a \<or> a + 8 \<le> i \<Longrightarrow> write_be64 p a v i = p i"
  by (simp add: write_be64_eq mem_write_outside)

subsubsection \<open>One block\<close>

definition block_data :: "mem option \<Rightarrow> nat \<Rightarrow> nat \<Rightarrow> u8 list" where
  "block_data payload bytes i =
     (case payload of None \<Rightarrow> replicate 512 0
      | Some d \<Rightarrow> mem_read d (i * 512) (min (bytes - i * 512) 512) @ replicate (512 - min (bytes - i * 512) 512) 0)"

definition block_is :: "mem \<Rightarrow> nat \<Rightarrow> nat \<Rightarrow> u64 \<Rightarrow> mem option \<Rightarrow> nat \<Rightarrow> u8 \<Rightarrow> nat \<Rightarrow> bool" where
  "block_is p a count dma payload bytes token i \<longleftrightarrow>
     (let b = a + i * 1024 in
      mem_read p b 512 = block_data payload bytes i \<and> read_be64 p (b + 0x230) = next_block count i dma \<and>
      read_be32 p (b + 0x238) = of_nat i \<and> p (b + 0x23d) = token \<and>
      xor_bytes p (b + 0x200) 0x3f = 0 \<and> xor_bytes p b 0x240 = 0)"

lemma block_is_cong:
  assumes "\<And>j. j < 0x240 \<Longrightarrow> p (a + i * 1024 + j) = q (a + i * 1024 + j)"
  shows "block_is p a count dma payload bytes token i = block_is q a count dma payload bytes token i"
proof -
  let ?b = "a + i * 1024"
  have "mem_read p ?b 512 = mem_read q ?b 512" using assms by (auto simp: mem_read_def)
  moreover have "read_be64 p (?b + 0x230) = read_be64 q (?b + 0x230)"
    using assms [of "0x230 + j" for j] by (intro read_be64_cong) (simp add: ac_simps)
  moreover have "read_be32 p (?b + 0x238) = read_be32 q (?b + 0x238)"
    using assms [of "0x238 + j" for j] by (intro read_be32_cong) (simp add: ac_simps)
  moreover have "p (?b + 0x23d) = q (?b + 0x23d)" using assms by simp
  moreover have "xor_bytes p (?b + 0x200) 0x3f = xor_bytes q (?b + 0x200) 0x3f"
    using assms [of "0x200 + j" for j] by (intro xor_bytes_cong) (simp add: ac_simps)
  moreover have "xor_bytes p ?b 0x240 = xor_bytes q ?b 0x240" using assms by (intro xor_bytes_cong) simp
  ultimately show ?thesis by (simp add: block_is_def Let_def)
qed

lemma prepare_block_outside:
  "x < a + i * 1024 \<or> a + i * 1024 + 0x240 \<le> x \<Longrightarrow> prepare_block a count dma payload bytes token i p x = p x"
  by (auto simp: prepare_block_def Let_def write_be32_outside write_be64_outside mem_write_outside split: option.splits)

lemma prepare_block_is:
  assumes zero: "\<And>j. j < 0x240 \<Longrightarrow> p (a + i * 1024 + j) = 0"
  shows "block_is (prepare_block a count dma payload bytes token i p) a count dma payload bytes token i"
proof -
  let ?b = "a + i * 1024" and ?n = "min (bytes - i * 512) 512"
  define p1 where "p1 = (case payload of None \<Rightarrow> p | Some d \<Rightarrow> mem_write p ?b (mem_read d (i * 512) ?n))"
  define p2 where "p2 = write_be64 p1 (?b + 0x230) (next_block count i dma)"
  define p3 where "p3 = (write_be32 p2 (?b + 0x238) (of_nat i))(?b + 0x23d := token)"
  define p4 where "p4 = p3(?b + 0x23e := xor_bytes p3 (?b + 0x200) 0x3e)"
  define p5 where "p5 = p4(?b + 0x23f := xor_bytes p4 ?b 0x23f)"
  have e: "prepare_block a count dma payload bytes token i p = p5"
    by (simp add: prepare_block_def Let_def p1_def p2_def p3_def p4_def p5_def)
  have data: "p5 (?b + j) = p1 (?b + j)" if "j < 0x230" for j
    using that by (simp add: p5_def p4_def p3_def p2_def write_be32_outside write_be64_outside)
  have "mem_read p5 ?b 512 = block_data payload bytes i"
  proof (rule nth_equalityI)
    show "length (mem_read p5 ?b 512) = length (block_data payload bytes i)"
      by (simp add: block_data_def split: option.splits)
    fix j assume "j < length (mem_read p5 ?b 512)"
    then have j: "j < 512" by simp
    then show "mem_read p5 ?b 512 ! j = block_data payload bytes i ! j"
      using data [of j] zero [of j]
      by (auto simp: p1_def block_data_def mem_write_apply nth_append split: option.splits)
  qed
  moreover have "read_be64 p5 (?b + 0x230) = next_block count i dma"
  proof -
    have "read_be64 p5 (?b + 0x230) = read_be64 p2 (?b + 0x230)"
      by (rule read_be64_cong) (simp add: p5_def p4_def p3_def write_be32_outside)
    then show ?thesis by (simp add: p2_def)
  qed
  moreover have "read_be32 p5 (?b + 0x238) = of_nat i"
  proof -
    have "read_be32 p5 (?b + 0x238) = read_be32 (write_be32 p2 (?b + 0x238) (of_nat i)) (?b + 0x238)"
      by (rule read_be32_cong) (simp add: p5_def p4_def p3_def)
    then show ?thesis by simp
  qed
  moreover have "p5 (?b + 0x23d) = token" by (simp add: p5_def p4_def p3_def)
  moreover have "xor_bytes p5 (?b + 0x200) 0x3f = 0"
  proof -
    have "xor_bytes p5 (?b + 0x200) 0x3f = xor_bytes p4 (?b + 0x200) 0x3f"
      by (rule xor_bytes_cong) (simp add: p5_def)
    also have "\<dots> = 0" using xor_bytes_sealed [of p3 "?b + 0x200" "0x3e"] by (simp add: p4_def add.commute)
    finally show ?thesis .
  qed
  moreover have "xor_bytes p5 ?b 0x240 = 0" using xor_bytes_sealed [of p4 ?b "0x23f"] by (simp add: p5_def)
  ultimately show ?thesis by (simp add: e block_is_def Let_def)
qed

subsubsection \<open>Chains\<close>

lemma blocks_disjoint: "i \<noteq> j \<Longrightarrow> x < 0x240 \<Longrightarrow> a + i * 1024 + x < a + j * 1024 \<or> a + j * 1024 + 0x240 \<le> a + i * 1024 + (x :: nat)"
  by (cases "i < j") auto

lemma prepared_blocks:
  assumes "\<And>j. a \<le> j \<Longrightarrow> j < a + count * 1024 \<Longrightarrow> p j = 0" and "k \<le> count"
  shows "(\<forall>i < k. block_is (fold (prepare_block a count dma payload bytes token) [0..<k] p) a count dma payload bytes token i) \<and>
    (\<forall>i j. k \<le> i \<longrightarrow> i < count \<longrightarrow> j < 0x240 \<longrightarrow> fold (prepare_block a count dma payload bytes token) [0..<k] p (a + i * 1024 + j) = 0) \<and>
    (\<forall>x. x < a \<or> a + count * 1024 \<le> x \<longrightarrow> fold (prepare_block a count dma payload bytes token) [0..<k] p x = p x)"
  using assms(2)
proof (induction k)
  case 0
  have "a + i * 1024 + j < a + count * 1024" if "i < count" "j < 0x240" for i j
    using that mult_le_mono1 [of "Suc i" count 1024] by simp
  then show ?case using assms(1) by simp
next
  case (Suc k)
  let ?f = "prepare_block a count dma payload bytes token"
  let ?p = "fold ?f [0..<k] p"
  have IH: "\<And>i. i < k \<Longrightarrow> block_is ?p a count dma payload bytes token i"
    "\<And>i j. k \<le> i \<Longrightarrow> i < count \<Longrightarrow> j < 0x240 \<Longrightarrow> ?p (a + i * 1024 + j) = 0"
    "\<And>x. x < a \<or> a + count * 1024 \<le> x \<Longrightarrow> ?p x = p x" using Suc by auto
  have e: "fold ?f [0..<Suc k] p = ?f k ?p" by simp
  have keep: "?f k ?p (a + i * 1024 + j) = ?p (a + i * 1024 + j)" if "i \<noteq> k" "j < 0x240" for i j
    by (rule prepare_block_outside) (rule blocks_disjoint [OF that])
  have "block_is (?f k ?p) a count dma payload bytes token i" if "i < Suc k" for i
  proof (cases "i = k")
    case True
    then show ?thesis using prepare_block_is [of ?p a k] IH(2) Suc.prems by simp
  next
    case False
    then show ?thesis using block_is_cong [of "?f k ?p" a i ?p] keep IH(1) that by simp
  qed
  moreover have "?f k ?p (a + i * 1024 + j) = 0" if "Suc k \<le> i" "i < count" "j < 0x240" for i j
    using keep [of i j] IH(2) [of i j] that by simp
  moreover have "?f k ?p x = p x" if "x < a \<or> a + count * 1024 \<le> x" for x
  proof -
    have "a + k * 1024 + 0x240 \<le> a + count * 1024" using Suc.prems mult_le_mono1 [of "Suc k" count 1024] by simp
    then have "?f k ?p x = ?p x" using that by (intro prepare_block_outside) linarith
    with IH(3) [OF that] show ?thesis by simp
  qed
  ultimately show ?case unfolding e by blast
qed

lemma prepare_mailboxes_blocks:
  assumes "prepare_mailboxes p a capacity dma payload bytes token = (E_none, p')"
  shows "mailbox_extent bytes capacity dma" "token \<noteq> 0"
    "\<And>i. i < chain_blocks bytes \<Longrightarrow> block_is p' a (chain_blocks bytes) dma payload bytes token i"
    "\<And>x. x < a \<or> a + chain_blocks bytes * 1024 \<le> x \<Longrightarrow> p' x = p x"
proof -
  let ?c = "chain_blocks bytes" and ?z = "mem_write p a (replicate (chain_blocks bytes * 1024) 0)"
  show x: "mailbox_extent bytes capacity dma" "token \<noteq> 0" using assms by (auto simp: prepare_mailboxes_def split: if_splits)
  have p': "p' = fold (prepare_block a ?c dma payload bytes token) [0..<?c] ?z"
    using assms x by (simp add: prepare_mailboxes_def Let_def)
  have "?z j = 0" if "a \<le> j" "j < a + ?c * 1024" for j using that by (auto simp: mem_write_apply)
  from prepared_blocks [of a ?c ?z ?c dma payload bytes token, OF this]
  show "\<And>i. i < ?c \<Longrightarrow> block_is p' a ?c dma payload bytes token i"
    and "\<And>x. x < a \<or> a + ?c * 1024 \<le> x \<Longrightarrow> p' x = p x"
    unfolding p' by (auto simp: mem_write_outside)
qed

lemma extent_nat:
  assumes "mailbox_extent bytes capacity dma" and "i \<le> chain_blocks bytes"
  shows "unat (dma + of_nat (i * 1024)) = unat dma + i * 1024" "dma + of_nat (i * 1024) \<noteq> 0"
    "unat (dma + of_nat (i * 1024) - dma) = i * 1024"
proof -
  have c: "chain_blocks bytes \<le> 16" "dma \<noteq> 0" "dma \<le> UINT64_MAX - of_nat (chain_blocks bytes * 1024)"
    using assms(1) by (auto simp: mailbox_extent_def)
  have u: "unat (of_nat (j * 1024) :: u64) = j * 1024" if "j \<le> 16" for j using that by (simp only: unat_of_nat) simp
  have "unat dma + chain_blocks bytes * 1024 < 2 ^ 64"
    using c(1,3) u [OF c(1)] by (simp add: word_le_nat_alt unat_below_max)
  then have "unat dma + i * 1024 < 2 ^ 64" using assms(2) by linarith
  then show n: "unat (dma + of_nat (i * 1024)) = unat dma + i * 1024"
    using u [of i] c(1) assms(2) by (subst unat_add_small) simp_all
  have "0 < unat dma" using c(2) by (simp add: unat_gt_0)
  with n show "dma + of_nat (i * 1024) \<noteq> 0" by (metis add_is_0 less_irrefl unat_eq_0)
  show "unat (dma + of_nat (i * 1024) - dma) = i * 1024" using u [of i] c(1) assms(2) by simp
qed

lemma walk_chain:
  assumes "mailbox_extent bytes capacity dma" and "\<And>i. i < chain_blocks bytes \<Longrightarrow> block_is p a (chain_blocks bytes) dma payload bytes token i"
    and "i < chain_blocks bytes" and "chain_blocks bytes - i \<le> fuel"
  shows "chain_walk fuel p a dma token (dma + of_nat (i * 1024)) (of_nat i) =
    Some (concat (map (block_data payload bytes) [i..<chain_blocks bytes]))"
  using assms(3,4)
proof (induction "chain_blocks bytes - i" arbitrary: i fuel)
  case (Suc d)
  let ?c = "chain_blocks bytes"
  obtain n where n: "fuel = Suc n" using Suc.prems by (cases fuel) auto
  note x = extent_nat [OF assms(1), of i]
  note b = assms(2) [OF Suc.prems(1), unfolded block_is_def Let_def]
  have rest: "chain_walk n p a dma token (next_block ?c i dma) (of_nat i + 1) = Some (concat (map (block_data payload bytes) [Suc i..<?c]))"
  proof (cases "Suc i < ?c")
    case True
    with Suc.hyps(1) [of "Suc i" n] Suc.hyps(2) Suc.prems n show ?thesis by (simp add: next_block_def ac_simps)
  next
    case False
    then show ?thesis by (subst chain_walk.simps) (simp add: next_block_def)
  qed
  have "chain_walk fuel p a dma token (dma + of_nat (i * 1024)) (of_nat i) =
    map_option (append (mem_read p (a + i * 1024) 512)) (chain_walk n p a dma token (next_block ?c i dma) (of_nat i + 1))"
    using x Suc.prems(1) b n by (subst chain_walk.simps) simp
  also have "\<dots> = Some (concat (map (block_data payload bytes) [i..<?c]))"
    using rest b Suc.prems(1) by (simp add: upt_conv_Cons)
  finally show ?case .
qed simp

lemma chain_blocks_bounds:
  assumes "bytes \<noteq> 0"
  shows "0 < chain_blocks bytes" "(chain_blocks bytes - 1) * 512 < bytes" "bytes \<le> chain_blocks bytes * 512"
  using assms unfolding chain_blocks_def by (auto simp: div_greater_zero_iff)

lemma concat_block_data:
  assumes "bytes \<noteq> 0"
  shows "concat (map (block_data (Some d) bytes) [0..<chain_blocks bytes]) =
    mem_read d 0 bytes @ replicate (chain_blocks bytes * 512 - bytes) 0"
proof -
  let ?c = "chain_blocks bytes"
  note b = chain_blocks_bounds [OF assms]
  define k where "k = ?c - 1"
  have c: "?c = Suc k" using b(1) by (simp add: k_def)
  have full: "block_data (Some d) bytes i = mem_read d (0 + i * 512) 512" if "i < k" for i
  proof -
    have "i * 512 + 512 \<le> bytes" using that b(2) mult_le_mono1 [of "Suc i" k 512] by (simp add: k_def)
    then show ?thesis by (simp add: block_data_def)
  qed
  have l: "min (bytes - k * 512) 512 = bytes - k * 512" "k * 512 \<le> bytes" using b(2,3) c by (simp_all add: min_def)
  have "concat (map (block_data (Some d) bytes) [0..<k]) = concat (map (\<lambda>i. mem_read d (0 + i * 512) 512) [0..<k])"
    using full by (intro arg_cong [of _ _ concat] map_cong) auto
  also have "\<dots> = mem_read d 0 (k * 512)" by (rule concat_blocks)
  finally have "concat (map (block_data (Some d) bytes) [0..<?c]) =
    mem_read d 0 (k * 512) @ mem_read d (k * 512) (bytes - k * 512) @ replicate (512 - (bytes - k * 512)) 0"
    using l by (simp add: c block_data_def)
  also have "\<dots> = mem_read d 0 bytes @ replicate (?c * 512 - bytes) 0"
    using mem_read_append [of d 0 "k * 512" "bytes - k * 512"] l c by simp
  finally show ?thesis .
qed

subsubsection \<open>The whole command\<close>

lemma encode_command_entry:
  assumes "encode_command e inp n out token input_dma output_dma = (E_none, e')" and "16 \<le> n"
  shows "e' 0 = 7" "e' 63 = 1" "e' 60 = token" "xor_bytes e' 0 64 = 0" "unat (read_be32 e' 4) = n"
    "mem_read e' 16 16 = mem_read inp 0 16" "read_be64 e' 8 = (if 16 < n then input_dma else 0)"
    "\<And>x. 64 \<le> x \<Longrightarrow> e' x = e x" "n \<le> 8192"
proof -
  define e1 where "e1 = mem_write e 0 (replicate 64 0)"
  define e2 where "e2 = write_be32 (e1(0 := 7)) 4 (of_nat n)"
  define e3 where "e3 = write_be64 e2 8 (if 16 < n then input_dma else 0)"
  define e4 where "e4 = mem_write e3 16 (mem_read inp 0 16)"
  define e5 where "e5 = write_be64 e4 48 (if 16 < out then output_dma else 0)"
  define e6 where "e6 = (write_be32 e5 56 (of_nat out))(60 := token, 63 := 1)"
  have e': "e' = e6(61 := xor_bytes e6 0 64)" and n: "n \<le> 8192"
    using assms by (auto simp: encode_command_def Let_def e1_def e2_def e3_def e4_def e5_def e6_def split: if_splits)
  have out: "e6 x = e4 x" if "x < 48" for x using that by (simp add: e6_def e5_def write_be32_outside write_be64_outside)
  show "e' 63 = 1" "e' 60 = token" by (simp_all add: e' e6_def)
  show "e' 0 = 7"
    using out [of 0] by (simp add: e' e4_def e3_def e2_def write_be32_outside write_be64_outside mem_write_outside)
  have "e6 (0 + 61) = 0"
    by (simp add: e6_def e5_def e4_def e3_def e2_def e1_def write_be32_outside write_be64_outside mem_write_apply)
  then show "xor_bytes e' 0 64 = 0" using xor_bytes_signed [of 61 64 e6 0] by (simp add: e')
  have "read_be32 e' 4 = read_be32 e2 4"
    using out by (intro read_be32_cong) (simp add: e' e4_def e3_def write_be64_outside mem_write_outside)
  then have "read_be32 e' 4 = of_nat n" by (simp add: e2_def)
  then show "unat (read_be32 e' 4) = n" using n by (simp add: unat_of_nat)
  have "read_be64 e' 8 = read_be64 e3 8"
    using out by (intro read_be64_cong) (simp add: e' e4_def mem_write_outside)
  then show "read_be64 e' 8 = (if 16 < n then input_dma else 0)" by (simp add: e3_def)
  show "mem_read e' 16 16 = mem_read inp 0 16"
    using out by (intro nth_equalityI) (simp_all add: e' e4_def mem_write_apply)
  show "e' x = e x" if "64 \<le> x" for x
    using that by (simp add: e' e6_def e5_def e4_def e3_def e2_def e1_def write_be32_outside write_be64_outside mem_write_outside)
  show "n \<le> 8192" by (rule n)
qed

lemma mailboxes_prepared:
  assumes "0 < bytes" and "bytes \<le> 8176" and "token \<noteq> 0" and "dma \<noteq> 0" and "dma AND 1023 = 0"
    and "unat dma + 16384 < 2 ^ 64"
  shows "\<exists>p'. prepare_mailboxes p a 16384 dma payload bytes token = (E_none, p')"
proof -
  have c: "chain_blocks bytes \<le> 16" using assms(2) unfolding chain_blocks_def by linarith
  have u: "unat (of_nat (chain_blocks bytes * 1024) :: u64) = chain_blocks bytes * 1024" using c by (simp only: unat_of_nat) simp
  have "mailbox_extent bytes 16384 dma"
    using assms c u by (simp add: mailbox_extent_def word_le_nat_alt unat_below_max)
  then show ?thesis using assms(3) by (simp add: prepare_mailboxes_def Let_def)
qed

lemma queue_offset:
  fixes dma k :: u64
  assumes "dma AND 4095 = 0" and "unat dma + 65536 < 2 ^ 64" and "k = 0x1000 \<or> k = 0x5000"
  shows "unat (dma + k) = unat dma + unat k" "dma + k \<noteq> 0" "(dma + k) AND 1023 = 0"
proof -
  show n: "unat (dma + k) = unat dma + unat k" using assms(2,3) by (subst unat_add_small) auto
  then show "dma + k \<noteq> 0" using assms(3) unat_eq_0 [of "dma + k"] by auto
  have "unat dma mod 2 ^ 12 = 0" using assms(1) and_mask_0_iff [of 12 dma] by (simp add: page_mask_def)
  then have "unat (dma + k) mod 2 ^ 10 = 0" using n assms(3) by (auto simp: mod_eq_0_iff_dvd)
  then show "(dma + k) AND 1023 = 0" using and_mask_0_iff [of 10 "dma + k"] by (simp add: page_mask_def)
qed

text \<open>The steps of building a command all succeed; \<open>q1\<close> and \<open>q2\<close> are the memory after each chain.\<close>

lemma command_prepared:
  assumes "16 \<le> n" and "n \<le> 8192" and "16 \<le> out" and "out \<le> 8192" and "token \<noteq> 0"
    and "dma AND 4095 = 0" and "unat dma + 65536 < 2 ^ 64"
  obtains q1 q2 q' where
    "16 < n \<Longrightarrow> prepare_mailboxes q 0x1000 16384 (dma + 0x1000) (Some (\<lambda>i. inp (16 + i))) (n - 16) token = (E_none, q1)"
    "16 < out \<Longrightarrow> prepare_mailboxes q1 0x5000 16384 (dma + 0x5000) None (out - 16) token = (E_none, q2)"
    "\<not> 16 < out \<Longrightarrow> q2 = q1"
    "encode_command q2 inp n out token (if 16 < n then dma + 0x1000 else 0) (if 16 < out then dma + 0x5000 else 0) = (E_none, q')"
    "prepare_command inp n out token dma q = (E_none, q')"
proof -
  note o1 = queue_offset [OF assms(6,7), of "0x1000", simplified] and o5 = queue_offset [OF assms(6,7), of "0x5000", simplified]
  let ?d = "Some (\<lambda>i. inp (16 + i))"
  define q1 where "q1 = (if 16 < n then snd (prepare_mailboxes q 0x1000 16384 (dma + 0x1000) ?d (n - 16) token) else q)"
  define q2 where "q2 = (if 16 < out then snd (prepare_mailboxes q1 0x5000 16384 (dma + 0x5000) None (out - 16) token) else q1)"
  have in_ok: "prepare_mailboxes q 0x1000 16384 (dma + 0x1000) ?d (n - 16) token = (E_none, q1)" if "16 < n"
  proof -
    have "n - 16 \<le> 8176" using assms(2) by linarith
    then show ?thesis using mailboxes_prepared [of "n - 16" token "dma + 0x1000" q "0x1000" ?d] assms(5,7) o1 that by (auto simp: q1_def)
  qed
  have out_ok: "prepare_mailboxes q1 0x5000 16384 (dma + 0x5000) None (out - 16) token = (E_none, q2)" if "16 < out"
  proof -
    have "out - 16 \<le> 8176" using assms(4) by linarith
    then show ?thesis using mailboxes_prepared [of "out - 16" token "dma + 0x5000" q1 "0x5000" None] assms(5,7) o5 that by (auto simp: q2_def)
  qed
  let ?id = "if 16 < n then dma + 0x1000 else 0" and ?od = "if 16 < out then dma + 0x5000 else 0"
  have "fst (encode_command q2 inp n out token ?id ?od) = E_none"
    using assms(1-5) o1(2,3) o5(2,3) by (auto simp: encode_command_def Let_def)
  then obtain q' where q': "encode_command q2 inp n out token ?id ?od = (E_none, q')" by (metis prod.collapse)
  have "(if 16 < n then prepare_mailboxes q 0x1000 16384 (dma + 0x1000) ?d (n - 16) token else (E_none, q)) = (E_none, q1)"
    using in_ok by (cases "16 < n") (simp_all add: q1_def)
  moreover have "(if 16 < out then prepare_mailboxes q1 0x5000 16384 (dma + 0x5000) None (out - 16) token else (E_none, q1)) = (E_none, q2)"
    using out_ok by (cases "16 < out") (simp_all add: q2_def)
  ultimately have "prepare_command inp n out token dma q = (E_none, q')" using q' by (simp add: prepare_command_def Let_def)
  then show thesis using that [OF in_ok out_ok _ q'] by (simp add: q2_def)
qed

lemma command_fetched:
  assumes "16 \<le> n" and "n \<le> 8192"
    and in_ok: "16 < n \<Longrightarrow> prepare_mailboxes q 0x1000 16384 (dma + 0x1000) (Some (\<lambda>i. inp (16 + i))) (n - 16) token = (E_none, q1)"
    and out_ok: "16 < out \<Longrightarrow> prepare_mailboxes q1 0x5000 16384 (dma + 0x5000) None (out - 16) token = (E_none, q2)"
      "\<not> 16 < out \<Longrightarrow> q2 = q1"
    and q': "encode_command q2 inp n out token (if 16 < n then dma + 0x1000 else 0) (if 16 < out then dma + 0x5000 else 0) = (E_none, q')"
  shows "fetch_command q' dma = Some (mem_read inp 0 n)"
proof (cases "16 < n")
  case True
  note e = encode_command_entry [OF q' assms(1)]
  let ?c = "chain_blocks (n - 16)" and ?d = "Some (\<lambda>i. inp (16 + i))"
  have c: "?c \<le> 16" "0 < ?c" using assms(2) chain_blocks_bounds(1) [of "n - 16"] True unfolding chain_blocks_def by linarith+
  note pm = prepare_mailboxes_blocks [OF in_ok [OF True]]
  have same: "q' (0x1000 + i * 1024 + j) = q1 (0x1000 + i * 1024 + j)" if "i < ?c" "j < 0x240" for i j
  proof -
    have "q' (0x1000 + i * 1024 + j) = q2 (0x1000 + i * 1024 + j)" by (rule e(8)) simp
    also have "\<dots> = q1 (0x1000 + i * 1024 + j)"
      using that c prepare_mailboxes_blocks(4) [OF out_ok(1), of "0x1000 + i * 1024 + j"] out_ok(2) by (cases "16 < out") simp_all
    finally show ?thesis .
  qed
  have "block_is q' 0x1000 ?c (dma + 0x1000) ?d (n - 16) token i" if "i < ?c" for i
    using block_is_cong [of q' "0x1000" i q1] same [OF that] pm(3) [OF that] by simp
  from walk_chain [OF pm(1) this c(2), of 16]
  have "chain_walk 16 q' 0x1000 (dma + 0x1000) token (dma + 0x1000) 0 =
      Some (mem_read (\<lambda>i. inp (16 + i)) 0 (n - 16) @ replicate (?c * 512 - (n - 16)) 0)"
    using c True by (simp add: concat_block_data)
  moreover have "mem_read inp 0 16 @ mem_read (\<lambda>i. inp (16 + i)) 0 (n - 16) = mem_read inp 0 n"
    using mem_read_append [of inp 0 16 "n - 16"] True by (simp add: mem_read_def)
  ultimately show ?thesis using e True by (simp add: fetch_command_def Let_def)
next
  case False
  then have "n = 16" using assms(1) by simp
  then show ?thesis using encode_command_entry [OF q' assms(1)] by (simp add: fetch_command_def Let_def)
qed

text \<open>
  C34: a command reaches the adapter. For every length the driver uses, building a command in a queue
  buffer as the kernel maps it succeeds, and the adapter, which checks the entry's signature and
  follows the chain of mailboxes by its pointers, numbers, tokens and signatures, reads exactly the
  bytes that were to be sent; the chain that waits for the answer passes the check made on it when
  the command is done.
\<close>

theorem command_reaches_adapter:
  assumes "16 \<le> n" and "n \<le> 8192" and "16 \<le> out" and "out \<le> 8192" and "token \<noteq> 0"
    and "dma AND 4095 = 0" and "unat dma + 65536 < 2 ^ 64"
  shows "\<exists>q'. prepare_command inp n out token dma q = (E_none, q') \<and> fetch_command q' dma = Some (mem_read inp 0 n) \<and>
    (\<forall>i < chain_blocks (out - 16). 16 < out \<longrightarrow> block_ok q' 0x5000 (chain_blocks (out - 16)) (dma + 0x5000) token i)"
proof -
  obtain q1 q2 q' where
    in_ok: "16 < n \<Longrightarrow> prepare_mailboxes q 0x1000 16384 (dma + 0x1000) (Some (\<lambda>i. inp (16 + i))) (n - 16) token = (E_none, q1)" and
    out_ok: "16 < out \<Longrightarrow> prepare_mailboxes q1 0x5000 16384 (dma + 0x5000) None (out - 16) token = (E_none, q2)"
      "\<not> 16 < out \<Longrightarrow> q2 = q1" and
    q': "encode_command q2 inp n out token (if 16 < n then dma + 0x1000 else 0) (if 16 < out then dma + 0x5000 else 0) = (E_none, q')" and
    p: "prepare_command inp n out token dma q = (E_none, q')"
    by (rule command_prepared [OF assms, of q inp]) blast
  note e = encode_command_entry [OF q' assms(1)]
  have "block_ok q' 0x5000 (chain_blocks (out - 16)) (dma + 0x5000) token i" if "i < chain_blocks (out - 16)" "16 < out" for i
  proof -
    have "block_is q' 0x5000 (chain_blocks (out - 16)) (dma + 0x5000) None (out - 16) token i"
      using block_is_cong [of q' "0x5000" i q2] e(8) prepare_mailboxes_blocks(3) [OF out_ok(1) [OF that(2)] that(1)] by simp
    then show ?thesis by (simp add: block_is_def block_ok_def Let_def)
  qed
  with p command_fetched [OF assms(1,2) in_ok out_ok q'] show ?thesis by blast
qed

theorem command_reaches_adapter_witness:
  "\<exists>q'. prepare_command (\<lambda>i. of_nat i) 1000 4112 3 0x10000 (\<lambda>_. 9) = (E_none, q') \<and>
    fetch_command q' 0x10000 = Some (mem_read (\<lambda>i. of_nat i) 0 1000)"
  using command_reaches_adapter [of 1000 4112 3 "0x10000" "\<lambda>i. of_nat i" "\<lambda>_. 9"] by auto

text \<open>
  C35: an uncertain command is never forgotten. A command that succeeds was completed with no error on
  either level and leaves the transport as usable as it was; one that fails leaves it quarantined,
  unless the firmware completed and refused it, or the adapter was never told of it.
\<close>

theorem uncertain_command_quarantines:
  assumes "execute ops inp n out m t w = (ok, out', t', w')"
  shows "(ok \<longrightarrow> cr_completed (tr_last t') \<and> cr_firmware_status (tr_last t') = 0 \<and> \<not> tr_quarantined t') \<and>
    (\<not> ok \<longrightarrow> tr_quarantined t' \<or> (cr_completed (tr_last t') \<and> cr_firmware_status (tr_last t') \<noteq> 0) \<or>
      w' = w \<or> w' = snd (inactive ops w))"
proof -
  have done_cases: "(ok1 \<longrightarrow> cr_completed (tr_last t1) \<and> cr_firmware_status (tr_last t1) = 0 \<and> tr_quarantined t1 = tr_quarantined t0) \<and>
      (\<not> ok1 \<longrightarrow> tr_quarantined t1 \<or> (cr_completed (tr_last t1) \<and> cr_firmware_status (tr_last t1) \<noteq> 0))"
    if "execute_done m out t0 = (ok1, o1, t1)" for t0 ok1 o1 t1
    using that by (auto simp: execute_done_def Let_def split: if_splits prod.splits)
  show ?thesis
    using assms
    by (auto simp: execute_def transport_ready_def Let_def split: if_splits prod.splits bool.splits dest!: done_cases)
qed

text \<open>A device that is removed as the doorbell is rung; the world counts the doorbells.\<close>

definition vanishing :: "nat adapter_ops" where
  "vanishing = \<lparr>inactive = (\<lambda>w. (False, w)), bell = (\<lambda>q w. (False, w + 1)), answer = (\<lambda>w q. (q, w))\<rparr>"

definition sample_transport :: transport where
  "sample_transport = \<lparr>tr_bound = True, tr_enabled = True, tr_initialized = True, tr_quarantined = False, tr_resources = 2,
     tr_last = no_result, tr_token = 255, tr_queue = (\<lambda>_. 0), tr_dma = 0x10000\<rparr>"

theorem uncertain_command_quarantines_witness:
  "\<exists>t'. execute vanishing (\<lambda>_. 1) 16 (\<lambda>_. 0) 16 sample_transport 0 = (False, \<lambda>_. 0, t', 1) \<and> tr_quarantined t'"
proof -
  have tok: "next_token 255 = 1" by (simp add: next_token_def)
  have "fst (prepare_command (\<lambda>_. 1) 16 16 1 0x10000 (\<lambda>_. 0)) = E_none"
    by (simp add: prepare_command_def encode_command_def Let_def)
  then obtain q where "prepare_command (\<lambda>_. 1) 16 16 1 0x10000 (\<lambda>_. 0) = (E_none, q)" by (metis prod.collapse)
  then have "\<exists>t'. execute vanishing (\<lambda>_. 1) 16 (\<lambda>_. 0) 16 sample_transport 0 = (False, \<lambda>_. 0, t', 1) \<and> \<not> cr_completed (tr_last t')"
    by (simp add: execute_def transport_ready_def vanishing_def sample_transport_def tok Let_def no_result_def)
  then obtain t' where t': "execute vanishing (\<lambda>_. 1) 16 (\<lambda>_. 0) 16 sample_transport 0 = (False, \<lambda>_. 0, t', 1)"
    and c: "\<not> cr_completed (tr_last t')" by blast
  from uncertain_command_quarantines [OF t'] c have "tr_quarantined t'" by (simp add: vanishing_def)
  with t' show ?thesis by blast
qed

end
