(* ===== verification/Nic_Hca.thy ===== *)
theory Nic_Hca
  imports Nic_Cmd "HOL-Library.Multiset"
begin

section \<open>The adapter object of the kernel: start, stop and the firmware's pages\<close>

text \<open>
  \<open>native/kernel_hca.cpp\<close> and the parts of \<open>native/kernel_transport.cpp\<close> and
  \<open>native/kernel_transport_access.cpp\<close> it starts with: handing pages to the firmware and taking
  them back, opening and closing the command queue, the start and stop sequences, the port and its
  MTU, protection domains and memory keys. IOKit is a parameter (\<open>hca_ops\<close>): register and
  configuration accesses, the allocation and release of mapped memory, and the mapping of a page
  of the BAR; the firmware acts through \<open>execute\<close>. Properties that the code publishes for
  diagnosis are left out. Where the code returns bool after a chain of \<open>||\<close> and \<open>&&\<close>, the
  model is a list of steps that stops at the first failure (\<open>all_ok\<close>).
\<close>

datatype io_return = IO_Success | IO_BadArgument | IO_NoDevice | IO_NotReady | IO_Busy | IO_IOError | IO_Other u32

record buffer =
  bf_memory :: bool
  bf_cpu :: mem
  bf_dma :: u64
  bf_size :: u64

definition no_buffer :: buffer where
  "no_buffer = \<lparr>bf_memory = False, bf_cpu = (\<lambda>_. 0), bf_dma = 0, bf_size = 0\<rparr>"

record hw_object =
  ob_id :: u32
  ob_live :: bool

definition no_object :: hw_object where
  "no_object = \<lparr>ob_id = 0, ob_live = False\<rparr>"

text \<open>
  A pool of pages given to the firmware; \<open>pl_given\<close> are the words of its bitmap.
\<close>

record pool =
  pl_buffer :: buffer
  pl_count :: u32
  pl_owned :: u32
  pl_function :: u16
  pl_given :: "nat \<Rightarrow> u64"

definition mark_given :: "nat \<Rightarrow> pool \<Rightarrow> pool" where
  "mark_given page p = p\<lparr>pl_given := (pl_given p)(page div 64 := pl_given p (page div 64) OR push_bit (page mod 64) 1)\<rparr>"

definition take_given :: "u32 \<Rightarrow> pool \<Rightarrow> pool option" where
  "take_given page p =
     (if pl_count p \<le> page then None
      else let m = push_bit (unat page mod 64) 1; i = unat page div 64 in
        if pl_given p i AND m = 0 then None
        else Some (p\<lparr>pl_given := (pl_given p)(i := pl_given p i AND NOT m)\<rparr>))"

text \<open>
  What IOKit gave for an allocation: no memory, no address in this kernel or no mapping object for
  it, or the result of mapping it and, where that is a success, the address of its one segment.
\<close>

datatype allocated = No_memory | No_mapping | Mapped io_return u64

text \<open>What the transport keeps besides the command queue: the BAR and the mapped doorbell page.\<close>

record bar_state =
  br_bar :: bool
  br_bytes :: u64
  br_map :: "u64 option"
  br_base :: u64
  br_uar :: u64
  br_buffer :: u32

record mtu_state =
  mt_maximum :: u16
  mt_admin :: u16
  mt_oper :: u16
  mt_vport :: u16

text \<open>
  The adapter object. Its last two fields are not the driver's: they record what the firmware was
  sent and gave back, as the bytes of the MANAGE\_PAGES commands and answers say it. \<open>h_firmware\<close>
  are the addresses of pages in give commands that succeeded, less those the firmware returned;
  \<open>h_in_doubt\<close> those in give commands that left the transport quarantined. No operation reads them.
\<close>

record hca =
  h_transport :: transport
  h_queue_buffer :: buffer
  h_bar :: bar_state
  h_saved_command :: u16
  h_command_saved :: bool
  h_input :: mem
  h_output :: mem
  h_boot :: pool
  h_initial :: pool
  h_uar :: hw_object
  h_eq :: hw_object
  h_skipped :: "hw_object list"
  h_eq_buffer :: buffer
  h_next_key :: u8
  h_uar_shift :: u32
  h_startup_error :: io_return
  h_page_phase :: u16
  h_page_step :: u16
  h_page_count :: u32
  h_mac :: "u8 list"
  h_gid :: "u8 list"
  h_bf_capable :: bool
  h_bf_enabled :: bool
  h_bf_bytes :: u32
  h_bf_posts :: u64
  h_user_queues_requested :: bool
  h_user_queues :: bool
  h_user_bf_requested :: bool
  h_user_bf :: bool
  h_relaxed_requested :: bool
  h_relaxed_refused :: bool
  h_relaxed_keys :: u64
  h_ack_every :: bool
  h_any_qp :: bool
  h_mtu :: u16
  h_max_mtu :: u16
  h_frame_admin :: u16
  h_frame_oper :: u16
  h_frame_vport :: u16
  h_firmware :: "u64 list"
  h_in_doubt :: "u64 list"

record 'w hca_ops =
  io_adapter :: "'w adapter_ops"
  io_detached :: "'w \<Rightarrow> bool \<times> 'w"
  io_read32 :: "u64 \<Rightarrow> 'w \<Rightarrow> u32 \<times> 'w"
  io_write32 :: "u64 \<Rightarrow> u32 \<Rightarrow> 'w \<Rightarrow> bool \<times> 'w"
  io_config_write :: "u16 \<Rightarrow> 'w \<Rightarrow> 'w"
  io_config_read :: "'w \<Rightarrow> u16 \<times> 'w"
  io_allocate :: "u64 \<Rightarrow> 'w \<Rightarrow> allocated \<times> 'w"
  io_release :: "u64 \<Rightarrow> 'w \<Rightarrow> io_return \<times> 'w"
  io_map :: "u64 \<Rightarrow> bool \<Rightarrow> 'w \<Rightarrow> u64 option \<times> 'w"
  io_store :: "u64 \<Rightarrow> u64 list \<Rightarrow> 'w \<Rightarrow> 'w"

type_synonym 'w step = "hca \<times> 'w \<Rightarrow> bool \<times> hca \<times> 'w"

fun all_ok :: "'w step list \<Rightarrow> 'w step" where
  "all_ok [] s = (True, s)"
| "all_ok (f # fs) s = (case f s of (True, s') \<Rightarrow> all_ok fs s' | (False, s') \<Rightarrow> (False, s'))"

definition modify :: "(hca \<Rightarrow> hca) \<Rightarrow> 'w step" where
  "modify f s = (case s of (h, w) \<Rightarrow> (True, f h, w))"

definition require :: "(hca \<Rightarrow> bool) \<Rightarrow> 'w step" where
  "require c s = (case s of (h, w) \<Rightarrow> (c h, h, w))"

definition put_input :: "(mem \<Rightarrow> mem) \<Rightarrow> hca \<Rightarrow> hca" where
  "put_input f h = h\<lparr>h_input := f (h_input h)\<rparr>"

definition quarantine :: "hca \<Rightarrow> hca" where
  "quarantine h = h\<lparr>h_transport := (h_transport h)\<lparr>tr_quarantined := True\<rparr>\<rparr>"

subsection \<open>Buffers\<close>

abbreviation (input) MAX_ALLOCATION :: u64 where "MAX_ALLOCATION \<equiv> 67108864"

abbreviation (input) IO_NoMemory :: io_return where "IO_NoMemory \<equiv> IO_Other 0xe00002bd"
abbreviation (input) IO_Unsupported :: io_return where "IO_Unsupported \<equiv> IO_Other 0xe00002c7"

text \<open>
  An allocation that fails after the mapping object exists gives everything back through
  \<open>release\<close>, whose own failure is ignored: the buffer then keeps its memory, without an address.
\<close>

definition buffer_allocate :: "'w hca_ops \<Rightarrow> u64 \<Rightarrow> buffer \<Rightarrow> 'w \<Rightarrow> io_return \<times> buffer \<times> 'w" where
  "buffer_allocate ops bytes b w =
     (if bf_memory b \<or> bytes = 0 \<or> MAX_ALLOCATION < bytes then (IO_BadArgument, b, w)
      else
        let n = (bytes + 16383) AND NOT 16383; kept = \<lparr>bf_memory = True, bf_cpu = (\<lambda>_. 0), bf_dma = 0, bf_size = n\<rparr> in
        case io_allocate ops n w of
          (No_memory, w1) \<Rightarrow> (IO_NoMemory, b\<lparr>bf_size := n\<rparr>, w1)
        | (No_mapping, w1) \<Rightarrow> (IO_NoMemory, no_buffer, w1)
        | (Mapped r dma, w1) \<Rightarrow>
            (let r' = (if r = IO_Success \<and> (dma = 0 \<or> dma AND 4095 \<noteq> 0 \<or> - 1 - n < dma) then IO_Unsupported else r) in
             if r' = IO_Success then (IO_Success, kept\<lparr>bf_dma := dma\<rparr>, w1)
             else (case io_release ops 0 w1 of (e, w2) \<Rightarrow> (r', if e = IO_Success then no_buffer else kept, w2))))"

definition buffer_release :: "'w hca_ops \<Rightarrow> buffer \<Rightarrow> 'w \<Rightarrow> io_return \<times> buffer \<times> 'w" where
  "buffer_release ops b w =
     (if bf_memory b then (case io_release ops (bf_dma b) w of
          (IO_Success, w') \<Rightarrow> (IO_Success, no_buffer, w')
        | (e, w') \<Rightarrow> (e, b, w'))
      else (IO_Success, no_buffer, w))"

subsection \<open>Commands\<close>

definition header :: "u16 \<Rightarrow> u16 \<Rightarrow> hca \<Rightarrow> hca" where
  "header opcode modifier = put_input (\<lambda>p.
     write_be32 (write_be32 (mem_write p 0 (replicate 8192 0)) 0 (push_bit 16 (ucast opcode))) 4 (ucast modifier))"

definition call :: "'w hca_ops \<Rightarrow> nat \<Rightarrow> nat \<Rightarrow> 'w step" where
  "call ops in_bytes out_bytes s =
     (case s of (h, w) \<Rightarrow>
        (case execute (io_adapter ops) (h_input h) in_bytes (mem_write (h_output h) 0 (replicate 8192 0)) out_bytes (h_transport h) w of
           (ok, out, t, w') \<Rightarrow> (ok, h\<lparr>h_output := out, h_transport := t\<rparr>, w')))"

definition simple :: "'w hca_ops \<Rightarrow> u16 \<Rightarrow> u16 \<Rightarrow> nat \<Rightarrow> 'w step" where
  "simple ops opcode modifier out_bytes = all_ok [modify (header opcode modifier), call ops 16 out_bytes]"

definition count_up :: "hca \<Rightarrow> hca" where
  "count_up h = h\<lparr>h_transport := (h_transport h)\<lparr>tr_resources := tr_resources (h_transport h) + 1\<rparr>\<rparr>"

definition count_down :: "hca \<Rightarrow> hca" where
  "count_down h = h\<lparr>h_transport := (h_transport h)\<lparr>tr_resources := tr_resources (h_transport h) - 1\<rparr>\<rparr>"

text \<open>Both take the object and give it back.\<close>

definition create :: "'w hca_ops \<Rightarrow> hw_object \<Rightarrow> nat \<Rightarrow> hca \<times> 'w \<Rightarrow> bool \<times> hw_object \<times> hca \<times> 'w" where
  "create ops object in_bytes s =
     (if ob_live object then (False, object, s)
      else (case call ops in_bytes 16 s of
              (False, s') \<Rightarrow> (False, object, s')
            | (True, h, w) \<Rightarrow> (True, \<lparr>ob_id = read_be32 (h_output h) 8 AND 0xffffff, ob_live = True\<rparr>, count_up h, w)))"

definition destroy :: "'w hca_ops \<Rightarrow> hw_object \<Rightarrow> u16 \<Rightarrow> hca \<times> 'w \<Rightarrow> bool \<times> hw_object \<times> hca \<times> 'w" where
  "destroy ops object opcode s =
     (if \<not> ob_live object then (True, object, s)
      else (case s of (h, w) \<Rightarrow> (case io_detached ops w of
         (True, w1) \<Rightarrow> (True, no_object, count_down h, w1)
       | (False, w1) \<Rightarrow>
           (case call ops 16 16 (put_input (\<lambda>p. write_be32 p 8 (ob_id object)) (header opcode 0 h), w1) of
              (False, s') \<Rightarrow> (False, object, s')
            | (True, h', w') \<Rightarrow> (True, no_object, count_down h', w')))))"

text \<open>The same on an object the adapter object itself holds.\<close>

definition create_at :: "'w hca_ops \<Rightarrow> (hca \<Rightarrow> hw_object) \<Rightarrow> (hw_object \<Rightarrow> hca \<Rightarrow> hca) \<Rightarrow> nat \<Rightarrow> 'w step" where
  "create_at ops get put in_bytes s =
     (case create ops (get (fst s)) in_bytes s of (ok, ob, h, w) \<Rightarrow> (ok, put ob h, w))"

definition destroy_at :: "'w hca_ops \<Rightarrow> (hca \<Rightarrow> hw_object) \<Rightarrow> (hw_object \<Rightarrow> hca \<Rightarrow> hca) \<Rightarrow> u16 \<Rightarrow> 'w step" where
  "destroy_at ops get put opcode s =
     (case destroy ops (get (fst s)) opcode s of (ok, ob, h, w) \<Rightarrow> (ok, put ob h, w))"

subsection \<open>The firmware's pages\<close>

datatype pool_name = Boot | Initial

fun get_pool :: "pool_name \<Rightarrow> hca \<Rightarrow> pool" where
  "get_pool Boot h = h_boot h"
| "get_pool Initial h = h_initial h"

fun set_pool :: "pool_name \<Rightarrow> pool \<Rightarrow> hca \<Rightarrow> hca" where
  "set_pool Boot p h = h\<lparr>h_boot := p\<rparr>"
| "set_pool Initial p h = h\<lparr>h_initial := p\<rparr>"

text \<open>The loop that gives the pages from \<open>offset\<close> on, \<open>left\<close> of them, 256 at a time.\<close>

definition give_command :: "pool \<Rightarrow> nat \<Rightarrow> nat \<Rightarrow> hca \<Rightarrow> hca" where
  "give_command p offset batch h =
     put_input (\<lambda>m. fold (\<lambda>j m. write_be64 m (16 + j * 8) (bf_dma (pl_buffer p) + of_nat (offset + j) * 4096)) [0..<batch]
         (write_be32 (write_be32 m 8 (ucast (pl_function p))) 12 (of_nat batch)))
       (header 0x108 1 (h\<lparr>h_page_step := 4\<rparr>))"

definition given_batch :: "nat \<Rightarrow> nat \<Rightarrow> pool \<Rightarrow> pool" where
  "given_batch offset batch p =
     (let p1 = fold (\<lambda>j. mark_given (offset + j)) [0..<batch] p in p1\<lparr>pl_owned := pl_owned p1 + of_nat batch\<rparr>)"

text \<open>The addresses in a give command, read from its bytes, and their record once its outcome is known.\<close>

definition sent_pages :: "hca \<Rightarrow> u64 list" where
  "sent_pages h = map (\<lambda>j. read_be64 (h_input h) (16 + j * 8)) [0..<unat (read_be32 (h_input h) 12)]"

definition pages_given :: "u64 list \<Rightarrow> hca \<Rightarrow> hca" where
  "pages_given as h = h\<lparr>h_firmware := h_firmware h @ as\<rparr>"

definition pages_doubted :: "u64 list \<Rightarrow> hca \<Rightarrow> hca" where
  "pages_doubted as h = (if tr_quarantined (h_transport h) then h\<lparr>h_in_doubt := h_in_doubt h @ as\<rparr> else h)"

function give_loop :: "'w hca_ops \<Rightarrow> pool_name \<Rightarrow> nat \<Rightarrow> nat \<Rightarrow> 'w step" where
  "give_loop ops name offset left s =
     (if left = 0 then (True, s)
      else
        let batch = min left 256 in
        case s of (h, w) \<Rightarrow>
          (let sent = give_command (get_pool name h) offset batch h in
           case call ops (16 + batch * 8) 16 (sent, w) of
             (False, h', w') \<Rightarrow> (False, pages_doubted (sent_pages sent) h', w')
           | (True, h', w') \<Rightarrow>
               give_loop ops name (offset + batch) (left - batch)
                 (set_pool name (given_batch offset batch (get_pool name h')) (pages_given (sent_pages sent) h'), w')))"
  by pat_completeness auto
termination by (relation "measure (\<lambda>(ops, name, offset, left, s). left)") auto

declare give_loop.simps [simp del]

definition provide :: "'w hca_ops \<Rightarrow> pool_name \<Rightarrow> u16 \<Rightarrow> 'w step" where
  "provide ops name phase s =
     (case simple ops 0x107 phase 16 (case s of (h, w) \<Rightarrow> (h\<lparr>h_page_phase := phase, h_page_step := 1, h_page_count := 0\<rparr>, w)) of
        (False, s') \<Rightarrow> (False, s')
      | (True, h, w) \<Rightarrow>
          (let count = read_be32 (h_output h) 12;
               h1 = h\<lparr>h_page_count := count, h_page_step := 2\<rparr>
           in if count <s 0 \<or> 16384 < count \<or> bf_memory (pl_buffer (get_pool name h1))
              then (False, h1\<lparr>h_startup_error := IO_BadArgument\<rparr>, w)
              else
                let h2 = set_pool name ((get_pool name h1)\<lparr>pl_count := count, pl_function := ucast (read_be32 (h_output h) 8)\<rparr>) h1 in
                if count = 0 then (True, h2\<lparr>h_page_step := 0, h_page_phase := 0\<rparr>, w)
                else
                  (case buffer_allocate ops (ucast count * 4096) (pl_buffer (get_pool name h2)) w of (e, b, w1) \<Rightarrow>
                     let h3 = set_pool name ((get_pool name h2)\<lparr>pl_buffer := b\<rparr>) (h2\<lparr>h_page_step := 3\<rparr>) in
                     if e \<noteq> IO_Success then (False, h3\<lparr>h_startup_error := e\<rparr>, w1)
                     else all_ok [give_loop ops name 0 (unat count), modify (\<lambda>h. h\<lparr>h_page_step := 0, h_page_phase := 0\<rparr>)] (h3, w1))))"

text \<open>Taking pages back: each address has to be a page given from the boot or the initial pool.\<close>

definition in_pool :: "u16 \<Rightarrow> u64 \<Rightarrow> pool \<Rightarrow> bool" where
  "in_pool function dma p \<longleftrightarrow> pl_function p = function \<and> bf_dma (pl_buffer p) \<le> dma \<and>
     dma - bf_dma (pl_buffer p) < ucast (pl_count p) * 4096 \<and> dma AND 4095 = 0"

definition owner_of :: "u16 \<Rightarrow> u64 \<Rightarrow> hca \<Rightarrow> pool_name option" where
  "owner_of function dma h =
     (if in_pool function dma (h_initial h) then Some Initial else if in_pool function dma (h_boot h) then Some Boot else None)"

definition page_returned :: "u64 \<Rightarrow> hca \<Rightarrow> hca" where
  "page_returned dma h = h\<lparr>h_firmware := remove1 dma (h_firmware h)\<rparr>"

fun take_loop :: "u16 \<Rightarrow> nat list \<Rightarrow> hca \<Rightarrow> bool \<times> hca" where
  "take_loop function [] h = (True, h)"
| "take_loop function (j # js) h =
     (let dma = read_be64 (h_output h) (16 + j * 8) in
      case owner_of function dma h of
        None \<Rightarrow> (False, quarantine h)
      | Some name \<Rightarrow>
          (let p = get_pool name h in
           case take_given (ucast ((dma - bf_dma (pl_buffer p)) div 4096)) p of
             None \<Rightarrow> (False, quarantine h)
           | Some p' \<Rightarrow> take_loop function js (set_pool name (p'\<lparr>pl_owned := pl_owned p' - 1\<rparr>) (page_returned dma h))))"

definition reclaim_round :: "'w hca_ops \<Rightarrow> pool_name \<Rightarrow> 'w step" where
  "reclaim_round ops name s =
     (case s of (h, w) \<Rightarrow>
        let p = get_pool name h; batch = min (pl_owned p) 256 in
        case call ops 16 (16 + unat batch * 8)
               (put_input (\<lambda>m. write_be32 (write_be32 m 8 (ucast (pl_function p))) 12 batch) (header 0x108 2 h), w) of
          (False, s') \<Rightarrow> (False, s')
        | (True, h', w') \<Rightarrow>
            (let returned = read_be32 (h_output h') 8 in
             if returned = 0 \<or> batch < returned then (False, quarantine h', w')
             else (case take_loop (pl_function p) [0..<unat returned] h' of (ok, h'') \<Rightarrow> (ok, h'', w'))))"

subsubsection \<open>Each round takes pages back\<close>

definition given_pages :: "pool \<Rightarrow> nat set" where
  "given_pages p = {i. i < unat (pl_count p) \<and> bit (pl_given p (i div 64)) (i mod 64)}"

definition pages_out :: "hca \<Rightarrow> nat" where
  "pages_out h = card (given_pages (h_boot h)) + card (given_pages (h_initial h))"

lemma finite_given [simp]: "finite (given_pages p)"
  by (simp add: given_pages_def)

lemma page_index: "i div 64 = j div 64 \<and> i mod 64 = j mod 64 \<longleftrightarrow> i = (j :: nat)"
  by (metis mult_div_mod_eq)

lemma take_given_Some:
  assumes "take_given page p = Some p'"
  shows "unat page \<in> given_pages p" "given_pages p' = given_pages p - {unat page}"
    "pl_count p' = pl_count p" "pl_owned p' = pl_owned p" "pl_buffer p' = pl_buffer p" "pl_function p' = pl_function p"
proof -
  let ?i = "unat page div 64" and ?b = "unat page mod 64"
  have p': "p' = p\<lparr>pl_given := (pl_given p)(?i := pl_given p ?i AND NOT (push_bit ?b 1))\<rparr>"
    and c: "page < pl_count p" "pl_given p ?i AND push_bit ?b 1 \<noteq> 0"
    using assms by (auto simp: take_given_def Let_def not_le split: if_splits)
  have b: "bit (pl_given p ?i) ?b"
  proof (rule ccontr)
    assume "\<not> bit (pl_given p ?i) ?b"
    then have "pl_given p ?i AND push_bit ?b 1 = 0" by (intro bit_word_eqI) (auto simp: bit_simps)
    with c show False by simp
  qed
  with c(1) show "unat page \<in> given_pages p" by (simp add: given_pages_def word_less_nat_alt)
  show "given_pages p' = given_pages p - {unat page}"
  proof (rule set_eqI)
    fix i
    have "bit (pl_given p' (i div 64)) (i mod 64) \<longleftrightarrow> bit (pl_given p (i div 64)) (i mod 64) \<and> i \<noteq> unat page"
    proof (cases "i div 64 = ?i")
      case True
      have "bit (pl_given p ?i AND NOT (push_bit ?b 1)) (i mod 64) \<longleftrightarrow> bit (pl_given p ?i) (i mod 64) \<and> i mod 64 \<noteq> ?b"
        by (auto simp: bit_simps)
      with True page_index [of i "unat page"] show ?thesis by (simp add: p')
    next
      case False
      then show ?thesis by (auto simp: p')
    qed
    then show "i \<in> given_pages p' \<longleftrightarrow> i \<in> given_pages p - {unat page}" by (auto simp: given_pages_def p')
  qed
  show "pl_count p' = pl_count p" "pl_owned p' = pl_owned p" "pl_buffer p' = pl_buffer p" "pl_function p' = pl_function p"
    by (simp_all add: p')
qed

lemma pools_other [simp]:
  "h_boot (quarantine h) = h_boot h" "h_initial (quarantine h) = h_initial h"
  "h_output (quarantine h) = h_output h" "h_output (set_pool name p h) = h_output h"
  "get_pool name (quarantine h) = get_pool name h"
  "get_pool name (put_input f h) = get_pool name h" "get_pool name (header a b h) = get_pool name h"
  "get_pool name (set_pool name p h) = p" "n \<noteq> name \<Longrightarrow> get_pool n (set_pool name p h) = get_pool n h"
  "h_transport (set_pool name p h) = h_transport h" "h_transport (put_input f h) = h_transport h"
  by (cases name; cases n; simp add: quarantine_def put_input_def header_def)+

lemma page_record [simp]:
  "get_pool name (page_returned a h) = get_pool name h" "get_pool name (pages_given as h) = get_pool name h"
  "get_pool name (pages_doubted as h) = get_pool name h" "h_output (page_returned a h) = h_output h"
  "h_transport (page_returned a h) = h_transport h" "h_transport (pages_given as h) = h_transport h"
  "h_transport (pages_doubted as h) = h_transport h"
  by (cases name; simp add: page_returned_def pages_given_def pages_doubted_def)+

lemma call_pools:
  assumes "call ops i out (h, w) = (ok, h', w')"
  shows "get_pool name h' = get_pool name h"
  using assms by (cases name) (auto simp: call_def split: prod.splits)

lemma pages_out_pools: "pages_out h = card (given_pages (get_pool Boot h)) + card (given_pages (get_pool Initial h))"
  by (simp add: pages_out_def)

lemma pages_out_cong: "(\<And>name. get_pool name h' = get_pool name h) \<Longrightarrow> pages_out h' = pages_out h"
  by (simp add: pages_out_pools)

lemma take_loop_out:
  "take_loop function js h = (ok, h') \<Longrightarrow> pages_out h' + (if ok then length js else 0) \<le> pages_out h"
proof (induction js arbitrary: h)
  case (Cons j js)
  let ?dma = "read_be64 (h_output h) (16 + j * 8)"
  show ?case
  proof (cases "owner_of function ?dma h")
    case None
    then show ?thesis using Cons.prems by (auto simp: pages_out_def)
  next
    case (Some name)
    let ?p = "get_pool name h"
    show ?thesis
    proof (cases "take_given (ucast ((?dma - bf_dma (pl_buffer ?p)) div 4096)) ?p")
      case None
      then show ?thesis using Cons.prems Some by (auto simp: pages_out_def Let_def)
    next
      case (Some p')
      let ?h = "set_pool name (p'\<lparr>pl_owned := pl_owned p' - 1\<rparr>) (page_returned ?dma h)"
      note t = take_given_Some [OF Some]
      have "given_pages (p'\<lparr>pl_owned := pl_owned p' - 1\<rparr>) = given_pages p'" by (simp add: given_pages_def)
      then have "pages_out ?h + 1 = pages_out h"
        using t(1,2) card_Suc_Diff1 [OF finite_given t(1)] by (cases name) (simp_all add: pages_out_def page_returned_def)
      moreover have "take_loop function js ?h = (ok, h')" using Cons.prems \<open>owner_of function ?dma h = Some name\<close> Some by (simp add: Let_def)
      ultimately show ?thesis using Cons.IH [of ?h] by (auto split: if_splits)
    qed
  qed
qed simp

lemma reclaim_round_out:
  assumes "reclaim_round ops name (h, w) = (True, h', w')"
  shows "pages_out h' < pages_out h"
proof -
  obtain h1 n where r: "pages_out h1 = pages_out h" "take_loop (pl_function (get_pool name h)) [0..<unat n] h1 = (True, h')" "n \<noteq> (0 :: u32)"
  proof -
    assume goal: "\<And>h1 n. pages_out h1 = pages_out h \<Longrightarrow> take_loop (pl_function (get_pool name h)) [0..<unat n] h1 = (True, h') \<Longrightarrow>
      n \<noteq> (0 :: u32) \<Longrightarrow> thesis"
    let ?h0 = "put_input (\<lambda>m. write_be32 (write_be32 m 8 (ucast (pl_function (get_pool name h)))) 12 (min (pl_owned (get_pool name h)) 256)) (header 0x108 2 h)"
    from assms obtain h1 w1 where c: "call ops 16 (16 + unat (min (pl_owned (get_pool name h)) 256) * 8) (?h0, w) = (True, h1, w1)"
      and t: "take_loop (pl_function (get_pool name h)) [0..<unat (read_be32 (h_output h1) 8)] h1 = (True, h')"
      and n: "read_be32 (h_output h1) 8 \<noteq> 0"
      by (auto simp: reclaim_round_def Let_def split: prod.splits bool.splits if_splits)
    have "pages_out h1 = pages_out h" using call_pools [OF c] by (intro pages_out_cong) simp
    then show thesis using goal t n by blast
  qed
  have "0 < unat n" using r(3) by (simp add: unat_gt_0)
  with r(1) take_loop_out [OF r(2)] show ?thesis by simp
qed

function reclaim :: "'w hca_ops \<Rightarrow> pool_name \<Rightarrow> 'w step" where
  "reclaim ops name s =
     (case s of (h, w) \<Rightarrow>
        if pl_owned (get_pool name h) = 0 \<or> tr_quarantined (h_transport h) then (pl_owned (get_pool name h) = 0, h, w)
        else (case reclaim_round ops name (h, w) of
                (False, s') \<Rightarrow> (False, s')
              | (True, s') \<Rightarrow> reclaim ops name s'))"
  by pat_completeness auto
termination
  by (relation "measure (\<lambda>(ops, name, h, w). pages_out h)") (auto dest: reclaim_round_out [OF sym])

declare reclaim.simps [simp del]

subsection \<open>The command queue and the doorbell page\<close>

definition command_queue_available :: "u32 \<Rightarrow> u32 \<Rightarrow> bool" where
  "command_queue_available high low \<longleftrightarrow> high = 0 \<and> (low AND 0xfffff000 = 0 \<or> low = 0x80000156)"

fun open_wait :: "nat \<Rightarrow> 'w hca_ops \<Rightarrow> 'w \<Rightarrow> io_return \<times> 'w" where
  "open_wait 0 ops w = (IO_NotReady, w)"
| "open_wait (Suc n) ops w =
     (case io_read32 ops 0x1fc w of (v, w1) \<Rightarrow> if v AND 0x80000000 = 0 then (IO_Success, w1) else open_wait n ops w1)"

text \<open>From the queue memory on: the bus is enabled, then the firmware gets the queue's address.\<close>

definition open_queue :: "'w hca_ops \<Rightarrow> hca \<times> 'w \<Rightarrow> io_return \<times> hca \<times> 'w" where
  "open_queue ops s =
     (case s of (h, w) \<Rightarrow>
        let dma = tr_dma (h_transport h); hi = ucast (drop_bit 32 dma) :: u32; lo = ucast dma :: u32;
            w1 = io_config_write ops (h_saved_command h OR 2 OR 4) w in
        case io_config_read ops w1 of (c, w2) \<Rightarrow>
        if c AND 4 = 0 then (IO_NotReady, h, w2)
        else (case io_write32 ops 0x10 hi w2 of
          (False, w3) \<Rightarrow> (IO_NoDevice, quarantine h, w3)
        | (True, w3) \<Rightarrow> (case io_write32 ops 0x14 lo w3 of
            (False, w4) \<Rightarrow> (IO_NoDevice, quarantine h, w4)
          | (True, w4) \<Rightarrow>
              (let h1 = h\<lparr>h_transport := (h_transport h)\<lparr>tr_bound := True\<rparr>\<rparr> in
               case io_read32 ops 0x10 w4 of (r, w5) \<Rightarrow>
               if r \<noteq> hi then (IO_IOError, h1, w5)
               else (case io_read32 ops 0x14 w5 of (r', w6) \<Rightarrow>
                 if r' AND 0xfffff000 \<noteq> lo then (IO_IOError, h1, w6)
                 else (case open_wait 1000 ops w6 of (e, w7) \<Rightarrow> (e, h1, w7)))))))"

definition transport_open :: "'w hca_ops \<Rightarrow> hca \<times> 'w \<Rightarrow> io_return \<times> hca \<times> 'w" where
  "transport_open ops s =
     (case s of (h, w) \<Rightarrow>
        case io_detached ops w of (gone, w1) \<Rightarrow>
        if gone \<or> bf_memory (h_queue_buffer h) \<or> tr_quarantined (h_transport h) then (IO_NotReady, h, w1)
        else (case io_read32 ops 0x10 w1 of (high, w2) \<Rightarrow> (case io_read32 ops 0x14 w2 of (low, w3) \<Rightarrow>
          if high = -1 \<or> low = -1 then (IO_NoDevice, h, w3)
          else if \<not> command_queue_available high low then (IO_Busy, h, w3)
          else (case buffer_allocate ops 65536 (h_queue_buffer h) w3 of (e, b, w4) \<Rightarrow>
            let h1 = h\<lparr>h_queue_buffer := b\<rparr> in
            if e \<noteq> IO_Success then (e, h1, w4)
            else open_queue ops (h1\<lparr>h_transport := (h_transport h1)\<lparr>tr_queue := bf_cpu b, tr_dma := bf_dma b\<rparr>\<rparr>, w4)))))"

text \<open>The adapter's pages for doorbells: one mapping, uncached or write-combined.\<close>

definition map_uar :: "'w hca_ops \<Rightarrow> u64 \<Rightarrow> bool \<Rightarrow> 'w step" where
  "map_uar ops page_offset write_combine s =
     (case s of (h, w) \<Rightarrow>
        if br_map (h_bar h) \<noteq> None \<or> page_offset < 16384 then (False, h, w)
        else (case io_map ops page_offset write_combine w of
                (None, w1) \<Rightarrow> (False, h, w1)
              | (Some len, w1) \<Rightarrow> (True, h\<lparr>h_bar := (h_bar h)\<lparr>br_map := Some len, br_base := page_offset\<rparr>\<rparr>, w1)))"

definition uar_offset_bad :: "u64 \<Rightarrow> bar_state \<Rightarrow> bool" where
  "uar_offset_bad off b \<longleftrightarrow> \<not> br_bar b \<or> br_map b \<noteq> None \<or> off < 16384 \<or> off AND 4095 \<noteq> 0 \<or>
     br_bytes b < 4096 \<or> br_bytes b - 4096 < off"

definition configure_doorbell :: "'w hca_ops \<Rightarrow> u64 \<Rightarrow> 'w step" where
  "configure_doorbell ops off s =
     (case s of (h, w) \<Rightarrow> (case transport_ready (io_adapter ops) (h_transport h) w of (ready, w1) \<Rightarrow>
        if \<not> ready \<or> uar_offset_bad off (h_bar h) then (False, h, w1)
        else all_ok [map_uar ops (off AND NOT 16383) False,
               modify (\<lambda>h. h\<lparr>h_bar := (h_bar h)\<lparr>br_uar := off, br_buffer := 0\<rparr>\<rparr>)] (h, w1)))"

definition configure_blueflame :: "'w hca_ops \<Rightarrow> u64 \<Rightarrow> u32 \<Rightarrow> 'w step" where
  "configure_blueflame ops off bytes s =
     (case s of (h, w) \<Rightarrow> (case transport_ready (io_adapter ops) (h_transport h) w of (ready, w1) \<Rightarrow>
        if \<not> ready \<or> uar_offset_bad off (h_bar h) \<or> bytes < 128 \<or> 1024 < bytes \<or> bytes AND (bytes - 1) \<noteq> 0
        then (False, h, w1)
        else all_ok [map_uar ops (off AND NOT 16383) True,
               modify (\<lambda>h. h\<lparr>h_bar := (h_bar h)\<lparr>br_uar := off, br_buffer := bytes\<rparr>\<rparr>)] (h, w1)))"

definition write64 :: "'w hca_ops \<Rightarrow> u64 \<Rightarrow> u64 \<Rightarrow> 'w step" where
  "write64 ops off v s =
     (case s of (h, w) \<Rightarrow> (case transport_ready (io_adapter ops) (h_transport h) w of (ready, w1) \<Rightarrow>
        let b = h_bar h in
        case br_map b of
          None \<Rightarrow> (False, h, w1)
        | Some len \<Rightarrow>
            if \<not> ready \<or> br_buffer b \<noteq> 0 \<or> off \<noteq> br_uar b + 0x800 \<or> off < br_base b \<or> len < 8 \<or> len - 8 < off - br_base b
            then (False, h, w1)
            else (True, h, io_store ops (off - br_base b) [v] w1)))"

definition write_blueflame :: "'w hca_ops \<Rightarrow> u64 \<Rightarrow> u8 list \<Rightarrow> 'w step" where
  "write_blueflame ops off wqe s =
     (case s of (h, w) \<Rightarrow> (case transport_ready (io_adapter ops) (h_transport h) w of (ready, w1) \<Rightarrow>
        let b = h_bar h in
        case br_map b of
          None \<Rightarrow> (False, h, w1)
        | Some len \<Rightarrow>
            if \<not> ready \<or> br_buffer b = 0 \<or> (off \<noteq> br_uar b + 0x800 \<and> off \<noteq> br_uar b + 0x800 + ucast (br_buffer b)) \<or>
               off < br_base b \<or> len < 128 \<or> len - 128 < off - br_base b
            then (False, h, w1)
            else (True, h, io_store ops (off - br_base b)
                   (map (\<lambda>i. if i < 8 then get_le (take 8 (drop (i * 8) wqe)) else 0) [0..<16]) w1)))"

text \<open>
  Closing: the queue's address is withdrawn and the command register put back before the memory of
  the queue is released. The restoration of the PCIe read request size is not modelled.
\<close>

definition close_registers :: "'w hca_ops \<Rightarrow> hca \<times> 'w \<Rightarrow> io_return \<times> 'w" where
  "close_registers ops s =
     (case s of (h, w) \<Rightarrow>
        let restore = (\<lambda>w. if \<not> h_command_saved h then (IO_Success, w)
              else case io_config_read ops (io_config_write ops (h_saved_command h) w) of
                (c, w') \<Rightarrow> (if c \<noteq> h_saved_command h then IO_NotReady else IO_Success, w')) in
        if \<not> tr_bound (h_transport h) then restore w
        else (case io_write32 ops 0x10 0 w of
          (False, w1) \<Rightarrow> (IO_NotReady, w1)
        | (True, w1) \<Rightarrow> (case io_write32 ops 0x14 0 w1 of
            (False, w2) \<Rightarrow> (IO_NotReady, w2)
          | (True, w2) \<Rightarrow> (case io_read32 ops 0x10 w2 of (r, w3) \<Rightarrow>
              if r \<noteq> 0 then (IO_NotReady, w3)
              else (case io_read32 ops 0x14 w3 of (r', w4) \<Rightarrow>
                if r' AND 0xfffff000 \<noteq> 0 then (IO_NotReady, w4) else restore w4)))))"

definition closed :: "hca \<Rightarrow> hca" where
  "closed h = h\<lparr>h_bar := \<lparr>br_bar = False, br_bytes = 0, br_map = None, br_base = 0, br_uar = 0, br_buffer = 0\<rparr>,
     h_command_saved := False, h_transport := (h_transport h)\<lparr>tr_bound := False, tr_enabled := False, tr_initialized := False, tr_quarantined := False\<rparr>\<rparr>"

definition transport_close :: "'w hca_ops \<Rightarrow> hca \<times> 'w \<Rightarrow> io_return \<times> hca \<times> 'w" where
  "transport_close ops s =
     (case s of (h, w) \<Rightarrow>
        let t = h_transport h;
            finish = (\<lambda>w. case buffer_release ops (h_queue_buffer h) w of (e, b, w') \<Rightarrow>
              if e \<noteq> IO_Success then (e, h\<lparr>h_queue_buffer := b\<rparr>, w') else (IO_Success, closed (h\<lparr>h_queue_buffer := b\<rparr>), w')) in
        if tr_resources t \<noteq> 0 then (IO_Busy, h, w)
        else (case io_detached ops w of
          (True, w1) \<Rightarrow> finish w1
        | (False, w1) \<Rightarrow>
            if tr_quarantined t \<or> tr_enabled t \<or> tr_initialized t \<or> tr_resources t \<noteq> 0 then (IO_Busy, h, w1)
            else (case close_registers ops (h, w1) of
                    (IO_Success, w2) \<Rightarrow> finish w2
                  | (e, w2) \<Rightarrow> (e, h, w2))))"

subsection \<open>The port\<close>

definition ready_and :: "'w hca_ops \<Rightarrow> (hca \<Rightarrow> bool) \<Rightarrow> 'w step" where
  "ready_and ops c s =
     (case s of (h, w) \<Rightarrow> (case transport_ready (io_adapter ops) (h_transport h) w of (r, w1) \<Rightarrow> (r \<and> c h, h, w1)))"

definition query_mtu :: "'w hca_ops \<Rightarrow> mtu_state \<Rightarrow> hca \<times> 'w \<Rightarrow> bool \<times> mtu_state \<times> hca \<times> 'w" where
  "query_mtu ops m s =
     (case all_ok [modify (put_input (\<lambda>p. (write_be32 p 8 0x5003)(17 := 1)) \<circ> header 0x805 1), call ops 32 32] s of
        (False, s1) \<Rightarrow> (False, m, s1)
      | (True, h, w) \<Rightarrow>
          (let f = (\<lambda>off. ucast (get_bits (h_output h) 16 16 off 16) :: u16);
               m1 = m\<lparr>mt_maximum := f 0x20, mt_admin := f 0x40, mt_oper := f 0x60\<rparr>
           in case simple ops 0x754 0 272 (h, w) of
                (False, s2) \<Rightarrow> (False, m1, s2)
              | (True, h2, w2) \<Rightarrow>
                  (let m2 = m1\<lparr>mt_vport := ucast (get_bits (h_output h2) 16 256 0x130 16)\<rparr>
                   in (1522 \<le> mt_maximum m2 \<and> 1280 \<le> mt_admin m2 \<and> mt_admin m2 \<le> mt_maximum m2, m2, h2, w2))))"

definition write_port_mtu :: "'w hca_ops \<Rightarrow> u16 \<Rightarrow> 'w step" where
  "write_port_mtu ops bytes = all_ok
     [modify (put_input (\<lambda>p. set_field 16 16 0x40 16 (ucast bytes) ((write_be32 p 8 0x5003)(17 := 1))) \<circ> header 0x805 0),
      call ops 32 32]"

definition write_vport_mtu :: "'w hca_ops \<Rightarrow> u16 \<Rightarrow> 'w step" where
  "write_vport_mtu ops bytes = all_ok
     [modify (put_input (\<lambda>p. set_field 256 256 0x130 16 (ucast bytes) (write_be32 p 12 64)) \<circ> header 0x755 0),
      call ops 512 16]"

definition no_mtu :: mtu_state where
  "no_mtu = \<lparr>mt_maximum = 0, mt_admin = 0, mt_oper = 0, mt_vport = 0\<rparr>"

text \<open>What the code does when the new size was refused or did not read back: both settings restored, or the quarantine.\<close>

definition restore_mtu :: "'w hca_ops \<Rightarrow> mtu_state \<Rightarrow> hca \<times> 'w \<Rightarrow> hca \<times> 'w" where
  "restore_mtu ops before s =
     (if tr_quarantined (h_transport (fst s)) then s
      else (case all_ok [write_port_mtu ops (mt_admin before), write_vport_mtu ops (mt_vport before)] s of
        (False, h, w) \<Rightarrow> (quarantine h, w)
      | (True, s1) \<Rightarrow> (case query_mtu ops no_mtu s1 of (ok, m, h, w) \<Rightarrow>
          if \<not> ok \<or> mt_admin m \<noteq> mt_admin before \<or> mt_vport m \<noteq> mt_vport before then (quarantine h, w) else (h, w))))"

definition configure_ethernet_mtu :: "'w hca_ops \<Rightarrow> u16 \<Rightarrow> 'w step" where
  "configure_ethernet_mtu ops bytes s =
     (case ready_and ops (\<lambda>h. tr_initialized (h_transport h) \<and> \<not> h_any_qp h \<and> 1280 \<le> bytes \<and> bytes \<le> 9000) s of
        (False, s1) \<Rightarrow> (False, s1)
      | (True, s1) \<Rightarrow> (case query_mtu ops no_mtu s1 of
          (False, _, s2) \<Rightarrow> (False, s2)
        | (True, before, s2) \<Rightarrow>
            (let frame = bytes + 22 in
             if mt_maximum before < frame then (False, s2)
             else (case all_ok [write_port_mtu ops frame, write_vport_mtu ops frame] s2 of
               (False, s3) \<Rightarrow> (False, restore_mtu ops before s3)
             | (True, s3) \<Rightarrow> (case query_mtu ops no_mtu s3 of (ok, after, h, w) \<Rightarrow>
                 if ok \<and> mt_admin after = frame \<and> frame \<le> mt_oper after \<and> mt_vport after = frame
                 then (True, h\<lparr>h_mtu := bytes, h_max_mtu := mt_maximum after - 22, h_frame_admin := mt_admin after,
                        h_frame_oper := mt_oper after, h_frame_vport := mt_vport after\<rparr>, w)
                 else (False, restore_mtu ops before (h, w)))))))"

definition source_gid :: "'w hca_ops \<Rightarrow> bool \<Rightarrow> 'w step" where
  "source_gid ops enable = all_ok
     [ready_and ops (\<lambda>h. tr_initialized (h_transport h)),
      modify (\<lambda>h. put_input (\<lambda>p. let q = p(11 := 1) in
          if enable then (mem_write (mem_write q 16 (h_gid h)) 34 (h_mac h))(42 := 1, 43 := 2) else q) (header 0x761 0 h)),
      call ops 48 16]"

definition gid_of_mac :: "u8 list \<Rightarrow> u8 list \<Rightarrow> u8 list" where
  "gid_of_mac mac gid = gid[0 := 0xfe, 1 := 0x80, 8 := mac ! 0 XOR 2, 9 := mac ! 1, 10 := mac ! 2, 11 := 0xff, 12 := 0xfe,
     13 := mac ! 3, 14 := mac ! 4, 15 := mac ! 5]"

definition configure_roce :: "'w hca_ops \<Rightarrow> 'w step" where
  "configure_roce ops = all_ok
     [simple ops 0x754 0 272,
      modify (\<lambda>h. h\<lparr>h_mac := mem_read (h_output h) 262 6\<rparr>),
      require (\<lambda>h. (\<exists>b \<in> set (h_mac h). b \<noteq> 0) \<and> h_mac h ! 0 AND 1 = 0),
      modify (\<lambda>h. h\<lparr>h_gid := gid_of_mac (h_mac h) (h_gid h)\<rparr>),
      modify (put_input (\<lambda>p. (write_be32 p 12 2)(259 := 1)) \<circ> header 0x755 0),
      call ops 512 16,
      source_gid ops True,
      modify (put_input (\<lambda>p. (write_be32 p 8 0x5006)(17 := 1, 18 := 1, 20 := 0x80)) \<circ> header 0x805 0),
      call ops 32 32,
      configure_ethernet_mtu ops 1500]"

definition port_active :: "'w hca_ops \<Rightarrow> hca \<times> 'w \<Rightarrow> bool \<times> bool \<times> hca \<times> 'w" where
  "port_active ops s =
     (case all_ok [ready_and ops (\<lambda>h. tr_initialized (h_transport h)),
          modify (put_input (\<lambda>p. (write_be32 p 8 0x5006)(17 := 1)) \<circ> header 0x805 1), call ops 32 32] s of
        (False, s1) \<Rightarrow> (False, False, s1)
      | (True, h, w) \<Rightarrow>
          (let active = (h_output h 19 = 1) in
           case simple ops 0x750 0 16 (h, w) of
             (False, s2) \<Rightarrow> (False, False, s2)
           | (True, h2, w2) \<Rightarrow>
               (True, active \<and> h_output h2 15 AND 0xf = 1 \<and> drop_bit 4 (h_output h2 15) = 1, h2, w2)))"

text \<open>The eight counters in the order of \<open>PcieCounters\<close>.\<close>

definition query_pcie_counters :: "'w hca_ops \<Rightarrow> hca \<times> 'w \<Rightarrow> bool \<times> u32 list \<times> hca \<times> 'w" where
  "query_pcie_counters ops s =
     (case all_ok [ready_and ops (\<lambda>h. tr_initialized (h_transport h)),
          modify (put_input (\<lambda>p. write_be32 p 8 0x9051) \<circ> header 0x805 1), call ops 272 272] s of
        (False, s1) \<Rightarrow> (False, replicate 8 0, s1)
      | (True, h, w) \<Rightarrow> (True, map (\<lambda>off. read_be32 (h_output h) (24 + off)) [8, 12, 32, 36, 48, 52, 56, 60], h, w))"

text \<open>The largest RoCE MTU code whose packets fit, 0 when none does.\<close>

definition roce_mtu :: "u16 \<Rightarrow> u8" where
  "roce_mtu bytes = fold (\<lambda>n r. if push_bit n 128 + 96 \<le> (ucast bytes :: u32) then of_nat n else r) [1..<6] 0"

subsection \<open>Start and stop\<close>

definition configure_uar_pages :: "'w hca_ops \<Rightarrow> 'w step" where
  "configure_uar_pages ops = all_ok
     [modify (\<lambda>h. put_input (\<lambda>p. set_field 16 4096 0x490 16 2 (mem_write p 16 (mem_read (h_output h) 16 4096))) (header 0x109 0 h)),
      call ops 4112 16,
      simple ops 0x100 1 4112,
      require (\<lambda>h. get_bits (h_output h) 16 4096 0x490 16 = 2)]"

definition read_capabilities :: "hca \<Rightarrow> hca" where
  "read_capabilities h =
     (let shift = 12 + ucast (get_bits (h_output h) 16 4096 0x490 16) :: u32;
          bf_log = ucast (get_bits (h_output h) 16 4096 0x26b 5) :: u32;
          capable = (get_bits (h_output h) 16 4096 0x260 1 \<noteq> 0 \<and> 8 \<le> bf_log \<and> bf_log \<le> 11)
      in h\<lparr>h_uar_shift := shift, h_bf_capable := capable,
           h_bf_bytes := (if capable then push_bit (unat bf_log - 1) 1 else h_bf_bytes h)\<rparr>)"

definition negotiate_uar :: "'w hca_ops \<Rightarrow> 'w step" where
  "negotiate_uar ops s =
     (case s of (h, w) \<Rightarrow>
        let h1 = h\<lparr>h_user_queues := (h_user_queues_requested h \<and> h_uar_shift h = 14)\<rparr> in
        if h_user_queues_requested h1 \<and> \<not> h_user_queues h1
        then (case configure_uar_pages ops (h1, w) of (ok, h2, w2) \<Rightarrow>
                (True, if ok then h2\<lparr>h_uar_shift := 14, h_user_queues := True\<rparr> else h2, w2))
        else (True, h1, w))"

abbreviation (input) put_uar :: "hw_object \<Rightarrow> hca \<Rightarrow> hca" where "put_uar ob h \<equiv> h\<lparr>h_uar := ob\<rparr>"
abbreviation (input) put_eq :: "hw_object \<Rightarrow> hca \<Rightarrow> hca" where "put_eq ob h \<equiv> h\<lparr>h_eq := ob\<rparr>"

text \<open>Register pages below the first that does not share a host page with the control registers are held back.\<close>

fun uar_loop :: "'w hca_ops \<Rightarrow> nat list \<Rightarrow> 'w step" where
  "uar_loop ops [] s = (True, s)"
| "uar_loop ops (attempt # tries) s =
     (case create_at ops h_uar put_uar 16 (header 0x802 0 (fst s), snd s) of
        (False, s1) \<Rightarrow> (False, s1)
      | (True, h, w) \<Rightarrow>
          if (if h_uar_shift h = 14 then 1 else 4) \<le> ob_id (h_uar h) then (True, h, w)
          else if \<exists>held \<in> set (h_skipped h). ob_live held \<and> ob_id held = ob_id (h_uar h) then (False, quarantine h, w)
          else if attempt = 4 then (False, h, w)
          else uar_loop ops tries (h\<lparr>h_skipped := (h_skipped h)[attempt := h_uar h], h_uar := no_object\<rparr>, w))"

definition start_doorbell :: "'w hca_ops \<Rightarrow> 'w step" where
  "start_doorbell ops s =
     (case s of (h, w) \<Rightarrow>
        let off = push_bit (unat (h_uar_shift h)) (ucast (ob_id (h_uar h))) :: u64 in
        case (if h_bf_capable h then configure_blueflame ops off (h_bf_bytes h) (h, w) else (h_bf_enabled h, h, w)) of
          (enabled, h1, w1) \<Rightarrow>
            (let h2 = h1\<lparr>h_bf_enabled := enabled\<rparr> in
             case (if enabled then (True, h2, w1) else configure_doorbell ops off (h2, w1)) of
               (False, s3) \<Rightarrow> (False, s3)
             | (True, h3, w3) \<Rightarrow>
                 (True, h3\<lparr>h_user_bf := (h_user_queues h3 \<and> h_bf_enabled h3 \<and> h_user_bf_requested h3)\<rparr>, w3)))"

definition start_eq :: "'w hca_ops \<Rightarrow> 'w step" where
  "start_eq ops s =
     (case s of (h, w) \<Rightarrow> (case buffer_allocate ops 4096 (h_eq_buffer h) w of (e, b, w1) \<Rightarrow>
        if e \<noteq> IO_Success then (False, h\<lparr>h_eq_buffer := b\<rparr>, w1)
        else
          let b1 = b\<lparr>bf_cpu := fold (\<lambda>i m. m(i * 64 + 63 := 1)) [0..<32] (bf_cpu b)\<rparr>;
              h1 = put_input (\<lambda>p. write_be64 (set_field 16 64 0x68 24 (ucast (ob_id (h_uar h))) (set_field 16 64 0x63 5 5 p))
                     0x110 (bf_dma b1)) (header 0x301 0 (h\<lparr>h_eq_buffer := b1\<rparr>))
          in create_at ops h_eq put_eq 0x118 (h1, w1)))"

definition start :: "'w hca_ops \<Rightarrow> 'w step" where
  "start ops s =
     (case s of (h, w) \<Rightarrow>
        let h0 = h\<lparr>h_page_phase := 0, h_page_step := 0, h_page_count := 0, h_bf_capable := False, h_bf_enabled := False,
              h_user_bf := False, h_bf_bytes := 0, h_bf_posts := 0\<rparr> in
        case transport_open ops (h0, w) of (e, h1, w1) \<Rightarrow>
        if e \<noteq> IO_Success then (False, h1\<lparr>h_startup_error := e\<rparr>, w1)
        else all_ok
          [modify (\<lambda>h. h\<lparr>h_startup_error := IO_IOError\<rparr>),
           simple ops 0x104 0 16, simple ops 0x10a 0 112, require (\<lambda>h. h_output h 111 AND 2 \<noteq> 0),
           modify (put_input (\<lambda>p. write_be32 p 8 1) \<circ> header 0x10b 0), call ops 16 16,
           provide ops Boot 1, simple ops 0x100 1 4112,
           modify read_capabilities,
           require (\<lambda>h. h_uar_shift h = 12 \<or> (h_uar_shift h = 14 \<and> h_user_queues_requested h)),
           negotiate_uar ops,
           provide ops Initial 2, simple ops 0x102 0 16,
           uar_loop ops [0, 1, 2, 3, 4],
           start_doorbell ops,
           start_eq ops,
           configure_roce ops,
           modify (\<lambda>h. h\<lparr>h_startup_error := IO_Success\<rparr>)] (h1, w1))"

fun destroy_skipped :: "'w hca_ops \<Rightarrow> nat list \<Rightarrow> 'w step" where
  "destroy_skipped ops [] s = (True, s)"
| "destroy_skipped ops (i # is) s =
     (case destroy_at ops (\<lambda>h. h_skipped h ! i) (\<lambda>ob h. h\<lparr>h_skipped := (h_skipped h)[i := ob]\<rparr>) 0x803 s of
        (True, s') \<Rightarrow> destroy_skipped ops is s' | (False, s') \<Rightarrow> (False, s'))"

definition live_count :: "hca \<Rightarrow> u32" where
  "live_count h = of_nat (length (filter ob_live (h_uar h # h_eq h # h_skipped h)))"

text \<open>\<open>simple\<close> under a condition on the state, as in \<open>if (c && !simple(...)) return false\<close>.\<close>

definition when_ok :: "(hca \<Rightarrow> bool) \<Rightarrow> 'w step \<Rightarrow> 'w step" where
  "when_ok c f s = (if c (fst s) then f s else (True, s))"

definition return_pages :: "'w hca_ops \<Rightarrow> 'w step" where
  "return_pages ops s =
     (case s of (h, w) \<Rightarrow> (case io_detached ops w of
        (True, w1) \<Rightarrow> (True, h, w1)
      | (False, w1) \<Rightarrow> all_ok
          [require (\<lambda>h. \<not> tr_quarantined (h_transport h)),
           when_ok (\<lambda>h. tr_initialized (h_transport h)) (simple ops 0x103 0 16),
           reclaim ops Initial, reclaim ops Boot,
           when_ok (\<lambda>h. tr_enabled (h_transport h)) (simple ops 0x105 0 16)] (h, w1)))"

definition release_at :: "'w hca_ops \<Rightarrow> (hca \<Rightarrow> buffer) \<Rightarrow> (buffer \<Rightarrow> hca \<Rightarrow> hca) \<Rightarrow> 'w step" where
  "release_at ops get put s =
     (case buffer_release ops (get (fst s)) (snd s) of (e, b, w) \<Rightarrow> (e = IO_Success, put b (fst s), w))"

abbreviation (input) release_pool :: "'w hca_ops \<Rightarrow> pool_name \<Rightarrow> 'w step" where
  "release_pool ops name \<equiv> release_at ops (\<lambda>h. pl_buffer (get_pool name h))
     (\<lambda>b h. set_pool name ((get_pool name h)\<lparr>pl_buffer := b\<rparr>) h)"

definition stop :: "'w hca_ops \<Rightarrow> 'w step" where
  "stop ops s =
     (case all_ok
        [require (\<lambda>h. tr_resources (h_transport h) \<le> live_count h),
         destroy_at ops h_eq put_eq 0x302, destroy_at ops h_uar put_uar 0x803, destroy_skipped ops [0, 1, 2, 3],
         return_pages ops,
         release_at ops h_eq_buffer (\<lambda>b h. h\<lparr>h_eq_buffer := b\<rparr>), release_pool ops Initial, release_pool ops Boot] s of
        (False, s1) \<Rightarrow> (False, s1)
      | (True, s1) \<Rightarrow> (case transport_close ops s1 of (e, s2) \<Rightarrow> (e = IO_Success, s2)))"

subsection \<open>Register pages, protection domains and memory keys\<close>

definition alloc_uar :: "'w hca_ops \<Rightarrow> hw_object \<Rightarrow> hca \<times> 'w \<Rightarrow> bool \<times> hw_object \<times> hca \<times> 'w" where
  "alloc_uar ops uar s =
     (case s of (h, w) \<Rightarrow>
        if \<not> h_user_queues h \<or> ob_live uar then (False, uar, h, w)
        else (case create ops uar 16 (header 0x802 0 h, w) of
          (False, u, s1) \<Rightarrow> (False, u, s1)
        | (True, u, s1) \<Rightarrow>
            if ob_id u = 0 then (case destroy ops u 0x803 s1 of (_, u', s2) \<Rightarrow> (False, u', s2))
            else (True, u, s1)))"

definition dealloc_uar :: "'w hca_ops \<Rightarrow> hw_object \<Rightarrow> hca \<times> 'w \<Rightarrow> bool \<times> hw_object \<times> hca \<times> 'w" where
  "dealloc_uar ops uar = destroy ops uar 0x803"

definition alloc_pd :: "'w hca_ops \<Rightarrow> hw_object \<Rightarrow> hca \<times> 'w \<Rightarrow> bool \<times> hw_object \<times> hca \<times> 'w" where
  "alloc_pd ops pd s = create ops pd 16 (header 0x800 0 (fst s), snd s)"

definition dealloc_pd :: "'w hca_ops \<Rightarrow> hw_object \<Rightarrow> hca \<times> 'w \<Rightarrow> bool \<times> hw_object \<times> hca \<times> 'w" where
  "dealloc_pd ops pd = destroy ops pd 0x801"

text \<open>The result, the object, the key, and the state.\<close>

definition register_mr ::
    "'w hca_ops \<Rightarrow> hw_object \<Rightarrow> u32 \<Rightarrow> u64 \<Rightarrow> u64 \<Rightarrow> u64 list \<Rightarrow> u32 \<Rightarrow> nat \<Rightarrow> u32 \<Rightarrow> hca \<times> 'w \<Rightarrow> bool \<times> hw_object \<times> u32 \<times> hca \<times> 'w" where
  "register_mr ops mr pd address len pages access log_page key s =
     (case s of (h, w) \<Rightarrow>
        if ob_live mr then (False, mr, key, h, w)
        else
          let k = (if h_next_key h + 1 = 0 then h_next_key h + 1 + 1 else h_next_key h + 1);
              h1 = h\<lparr>h_next_key := k\<rparr>;
              relaxed = (h_relaxed_requested h1 \<and> \<not> h_relaxed_refused h1);
              encode = (\<lambda>h r. create_user_mkey (h_input h) 8192 pd k address len pages access log_page r) in
          (case encode h1 relaxed of
            None \<Rightarrow> (False, mr, key, h1, w)
          | Some (p, bytes) \<Rightarrow>
              (case create ops mr bytes (put_input (\<lambda>_. p) h1, w) of
                 (True, mr', h2, w2) \<Rightarrow>
                   (True, mr', push_bit 8 (ob_id mr') OR ucast k,
                    if relaxed then h2\<lparr>h_relaxed_keys := h_relaxed_keys h2 + 1\<rparr> else h2, w2)
               | (False, mr', h2, w2) \<Rightarrow>
                   if \<not> relaxed \<or> tr_quarantined (h_transport h2) \<or> \<not> cr_completed (tr_last (h_transport h2)) \<or>
                      cr_firmware_status (tr_last (h_transport h2)) = 0
                   then (False, mr', key, h2, w2)
                   else
                     let h3 = h2\<lparr>h_relaxed_refused := True\<rparr> in
                     (case encode h3 False of
                       None \<Rightarrow> (False, mr', key, h3, w2)
                     | Some (p', bytes') \<Rightarrow>
                         (case create ops mr' bytes' (put_input (\<lambda>_. p') h3, w2) of
                            (True, mr'', s4) \<Rightarrow> (True, mr'', push_bit 8 (ob_id mr'') OR ucast k, s4)
                          | (False, mr'', s4) \<Rightarrow> (False, mr'', key, s4))))))"

subsection \<open>The firmware's pages stay accounted for\<close>

definition marked :: "pool \<Rightarrow> nat \<Rightarrow> bool" where
  "marked p i = bit (pl_given p (i div 64)) (i mod 64)"

text \<open>
  The pages of a pool by their addresses; a page inside the memory the pool holds; and memory that
  has room for all pages of the pool, as \<open>Buffer::allocate\<close> leaves it.
\<close>

definition page_addr :: "pool \<Rightarrow> nat \<Rightarrow> u64" where
  "page_addr p i = bf_dma (pl_buffer p) + of_nat i * 4096"

definition page_inside :: "pool \<Rightarrow> u64 \<Rightarrow> bool" where
  "page_inside p a \<longleftrightarrow> bf_memory (pl_buffer p) \<and> (\<exists>i < unat (pl_count p). unat a = unat (bf_dma (pl_buffer p)) + 4096 * i \<and>
     4096 * i + 4096 \<le> unat (bf_size (pl_buffer p)))"

definition buffer_holds :: "pool \<Rightarrow> bool" where
  "buffer_holds p \<longleftrightarrow> bf_memory (pl_buffer p) \<and> unat (pl_count p) * 4096 \<le> unat (bf_size (pl_buffer p)) \<and>
     unat (bf_dma (pl_buffer p)) + unat (bf_size (pl_buffer p)) < 2 ^ 64 \<and> bf_dma (pl_buffer p) AND 4095 = 0"

definition given_addresses :: "pool \<Rightarrow> u64 multiset" where
  "given_addresses p = image_mset (page_addr p) (mset_set (given_pages p))"

text \<open>
  A pool is in order when its counter is the number of pages its bitmap marks, and each of these lies
  in the memory the pool still holds. The pools together are when the marked pages are exactly the
  ones the firmware has by the commands and answers, with each page in doubt still in memory that
  is held and the transport quarantined as long as there is one.
\<close>

definition pool_ok :: "pool \<Rightarrow> bool" where
  "pool_ok p \<longleftrightarrow> unat (pl_owned p) = card (given_pages p) \<and>
     (\<forall>i. marked p i \<longrightarrow> i < unat (pl_count p) \<and> buffer_holds p)"

definition pools_ok :: "hca \<Rightarrow> bool" where
  "pools_ok h \<longleftrightarrow> (\<forall>name. pool_ok (get_pool name h)) \<and>
     mset (h_firmware h) = given_addresses (get_pool Boot h) + given_addresses (get_pool Initial h) \<and>
     (\<forall>a \<in> set (h_in_doubt h). \<exists>name. page_inside (get_pool name h) a) \<and>
     (h_in_doubt h \<noteq> [] \<longrightarrow> tr_quarantined (h_transport h))"

definition pools :: "hca \<Rightarrow> pool \<times> pool \<times> u64 list \<times> u64 list" where
  "pools h = (h_boot h, h_initial h, h_firmware h, h_in_doubt h)"

definition kept :: "hca \<Rightarrow> hca \<Rightarrow> bool" where
  "kept h h' \<longleftrightarrow> pools h' = pools h \<and> (tr_quarantined (h_transport h) \<longrightarrow> tr_quarantined (h_transport h'))"

text \<open>A step that leaves the pools alone (and no quarantine lifted), and one that keeps them in order.\<close>

definition keeps :: "'w step \<Rightarrow> bool" where
  "keeps f \<longleftrightarrow> (\<forall>h w ok h' w'. f (h, w) = (ok, h', w') \<longrightarrow> kept h h')"

definition safe :: "'w step \<Rightarrow> bool" where
  "safe f \<longleftrightarrow> (\<forall>h w ok h' w'. f (h, w) = (ok, h', w') \<longrightarrow> pools_ok h \<longrightarrow> pools_ok h')"

declare all_ok.simps(2) [simp del]

named_theorems keep_rules \<open>steps that do not touch the pools\<close>
named_theorems safe_rules \<open>steps that keep the pools in order\<close>

lemma keepsD: "keeps f \<Longrightarrow> f (h, w) = (ok, h', w') \<Longrightarrow> kept h h'"
  unfolding keeps_def by blast

lemma safeD: "safe f \<Longrightarrow> f (h, w) = (ok, h', w') \<Longrightarrow> pools_ok h \<Longrightarrow> pools_ok h'"
  unfolding safe_def by blast

lemma kept_refl [simp]: "kept h h"
  by (simp add: kept_def)

lemma kept_trans: "kept h h1 \<Longrightarrow> kept h1 h2 \<Longrightarrow> kept h h2"
  by (simp add: kept_def)

lemma get_pool_pools: "get_pool name h = (if name = Boot then fst (pools h) else fst (snd (pools h)))"
  by (cases name) (simp_all add: pools_def)

lemma keptD:
  assumes "kept h h'"
  shows "get_pool name h' = get_pool name h" "h_firmware h' = h_firmware h" "h_in_doubt h' = h_in_doubt h"
    "tr_quarantined (h_transport h) \<Longrightarrow> tr_quarantined (h_transport h')"
  using assms by (auto simp: kept_def get_pool_pools) (simp_all add: pools_def)

lemma kept_ok: "kept h h' \<Longrightarrow> pools_ok h \<Longrightarrow> pools_ok h'"
  using keptD(1) [of h h' Boot] keptD(1) [of h h' Initial] unfolding pools_ok_def by (simp add: keptD)

lemma keeps_safe: "keeps f \<Longrightarrow> safe f"
  unfolding safe_def using keepsD kept_ok by metis

lemma keeps_all_ok [keep_rules]: "(\<And>f. f \<in> set fs \<Longrightarrow> keeps f) \<Longrightarrow> keeps (all_ok fs)"
proof (induction fs)
  case (Cons f fs)
  then have f: "keeps f" and fs: "keeps (all_ok fs)" by auto
  show ?case
    unfolding keeps_def using keepsD [OF f] keepsD [OF fs]
    by (fastforce simp: all_ok.simps intro: kept_trans split: prod.splits bool.splits)
qed (simp add: keeps_def)

lemma safe_all_ok [safe_rules]: "(\<And>f. f \<in> set fs \<Longrightarrow> safe f) \<Longrightarrow> safe (all_ok fs)"
proof (induction fs)
  case (Cons f fs)
  then have f: "safe f" and fs: "safe (all_ok fs)" by auto
  show ?case unfolding safe_def using safeD [OF f] safeD [OF fs] by (fastforce simp: all_ok.simps split: prod.splits bool.splits)
qed (simp add: safe_def)

lemma pool_fields [simp]:
  "pools (count_up h) = pools h" "pools (count_down h) = pools h"
  "pools (h\<lparr>h_transport := t\<rparr>) = pools h" "pools (h\<lparr>h_output := out\<rparr>) = pools h"
  "pools (h\<lparr>h_page_step := n\<rparr>) = pools h" "pools (h\<lparr>h_page_phase := n\<rparr>) = pools h"
  "pools (h\<lparr>h_page_count := c\<rparr>) = pools h" "pools (h\<lparr>h_startup_error := e\<rparr>) = pools h"
  "pools (h\<lparr>h_uar := ob\<rparr>) = pools h" "pools (h\<lparr>h_eq := ob\<rparr>) = pools h"
  "pools (h\<lparr>h_skipped := obs\<rparr>) = pools h" "pools (h\<lparr>h_eq_buffer := b\<rparr>) = pools h"
  "pools (h\<lparr>h_queue_buffer := b\<rparr>) = pools h" "pools (h\<lparr>h_bar := br\<rparr>) = pools h"
  "pools (h\<lparr>h_mac := bs\<rparr>) = pools h" "pools (h\<lparr>h_gid := bs\<rparr>) = pools h"
  "pools (h\<lparr>h_uar_shift := u\<rparr>) = pools h" "pools (h\<lparr>h_user_queues := q\<rparr>) = pools h"
  "pools (h\<lparr>h_user_bf := q\<rparr>) = pools h" "pools (h\<lparr>h_bf_enabled := q\<rparr>) = pools h"
  "pools (h\<lparr>h_bf_capable := q\<rparr>) = pools h" "pools (h\<lparr>h_bf_bytes := c\<rparr>) = pools h"
  "pools (h\<lparr>h_bf_posts := d\<rparr>) = pools h" "pools (h\<lparr>h_mtu := f1\<rparr>) = pools h" "pools (h\<lparr>h_max_mtu := f1\<rparr>) = pools h"
  "pools (h\<lparr>h_frame_admin := f1\<rparr>) = pools h" "pools (h\<lparr>h_frame_oper := f1\<rparr>) = pools h"
  "pools (h\<lparr>h_frame_vport := f1\<rparr>) = pools h"
  "pools (put_input f h) = pools h" "pools (header op md h) = pools h" "pools (quarantine h) = pools h"
  "pools (closed h) = pools h" "pools (read_capabilities h) = pools h"
  by (simp_all add: pools_def count_up_def count_down_def closed_def read_capabilities_def put_input_def header_def quarantine_def Let_def)

lemma quarantine_fields [simp]:
  "tr_quarantined (h_transport (count_up h)) = tr_quarantined (h_transport h)"
  "tr_quarantined (h_transport (count_down h)) = tr_quarantined (h_transport h)"
  "h_transport (header op md h) = h_transport h" "h_transport (read_capabilities h) = h_transport h"
  "tr_quarantined (h_transport (quarantine h))"
  by (simp_all add: count_up_def count_down_def header_def read_capabilities_def quarantine_def Let_def)

lemma kept_after [simp]:
  "kept h (count_up h') = kept h h'" "kept h (count_down h') = kept h h'"
  "kept h (h'\<lparr>h_output := out\<rparr>) = kept h h'" "kept h (h'\<lparr>h_page_step := n\<rparr>) = kept h h'"
  "kept h (h'\<lparr>h_page_phase := n\<rparr>) = kept h h'" "kept h (h'\<lparr>h_page_count := c\<rparr>) = kept h h'"
  "kept h (h'\<lparr>h_startup_error := e\<rparr>) = kept h h'" "kept h (h'\<lparr>h_uar := ob\<rparr>) = kept h h'"
  "kept h (h'\<lparr>h_eq := ob\<rparr>) = kept h h'" "kept h (h'\<lparr>h_skipped := obs\<rparr>) = kept h h'"
  "kept h (h'\<lparr>h_eq_buffer := b\<rparr>) = kept h h'" "kept h (h'\<lparr>h_queue_buffer := b\<rparr>) = kept h h'"
  "kept h (h'\<lparr>h_bar := br\<rparr>) = kept h h'" "kept h (h'\<lparr>h_mac := bs\<rparr>) = kept h h'"
  "kept h (h'\<lparr>h_gid := bs\<rparr>) = kept h h'" "kept h (h'\<lparr>h_uar_shift := u\<rparr>) = kept h h'"
  "kept h (h'\<lparr>h_user_queues := q\<rparr>) = kept h h'" "kept h (h'\<lparr>h_user_bf := q\<rparr>) = kept h h'"
  "kept h (h'\<lparr>h_bf_enabled := q\<rparr>) = kept h h'" "kept h (h'\<lparr>h_bf_capable := q\<rparr>) = kept h h'"
  "kept h (h'\<lparr>h_bf_bytes := c\<rparr>) = kept h h'" "kept h (h'\<lparr>h_bf_posts := d\<rparr>) = kept h h'"
  "kept h (h'\<lparr>h_mtu := f1\<rparr>) = kept h h'" "kept h (h'\<lparr>h_max_mtu := f1\<rparr>) = kept h h'"
  "kept h (h'\<lparr>h_frame_admin := f1\<rparr>) = kept h h'" "kept h (h'\<lparr>h_frame_oper := f1\<rparr>) = kept h h'"
  "kept h (h'\<lparr>h_frame_vport := f1\<rparr>) = kept h h'" "kept h (put_input f h') = kept h h'"
  "kept h (header op md h') = kept h h'" "kept h (read_capabilities h') = kept h h'"
  by (simp_all add: kept_def)

lemma kept_before [simp]:
  "kept (count_up h) h' = kept h h'" "kept (count_down h) h' = kept h h'"
  "kept (h\<lparr>h_output := out\<rparr>) h' = kept h h'" "kept (h\<lparr>h_page_step := n\<rparr>) h' = kept h h'"
  "kept (h\<lparr>h_page_phase := n\<rparr>) h' = kept h h'" "kept (h\<lparr>h_page_count := c\<rparr>) h' = kept h h'"
  "kept (h\<lparr>h_startup_error := e\<rparr>) h' = kept h h'" "kept (h\<lparr>h_uar := ob\<rparr>) h' = kept h h'"
  "kept (h\<lparr>h_eq := ob\<rparr>) h' = kept h h'" "kept (h\<lparr>h_skipped := obs\<rparr>) h' = kept h h'"
  "kept (h\<lparr>h_eq_buffer := b\<rparr>) h' = kept h h'" "kept (h\<lparr>h_queue_buffer := b\<rparr>) h' = kept h h'"
  "kept (h\<lparr>h_bar := br\<rparr>) h' = kept h h'" "kept (h\<lparr>h_mac := bs\<rparr>) h' = kept h h'"
  "kept (h\<lparr>h_gid := bs\<rparr>) h' = kept h h'" "kept (h\<lparr>h_uar_shift := u\<rparr>) h' = kept h h'"
  "kept (h\<lparr>h_user_queues := q\<rparr>) h' = kept h h'" "kept (h\<lparr>h_user_bf := q\<rparr>) h' = kept h h'"
  "kept (h\<lparr>h_bf_enabled := q\<rparr>) h' = kept h h'" "kept (h\<lparr>h_bf_capable := q\<rparr>) h' = kept h h'"
  "kept (h\<lparr>h_bf_bytes := c\<rparr>) h' = kept h h'" "kept (h\<lparr>h_bf_posts := d\<rparr>) h' = kept h h'"
  "kept (h\<lparr>h_mtu := f1\<rparr>) h' = kept h h'" "kept (h\<lparr>h_max_mtu := f1\<rparr>) h' = kept h h'"
  "kept (h\<lparr>h_frame_admin := f1\<rparr>) h' = kept h h'" "kept (h\<lparr>h_frame_oper := f1\<rparr>) h' = kept h h'"
  "kept (h\<lparr>h_frame_vport := f1\<rparr>) h' = kept h h'" "kept (put_input f h) h' = kept h h'"
  "kept (header op md h) h' = kept h h'" "kept (read_capabilities h) h' = kept h h'"
  by (simp_all add: kept_def)

lemma kept_quarantine [simp]: "kept h h' \<Longrightarrow> kept h (quarantine h')"
  by (simp add: kept_def)

lemma execute_quarantined: "execute ops inp n out m t w = (ok, out', t', w') \<Longrightarrow> tr_quarantined t \<Longrightarrow> tr_quarantined t'"
  by (auto simp: execute_def transport_ready_def Let_def split: if_splits)

lemma call_keeps: "call ops i out (h, w) = (ok, h', w') \<Longrightarrow> kept h h'"
  by (auto simp: call_def kept_def split: prod.splits dest: execute_quarantined)

lemma keeps_basic [keep_rules]:
  "(\<And>h. kept h (f h)) \<Longrightarrow> keeps (modify f)" "keeps (require c)" "keeps (call ops i n)"
  "keeps (ready_and ops c)"
  by (auto simp: keeps_def modify_def require_def ready_and_def split: prod.splits dest: call_keeps)

lemma keeps_when [keep_rules]: "keeps f \<Longrightarrow> keeps (when_ok c f)"
  by (auto simp: keeps_def when_ok_def)

lemma keeps_simple [keep_rules]: "keeps (simple ops opcode modifier n)"
  unfolding simple_def by (intro keep_rules) (auto intro!: keep_rules)

lemma create_pools: "create ops ob n (h, w) = (ok, ob', h', w') \<Longrightarrow> kept h h'"
  by (auto simp: create_def split: if_splits prod.splits bool.splits dest: call_keeps)

lemma destroy_pools: "destroy ops ob opcode (h, w) = (ok, ob', h', w') \<Longrightarrow> kept h h'"
  by (auto simp: destroy_def split: if_splits prod.splits bool.splits dest: call_keeps)

lemma keeps_at [keep_rules]:
  "(\<And>ob h h'. kept h (put ob h') = kept h h') \<Longrightarrow> keeps (create_at ops get put n)"
  "(\<And>ob h h'. kept h (put ob h') = kept h h') \<Longrightarrow> keeps (destroy_at ops get put opcode)"
  "(\<And>b h h'. kept h (put' b h') = kept h h') \<Longrightarrow> keeps (release_at ops get' put')"
  by (auto simp: keeps_def create_at_def destroy_at_def release_at_def split: prod.splits dest: create_pools destroy_pools)

subsubsection \<open>Steps that leave the pools alone\<close>

lemma query_mtu_pools: "query_mtu ops m (h, w) = (ok, m', h', w') \<Longrightarrow> kept h h'"
proof -
  assume q: "query_mtu ops m (h, w) = (ok, m', h', w')"
  let ?f = "all_ok [modify (put_input (\<lambda>p. (write_be32 p 8 0x5003)(17 := 1)) \<circ> header 0x805 1), call ops 32 32]"
  have f: "keeps ?f" by (intro keep_rules) (auto intro!: keep_rules)
  obtain b h1 w1 where r: "?f (h, w) = (b, h1, w1)" by (cases "?f (h, w)")
  have 1: "kept h h1" by (rule keepsD [OF f r])
  show ?thesis
  proof (cases b)
    case True
    obtain b2 h2 w2 where r2: "simple ops 0x754 0 272 (h1, w1) = (b2, h2, w2)" by (cases "simple ops 0x754 0 272 (h1, w1)")
    have "h' = h2" using q r r2 True by (auto simp: query_mtu_def Let_def split: bool.splits)
    with 1 keepsD [OF keeps_simple r2] show ?thesis using kept_trans by blast
  qed (use q r 1 in \<open>simp add: query_mtu_def\<close>)
qed

lemma keeps_mtu_writes [keep_rules]: "keeps (write_port_mtu ops n)" "keeps (write_vport_mtu ops n)"
  unfolding write_port_mtu_def write_vport_mtu_def by (intro keep_rules; auto intro!: keep_rules)+

lemma restore_mtu_pools: "restore_mtu ops before (h, w) = (h', w') \<Longrightarrow> kept h h'"
proof -
  assume r: "restore_mtu ops before (h, w) = (h', w')"
  let ?f = "all_ok [write_port_mtu ops (mt_admin before), write_vport_mtu ops (mt_vport before)]"
  have f: "keeps ?f" by (intro keep_rules) (auto intro!: keep_rules)
  obtain b h1 w1 where 1: "?f (h, w) = (b, h1, w1)" by (cases "?f (h, w)")
  obtain ok m h2 w2 where 2: "query_mtu ops no_mtu (h1, w1) = (ok, m, h2, w2)" by (cases "query_mtu ops no_mtu (h1, w1)")
  have "kept h h1" "kept h h2" using keepsD [OF f 1] query_mtu_pools [OF 2] kept_trans by blast+
  then show ?thesis using r 1 2 by (auto simp: restore_mtu_def split: if_splits bool.splits)
qed

lemma keeps_mtu [keep_rules]: "keeps (configure_ethernet_mtu ops bytes)"
  unfolding keeps_def
proof (intro allI impI)
  fix h w ok h' w'
  assume c: "configure_ethernet_mtu ops bytes (h, w) = (ok, h', w')"
  let ?r = "ready_and ops (\<lambda>h. tr_initialized (h_transport h) \<and> \<not> h_any_qp h \<and> 1280 \<le> bytes \<and> bytes \<le> 9000)"
  let ?f = "all_ok [write_port_mtu ops (bytes + 22), write_vport_mtu ops (bytes + 22)]"
  have f: "keeps ?f" by (intro keep_rules) (auto intro!: keep_rules)
  obtain b1 h1 w1 where 1: "?r (h, w) = (b1, h1, w1)" by (cases "?r (h, w)")
  obtain b2 m2 h2 w2 where 2: "query_mtu ops no_mtu (h1, w1) = (b2, m2, h2, w2)" by (cases "query_mtu ops no_mtu (h1, w1)")
  obtain b3 h3 w3 where 3: "?f (h2, w2) = (b3, h3, w3)" by (cases "?f (h2, w2)")
  obtain b4 m4 h4 w4 where 4: "query_mtu ops no_mtu (h3, w3) = (b4, m4, h4, w4)" by (cases "query_mtu ops no_mtu (h3, w3)")
  obtain h5 w5 where 5: "restore_mtu ops m2 (h3, w3) = (h5, w5)" by (cases "restore_mtu ops m2 (h3, w3)")
  obtain h6 w6 where 6: "restore_mtu ops m2 (h4, w4) = (h6, w6)" by (cases "restore_mtu ops m2 (h4, w4)")
  have e: "kept h h1" "kept h h2" "kept h h3" "kept h h4" "kept h h5" "kept h h6"
    using keepsD [OF keeps_basic(4) 1] query_mtu_pools [OF 2] keepsD [OF f 3] query_mtu_pools [OF 4]
      restore_mtu_pools [OF 5] restore_mtu_pools [OF 6] kept_trans by blast+
  show "kept h h'"
    using c 1 2 3 4 5 6 e by (auto simp: configure_ethernet_mtu_def Let_def split: if_splits bool.splits)
qed

lemma keeps_gid [keep_rules]: "keeps (source_gid ops enable)"
  unfolding source_gid_def by (intro keep_rules) (auto intro!: keep_rules)

lemma keeps_roce [keep_rules]: "keeps (configure_roce ops)"
  unfolding configure_roce_def by (intro keep_rules) (auto intro!: keep_rules)

lemma keeps_uar_pages [keep_rules]: "keeps (configure_uar_pages ops)"
  unfolding configure_uar_pages_def by (intro keep_rules) (auto intro!: keep_rules)

lemma keeps_negotiate [keep_rules]: "keeps (negotiate_uar ops)"
  unfolding keeps_def negotiate_uar_def
  by (auto simp: Let_def split: if_splits prod.splits bool.splits dest!: keepsD [OF keeps_uar_pages])

lemma keeps_uar_loop [keep_rules]: "keeps (uar_loop ops tries)"
proof (induction tries)
  case (Cons a tries)
  have c: "keeps (create_at ops h_uar (\<lambda>ob h. h\<lparr>h_uar := ob\<rparr>) 16)" by (intro keep_rules) simp
  show ?case
    unfolding keeps_def
  proof (intro allI impI)
    fix h w ok h' w'
    assume u: "uar_loop ops (a # tries) (h, w) = (ok, h', w')"
    obtain b h1 w1 where 1: "create_at ops h_uar (\<lambda>ob h. h\<lparr>h_uar := ob\<rparr>) 16 (header 0x802 0 h, w) = (b, h1, w1)"
      by (cases "create_at ops h_uar (\<lambda>ob h. h\<lparr>h_uar := ob\<rparr>) 16 (header 0x802 0 h, w)")
    have e: "kept h h1" using keepsD [OF c 1] by simp
    have r: "kept h h'" if "uar_loop ops tries (h1\<lparr>h_skipped := obs, h_uar := ob\<rparr>, w1) = (ok, h', w')" for obs ob
      using keepsD [OF Cons.IH that] kept_trans [OF e] by simp
    show "kept h h'"
      using u 1 e r by (auto split: if_splits bool.splits)
  qed
qed (simp add: keeps_def)

lemma keeps_map [keep_rules]: "keeps (map_uar ops off wc)"
  unfolding keeps_def map_uar_def by (auto split: if_splits prod.splits option.splits)

lemma keeps_configure [keep_rules]: "keeps (configure_doorbell ops off)" "keeps (configure_blueflame ops off n)"
proof -
  have a: "keeps (all_ok [map_uar ops x b, modify (\<lambda>h. h\<lparr>h_bar := (h_bar h)\<lparr>br_uar := off, br_buffer := n\<rparr>\<rparr>)])" for x b n
    by (intro keep_rules) (auto intro!: keep_rules)
  show "keeps (configure_doorbell ops off)" "keeps (configure_blueflame ops off n)"
    unfolding keeps_def configure_doorbell_def configure_blueflame_def
    by (auto split: if_splits prod.splits dest!: keepsD [OF a])
qed

lemma keeps_doorbell [keep_rules]: "keeps (start_doorbell ops)"
  unfolding keeps_def start_doorbell_def Let_def
  by (auto split: if_splits prod.splits bool.splits dest!: keepsD [OF keeps_configure(1)] keepsD [OF keeps_configure(2)]
      intro: kept_trans)

lemma keeps_eq [keep_rules]: "keeps (start_eq ops)"
proof -
  have c: "keeps (create_at ops h_eq (\<lambda>ob h. h\<lparr>h_eq := ob\<rparr>) 0x118)" by (intro keep_rules) simp
  show ?thesis unfolding keeps_def start_eq_def Let_def by (auto split: if_splits prod.splits dest!: keepsD [OF c])
qed

lemma keeps_skipped [keep_rules]: "keeps (destroy_skipped ops is)"
proof (induction "is")
  case (Cons i "is")
  have c: "keeps (destroy_at ops (\<lambda>h. h_skipped h ! i) (\<lambda>ob h. h\<lparr>h_skipped := (h_skipped h)[i := ob]\<rparr>) 0x803)"
    by (intro keep_rules) simp
  show ?case
    unfolding keeps_def using keepsD [OF c] keepsD [OF Cons.IH] by (fastforce intro: kept_trans split: prod.splits bool.splits)
qed (simp add: keeps_def)

subsubsection \<open>Giving and taking pages\<close>

lemma marked_given: "marked (mark_given k p) i \<longleftrightarrow> marked p i \<or> i = k"
proof (cases "i div 64 = k div 64")
  case True
  have "bit (pl_given p (k div 64) OR push_bit (k mod 64) 1) (i mod 64) \<longleftrightarrow> bit (pl_given p (k div 64)) (i mod 64) \<or> i mod 64 = k mod 64"
    by (auto simp: bit_simps)
  with True page_index [of i k] show ?thesis by (auto simp: marked_def mark_given_def)
next
  case False
  then show ?thesis by (auto simp: marked_def mark_given_def)
qed

lemma given_marked: "given_pages p = {i. i < unat (pl_count p) \<and> marked p i}"
  by (simp add: given_pages_def marked_def)

lemma mark_fold:
  "marked (fold (\<lambda>j. mark_given (offset + j)) [0..<n] p) i \<longleftrightarrow> marked p i \<or> (offset \<le> i \<and> i < offset + n)"
  "pl_count (fold (\<lambda>j. mark_given (offset + j)) [0..<n] p) = pl_count p"
  "pl_owned (fold (\<lambda>j. mark_given (offset + j)) [0..<n] p) = pl_owned p"
  "pl_buffer (fold (\<lambda>j. mark_given (offset + j)) [0..<n] p) = pl_buffer p"
  by (induction n) (auto simp: marked_given, simp_all add: mark_given_def)

text \<open>Memory as it was allocated has room for the pool's pages.\<close>

lemma mask_pages: "(x :: u64) AND 4095 = 0 \<longleftrightarrow> unat x mod 4096 = 0"
  using and_mask_0_iff [of 12 x] by (simp add: page_mask_def)

lemma round_up:
  assumes "(bytes :: u64) \<le> MAX_ALLOCATION"
  shows "unat bytes \<le> unat ((bytes + 16383) AND NOT 16383)"
proof -
  have "unat bytes \<le> 67108864" using assms by (simp add: word_le_nat_alt)
  then have "unat (bytes + 16383) = unat bytes + 16383" by (subst unat_add_small) simp_all
  moreover have "unat ((bytes + 16383) AND NOT 16383) = unat (bytes + 16383) - unat (bytes + 16383) mod 16384"
    using unat_and_not_mask [of 14 "bytes + 16383"] by (simp add: page_mask_def)
  ultimately show ?thesis using mod_less_divisor [of 16384 "unat bytes + 16383"] by linarith
qed

lemma buffer_allocate_result:
  assumes "buffer_allocate ops n b w = (IO_Success, b', w')"
  shows "bf_memory b'" "unat n \<le> unat (bf_size b')" "unat (bf_dma b') + unat (bf_size b') < 2 ^ 64" "bf_dma b' AND 4095 = 0"
proof -
  have n: "n \<le> MAX_ALLOCATION" using assms by (auto simp: buffer_allocate_def not_less split: if_splits)
  have b': "bf_memory b' \<and> bf_size b' = (n + 16383) AND NOT 16383 \<and> bf_dma b' AND 4095 = 0 \<and> bf_dma b' \<le> - 1 - bf_size b'"
    using assms by (auto simp: buffer_allocate_def Let_def not_less split: if_splits prod.splits allocated.splits)
  then have "bf_dma b' \<le> - 1 - bf_size b'" by blast
  then have "unat (bf_dma b') \<le> unat (- 1 - bf_size b')" by (simp only: word_le_nat_alt)
  moreover have "unat (- 1 - bf_size b') = 2 ^ 64 - 1 - unat (bf_size b')"
    by (subst unat_sub_le) (simp_all add: unsigned_minus_1_eq_mask mask_eq_exp_minus_1)
  ultimately show "unat (bf_dma b') + unat (bf_size b') < 2 ^ 64" using unat_lt_64 [of "bf_size b'"] by simp
  show "bf_memory b'" "unat n \<le> unat (bf_size b')" "bf_dma b' AND 4095 = 0" using b' round_up [OF n] by simp_all
qed

lemma unat_page_addr:
  assumes "buffer_holds p" and "i < unat (pl_count p)"
  shows "unat (page_addr p i) = unat (bf_dma (pl_buffer p)) + 4096 * i"
proof -
  have "unat (bf_dma (pl_buffer p)) + 4096 * i < 2 ^ 64" using assms by (simp add: buffer_holds_def)
  then show ?thesis by (simp add: page_addr_def unat_word_ariths unat_of_nat mult.commute mod_mult_right_eq mod_add_right_eq)
qed

lemma inside_page_addr: "buffer_holds p \<Longrightarrow> i < unat (pl_count p) \<Longrightarrow> page_inside p (page_addr p i)"
  unfolding page_inside_def by (auto simp: unat_page_addr buffer_holds_def)

lemma given_inside:
  assumes "pool_ok p" and "a \<in># given_addresses p"
  shows "page_inside p a"
  using assms by (auto simp: given_addresses_def pool_ok_def given_marked intro!: inside_page_addr)

lemma page_fields:
  assumes "pl_buffer p' = pl_buffer p" and "pl_count p' = pl_count p"
  shows "page_addr p' = page_addr p" "page_inside p' = page_inside p" "buffer_holds p' = buffer_holds p"
  using assms by (simp_all add: fun_eq_iff page_addr_def page_inside_def buffer_holds_def)

text \<open>What has to be shown of a step on one pool.\<close>

lemma pools_okD: "pools_ok h \<Longrightarrow> pool_ok (get_pool name h)"
  by (simp add: pools_ok_def)

lemma pools_okI:
  assumes "pools_ok h" and "pool_ok (get_pool name h')" and "\<And>other. other \<noteq> name \<Longrightarrow> get_pool other h' = get_pool other h"
    and "mset (h_firmware h') + given_addresses (get_pool name h) = mset (h_firmware h) + given_addresses (get_pool name h')"
    and "\<And>a. a \<in> set (h_in_doubt h') \<Longrightarrow> page_inside (get_pool name h') a \<or>
      a \<in> set (h_in_doubt h) \<and> \<not> page_inside (get_pool name h) a"
    and "h_in_doubt h' \<noteq> [] \<Longrightarrow> tr_quarantined (h_transport h')"
  shows "pools_ok h'"
  unfolding pools_ok_def
proof (intro conjI allI ballI impI)
  show "pool_ok (get_pool x h')" for x using assms(1-3) by (cases "x = name") (simp_all add: pools_ok_def)
  have "mset (h_firmware h) = given_addresses (get_pool Boot h) + given_addresses (get_pool Initial h)"
    using assms(1) by (simp add: pools_ok_def)
  then show "mset (h_firmware h') = given_addresses (get_pool Boot h') + given_addresses (get_pool Initial h')"
    using assms(3) [of Boot] assms(3) [of Initial] assms(4) by (cases name) (auto simp: ac_simps)
  show "\<exists>x. page_inside (get_pool x h') a" if "a \<in> set (h_in_doubt h')" for a
    using assms(5) [OF that]
  proof
    assume a: "a \<in> set (h_in_doubt h) \<and> \<not> page_inside (get_pool name h) a"
    then obtain x where "page_inside (get_pool x h) a" using assms(1) by (auto simp: pools_ok_def)
    with a assms(3) [of x] show ?thesis by (cases "x = name") (simp, metis)
  qed blast
qed (use assms(6) in blast)

text \<open>The addresses a give command carries.\<close>

lemma page_writes:
  "a + 4 \<le> 16 \<Longrightarrow> read_be32 (fold (\<lambda>j m. write_be64 m (16 + j * 8) (g j)) [0..<b] m) a = read_be32 m a"
  "j < b \<Longrightarrow> read_be64 (fold (\<lambda>j m. write_be64 m (16 + j * 8) (g j)) [0..<b] m) (16 + j * 8) = g j"
proof (induction b)
  case (Suc b)
  let ?m = "fold (\<lambda>j m. write_be64 m (16 + j * 8) (g j)) [0..<b] m"
  {
    case 1
    have "read_be32 (write_be64 ?m (16 + b * 8) (g b)) a = read_be32 ?m a"
      using 1 by (intro read_be32_cong write_be64_outside) simp
    with Suc(1) 1 show ?case by simp
  next
    case 2
    show ?case
    proof (cases "j = b")
      case False
      then have "read_be64 (write_be64 ?m (16 + b * 8) (g b)) (16 + j * 8) = read_be64 ?m (16 + j * 8)"
        using 2 by (intro read_be64_cong write_be64_outside) simp
      with Suc(2) 2 False show ?thesis by simp
    qed simp
  }
qed simp_all

lemma sent_give:
  assumes "batch \<le> 256"
  shows "sent_pages (give_command p n batch h) = map (page_addr p) [n..<n + batch]"
proof -
  have "read_be32 (h_input (give_command p n batch h)) 12 = of_nat batch"
    by (simp add: give_command_def put_input_def page_writes(1))
  moreover have "unat (of_nat batch :: u32) = batch" using assms by (simp add: unat_of_nat)
  moreover have "read_be64 (h_input (give_command p n batch h)) (16 + j * 8) = page_addr p (n + j)" if "j < batch" for j
    using that by (simp add: give_command_def put_input_def page_writes(2) page_addr_def)
  ultimately show ?thesis by (intro nth_equalityI) (simp_all add: sent_pages_def)
qed

text \<open>Part of a pool given, from the first page on.\<close>

definition given_to :: "nat \<Rightarrow> pool \<Rightarrow> bool" where
  "given_to n p \<longleftrightarrow> n \<le> unat (pl_count p) \<and> unat (pl_owned p) = n \<and> (\<forall>i. marked p i \<longleftrightarrow> i < n) \<and>
     buffer_holds p \<and> pl_count p \<le> 16384"

lemma given_toD:
  assumes "given_to n p"
  shows "n \<le> unat (pl_count p)" "unat (pl_owned p) = n" "marked p i \<longleftrightarrow> i < n" "buffer_holds p" "pl_count p \<le> 16384"
  using assms unfolding given_to_def by blast+

lemma given_to_ok:
  assumes "given_to n p"
  shows "pool_ok p" "given_pages p = {..<n}"
proof -
  note g = given_toD [OF assms]
  show pages: "given_pages p = {..<n}" using g(1) by (auto simp: given_marked g(3))
  with g show "pool_ok p" by (auto simp: pool_ok_def)
qed

lemma given_batch_to:
  assumes "given_to n p" and "n + batch \<le> unat (pl_count p)"
  shows "given_to (n + batch) (given_batch n batch p)"
    "given_addresses (given_batch n batch p) = given_addresses p + mset (map (page_addr p) [n..<n + batch])"
    "pl_count (given_batch n batch p) = pl_count p" "pl_buffer (given_batch n batch p) = pl_buffer p"
proof -
  note g = given_toD [OF assms(1)]
  have "unat (pl_count p) \<le> 16384" using g(5) by (simp add: word_le_nat_alt)
  then have b: "unat (of_nat batch :: u32) = batch" "n + batch < 2 ^ 32" using assms(2) by (simp_all add: unat_of_nat)
  have m: "marked (given_batch n batch p) i \<longleftrightarrow> marked p i \<or> (n \<le> i \<and> i < n + batch)" for i
    by (simp add: given_batch_def Let_def marked_def) (simp add: mark_fold(1) flip: marked_def)
  have "unat (pl_owned (given_batch n batch p)) = n + batch"
    using g(2) b by (simp add: given_batch_def Let_def mark_fold unat_add_small)
  moreover show f: "pl_count (given_batch n batch p) = pl_count p" "pl_buffer (given_batch n batch p) = pl_buffer p"
    by (simp_all add: given_batch_def Let_def mark_fold)
  moreover have "marked (given_batch n batch p) i \<longleftrightarrow> i < n + batch" for i by (auto simp: m g(3))
  ultimately show t: "given_to (n + batch) (given_batch n batch p)"
    using assms(2) g(4,5) page_fields(3) [OF f(2,1)] unfolding given_to_def by simp
  have "{..<n + batch} = {..<n} \<union> {n..<n + batch}" by auto
  then have "mset_set {..<n + batch} = mset_set {..<n} + mset_set {n..<n + batch}"
    using mset_set_Union [of "{..<n}" "{n..<n + batch}"] by (simp add: Int_def)
  then show "given_addresses (given_batch n batch p) = given_addresses p + mset (map (page_addr p) [n..<n + batch])"
    unfolding given_addresses_def given_to_ok(2) [OF t] given_to_ok(2) [OF assms(1)] page_fields(1) [OF f(2,1)] by simp
qed

lemma give_fails_ok:
  assumes "pools_ok h" and "given_to n (get_pool name h)" and "n + batch \<le> unat (pl_count (get_pool name h))" and "batch \<le> 256"
    and "kept h h1"
  shows "pools_ok (pages_doubted (sent_pages (give_command (get_pool name h) n batch h)) h1)"
proof (rule pools_okI [OF kept_ok [OF assms(5,1)], of name])
  let ?p = "get_pool name h" and ?d = "pages_doubted (sent_pages (give_command (get_pool name h) n batch h)) h1"
  note k = keptD [OF assms(5)]
  show "pool_ok (get_pool name ?d)" using assms(1) k by (simp add: pools_okD)
  have "page_inside ?p a" if "a \<in> set (sent_pages (give_command ?p n batch h))" for a
    using that assms(3) given_toD(4) [OF assms(2)] by (auto simp: sent_give [OF assms(4)] intro!: inside_page_addr)
  moreover have "a \<in> set (h_in_doubt h) \<or> a \<in> set (sent_pages (give_command ?p n batch h))" if "a \<in> set (h_in_doubt ?d)" for a
    using that k by (auto simp: pages_doubted_def split: if_splits)
  ultimately show "page_inside (get_pool name ?d) a \<or> a \<in> set (h_in_doubt h1) \<and> \<not> page_inside (get_pool name h1) a"
    if "a \<in> set (h_in_doubt ?d)" for a
    using that k by auto
  show "tr_quarantined (h_transport ?d)" if "h_in_doubt ?d \<noteq> []"
    using that assms(1) k by (auto simp: pages_doubted_def pools_ok_def split: if_splits)
  show "mset (h_firmware ?d) + given_addresses (get_pool name h1) = mset (h_firmware h1) + given_addresses (get_pool name ?d)"
    by simp (simp add: pages_doubted_def)
qed simp

lemma give_works_ok:
  assumes "pools_ok h" and "given_to n (get_pool name h)" and "n + batch \<le> unat (pl_count (get_pool name h))" and "batch \<le> 256"
    and "kept h h1"
  shows "pools_ok (set_pool name (given_batch n batch (get_pool name h))
    (pages_given (sent_pages (give_command (get_pool name h) n batch h)) h1))"
proof (rule pools_okI [OF kept_ok [OF assms(5,1)], of name])
  let ?p = "get_pool name h"
  let ?g = "set_pool name (given_batch n batch ?p) (pages_given (sent_pages (give_command ?p n batch h)) h1)"
  note k = keptD [OF assms(5)] and b = given_batch_to [OF assms(2,3)]
  have f: "h_firmware ?g = h_firmware h @ map (page_addr ?p) [n..<n + batch]" "h_in_doubt ?g = h_in_doubt h"
    using k by (cases name; simp add: pages_given_def sent_give [OF assms(4)])+
  show "pool_ok (get_pool name ?g)" using given_to_ok(1) [OF b(1)] by simp
  show "mset (h_firmware ?g) + given_addresses (get_pool name h1) = mset (h_firmware h1) + given_addresses (get_pool name ?g)"
    using b(2) k by (simp add: f)
  show "page_inside (get_pool name ?g) a \<or> a \<in> set (h_in_doubt h1) \<and> \<not> page_inside (get_pool name h1) a"
    if "a \<in> set (h_in_doubt ?g)" for a
    using that k page_fields(2) [OF b(4,3)] by (simp add: f)
  show "tr_quarantined (h_transport ?g)" if "h_in_doubt ?g \<noteq> []" using that assms(1) k by (auto simp: f pools_ok_def)
qed simp

lemma give_loop_ok:
  assumes "give_loop ops name n left (h, w) = (ok, h', w')" and "given_to n (get_pool name h)"
    and "n + left = unat (pl_count (get_pool name h))" and "pools_ok h"
  shows "pools_ok h'"
  using assms
proof (induction left arbitrary: n h w rule: less_induct)
  case (less left)
  show ?case
  proof (cases "left = 0")
    case True
    then show ?thesis using less.prems(1,4) by (subst (asm) give_loop.simps) auto
  next
    case False
    let ?b = "min left 256" and ?h0 = "give_command (get_pool name h) n (min left 256) h"
    obtain b h1 w1 where c: "call ops (16 + ?b * 8) 16 (?h0, w) = (b, h1, w1)" by (cases "call ops (16 + ?b * 8) 16 (?h0, w)")
    have k: "kept h h1" using call_keeps [OF c] by (simp add: give_command_def)
    have fit: "n + ?b \<le> unat (pl_count (get_pool name h))" "?b \<le> 256" using less.prems(3) by auto
    show ?thesis
    proof (cases b)
      case False
      then have "h' = pages_doubted (sent_pages ?h0) h1"
        using less.prems(1) \<open>left \<noteq> 0\<close> c by (subst (asm) give_loop.simps) (simp add: Let_def)
      then show ?thesis using give_fails_ok [OF less.prems(4,2) fit k] by simp
    next
      case True
      let ?h2 = "set_pool name (given_batch n ?b (get_pool name h)) (pages_given (sent_pages ?h0) h1)"
      have r: "give_loop ops name (n + ?b) (left - ?b) (?h2, w1) = (ok, h', w')"
        using less.prems(1) \<open>left \<noteq> 0\<close> c True keptD(1) [OF k] by (subst (asm) give_loop.simps) (simp add: Let_def)
      note g = given_batch_to [OF less.prems(2) fit(1)]
      have "left - ?b < left" "n + ?b + (left - ?b) = unat (pl_count (get_pool name ?h2))" "given_to (n + ?b) (get_pool name ?h2)"
        using \<open>left \<noteq> 0\<close> less.prems(3) g(1,3) by auto
      with less.IH [OF _ r] give_works_ok [OF less.prems(4,2) fit k] show ?thesis by blast
    qed
  qed
qed

lemma pool_without_memory:
  assumes "pool_ok p" and "\<not> bf_memory (pl_buffer p)"
  shows "\<not> marked p i" "pl_owned p = 0" "given_addresses p = {#}" "\<not> page_inside p a"
    "pool_ok (p\<lparr>pl_count := c, pl_function := f\<rparr>)" "given_addresses (p\<lparr>pl_count := c, pl_function := f\<rparr>) = {#}"
    "pool_ok (p\<lparr>pl_count := c, pl_function := f, pl_buffer := b\<rparr>)"
    "given_addresses (p\<lparr>pl_count := c, pl_function := f, pl_buffer := b\<rparr>) = {#}"
    "buffer_holds (p\<lparr>pl_count := c, pl_function := f, pl_buffer := b\<rparr>) \<Longrightarrow> c \<le> 16384 \<Longrightarrow>
      given_to 0 (p\<lparr>pl_count := c, pl_function := f, pl_buffer := b\<rparr>)"
proof -
  show m: "\<not> marked p i" for i using assms by (auto simp: pool_ok_def buffer_holds_def)
  then have g: "given_pages p = {}" by (simp add: given_marked)
  then show o: "pl_owned p = 0" using assms(1) by (simp add: pool_ok_def unat_eq_0)
  have u: "\<not> marked (p\<lparr>pl_count := c, pl_function := f, pl_buffer := b\<rparr>) i"
    "\<not> marked (p\<lparr>pl_count := c, pl_function := f\<rparr>) i" for i b using m by (simp_all add: marked_def)
  show "given_addresses p = {#}" "\<not> page_inside p a" using g assms(2) by (simp_all add: given_addresses_def page_inside_def)
  show "pool_ok (p\<lparr>pl_count := c, pl_function := f\<rparr>)" "given_addresses (p\<lparr>pl_count := c, pl_function := f\<rparr>) = {#}"
    "pool_ok (p\<lparr>pl_count := c, pl_function := f, pl_buffer := b\<rparr>)"
    "given_addresses (p\<lparr>pl_count := c, pl_function := f, pl_buffer := b\<rparr>) = {#}"
    using o u by (simp_all add: pool_ok_def given_marked given_addresses_def)
  show "given_to 0 (p\<lparr>pl_count := c, pl_function := f, pl_buffer := b\<rparr>)"
    if "buffer_holds (p\<lparr>pl_count := c, pl_function := f, pl_buffer := b\<rparr>)" "c \<le> 16384"
    using that u o by (simp add: given_to_def)
qed

text \<open>A pool without memory may be given any size and any memory.\<close>

lemma set_empty_pool_ok:
  assumes "pools_ok h" and "\<not> bf_memory (pl_buffer (get_pool name h))" and "pool_ok p" and "given_addresses p = {#}"
  shows "pools_ok (set_pool name p h)"
proof (rule pools_okI [OF assms(1), of name])
  note wo = pool_without_memory [OF pools_okD [OF assms(1), of name] assms(2)]
  have f: "h_firmware (set_pool name p h) = h_firmware h" "h_in_doubt (set_pool name p h) = h_in_doubt h" by (cases name; simp)+
  show "mset (h_firmware (set_pool name p h)) + given_addresses (get_pool name h) =
      mset (h_firmware h) + given_addresses (get_pool name (set_pool name p h))"
    using wo(3) assms(4) by (simp add: f)
  show "page_inside (get_pool name (set_pool name p h)) a \<or> a \<in> set (h_in_doubt h) \<and> \<not> page_inside (get_pool name h) a"
    if "a \<in> set (h_in_doubt (set_pool name p h))" for a using that wo(4) by (simp add: f)
  show "tr_quarantined (h_transport (set_pool name p h))" if "h_in_doubt (set_pool name p h) \<noteq> []"
    using that assms(1) by (simp add: f pools_ok_def)
qed (use assms(3) in simp_all)

lemma provided_room:
  assumes "buffer_allocate ops (ucast c * 4096) b w = (IO_Success, b', w')" and "c \<le> 16384"
  shows "buffer_holds (p\<lparr>pl_count := c, pl_function := f, pl_buffer := b'\<rparr>)"
proof -
  have "unat c \<le> 16384" using assms(2) by (simp add: word_le_nat_alt)
  then have "unat (ucast c * 4096 :: u64) = unat c * 4096" by (simp add: unat_word_ariths)
  then show ?thesis using buffer_allocate_result [OF assms(1)] by (simp add: buffer_holds_def)
qed

lemma safe_provide [safe_rules]: "safe (provide ops name phase)"
  unfolding safe_def
proof (intro allI impI)
  fix h w ok h' w'
  assume p: "provide ops name phase (h, w) = (ok, h', w')" and ok: "pools_ok h"
  let ?h0 = "h\<lparr>h_page_phase := phase, h_page_step := 1, h_page_count := 0\<rparr>"
  obtain b h1 w1 where 1: "simple ops 0x107 phase 16 (?h0, w) = (b, h1, w1)" by (cases "simple ops 0x107 phase 16 (?h0, w)")
  have "kept h h1" using keepsD [OF keeps_simple 1] by simp
  then have ok1: "pools_ok h1" using ok by (rule kept_ok)
  let ?c = "read_be32 (h_output h1) 12" and ?f = "ucast (read_be32 (h_output h1) 8) :: u16"
  let ?h1 = "h1\<lparr>h_page_count := ?c, h_page_step := 2\<rparr>"
  let ?p1 = "get_pool name ?h1"
  let ?p2 = "?p1\<lparr>pl_count := ?c, pl_function := ?f\<rparr>"
  let ?h2 = "set_pool name ?p2 ?h1"
  have ok1': "pools_ok ?h1" by (rule kept_ok [OF _ ok1]) simp
  show "pools_ok h'"
  proof (cases "b \<and> \<not> (?c <s 0 \<or> 16384 < ?c \<or> bf_memory (pl_buffer ?p1))")
    case False
    then have "kept h1 h'" using p 1
      by (cases b) (auto simp: provide_def Let_def)
    then show ?thesis using ok1 kept_ok by blast
  next
    case True
    then have nomem: "\<not> bf_memory (pl_buffer ?p1)" and c: "?c \<le> 16384" by auto
    note wo = pool_without_memory [OF pools_okD [OF ok1', of name] nomem]
    show ?thesis
    proof (cases "?c = 0")
      case c0: True
      have "kept ?h2 h'" using p 1 True c0 by (auto simp: provide_def Let_def)
      then show ?thesis using set_empty_pool_ok [OF ok1' nomem wo(5,6)] kept_ok by blast
    next
      case c1: False
      obtain e b2 w2 where a: "buffer_allocate ops (ucast ?c * 4096) (pl_buffer ?p1) w1 = (e, b2, w2)"
        by (cases "buffer_allocate ops (ucast ?c * 4096) (pl_buffer ?p1) w1")
      let ?h3 = "set_pool name (?p2\<lparr>pl_buffer := b2\<rparr>) (?h2\<lparr>h_page_step := 3\<rparr>)"
      have "?h3 = (set_pool name (?p2\<lparr>pl_buffer := b2\<rparr>) ?h1)\<lparr>h_page_step := 3\<rparr>" by (cases name) simp_all
      then have "kept (set_pool name (?p2\<lparr>pl_buffer := b2\<rparr>) ?h1) ?h3" by simp
      then have ok3: "pools_ok ?h3" using set_empty_pool_ok [OF ok1' nomem wo(7,8)] kept_ok by blast
      have r: "(if e \<noteq> IO_Success then (False, ?h3\<lparr>h_startup_error := e\<rparr>, w2)
          else all_ok [give_loop ops name 0 (unat ?c), modify (\<lambda>h. h\<lparr>h_page_step := 0, h_page_phase := 0\<rparr>)] (?h3, w2)) = (ok, h', w')"
        using p 1 True c1 a by (simp add: provide_def Let_def cong: if_cong)
      show ?thesis
      proof (cases "e = IO_Success")
        case False
        then have "kept ?h3 h'" using r by auto
        then show ?thesis using ok3 kept_ok by blast
      next
        case True
        have g: "given_to 0 (get_pool name ?h3)" using wo(9) [OF provided_room [OF a [unfolded True] c] c] by simp
        obtain b4 h4 w4 where l: "give_loop ops name 0 (unat ?c) (?h3, w2) = (b4, h4, w4)" by (cases "give_loop ops name 0 (unat ?c) (?h3, w2)")
        have "pools_ok h4" by (rule give_loop_ok [OF l g _ ok3]) simp
        moreover have "kept h4 h'" using r True l by (auto simp: all_ok.simps modify_def split: bool.splits)
        ultimately show ?thesis using kept_ok by blast
      qed
    qed
  qed
qed

lemma in_poolD:
  assumes "in_pool f dma p" and "buffer_holds p"
  shows "page_addr p (unat (ucast ((dma - bf_dma (pl_buffer p)) div 4096) :: u32)) = dma"
proof -
  let ?b = "bf_dma (pl_buffer p)" and ?d = "dma - bf_dma (pl_buffer p)"
  have le: "?b \<le> dma" and lt: "?d < ucast (pl_count p) * 4096" and al: "unat dma mod 4096 = 0" "unat ?b mod 4096 = 0"
    using assms by (simp_all add: in_pool_def buffer_holds_def mask_pages)
  have d: "unat ?d = unat dma - unat ?b" using le by (simp add: unat_sub_le)
  have "4096 dvd unat ?d" unfolding d using al by (intro dvd_diff_nat) (simp_all add: mod_eq_0_iff_dvd)
  then have m: "unat ?d = 4096 * (unat ?d div 4096)" by simp
  have c: "unat (pl_count p) < 2 ^ 32" using unsigned_less [of "pl_count p"] by simp
  then have "unat (ucast (pl_count p) * 4096 :: u64) = unat (pl_count p) * 4096" by (simp add: unat_word_ariths)
  then have "unat ?d div 4096 < unat (pl_count p)" using lt by (simp add: word_less_nat_alt less_mult_imp_div_less)
  then have "unat ?d div 4096 < 2 ^ 32" using c by simp
  then have k: "unat (ucast (?d div 4096) :: u32) = unat ?d div 4096" by (simp add: ucast_u32_of_u64 unat_div)
  have "of_nat (unat ?d div 4096) * 4096 = (of_nat (4096 * (unat ?d div 4096)) :: u64)" by (simp add: mult.commute)
  also have "\<dots> = ?d" unfolding m [symmetric] by simp
  finally show ?thesis unfolding page_addr_def k by simp
qed

lemma take_given_marked: "take_given page p = Some p' \<Longrightarrow> marked p' i \<Longrightarrow> marked p i"
  by (auto simp: marked_def take_given_def Let_def bit_simps split: if_splits)

lemma take_pool_ok:
  assumes "pool_ok p" and "take_given page p = Some p'" and "buffer_holds p \<Longrightarrow> page_addr p (unat page) = dma"
  defines "p2 \<equiv> p'\<lparr>pl_owned := pl_owned p' - 1\<rparr>"
  shows "pool_ok p2" "given_addresses p = add_mset dma (given_addresses p2)" "page_inside p2 = page_inside p"
proof -
  note t = take_given_Some [OF assms(2)]
  have owned: "unat (pl_owned p) = card (given_pages p)"
    and held: "\<And>i. marked p i \<Longrightarrow> i < unat (pl_count p) \<and> buffer_holds p"
    using assms(1) unfolding pool_ok_def by blast+
  have "card (given_pages p') + 1 = unat (pl_owned p)" using owned card_Suc_Diff1 [OF finite_given t(1)] t(2) by simp
  then have o: "unat (pl_owned p' - 1) = card (given_pages p')"
    using t(4) by (subst unat_sub_le) (simp_all add: word_le_nat_alt)
  have f: "pl_buffer p2 = pl_buffer p" "pl_count p2 = pl_count p" using t(3,5) by (simp_all add: p2_def)
  note fld = page_fields [OF f]
  then show "page_inside p2 = page_inside p" by simp
  have g2: "given_pages p2 = given_pages p'" by (simp add: given_pages_def p2_def)
  have "marked p2 i \<Longrightarrow> marked p i" for i using take_given_marked [OF assms(2), of i] by (simp add: marked_def p2_def)
  then have "\<forall>i. marked p2 i \<longrightarrow> i < unat (pl_count p2) \<and> buffer_holds p2" using held unfolding f(2) fld(3) by blast
  moreover have "unat (pl_owned p2) = card (given_pages p2)" using o g2 by (simp add: p2_def)
  ultimately show "pool_ok p2" unfolding pool_ok_def by blast
  have "marked p (unat page)" using t(1) by (simp add: given_marked)
  then have "page_addr p (unat page) = dma" using held assms(3) by blast
  then show "given_addresses p = add_mset dma (given_addresses p2)"
    unfolding given_addresses_def fld(1) g2 t(2) using mset_set.remove [OF finite_given t(1)] by simp
qed

lemma take_one_ok:
  assumes "pools_ok h" and "in_pool f dma (get_pool name h)"
    and "take_given (ucast ((dma - bf_dma (pl_buffer (get_pool name h))) div 4096)) (get_pool name h) = Some p'"
  shows "pools_ok (set_pool name (p'\<lparr>pl_owned := pl_owned p' - 1\<rparr>) (page_returned dma h))"
proof -
  define p where "p = get_pool name h"
  define p2 where "p2 = p'\<lparr>pl_owned := pl_owned p' - 1\<rparr>"
  define h2 where "h2 = set_pool name p2 (page_returned dma h)"
  note t = take_pool_ok [OF pools_okD [OF assms(1)] assms(3) in_poolD [OF assms(2)], folded p2_def p_def]
  have g: "get_pool name h2 = p2" "\<And>other. other \<noteq> name \<Longrightarrow> get_pool other h2 = get_pool other h"
    "h_transport h2 = h_transport h" by (simp_all add: h2_def)
  have f: "h_firmware h2 = remove1 dma (h_firmware h)" "h_in_doubt h2 = h_in_doubt h"
    unfolding h2_def by (cases name; simp add: page_returned_def)+
  have "given_addresses p \<subseteq># mset (h_firmware h)" using assms(1) unfolding p_def by (cases name) (simp_all add: pools_ok_def)
  then have "dma \<in># mset (h_firmware h)" using t(2) by (auto dest: mset_subset_eqD)
  then obtain M where "mset (h_firmware h) = add_mset dma M" by (metis insert_DiffM)
  then have m: "mset (h_firmware h2) + given_addresses p = mset (h_firmware h) + given_addresses p2"
    unfolding f(1) by (simp add: t(2))
  have "pools_ok h2"
  proof (rule pools_okI [OF assms(1) _ g(2)])
    show "pool_ok (get_pool name h2)" unfolding g(1) by (rule t(1))
    show "mset (h_firmware h2) + given_addresses (get_pool name h) = mset (h_firmware h) + given_addresses (get_pool name h2)"
      using m unfolding g(1) p_def .
    show "page_inside (get_pool name h2) a \<or> a \<in> set (h_in_doubt h) \<and> \<not> page_inside (get_pool name h) a"
      if "a \<in> set (h_in_doubt h2)" for a
      using that t(3) unfolding g(1) f(2) p_def by simp
    show "tr_quarantined (h_transport h2)" if "h_in_doubt h2 \<noteq> []"
      using that assms(1) unfolding f(2) g(3) by (simp add: pools_ok_def)
  qed
  then show ?thesis by (simp add: h2_def p2_def)
qed

lemma owner_in_pool: "owner_of function dma h = Some name \<Longrightarrow> in_pool function dma (get_pool name h)"
  by (auto simp: owner_of_def split: if_splits)

lemma take_loop_ok: "take_loop function js h = (ok, h') \<Longrightarrow> pools_ok h \<Longrightarrow> pools_ok h'"
proof (induction js arbitrary: h)
  case (Cons j js)
  let ?dma = "read_be64 (h_output h) (16 + j * 8)"
  have quar: "pools_ok (quarantine h)" using Cons.prems(2) by (rule kept_ok [rotated]) simp
  show ?case
  proof (cases "owner_of function ?dma h")
    case None
    then show ?thesis using Cons.prems quar by simp
  next
    case (Some name)
    let ?p = "get_pool name h"
    show ?thesis
    proof (cases "take_given (ucast ((?dma - bf_dma (pl_buffer ?p)) div 4096)) ?p")
      case None
      then show ?thesis using Cons.prems Some quar by (simp add: Let_def)
    next
      case (Some p')
      have "take_loop function js (set_pool name (p'\<lparr>pl_owned := pl_owned p' - 1\<rparr>) (page_returned ?dma h)) = (ok, h')"
        using Cons.prems(1) \<open>owner_of function ?dma h = Some name\<close> Some by (simp add: Let_def)
      with Cons.IH take_one_ok [OF Cons.prems(2) owner_in_pool [OF \<open>owner_of function ?dma h = Some name\<close>] Some]
      show ?thesis by blast
    qed
  qed
qed simp

lemma safe_round: "safe (reclaim_round ops name)"
  unfolding safe_def
proof (intro allI impI)
  fix h w ok h' w'
  assume r: "reclaim_round ops name (h, w) = (ok, h', w')" and k: "pools_ok h"
  let ?h0 = "put_input (\<lambda>m. write_be32 (write_be32 m 8 (ucast (pl_function (get_pool name h)))) 12 (min (pl_owned (get_pool name h)) 256)) (header 0x108 2 h)"
  obtain b h1 w1 where c: "call ops 16 (16 + unat (min (pl_owned (get_pool name h)) 256) * 8) (?h0, w) = (b, h1, w1)"
    by (cases "call ops 16 (16 + unat (min (pl_owned (get_pool name h)) 256) * 8) (?h0, w)")
  have "kept h h1" using call_keeps [OF c] by simp
  then have "pools_ok h1" "pools_ok (quarantine h1)" using k kept_ok kept_quarantine by blast+
  then show "pools_ok h'" using r c take_loop_ok
    by (auto simp: reclaim_round_def Let_def split: bool.splits if_splits prod.splits)
qed

lemma reclaim_result:
  "reclaim ops name (h, w) = (ok, h', w') \<Longrightarrow> pools_ok h \<Longrightarrow> pools_ok h' \<and> (ok \<longrightarrow> pl_owned (get_pool name h') = 0)"
proof (induction ops name "(h, w)" arbitrary: h w rule: reclaim.induct)
  case (1 ops name)
  show ?case
  proof (cases "pl_owned (get_pool name h) = 0 \<or> tr_quarantined (h_transport h)")
    case True
    then show ?thesis using 1(2,3) by (subst (asm) reclaim.simps) auto
  next
    case False
    obtain b h1 w1 where r: "reclaim_round ops name (h, w) = (b, h1, w1)" by (cases "reclaim_round ops name (h, w)")
    have k1: "pools_ok h1" using safeD [OF safe_round r] 1(3) by blast
    show ?thesis
    proof (cases b)
      case True
      then have "reclaim ops name (h1, w1) = (ok, h', w')" using 1(2) False r by (subst (asm) reclaim.simps) simp
      with 1(1) [OF refl False r [symmetric]] True k1 show ?thesis by blast
    next
      case b: False
      then have "h' = h1" "\<not> ok" using 1(2) False r by (subst (asm) reclaim.simps, simp)+
      then show ?thesis using k1 by simp
    qed
  qed
qed

subsubsection \<open>Start, stop and the pools\<close>

lemma open_pools: "transport_open ops (h, w) = (e, h', w') \<Longrightarrow> kept h h'"
  unfolding transport_open_def open_queue_def Let_def by (auto simp: kept_def split: if_splits prod.splits bool.splits)

text \<open>Closing lifts a quarantine only of a device that is gone.\<close>

lemma close_pools:
  assumes "transport_close ops (h, w) = (e, h', w')" and "\<And>w. \<not> fst (io_detached ops w)"
  shows "kept h h'"
proof -
  obtain w1 where "io_detached ops w = (False, w1)" using assms(2) [of w] by (cases "io_detached ops w") auto
  with assms(1) show ?thesis
    unfolding transport_close_def Let_def by (auto simp: kept_def split: if_splits prod.splits bool.splits io_return.splits)
qed

lemmas safe_kept [safe_rules] =
  keeps_basic [THEN keeps_safe] keeps_simple [THEN keeps_safe] keeps_negotiate [THEN keeps_safe] keeps_uar_loop [THEN keeps_safe]
  keeps_doorbell [THEN keeps_safe] keeps_eq [THEN keeps_safe] keeps_roce [THEN keeps_safe]

lemma safe_start: "safe (start ops)"
  unfolding safe_def
proof (intro allI impI)
  fix h w ok h' w'
  assume s: "start ops (h, w) = (ok, h', w')" and k: "pools_ok h"
  let ?h0 = "h\<lparr>h_page_phase := 0, h_page_step := 0, h_page_count := 0, h_bf_capable := False, h_bf_enabled := False,
              h_user_bf := False, h_bf_bytes := 0, h_bf_posts := 0\<rparr>"
  obtain e h1 w1 where o: "transport_open ops (?h0, w) = (e, h1, w1)" by (cases "transport_open ops (?h0, w)")
  have "kept h h1" using open_pools [OF o] by simp
  then have k1: "pools_ok h1" using k by (rule kept_ok)
  show "pools_ok h'"
  proof (cases "e = IO_Success")
    case False
    then have "h' = h1\<lparr>h_startup_error := e\<rparr>" using s o by (simp add: start_def Let_def)
    then show ?thesis using k1 kept_ok [of h1 h'] by simp
  next
    case True
    show ?thesis
      using s o True unfolding start_def Let_def
      by (simp, elim safeD [rotated 1, OF _ k1]) (intro safe_all_ok, auto intro!: safe_rules simp del: uar_loop.simps)
  qed
qed

lemma owned_zero: "pool_ok p \<Longrightarrow> pl_owned p = 0 \<Longrightarrow> given_pages p = {}"
  by (simp add: pool_ok_def)

lemma all_ok_Cons:
  assumes "all_ok (f # fs) s = (ok, s')"
  obtains "f s = (False, s')" "\<not> ok" | s1 where "f s = (True, s1)" "all_ok fs s1 = (ok, s')"
  using assms by (auto simp: all_ok.simps split: prod.splits bool.splits)

text \<open>Taking pages back only ever shrinks what the firmware has, and leaves what is in doubt.\<close>

definition fewer :: "hca \<Rightarrow> hca \<Rightarrow> bool" where
  "fewer h' h \<longleftrightarrow> (\<forall>name. given_pages (get_pool name h') \<subseteq> given_pages (get_pool name h)) \<and> h_in_doubt h' = h_in_doubt h"

lemma fewer_trans: "fewer h2 h1 \<Longrightarrow> fewer h1 h \<Longrightarrow> fewer h2 h"
  unfolding fewer_def by (metis subset_trans)

lemma fewer_pools: "kept h h' \<Longrightarrow> fewer h' h"
  by (simp add: fewer_def keptD)

lemma take_loop_fewer: "take_loop function js h = (ok, h') \<Longrightarrow> fewer h' h"
proof (induction js arbitrary: h)
  case (Cons j js)
  let ?dma = "read_be64 (h_output h) (16 + j * 8)"
  show ?case
  proof (cases "owner_of function ?dma h")
    case (Some name)
    let ?p = "get_pool name h"
    show ?thesis
    proof (cases "take_given (ucast ((?dma - bf_dma (pl_buffer ?p)) div 4096)) ?p")
      case None
      then show ?thesis using Cons.prems Some by (auto simp: Let_def intro: fewer_pools)
    next
      case (Some p')
      let ?h = "set_pool name (p'\<lparr>pl_owned := pl_owned p' - 1\<rparr>) (page_returned ?dma h)"
      have "given_pages (p'\<lparr>pl_owned := pl_owned p' - 1\<rparr>) \<subseteq> given_pages ?p"
        using take_given_Some(2) [OF Some] by (auto simp: given_pages_def)
      moreover have "h_in_doubt ?h = h_in_doubt h" by (cases name) (simp_all add: page_returned_def)
      ultimately have "fewer ?h h" unfolding fewer_def by (metis page_record(1) pools_other(8,9) subset_refl)
      moreover have "take_loop function js ?h = (ok, h')"
        using Cons.prems \<open>owner_of function ?dma h = Some name\<close> Some by (simp add: Let_def)
      ultimately show ?thesis using Cons.IH fewer_trans by blast
    qed
  qed (use Cons.prems in \<open>auto intro: fewer_pools\<close>)
qed (simp add: fewer_def)

lemma round_fewer: "reclaim_round ops name (h, w) = (ok, h', w') \<Longrightarrow> fewer h' h"
proof -
  assume r: "reclaim_round ops name (h, w) = (ok, h', w')"
  let ?h0 = "put_input (\<lambda>m. write_be32 (write_be32 m 8 (ucast (pl_function (get_pool name h)))) 12 (min (pl_owned (get_pool name h)) 256)) (header 0x108 2 h)"
  obtain b h1 w1 where c: "call ops 16 (16 + unat (min (pl_owned (get_pool name h)) 256) * 8) (?h0, w) = (b, h1, w1)"
    by (cases "call ops 16 (16 + unat (min (pl_owned (get_pool name h)) 256) * 8) (?h0, w)")
  have f: "fewer h1 h" using call_keeps [OF c] by (intro fewer_pools) simp
  have "fewer (quarantine h1) h" using call_keeps [OF c] by (intro fewer_pools) simp
  moreover have "fewer h2 h" if "take_loop (pl_function (get_pool name h)) js h1 = (o2, h2)" for js o2 h2
    using take_loop_fewer [OF that] f fewer_trans by blast
  ultimately show ?thesis using r c f by (auto simp: reclaim_round_def Let_def split: bool.splits if_splits prod.splits)
qed

lemma reclaim_fewer: "reclaim ops name (h, w) = (ok, h', w') \<Longrightarrow> fewer h' h"
proof (induction ops name "(h, w)" arbitrary: h w rule: reclaim.induct)
  case (1 ops name)
  show ?case
  proof (cases "pl_owned (get_pool name h) = 0 \<or> tr_quarantined (h_transport h)")
    case True
    then show ?thesis using 1(2) by (subst (asm) reclaim.simps) (auto intro: fewer_pools)
  next
    case False
    obtain b h1 w1 where r: "reclaim_round ops name (h, w) = (b, h1, w1)" by (cases "reclaim_round ops name (h, w)")
    show ?thesis
    proof (cases b)
      case True
      then have "reclaim ops name (h1, w1) = (ok, h', w')" using 1(2) False r by (subst (asm) reclaim.simps) simp
      with 1(1) [OF refl False r [symmetric]] True round_fewer [OF r] show ?thesis using fewer_trans by blast
    next
      case b: False
      then have "h' = h1" using 1(2) False r by (subst (asm) reclaim.simps) simp
      then show ?thesis using round_fewer [OF r] by simp
    qed
  qed
qed

definition no_pages_out :: "hca \<Rightarrow> bool" where
  "no_pages_out h \<longleftrightarrow> (\<forall>name. given_pages (get_pool name h) = {}) \<and> h_in_doubt h = []"

lemma no_pages_kept: "kept h h' \<Longrightarrow> no_pages_out h \<Longrightarrow> no_pages_out h'"
  by (simp add: no_pages_out_def keptD)

lemma no_pages_firmware:
  assumes "pools_ok h" and "no_pages_out h"
  shows "h_firmware h = []" "h_in_doubt h = []"
proof -
  have "given_addresses (get_pool name h) = {#}" for name using assms(2) by (simp add: no_pages_out_def given_addresses_def)
  then have "mset (h_firmware h) = {#}" using assms(1) by (simp only: pools_ok_def) simp
  then show "h_firmware h = []" "h_in_doubt h = []" using assms(2) by (simp_all add: no_pages_out_def)
qed

lemma return_pages_result:
  assumes "return_pages ops (h, w) = (ok, h', w')" and "pools_ok h" and "\<And>w. \<not> fst (io_detached ops w)"
  shows "pools_ok h' \<and> (ok \<longrightarrow> no_pages_out h')"
proof -
  obtain w0 where d: "io_detached ops w = (False, w0)" using assms(3) [of w] by (cases "io_detached ops w") auto
  let ?f = "when_ok (\<lambda>h. tr_initialized (h_transport h)) (simple ops 0x103 0 16)"
  let ?g = "when_ok (\<lambda>h. tr_enabled (h_transport h)) (simple ops 0x105 0 16)"
  have kf: "keeps ?f" "keeps ?g" by (intro keep_rules)+
  have a: "all_ok [require (\<lambda>h. \<not> tr_quarantined (h_transport h)), ?f, reclaim ops Initial, reclaim ops Boot, ?g] (h, w0) = (ok, h', w')"
    using assms(1) d by (simp add: return_pages_def)
  from a show ?thesis
  proof (cases rule: all_ok_Cons)
    case (2 s1)
    then have s1: "s1 = (h, w0)" and nq: "\<not> tr_quarantined (h_transport h)" by (auto simp: require_def)
    from 2(2) show ?thesis unfolding s1
    proof (cases rule: all_ok_Cons)
      case (2 s2)
      obtain h2 w2 where s2: "s2 = (h2, w2)" by fastforce
      note kp2 = keepsD [OF kf(1) 2(1) [unfolded s2]]
      have k2: "pools_ok h2" using kp2 assms(2) kept_ok by blast
      have d2: "h_in_doubt h2 = []" using keptD(3) [OF kp2] nq assms(2) by (auto simp: pools_ok_def)
      from 2(2) show ?thesis unfolding s2
      proof (cases rule: all_ok_Cons)
        case 1
        then show ?thesis using reclaim_result [OF 1(1) k2] by simp
      next
        case (2 s3)
        obtain h3 w3 where s3: "s3 = (h3, w3)" by fastforce
        note r3 = reclaim_result [OF 2(1) [unfolded s3] k2] and f3 = reclaim_fewer [OF 2(1) [unfolded s3]]
        from 2(2) show ?thesis unfolding s3
        proof (cases rule: all_ok_Cons)
          case 1
          then show ?thesis using reclaim_result [OF 1(1)] r3 by simp
        next
          case (2 s4)
          obtain h4 w4 where s4: "s4 = (h4, w4)" by fastforce
          have k3: "pools_ok h3" using r3 by simp
          note r4 = reclaim_result [OF 2(1) [unfolded s4] k3]
          have "given_pages (get_pool Initial h4) = {}"
            using reclaim_fewer [OF 2(1) [unfolded s4]] r3 owned_zero [OF pools_okD [OF k3, of Initial]] unfolding fewer_def by blast
          moreover have "given_pages (get_pool Boot h4) = {}" using r4 owned_zero [OF pools_okD, of h4 Boot] by simp
          moreover have "h_in_doubt h4 = []" using d2 f3 reclaim_fewer [OF 2(1) [unfolded s4]] unfolding fewer_def by simp
          ultimately have n4: "no_pages_out h4" unfolding no_pages_out_def by (metis pool_name.exhaust)
          obtain b5 where g: "?g (h4, w4) = (b5, h', w')" "ok = b5"
            using 2(2) s4 by (auto simp: all_ok.simps split: prod.splits bool.splits)
          show ?thesis using keepsD [OF kf(2) g(1)] r4 n4 kept_ok no_pages_kept by blast
        qed
      qed
    qed (use keepsD [OF kf(1)] assms(2) kept_ok in blast)
  qed (use assms(2) in \<open>auto simp: require_def\<close>)
qed

lemma release_pool_result:
  assumes "release_pool ops name (h, w) = (ok, h', w')" and "pools_ok h" and "no_pages_out h"
  shows "pools_ok h' \<and> no_pages_out h'"
proof -
  let ?p = "get_pool name h"
  obtain e b w1 where r: "buffer_release ops (pl_buffer ?p) w = (e, b, w1)" by (cases "buffer_release ops (pl_buffer ?p) w")
  let ?q = "?p\<lparr>pl_buffer := b\<rparr>"
  have h': "h' = set_pool name ?q h" using assms(1) r by (simp add: release_at_def)
  have f: "h_firmware h' = h_firmware h" "h_in_doubt h' = h_in_doubt h" unfolding h' by (cases name; simp)+
  have p: "pool_ok ?p" by (rule pools_okD [OF assms(2)])
  have none: "given_pages ?p = {}" "h_in_doubt h = []" using assms(3) by (simp_all add: no_pages_out_def)
  then have g: "given_pages ?q = {}" by (simp add: given_pages_def)
  have "\<not> marked ?p i" for i using p none by (auto simp: pool_ok_def given_marked)
  then have "\<not> marked ?q i" for i by (simp add: marked_def)
  then have "pool_ok (get_pool name h')" using p g none by (simp add: h' pool_ok_def)
  then have "pools_ok h'"
    using none g f by (intro pools_okI [OF assms(2), of name]) (simp_all add: h' given_addresses_def)
  moreover have "no_pages_out h'" unfolding no_pages_out_def f using assms(3) g by (metis h' no_pages_out_def pools_other(8,9))
  ultimately show ?thesis by blast
qed

lemma all_ok_append:
  "all_ok (fs @ gs) s = (case all_ok fs s of (True, s1) \<Rightarrow> all_ok gs s1 | (False, s1) \<Rightarrow> (False, s1))"
  by (induction fs arbitrary: s) (simp_all add: all_ok.simps split: prod.splits bool.splits)

lemma stop_result:
  assumes "stop ops (h, w) = (ok, h', w')" and "pools_ok h" and never: "\<And>w. \<not> fst (io_detached ops w)"
  shows "pools_ok h' \<and> (ok \<longrightarrow> no_pages_out h')"
proof -
  let ?a = "[require (\<lambda>h. tr_resources (h_transport h) \<le> live_count h),
         destroy_at ops h_eq (\<lambda>ob h. h\<lparr>h_eq := ob\<rparr>) 0x302, destroy_at ops h_uar (\<lambda>ob h. h\<lparr>h_uar := ob\<rparr>) 0x803, destroy_skipped ops [0, 1, 2, 3]]"
  let ?r = "release_at ops h_eq_buffer (\<lambda>b h. h\<lparr>h_eq_buffer := b\<rparr>)"
  let ?b = "[return_pages ops, ?r, release_pool ops Initial, release_pool ops Boot]"
  have ka: "keeps (all_ok ?a)" by (intro keep_rules) (auto intro!: keep_rules)
  have kr: "keeps ?r" by (intro keep_rules) simp
  obtain b1 h1 w1 where 1: "all_ok ?a (h, w) = (b1, h1, w1)" by (cases "all_ok ?a (h, w)")
  have k1: "pools_ok h1" using keepsD [OF ka 1] assms(2) kept_ok by blast
  obtain b2 h2 w2 where 2: "all_ok ?b (h1, w1) = (b2, h2, w2)" by (cases "all_ok ?b (h1, w1)")
  have k2: "pools_ok h2 \<and> (b2 \<longrightarrow> no_pages_out h2)"
    using 2
  proof (cases rule: all_ok_Cons)
    case 1
    then show ?thesis using return_pages_result [OF _ k1 never] by blast
  next
    case (2 s3)
    obtain h3 w3 where s3: "s3 = (h3, w3)" by fastforce
    have r3: "pools_ok h3 \<and> no_pages_out h3" using return_pages_result [OF 2(1) [unfolded s3] k1 never] by simp
    from 2(2) show ?thesis unfolding s3
    proof (cases rule: all_ok_Cons)
      case 1
      then show ?thesis using keepsD [OF kr 1(1)] r3 kept_ok by blast
    next
      case (2 s4)
      obtain h4 w4 where s4: "s4 = (h4, w4)" by fastforce
      have r4: "pools_ok h4" "no_pages_out h4"
        using keepsD [OF kr 2(1) [unfolded s4]] r3 kept_ok no_pages_kept by blast+
      from 2(2) show ?thesis unfolding s4
      proof (cases rule: all_ok_Cons)
        case 1
        then show ?thesis using release_pool_result [OF 1(1) r4] by blast
      next
        case (2 s5)
        obtain h5 w5 where s5: "s5 = (h5, w5)" by fastforce
        have r5: "pools_ok h5" "no_pages_out h5" using release_pool_result [OF 2(1) [unfolded s5] r4] by auto
        have l: "release_pool ops Boot (h5, w5) = (b2, h2, w2)" using 2(2) s5 by (auto simp: all_ok.simps split: prod.splits bool.splits)
        show ?thesis using release_pool_result [OF l r5] by blast
      qed
    qed
  qed
  have "stop ops (h, w) = (case all_ok (?a @ ?b) (h, w) of (False, s1) \<Rightarrow> (False, s1)
      | (True, s1) \<Rightarrow> (case transport_close ops s1 of (e, s2) \<Rightarrow> (e = IO_Success, s2)))" by (simp add: stop_def)
  also have "all_ok (?a @ ?b) (h, w) = (if b1 then (b2, h2, w2) else (False, h1, w1))"
    unfolding all_ok_append 1 using 2 by (simp split: bool.splits)
  finally have s: "(case (if b1 then (b2, h2, w2) else (False, h1, w1)) of (False, s1) \<Rightarrow> (False, s1)
      | (True, s1) \<Rightarrow> (case transport_close ops s1 of (e, s2) \<Rightarrow> (e = IO_Success, s2))) = (ok, h', w')" using assms(1) by simp
  obtain e h6 w6 where c: "transport_close ops (h2, w2) = (e, h6, w6)" by (cases "transport_close ops (h2, w2)")
  have "kept h2 h6" by (rule close_pools [OF c never])
  then have "pools_ok h2 \<Longrightarrow> pools_ok h6" "no_pages_out h2 \<Longrightarrow> no_pages_out h6" using kept_ok no_pages_kept by blast+
  then show ?thesis using s c k1 k2 by (auto split: if_splits bool.splits)
qed

subsubsection \<open>The pages over the life of the driver\<close>

fun lifecycle :: "'w hca_ops \<Rightarrow> bool list \<Rightarrow> hca \<times> 'w \<Rightarrow> bool \<times> hca \<times> 'w" where
  "lifecycle ops [] s = (True, s)"
| "lifecycle ops (up # calls) s = lifecycle ops calls (snd (if up then start ops s else stop ops s))"

text \<open>
  C36: the firmware's pages are always accounted for. As long as the device is not detached, after any
  sequence of starts and stops, successful or not, with any firmware: the pages the firmware was
  given by successful commands and has not returned, by the addresses in the commands' and answers'
  bytes, are exactly the ones marked in the two pools' bitmaps, whose counters are exact; every one
  of them, and every page in a give command whose outcome is uncertain, lies inside memory its pool
  still holds; and a stop that succeeds leaves the firmware none.
\<close>

theorem firmware_pages_held:
  fixes calls :: "bool list"
  assumes "pools_ok (fst s)" and "\<And>w. \<not> fst (io_detached ops w)"
  defines "h \<equiv> fst (snd (lifecycle ops calls s))" and "after \<equiv> stop ops (snd (lifecycle ops calls s))"
  shows "(\<forall>name. unat (pl_owned (get_pool name h)) = card (given_pages (get_pool name h))) \<and>
    mset (h_firmware h) = given_addresses (h_boot h) + given_addresses (h_initial h) \<and>
    (\<forall>a \<in> set (h_firmware h) \<union> set (h_in_doubt h). \<exists>name. page_inside (get_pool name h) a) \<and>
    (fst after \<longrightarrow> h_firmware (fst (snd after)) = [] \<and> h_in_doubt (fst (snd after)) = [])"
proof -
  have ok: "pools_ok h"
    unfolding h_def using assms(1)
  proof (induction calls arbitrary: s)
    case (Cons up calls)
    obtain h w where s: "s = (h, w)" by fastforce
    obtain b h1 w1 where 1: "(if up then start ops s else stop ops s) = (b, h1, w1)" by (cases "if up then start ops s else stop ops s")
    have "pools_ok h1"
      using 1 s Cons.prems safeD [OF safe_start, of ops h w b h1 w1] stop_result [of ops h w b h1 w1] assms(2) by (cases up) auto
    then show ?case using Cons.IH [of "(h1, w1)"] 1 by simp
  qed simp
  then have m: "mset (h_firmware h) = given_addresses (h_boot h) + given_addresses (h_initial h)" by (simp add: pools_ok_def)
  have "\<exists>name. page_inside (get_pool name h) a" if "a \<in> set (h_firmware h)" for a
  proof -
    have "a \<in># given_addresses (get_pool Boot h) \<or> a \<in># given_addresses (get_pool Initial h)"
      using that m by (metis get_pool.simps set_mset_mset union_iff)
    then show ?thesis using given_inside [OF pools_okD [OF ok]] by blast
  qed
  moreover have "\<exists>name. page_inside (get_pool name h) a" if "a \<in> set (h_in_doubt h)" for a
    using that ok by (auto simp: pools_ok_def)
  moreover have "h_firmware (fst (snd after)) = [] \<and> h_in_doubt (fst (snd after)) = []" if "fst after"
  proof -
    obtain w1 b h2 w2 where e: "snd (lifecycle ops calls s) = (h, w1)" "stop ops (h, w1) = (b, h2, w2)"
      unfolding h_def by (metis prod.collapse)
    have "pools_ok h2 \<and> (b \<longrightarrow> no_pages_out h2)" by (rule stop_result [OF e(2) ok assms(2)])
    with that e show ?thesis using no_pages_firmware [of h2] by (simp add: after_def)
  qed
  moreover have "unat (pl_owned (get_pool name h)) = card (given_pages (get_pool name h))" for name
    using pools_okD [OF ok, of name] by (simp add: pool_ok_def)
  ultimately show ?thesis using m by blast
qed

text \<open>A device that never answers, and an adapter object whose firmware still has one page.\<close>

definition silent_ops :: "unit hca_ops" where
  "silent_ops = \<lparr>io_adapter = \<lparr>inactive = (\<lambda>w. (False, w)), bell = (\<lambda>q w. (True, w)), answer = (\<lambda>w q. (q, w))\<rparr>,
     io_detached = (\<lambda>w. (False, w)), io_read32 = (\<lambda>a w. (0, w)), io_write32 = (\<lambda>a v w. (True, w)),
     io_config_write = (\<lambda>v w. w), io_config_read = (\<lambda>w. (0, w)), io_allocate = (\<lambda>n w. (Mapped IO_Success 0x10000, w)),
     io_release = (\<lambda>d w. (IO_Success, w)), io_map = (\<lambda>off wc w. (None, w)), io_store = (\<lambda>off vs w. w)\<rparr>"

definition empty_pool :: pool where
  "empty_pool = \<lparr>pl_buffer = no_buffer, pl_count = 0, pl_owned = 0, pl_function = 0, pl_given = (\<lambda>_. 0)\<rparr>"

definition one_page :: pool where
  "one_page = \<lparr>pl_buffer = \<lparr>bf_memory = True, bf_cpu = (\<lambda>_. 0), bf_dma = 0x20000, bf_size = 16384\<rparr>, pl_count = 2, pl_owned = 1, pl_function = 3,
     pl_given = (\<lambda>i. if i = 0 then 1 else 0)\<rparr>"

definition sample_hca :: hca where
  "sample_hca = \<lparr>h_transport = sample_transport, h_queue_buffer = no_buffer,
     h_bar = \<lparr>br_bar = True, br_bytes = 0x100000, br_map = None, br_base = 0, br_uar = 0, br_buffer = 0\<rparr>,
     h_saved_command = 0, h_command_saved = True, h_input = (\<lambda>_. 0), h_output = (\<lambda>_. 0), h_boot = one_page, h_initial = empty_pool,
     h_uar = no_object, h_eq = no_object, h_skipped = replicate 4 no_object, h_eq_buffer = no_buffer, h_next_key = 1,
     h_uar_shift = 12, h_startup_error = IO_Success, h_page_phase = 0, h_page_step = 0, h_page_count = 0,
     h_mac = replicate 6 0, h_gid = replicate 16 0, h_bf_capable = False, h_bf_enabled = False, h_bf_bytes = 0, h_bf_posts = 0,
     h_user_queues_requested = False, h_user_queues = False, h_user_bf_requested = False, h_user_bf = False,
     h_relaxed_requested = False, h_relaxed_refused = False, h_relaxed_keys = 0, h_ack_every = False, h_any_qp = False,
     h_mtu = 0, h_max_mtu = 0, h_frame_admin = 0, h_frame_oper = 0, h_frame_vport = 0,
     h_firmware = [0x20000], h_in_doubt = []\<rparr>"

lemma one_page_ok: "given_pages one_page = {0}" "pool_ok one_page" "pool_ok empty_pool"
proof -
  have m: "marked one_page i \<longleftrightarrow> i = 0" for i
    using page_index [of i 0] by (auto simp: marked_def one_page_def bit_1_iff)
  have f: "pl_count one_page = 2" "pl_owned one_page = 1" "bf_memory (pl_buffer one_page)" by (simp_all add: one_page_def)
  have "given_pages one_page = {i. i < 2 \<and> i = 0}" unfolding given_marked m f by simp
  also have "\<dots> = {0}" by auto
  finally show g: "given_pages one_page = {0}" .
  have "buffer_holds one_page" by (simp add: buffer_holds_def one_page_def)
  then show "pool_ok one_page" unfolding pool_ok_def m g using f by simp
  show "pool_ok empty_pool" by (simp add: pool_ok_def given_pages_def marked_def empty_pool_def)
qed

lemma sample_pools: "get_pool Boot sample_hca = one_page" "get_pool Initial sample_hca = empty_pool"
  by (simp_all add: sample_hca_def)

lemma sample_pools_ok: "pools_ok sample_hca"
proof -
  have "given_addresses one_page = {#0x20000#}" "given_addresses empty_pool = {#}"
    by (simp_all add: given_addresses_def one_page_ok(1) page_addr_def) (simp_all add: one_page_def given_pages_def empty_pool_def)
  moreover have "pool_ok (get_pool name sample_hca)" for name using one_page_ok by (cases name) (simp_all add: sample_hca_def)
  moreover have "h_firmware sample_hca = [0x20000]" "h_in_doubt sample_hca = []" by (simp_all add: sample_hca_def)
  ultimately show ?thesis unfolding pools_ok_def by (simp only: sample_pools) simp
qed

theorem firmware_pages_held_witness:
  "h_firmware sample_hca = [0x20000] \<and>
   mset (h_firmware (fst (snd (lifecycle silent_ops [True, False, True] (sample_hca, ()))))) =
     given_addresses (h_boot (fst (snd (lifecycle silent_ops [True, False, True] (sample_hca, ()))))) +
     given_addresses (h_initial (fst (snd (lifecycle silent_ops [True, False, True] (sample_hca, ())))))"
proof -
  have "h_firmware sample_hca = [0x20000]" by (simp add: sample_hca_def)
  moreover have "\<not> fst (io_detached silent_ops w)" for w by (simp add: silent_ops_def)
  ultimately show ?thesis
    using firmware_pages_held [of "(sample_hca, ())" silent_ops "[True, False, True]"] sample_pools_ok by (simp del: lifecycle.simps)
qed

end
