(* ===== verification/Nic_Index.thy ===== *)
theory Nic_Index
  imports Prelude
begin

section \<open>The index of live objects (include/cx5\_pointer\_index.hpp)\<close>

text \<open>
  \<open>PointerIndex\<close> finds the driver's objects by their 32-bit numbers: a table with linear probing,
  twice as many slots as objects, that closes gaps on deletion instead of leaving marks. It is shown
  to be a bounded map (locale \<open>bounded_map\<close>). A slot with a null value is None; the template's
  limit of objects is \<open>2 ^ (b - 1)\<close>, so the table has \<open>2 ^ b\<close> slots. The driver's tables have
  \<open>b = 9\<close>. Positions are natural numbers below the number of slots, and \<open>& mask\<close> is \<open>mod\<close>.
\<close>

type_synonym 'v slots = "(u32 \<times> 'v) option list"

record 'v pindex =
  pi_slots :: "'v slots"
  pi_size :: nat

definition bucket :: "nat \<Rightarrow> u32 \<Rightarrow> nat" where
  "bucket b key = unat (drop_bit (32 - b) (key * 2654435761))"

definition pi_new :: "nat \<Rightarrow> 'v pindex" where
  "pi_new b = \<lparr>pi_slots = replicate (2 ^ b) None, pi_size = 0\<rparr>"

fun find_loop :: "nat \<Rightarrow> 'v slots \<Rightarrow> u32 \<Rightarrow> nat \<Rightarrow> 'v option" where
  "find_loop 0 s key at = None"
| "find_loop (Suc n) s key at =
     (case s ! at of
        None \<Rightarrow> None
      | Some (k, v) \<Rightarrow> if k = key then Some v else find_loop n s key ((at + 1) mod length s))"

definition pi_find :: "nat \<Rightarrow> u32 \<Rightarrow> 'v pindex \<Rightarrow> 'v option" where
  "pi_find b key p = find_loop (2 ^ b) (pi_slots p) key (bucket b key)"

fun insert_loop :: "nat \<Rightarrow> 'v slots \<Rightarrow> u32 \<Rightarrow> 'v \<Rightarrow> nat \<Rightarrow> 'v slots option" where
  "insert_loop 0 s key v at = None"
| "insert_loop (Suc n) s key v at =
     (case s ! at of
        None \<Rightarrow> Some (s[at := Some (key, v)])
      | Some (k, _) \<Rightarrow> if k = key then None else insert_loop n s key v ((at + 1) mod length s))"

definition pi_insert :: "nat \<Rightarrow> u32 \<Rightarrow> 'v \<Rightarrow> 'v pindex \<Rightarrow> bool \<times> 'v pindex" where
  "pi_insert b key v p =
     (if pi_size p = 2 ^ (b - 1) then (False, p)
      else case insert_loop (2 ^ b) (pi_slots p) key v (bucket b key) of
             None \<Rightarrow> (False, p)
           | Some s \<Rightarrow> (True, \<lparr>pi_slots = s, pi_size = pi_size p + 1\<rparr>))"

text \<open>The position whose entry has the key, None at an empty slot or after a whole round.\<close>

fun erase_loop :: "nat \<Rightarrow> 'v slots \<Rightarrow> u32 \<Rightarrow> nat \<Rightarrow> nat option" where
  "erase_loop 0 s key hole = None"
| "erase_loop (Suc n) s key hole =
     (case s ! hole of
        None \<Rightarrow> None
      | Some (k, _) \<Rightarrow> if k \<noteq> key then erase_loop n s key ((hole + 1) mod length s) else Some hole)"

text \<open>Closing the cluster behind a hole; None where \<open>fuel\<close> passes were not enough.\<close>

fun close_loop :: "nat \<Rightarrow> nat \<Rightarrow> 'v slots \<Rightarrow> nat \<Rightarrow> nat \<Rightarrow> 'v slots option" where
  "close_loop 0 b s hole scan = None"
| "close_loop (Suc fuel) b s hole scan =
     (case s ! scan of
        None \<Rightarrow> Some s
      | Some (k, v) \<Rightarrow>
          let n = length s; home = bucket b k in
          if (scan + n - hole) mod n \<le> (scan + n - home) mod n
          then close_loop fuel b (s[hole := Some (k, v), scan := None]) scan ((scan + 1) mod n)
          else close_loop fuel b s hole ((scan + 1) mod n))"

definition pi_erase :: "nat \<Rightarrow> nat \<Rightarrow> u32 \<Rightarrow> 'v \<Rightarrow> 'v pindex \<Rightarrow> (bool \<times> 'v pindex) option" where
  "pi_erase fuel b key expected p =
     (case erase_loop (2 ^ b) (pi_slots p) key (bucket b key) of
        None \<Rightarrow> Some (False, p)
      | Some hole \<Rightarrow>
          if pi_slots p ! hole \<noteq> Some (key, expected) then Some (False, p)
          else (case close_loop fuel b ((pi_slots p)[hole := None]) hole ((hole + 1) mod length (pi_slots p)) of
                  None \<Rightarrow> None
                | Some s \<Rightarrow> Some (True, \<lparr>pi_slots = s, pi_size = pi_size p - 1\<rparr>)))"

subsection \<open>The contract\<close>

datatype 'v map_op = Find u32 | Insert u32 'v | Erase u32 'v
datatype 'v map_out = Found "'v option" | Done bool

fun map_run :: "nat \<Rightarrow> 'v map_op list \<Rightarrow> (u32 \<Rightarrow> 'v option) \<Rightarrow> 'v map_out list" where
  "map_run cap [] m = []"
| "map_run cap (Find k # ops) m = Found (m k) # map_run cap ops m"
| "map_run cap (Insert k v # ops) m =
     (if card (dom m) = cap \<or> k \<in> dom m then Done False # map_run cap ops m
      else Done True # map_run cap ops (m(k \<mapsto> v)))"
| "map_run cap (Erase k v # ops) m =
     (if m k = Some v then Done True # map_run cap ops (m(k := None)) else Done False # map_run cap ops m)"

fun table_run ::
    "(u32 \<Rightarrow> 't \<Rightarrow> 'v option) \<Rightarrow> (u32 \<Rightarrow> 'v \<Rightarrow> 't \<Rightarrow> bool \<times> 't) \<Rightarrow> (u32 \<Rightarrow> 'v \<Rightarrow> 't \<Rightarrow> (bool \<times> 't) option) \<Rightarrow>
      'v map_op list \<Rightarrow> 't \<Rightarrow> 'v map_out list option" where
  "table_run get ins del [] t = Some []"
| "table_run get ins del (Find k # ops) t = map_option ((#) (Found (get k t))) (table_run get ins del ops t)"
| "table_run get ins del (Insert k v # ops) t =
     (case ins k v t of (b, t') \<Rightarrow> map_option ((#) (Done b)) (table_run get ins del ops t'))"
| "table_run get ins del (Erase k v # ops) t =
     (case del k v t of
        None \<Rightarrow> None
      | Some (b, t') \<Rightarrow> map_option ((#) (Done b)) (table_run get ins del ops t'))"

locale bounded_map =
  fixes abs :: "'t \<Rightarrow> u32 \<Rightarrow> 'v option" and ok :: "'t \<Rightarrow> bool" and cap :: nat
    and get :: "u32 \<Rightarrow> 't \<Rightarrow> 'v option" and ins :: "u32 \<Rightarrow> 'v \<Rightarrow> 't \<Rightarrow> bool \<times> 't"
    and del :: "u32 \<Rightarrow> 'v \<Rightarrow> 't \<Rightarrow> (bool \<times> 't) option"
  assumes find_abs: "ok t \<Longrightarrow> get k t = abs t k"
    and ins_abs: "ok t \<Longrightarrow> ins k v t = (b, t') \<Longrightarrow>
      ok t' \<and> (b \<longleftrightarrow> \<not> (card (dom (abs t)) = cap \<or> k \<in> dom (abs t))) \<and> abs t' = (if b then (abs t)(k \<mapsto> v) else abs t)"
    and del_abs: "ok t \<Longrightarrow> \<exists>b t'. del k v t = Some (b, t') \<and> ok t' \<and> (b \<longleftrightarrow> abs t k = Some v) \<and>
      abs t' = (if b then (abs t)(k := None) else abs t)"
begin

lemma table_run_map: "ok t \<Longrightarrow> table_run get ins del ops t = Some (map_run cap ops (abs t))"
proof (induction ops arbitrary: t)
  case (Cons op ops)
  show ?case
  proof (cases op)
    case (Find k)
    with Cons show ?thesis by (simp add: find_abs)
  next
    case (Insert k v)
    obtain b t' where i: "ins k v t = (b, t')" by fastforce
    note a = ins_abs [OF Cons.prems i]
    then have "table_run get ins del ops t' = Some (map_run cap ops (abs t'))" using Cons.IH by blast
    with a i Insert show ?thesis by (cases b) (auto simp: fun_upd_def)
  next
    case (Erase k v)
    obtain b t' where i: "del k v t = Some (b, t')" and a: "ok t'" "b \<longleftrightarrow> abs t k = Some v"
      "abs t' = (if b then (abs t)(k := None) else abs t)" using del_abs [OF Cons.prems, of k v] by blast
    then have "table_run get ins del ops t' = Some (map_run cap ops (abs t'))" using Cons.IH by blast
    with a i Erase show ?thesis by (cases b) (auto simp: fun_upd_def)
  qed
qed simp

end

subsection \<open>Probing\<close>

text \<open>How far \<open>j\<close> lies after \<open>i\<close> around a table of \<open>n\<close> slots.\<close>

definition around :: "nat \<Rightarrow> nat \<Rightarrow> nat \<Rightarrow> nat" where
  "around n i j = (if i \<le> j then j - i else j + n - i)"

lemma around_mod: "i < n \<Longrightarrow> j < n \<Longrightarrow> (j + n - i) mod n = around n i j"
proof -
  assume a: "i < n" "j < n"
  show ?thesis
  proof (cases "i \<le> j")
    case True
    then have "j + n - i = (j - i) + n" by simp
    then have "(j + n - i) mod n = (j - i) mod n" by (simp only: mod_add_self2)
    also have "\<dots> = j - i" using a by (intro mod_less) simp
    finally show ?thesis using True by (simp add: around_def)
  qed (use a in \<open>simp add: around_def\<close>)
qed

lemma next_slot: "i < n \<Longrightarrow> (i + 1) mod n = (if i + 1 = n then 0 else i + 1)" for i :: nat
  by auto

definition used :: "'v slots \<Rightarrow> nat \<Rightarrow> bool" where
  "used s i \<longleftrightarrow> s ! i \<noteq> None"

text \<open>
  The invariant of linear probing, except that \<open>gap\<close> may stand where an entry is missing: every
  entry is reached from its bucket over used slots, and no key occurs twice.
\<close>

definition probes :: "nat \<Rightarrow> 'v slots \<Rightarrow> nat option \<Rightarrow> bool" where
  "probes b s gap \<longleftrightarrow> length s = 2 ^ b \<and>
     (\<forall>i k v j. i < 2 ^ b \<longrightarrow> s ! i = Some (k, v) \<longrightarrow> j < 2 ^ b \<longrightarrow>
        around (2 ^ b) (bucket b k) j < around (2 ^ b) (bucket b k) i \<longrightarrow> used s j \<or> gap = Some j) \<and>
     (\<forall>i j k v v'. i < 2 ^ b \<longrightarrow> j < 2 ^ b \<longrightarrow> s ! i = Some (k, v) \<longrightarrow> s ! j = Some (k, v') \<longrightarrow> i = j)"

definition entry_of_key :: "'v slots \<Rightarrow> u32 \<Rightarrow> 'v option" where
  "entry_of_key s k = (case List.find (\<lambda>x. \<exists>v. x = Some (k, v)) s of Some (Some (_, v)) \<Rightarrow> Some v | _ \<Rightarrow> None)"

lemma entry_of_key_iff:
  assumes "probes b s gap"
  shows "entry_of_key s k = Some v \<longleftrightarrow> (\<exists>i < 2 ^ b. s ! i = Some (k, v))"
proof
  assume "entry_of_key s k = Some v"
  then have "List.find (\<lambda>x. \<exists>v. x = Some (k, v)) s = Some (Some (k, v))"
    by (cases "List.find (\<lambda>x. \<exists>v. x = Some (k, v)) s") (auto simp: entry_of_key_def find_Some_iff split: option.splits)
  then show "\<exists>i < 2 ^ b. s ! i = Some (k, v)" using assms by (auto simp: find_Some_iff probes_def)
next
  assume "\<exists>i < 2 ^ b. s ! i = Some (k, v)"
  then obtain i where i: "i < 2 ^ b" "s ! i = Some (k, v)" by blast
  then obtain x where x: "List.find (\<lambda>x. \<exists>v. x = Some (k, v)) s = Some x"
    using assms by (cases "List.find (\<lambda>x. \<exists>v. x = Some (k, v)) s") (auto simp: find_None_iff probes_def in_set_conv_nth)
  then obtain j v' where j: "j < 2 ^ b" "s ! j = Some (k, v')" "x = Some (k, v')"
    using assms by (auto simp: find_Some_iff probes_def)
  then have "v' = v" using assms i by (auto simp: probes_def)
  with x j show "entry_of_key s k = Some v" by (simp add: entry_of_key_def)
qed

lemma bucket_less [simp]: "b \<le> 32 \<Longrightarrow> bucket b k < 2 ^ b"
proof -
  assume b: "b \<le> 32"
  have "unat (drop_bit (32 - b) w) < 2 ^ b" for w :: u32
  proof -
    have "unat (drop_bit (32 - b) w) = unat w div 2 ^ (32 - b)"
      by (simp only: unsigned_drop_bit_eq) (simp add: drop_bit_eq_div take_bit_nat_eq_self unat_lt_32)
    moreover have "unat w < 2 ^ b * 2 ^ (32 - b)" using b unat_lt_32 [of w] by (simp flip: power_add)
    ultimately show ?thesis by (simp add: less_mult_imp_div_less)
  qed
  then show ?thesis by (simp add: bucket_def)
qed


text \<open>Where a walk from \<open>at\<close> stops: at an empty slot or at the key.\<close>

fun stop_at :: "nat \<Rightarrow> 'v slots \<Rightarrow> u32 \<Rightarrow> nat \<Rightarrow> nat option" where
  "stop_at 0 s key at = None"
| "stop_at (Suc n) s key at =
     (case s ! at of
        None \<Rightarrow> Some at
      | Some (k, _) \<Rightarrow> if k = key then Some at else stop_at n s key ((at + 1) mod length s))"

lemma loops_stop:
  "find_loop n s key at = (case stop_at n s key at of None \<Rightarrow> None | Some i \<Rightarrow> map_option snd (s ! i))"
  "insert_loop n s key v at =
     (case stop_at n s key at of None \<Rightarrow> None | Some i \<Rightarrow> if s ! i = None then Some (s[i := Some (key, v)]) else None)"
  "erase_loop n s key at = (case stop_at n s key at of None \<Rightarrow> None | Some i \<Rightarrow> if s ! i = None then None else Some i)"
  by (induction n s key at rule: stop_at.induct) (auto split: option.splits)

definition passed :: "'v slots \<Rightarrow> u32 \<Rightarrow> nat \<Rightarrow> nat \<Rightarrow> bool" where
  "passed s key start t \<longleftrightarrow>
     (\<forall>j < length s. around (length s) start j < t \<longrightarrow> (\<exists>k v. s ! j = Some (k, v) \<and> k \<noteq> key))"

lemma around_next:
  assumes "start < n" and "i < n"
  shows "around n start i < n" and "around n start i + 1 < n \<Longrightarrow> around n start ((i + 1) mod n) = around n start i + 1"
    and "around n start i + 1 = n \<Longrightarrow> j < n \<Longrightarrow> around n start j \<noteq> around n start i \<longrightarrow> around n start j < around n start i"
proof -
  show "around n start i < n" using assms by (auto simp: around_def)
  show "around n start i + 1 < n \<Longrightarrow> around n start ((i + 1) mod n) = around n start i + 1"
    using assms by (cases "i + 1 = n"; cases "start \<le> i") (auto simp: around_def)
  show "around n start i + 1 = n \<Longrightarrow> j < n \<Longrightarrow> around n start j \<noteq> around n start i \<longrightarrow> around n start j < around n start i"
    using assms by (cases "start \<le> j"; cases "start \<le> i") (auto simp: around_def)
qed

lemma around_inj: "start < n \<Longrightarrow> i < n \<Longrightarrow> j < n \<Longrightarrow> around n start i = around n start j \<Longrightarrow> i = j"
  unfolding around_def by (cases "start \<le> i"; cases "start \<le> j"; simp only: if_True if_False; linarith)

lemma passed_step:
  assumes "start < length s" "i < length s" "passed s key start (around (length s) start i)" "s ! i = Some (k, v)" "k \<noteq> key"
  shows "passed s key start (around (length s) start i + 1)"
  unfolding passed_def
proof (intro allI impI)
  fix j assume j: "j < length s" "around (length s) start j < around (length s) start i + 1"
  show "\<exists>k v. s ! j = Some (k, v) \<and> k \<noteq> key"
  proof (cases "around (length s) start j = around (length s) start i")
    case True
    with around_inj [OF assms(1) j(1) assms(2)] have "j = i" by simp
    then show ?thesis using assms(4,5) by simp
  qed (use j assms(3) in \<open>simp add: passed_def\<close>)
qed

lemma stop_at_spec:
  assumes "start < length s" and "i < length s" and "n + around (length s) start i = length s"
    and "passed s key start (around (length s) start i)"
  shows "case stop_at n s key i of
      None \<Rightarrow> passed s key start (length s)
    | Some j \<Rightarrow> j < length s \<and> passed s key start (around (length s) start j) \<and> (s ! j = None \<or> (\<exists>v. s ! j = Some (key, v)))"
  using assms(2-4)
proof (induction n arbitrary: i)
  case 0
  then show ?case using around_next(1) [OF assms(1) 0(1)] by simp
next
  case (Suc n)
  show ?case
  proof (cases "\<exists>k v. s ! i = Some (k, v) \<and> k \<noteq> key")
    case True
    then obtain k v where e: "s ! i = Some (k, v)" "k \<noteq> key" by blast
    note p = passed_step [OF assms(1) Suc.prems(1,3) e]
    show ?thesis
    proof (cases n)
      case 0
      then show ?thesis using Suc.prems(2) p e by simp
    next
      case (Suc m)
      let ?i = "(i + 1) mod length s"
      have d: "around (length s) start ?i = around (length s) start i + 1"
        using Suc Suc.prems(2) assms(1) \<open>i < length s\<close> by (intro around_next(2)) simp_all
      have "?i < length s" using assms(1) by (intro mod_less_divisor) linarith
      then show ?thesis using Suc.IH [of ?i] d p Suc.prems(2) e by simp
    qed
  next
    case False
    then show ?thesis using Suc.prems by (auto split: option.splits)
  qed
qed

lemma stop_at_bucket:
  assumes "b \<le> 32" and "length s = 2 ^ b"
  shows "case stop_at (2 ^ b) s key (bucket b key) of
      None \<Rightarrow> passed s key (bucket b key) (2 ^ b)
    | Some j \<Rightarrow> j < 2 ^ b \<and> passed s key (bucket b key) (around (2 ^ b) (bucket b key) j) \<and>
        (s ! j = None \<or> (\<exists>v. s ! j = Some (key, v)))"
proof -
  have "passed s key (bucket b key) (around (length s) (bucket b key) (bucket b key))" by (simp add: around_def passed_def)
  then show ?thesis
    using stop_at_spec [of "bucket b key" s "bucket b key" "2 ^ b" key] assms by (simp only: bucket_less) (simp add: around_def)
qed


subsection \<open>Finding and inserting\<close>

definition entries :: "'v slots \<Rightarrow> (u32 \<times> 'v) set" where
  "entries s = {e. Some e \<in> set s}"

lemma entry_of_key_entries: "probes b s gap \<Longrightarrow> entry_of_key s k = Some v \<longleftrightarrow> (k, v) \<in> entries s"
  by (auto simp: entry_of_key_iff entries_def in_set_conv_nth probes_def)

lemma entry_absent: "probes b s gap \<Longrightarrow> (\<And>i v. i < 2 ^ b \<Longrightarrow> s ! i \<noteq> Some (key, v)) \<Longrightarrow> entry_of_key s key = None"
  using entry_of_key_iff [of b s gap key] by (cases "entry_of_key s key") blast+

lemma probes_inj: "probes b s gap \<Longrightarrow> i < 2 ^ b \<Longrightarrow> j < 2 ^ b \<Longrightarrow> s ! i = Some (k, v) \<Longrightarrow> s ! j = Some (k, w) \<Longrightarrow> i = j"
  by (simp add: probes_def)

lemma stop_absent:
  assumes "b \<le> 32" "probes b s None" "j < 2 ^ b" "passed s key (bucket b key) (around (2 ^ b) (bucket b key) j)" "s ! j = None"
  shows "entry_of_key s key = None"
proof -
  have n: "length s = 2 ^ b" using assms(2) by (simp add: probes_def)
  have "s ! i \<noteq> Some (key, v)" if i: "i < 2 ^ b" for i v
  proof
    assume e: "s ! i = Some (key, v)"
    let ?d = "around (2 ^ b) (bucket b key)"
    have "\<not> ?d i < ?d j" using assms(4) e i by (auto simp: passed_def n)
    moreover have "?d i \<noteq> ?d j" using around_inj [OF bucket_less [OF assms(1), of key] i assms(3)] e assms(5) by auto
    ultimately have "?d j < ?d i" by simp
    then have "used s j" using assms(2,3) i e by (auto simp: probes_def)
    then show False using assms(5) by (simp add: used_def)
  qed
  then show ?thesis by (rule entry_absent [OF assms(2)])
qed

lemma passed_all: "passed s key start (length s) \<Longrightarrow> start < length s \<Longrightarrow> i < length s \<Longrightarrow> \<exists>k v. s ! i = Some (k, v) \<and> k \<noteq> key"
  using around_next(1) by (auto simp: passed_def)

definition pi_map :: "'v pindex \<Rightarrow> u32 \<Rightarrow> 'v option" where
  "pi_map p k = entry_of_key (pi_slots p) k"

definition pi_ok :: "nat \<Rightarrow> 'v pindex \<Rightarrow> bool" where
  "pi_ok b p \<longleftrightarrow> probes b (pi_slots p) None \<and> pi_size p = card (dom (pi_map p)) \<and> pi_size p \<le> 2 ^ (b - 1)"

lemma find_map:
  assumes "b \<le> 32" and "probes b (pi_slots p) None"
  shows "pi_find b key p = pi_map p key"
proof -
  let ?s = "pi_slots p"
  have n: "length ?s = 2 ^ b" using assms(2) by (simp add: probes_def)
  note st = stop_at_bucket [OF assms(1) n, of key]
  show ?thesis
  proof (cases "stop_at (2 ^ b) ?s key (bucket b key)")
    case None
    then have "?s ! i \<noteq> Some (key, v)" if "i < 2 ^ b" for i v
      using st passed_all [of ?s key "bucket b key" i] bucket_less [OF assms(1), of key] that by (auto simp: n)
    then have "entry_of_key ?s key = None" by (rule entry_absent [OF assms(2)])
    then show ?thesis using None by (simp add: pi_find_def pi_map_def loops_stop)
  next
    case (Some j)
    show ?thesis
    proof (cases "?s ! j")
      case None
      then show ?thesis using st Some stop_absent [OF assms, of j key] by (simp add: pi_find_def pi_map_def loops_stop)
    next
      case e: (Some e)
      then obtain v where "?s ! j = Some (key, v)" "j < 2 ^ b" using st Some by auto
      then show ?thesis using Some entry_of_key_iff [OF assms(2), of key v] by (auto simp: pi_find_def pi_map_def loops_stop)
    qed
  qed
qed

lemma card_used:
  assumes "probes b s None" and "\<forall>i < 2 ^ b. used s i"
  shows "card (dom (entry_of_key s)) = 2 ^ b"
proof -
  let ?f = "\<lambda>i. fst (the (s ! i))"
  have "inj_on ?f {..<2 ^ b}"
  proof (rule inj_onI)
    fix i j assume a: "i \<in> {..<2 ^ b}" "j \<in> {..<2 ^ b}" "?f i = ?f j"
    obtain k v where ei: "s ! i = Some (k, v)" using assms(2) a(1) by (cases "s ! i") (auto simp: used_def)
    obtain k' v' where ej: "s ! j = Some (k', v')" using assms(2) a(2) by (cases "s ! j") (auto simp: used_def)
    from ei ej show "i = j" using a probes_inj [OF assms(1), of i j k v v'] by simp
  qed
  moreover have "?f ` {..<2 ^ b} = dom (entry_of_key s)"
  proof (intro set_eqI iffI)
    fix k assume "k \<in> ?f ` {..<2 ^ b}"
    then obtain i where i: "i < 2 ^ b" "k = ?f i" by auto
    then obtain v where "s ! i = Some (k, v)" using assms(2) by (cases "s ! i") (auto simp: used_def)
    then show "k \<in> dom (entry_of_key s)" using entry_of_key_iff [OF assms(1)] i(1) by blast
  next
    fix k assume "k \<in> dom (entry_of_key s)"
    then obtain v i where "i < 2 ^ b" "s ! i = Some (k, v)" using entry_of_key_iff [OF assms(1)] by blast
    then show "k \<in> ?f ` {..<2 ^ b}" by (intro image_eqI [where x = i]) auto
  qed
  ultimately show ?thesis by (metis card_image card_lessThan)
qed

lemma half_less: "0 < b \<Longrightarrow> (2 :: nat) ^ (b - 1) < 2 ^ b"
  by (cases b) simp_all

lemma empty_slot:
  assumes "0 < b" "pi_ok b p"
  obtains e where "e < 2 ^ b" "pi_slots p ! e = None"
proof -
  have "card (dom (entry_of_key (pi_slots p))) < 2 ^ b"
    using assms(2) le_less_trans [OF _ half_less [OF assms(1)]] by (auto simp: pi_ok_def pi_map_def [abs_def])
  then have "\<not> (\<forall>i < 2 ^ b. used (pi_slots p) i)" using card_used assms(2) by (metis less_irrefl pi_ok_def)
  then obtain i where "i < 2 ^ b" "\<not> used (pi_slots p) i" by blast
  then show thesis by (intro that; cases "pi_slots p ! i") (auto simp: used_def)
qed

lemma probes_put:
  assumes "probes b s None" "j < 2 ^ b" "s ! j = None" "entry_of_key s key = None"
    "passed s key (bucket b key) (around (2 ^ b) (bucket b key) j)"
  shows "probes b (s[j := Some (key, v)]) None"
proof -
  let ?s = "s[j := Some (key, v)]"
  have n: "length s = 2 ^ b" using assms(1) by (simp add: probes_def)
  have key: "s ! i \<noteq> Some (key, w)" if "i < 2 ^ b" for i w
    using entry_of_key_iff [OF assms(1), of key w] assms(4) that by auto
  have u: "used s i \<Longrightarrow> used ?s i" for i by (cases "i = j") (simp_all add: used_def n assms(2))
  have "used ?s i'" if "i < 2 ^ b" "?s ! i = Some (k, w)" "i' < 2 ^ b"
    "around (2 ^ b) (bucket b k) i' < around (2 ^ b) (bucket b k) i" for i k w i'
  proof (cases "i = j")
    case True
    then have "used s i'" using that assms(2,5) by (auto simp: passed_def n used_def)
    then show ?thesis by (rule u)
  next
    case False
    then have "used s i'" using that assms(1) by (auto simp: probes_def)
    then show ?thesis by (rule u)
  qed
  moreover have "i = i'" if "i < 2 ^ b" "i' < 2 ^ b" "?s ! i = Some (k, w)" "?s ! i' = Some (k, w')" for i i' k w w'
    using that assms(1,2) key n by (cases "i = j"; cases "i' = j") (auto simp: probes_def)
  ultimately show ?thesis by (auto simp: probes_def n)
qed


lemma option_eqI: "(\<And>w. x = Some w \<longleftrightarrow> y = Some w) \<Longrightarrow> x = y"
  by (cases x; cases y) auto

lemma entry_map_eqI:
  assumes "probes b s None" "probes b s' None" "entries s' = insert (key, v) (entries s)"
  shows "entry_of_key s' = (entry_of_key s)(key \<mapsto> v)"
proof
  fix k
  have "entry_of_key s' k = Some w \<longleftrightarrow> ((entry_of_key s)(key \<mapsto> v)) k = Some w" for w
  proof (cases "k = key")
    case True
    have "entry_of_key s' key = Some v" using assms by (simp add: entry_of_key_entries)
    then show ?thesis using True by auto
  next
    case False
    then show ?thesis using assms by (simp add: entry_of_key_entries)
  qed
  then show "entry_of_key s' k = ((entry_of_key s)(key \<mapsto> v)) k" by (rule option_eqI)
qed

lemma entries_put: "j < length s \<Longrightarrow> s ! j = None \<Longrightarrow> entries (s[j := Some e]) = insert e (entries s)"
  by (auto simp: entries_def in_set_conv_nth nth_list_update) (metis option.distinct(1))

lemma card_dom_put: "finite (dom m) \<Longrightarrow> m k = None \<Longrightarrow> card (dom (m(k \<mapsto> v))) = card (dom m) + 1"
  by (simp add: domIff)

lemma finite_map: "probes b s gap \<Longrightarrow> finite (dom (entry_of_key s))"
proof -
  assume a: "probes b s gap"
  have "dom (entry_of_key s) \<subseteq> (\<lambda>x. fst (the x)) ` set s"
  proof
    fix k assume "k \<in> dom (entry_of_key s)"
    then obtain v where "Some (k, v) \<in> set s" using entry_of_key_entries [OF a] by (auto simp: entries_def)
    then show "k \<in> (\<lambda>x. fst (the x)) ` set s" by force
  qed
  then show ?thesis by (rule finite_subset) simp
qed

lemma insert_map:
  assumes b: "0 < b" "b \<le> 32" and ok: "pi_ok b p" and ins: "pi_insert b key v p = (r, p')"
  shows "pi_ok b p' \<and> (r \<longleftrightarrow> \<not> (card (dom (pi_map p)) = 2 ^ (b - 1) \<or> key \<in> dom (pi_map p))) \<and>
    pi_map p' = (if r then (pi_map p)(key \<mapsto> v) else pi_map p)"
proof -
  let ?s = "pi_slots p"
  have pr: "probes b ?s None" and sz: "pi_size p = card (dom (pi_map p))" "pi_size p \<le> 2 ^ (b - 1)"
    using ok by (simp_all add: pi_ok_def)
  have n: "length ?s = 2 ^ b" using pr by (simp add: probes_def)
  note st = stop_at_bucket [OF b(2) n, of key]
  obtain e where e: "e < 2 ^ b" "?s ! e = None" using b(1) ok by (rule empty_slot)
  obtain j where j: "stop_at (2 ^ b) ?s key (bucket b key) = Some j"
  proof (cases "stop_at (2 ^ b) ?s key (bucket b key)")
    case None
    then show thesis using st passed_all [of ?s key "bucket b key" e] bucket_less [OF b(2), of key] e by (simp add: n)
  qed
  show ?thesis
  proof (cases "?s ! j = None \<and> pi_size p \<noteq> 2 ^ (b - 1)")
    case True
    let ?s' = "?s[j := Some (key, v)]"
    have absent: "entry_of_key ?s key = None" using st j True by (intro stop_absent [OF b(2) pr, of j]) simp_all
    have pr': "probes b ?s' None" using st j True absent pr by (intro probes_put) simp_all
    have m: "entry_of_key ?s' = (entry_of_key ?s)(key \<mapsto> v)"
      using st j True n by (intro entry_map_eqI [OF pr pr'] entries_put) simp_all
    have "p' = \<lparr>pi_slots = ?s', pi_size = pi_size p + 1\<rparr>" "r" using ins True j by (simp_all add: pi_insert_def loops_stop)
    then show ?thesis using pr' m absent sz True finite_map [OF pr] card_dom_put [of "entry_of_key ?s" key v]
      by (auto simp: pi_ok_def pi_map_def [abs_def])
  next
    case False
    have "entry_of_key ?s key \<noteq> None" if "?s ! j \<noteq> None"
    proof -
      have "j < 2 ^ b" "?s ! j = None \<or> (\<exists>w. ?s ! j = Some (key, w))" using st j by simp_all
      with that obtain w where "?s ! j = Some (key, w)" "j < 2 ^ b" by (elim disjE exE) simp_all
      then show ?thesis using entry_of_key_iff [OF pr, of key w] by auto
    qed
    moreover have "pi_insert b key v p = (False, p)"
      using False j by (cases "pi_size p = 2 ^ (b - 1)") (auto simp: pi_insert_def loops_stop)
    ultimately show ?thesis using ins False ok sz by (auto simp: pi_map_def [abs_def] domIff)
  qed
qed

subsection \<open>Erasing\<close>

lemma around_add: "a < n \<Longrightarrow> b < n \<Longrightarrow> c < n \<Longrightarrow> around n a b \<le> around n a c \<Longrightarrow> around n a c = around n a b + around n b c"
  unfolding around_def by (cases "a \<le> b"; cases "a \<le> c"; cases "b \<le> c"; simp only: if_True if_False; linarith)

lemma around_sum: "a < n \<Longrightarrow> b < n \<Longrightarrow> c < n \<Longrightarrow> around n a b + around n b c < n \<Longrightarrow> around n a c = around n a b + around n b c"
  unfolding around_def by (cases "a \<le> b"; cases "a \<le> c"; cases "b \<le> c"; simp only: if_True if_False; linarith)

lemma around_within: "a < n \<Longrightarrow> b < n \<Longrightarrow> c < n \<Longrightarrow> around n b c \<le> around n a c \<Longrightarrow> around n a b \<le> around n a c"
  unfolding around_def by (cases "a \<le> b"; cases "a \<le> c"; cases "b \<le> c"; simp only: if_True if_False; linarith)


text \<open>
  Closing a cluster: everything between the hole and the scan stays behind the hole, and a slot
  \<open>e\<close> that was empty before lies at or after the scan, where the loop ends at the latest.
\<close>

definition closing :: "nat \<Rightarrow> 'v slots \<Rightarrow> nat \<Rightarrow> nat \<Rightarrow> nat \<Rightarrow> bool" where
  "closing b s hole scan e \<longleftrightarrow> hole < 2 ^ b \<and> scan < 2 ^ b \<and> e < 2 ^ b \<and> probes b s (Some hole) \<and>
     s ! hole = None \<and> s ! e = None \<and> e \<noteq> hole \<and> 0 < around (2 ^ b) hole scan \<and>
     around (2 ^ b) hole scan \<le> around (2 ^ b) hole e \<and>
     (\<forall>i < 2 ^ b. 0 < around (2 ^ b) hole i \<longrightarrow> around (2 ^ b) hole i < around (2 ^ b) hole scan \<longrightarrow>
        (\<exists>k v. s ! i = Some (k, v) \<and> around (2 ^ b) (bucket b k) i < around (2 ^ b) hole i))"

lemma around_self [simp]: "around n i i = 0"
  by (simp add: around_def)

lemma around_pos: "i < n \<Longrightarrow> j < n \<Longrightarrow> 0 < around n i j \<longleftrightarrow> i \<noteq> j"
  unfolding around_def by (cases "i \<le> j"; simp only: if_True if_False; linarith)

lemma closing_done:
  assumes b: "b \<le> 32" and c: "closing b s hole scan e" and "s ! scan = None"
  shows "probes b s None"
proof -
  let ?d = "around (2 ^ b)"
  have c': "hole < 2 ^ b" "scan < 2 ^ b" "probes b s (Some hole)" using c by (simp_all add: closing_def)
  have "\<not> ?d (bucket b k) hole < ?d (bucket b k) i" if i: "i < 2 ^ b" "s ! i = Some (k, v)" for i k v
  proof
    let ?h = "bucket b k"
    assume l: "?d ?h hole < ?d ?h i"
    have a: "?d ?h i = ?d ?h hole + ?d hole i" using l b i(1) c' by (intro around_add) simp_all
    have "\<not> ?d hole i < ?d hole scan" using c i l a by (auto simp: closing_def)
    moreover have "?d hole i \<noteq> ?d hole scan" using around_inj [OF c'(1) i(1) c'(2)] i assms(3) by auto
    ultimately have s: "?d hole scan < ?d hole i" by simp
    then have "?d ?h scan = ?d ?h hole + ?d hole scan"
      using a around_next(1) [OF bucket_less [OF b] i(1), of k] b c' by (intro around_sum) simp_all
    then have "used s scan \<or> hole = scan" using s a i c' by (auto simp: probes_def)
    then show False using assms(3) c by (auto simp: used_def closing_def)
  qed
  then show ?thesis using c'(3) unfolding probes_def by blast
qed

lemma entries_move:
  assumes "hole < length s" "scan < length s" "hole \<noteq> scan" "s ! hole = None" "s ! scan = Some x"
  shows "entries (s[hole := Some x, scan := None]) = entries s"
proof -
  have "set (s[hole := s ! scan, scan := s ! hole]) = set s" using assms(1,2) by simp
  then show ?thesis using assms(4,5) by (simp add: entries_def)
qed

lemma probes_move:
  assumes b: "b \<le> 32" and "probes b s (Some hole)" "hole < 2 ^ b" "scan < 2 ^ b" "hole \<noteq> scan" "s ! hole = None"
    and x: "s ! scan = Some (key, w)" and m: "around (2 ^ b) hole scan \<le> around (2 ^ b) (bucket b key) scan"
  shows "probes b (s[hole := Some (key, w), scan := None]) (Some scan)"
proof -
  let ?s = "s[hole := Some (key, w), scan := None]" and ?d = "around (2 ^ b)"
  have n: "length s = 2 ^ b" using assms(2) by (simp add: probes_def)
  have slot: "?s ! i = (if i = scan then None else if i = hole then Some (key, w) else s ! i)" if "i < 2 ^ b" for i
    using that n by (simp add: nth_list_update)
  have u: "used ?s j \<or> scan = j" if "used s j \<or> hole = j" "j < 2 ^ b" for j
    using that slot [of j] by (auto simp: used_def)
  have "used ?s j \<or> scan = j" if i: "i < 2 ^ b" "?s ! i = Some (k, v)" "j < 2 ^ b" "?d (bucket b k) j < ?d (bucket b k) i" for i k v j
  proof (cases "i = hole")
    case True
    then have k: "k = key" using i slot [of i] assms(5) by simp
    have "?d (bucket b key) hole \<le> ?d (bucket b key) scan"
      using m b assms(3,4) by (intro around_within) simp_all
    then have "?d (bucket b key) j < ?d (bucket b key) scan" using i(4) True k by simp
    then have "used s j \<or> hole = j" using assms(2,4) x i(3) by (auto simp: probes_def)
    then show ?thesis using i(3) by (rule u)
  next
    case False
    then have "s ! i = Some (k, v)" using i slot [of i] by (simp split: if_splits)
    then have "used s j \<or> hole = j" using assms(2) i by (auto simp: probes_def)
    then show ?thesis using i(3) by (rule u)
  qed
  moreover have "i = j" if "i < 2 ^ b" "j < 2 ^ b" "?s ! i = Some (k, v)" "?s ! j = Some (k, v')" for i j k v v'
  proof -
    let ?o = "\<lambda>i. if i = hole then scan else i"
    have o: "s ! ?o i = Some (k, v)" "s ! ?o j = Some (k, v')" "i \<noteq> scan" "j \<noteq> scan"
      using that slot [of i] slot [of j] x by (simp_all split: if_splits)
    then have "?o i = ?o j" using that(1,2) assms(4) by (intro probes_inj [OF assms(2) _ _ o(1,2)]) simp_all
    then show ?thesis using o(3,4) by (simp split: if_splits)
  qed
  ultimately show ?thesis using n by (auto simp: probes_def)
qed


lemma closing_step:
  assumes b: "b \<le> 32" and c: "closing b s hole scan e" and x: "s ! scan = Some (k, v)"
  shows "(scan + 1) mod 2 ^ b < 2 ^ b" and "around (2 ^ b) scan e = around (2 ^ b) ((scan + 1) mod 2 ^ b) e + 1"
    and "around (2 ^ b) hole ((scan + 1) mod 2 ^ b) = around (2 ^ b) hole scan + 1"
    and "around (2 ^ b) hole scan < around (2 ^ b) hole e" and "scan \<noteq> e"
proof -
  let ?d = "around (2 ^ b)" and ?n = "(scan + 1) mod 2 ^ b"
  have c': "hole < 2 ^ b" "scan < 2 ^ b" "e < 2 ^ b" "?d hole scan \<le> ?d hole e" "s ! e = None"
    using c by (simp_all add: closing_def)
  show ne: "scan \<noteq> e" using x c'(5) by auto
  show l: "?d hole scan < ?d hole e" using ne c'(4) around_inj [OF c'(1-3)] by linarith
  show n: "?n < 2 ^ b" by simp
  show h: "?d hole ?n = ?d hole scan + 1" using around_next(1) [OF c'(1,3)] l c' by (intro around_next(2)) simp_all
  have "?d hole e = ?d hole scan + ?d scan e" using l c' by (intro around_add) simp_all
  moreover have "?d hole e = ?d hole ?n + ?d ?n e" using l h c' n by (intro around_add) simp_all
  ultimately show "?d scan e = ?d ?n e + 1" using h by simp
qed

lemma close_loop_ok:
  assumes "b \<le> 32"
  shows "closing b s hole scan e \<Longrightarrow> around (2 ^ b) scan e < fuel \<Longrightarrow>
    \<exists>s'. close_loop fuel b s hole scan = Some s' \<and> probes b s' None \<and> entries s' = entries s"
proof (induction fuel arbitrary: s hole scan)
  case (Suc fuel)
  let ?n = "(scan + 1) mod 2 ^ b" and ?d = "around (2 ^ b)"
  have c: "hole < 2 ^ b" "scan < 2 ^ b" "e < 2 ^ b" "probes b s (Some hole)" "s ! hole = None" "s ! e = None" "e \<noteq> hole"
    "0 < ?d hole scan" using Suc.prems(1) by (simp_all add: closing_def)
  have n: "length s = 2 ^ b" using c(4) by (simp add: probes_def)
  have hs: "hole \<noteq> scan" using c(8) by auto
  show ?case
  proof (cases "s ! scan")
    case None
    then show ?thesis using closing_done [OF assms Suc.prems(1)] by simp
  next
    case (Some x)
    obtain k v where x: "x = (k, v)" by fastforce
    then have e: "s ! scan = Some (k, v)" using Some by simp
    note st = closing_step [OF assms Suc.prems(1) e]
    have f: "?d ?n e < fuel" using Suc.prems(2) st(2) by simp
    have eq: "(scan + 2 ^ b - h) mod 2 ^ b = ?d h scan" if "h < 2 ^ b" for h using that c(2) by (rule around_mod)
    show ?thesis
    proof (cases "?d hole scan \<le> ?d (bucket b k) scan")
      case True
      let ?s = "s[hole := Some (k, v), scan := None]"
      have "probes b ?s (Some scan)" using assms c hs e True by (intro probes_move) simp_all
      moreover have "?d scan ?n = 1" using around_next(2) [OF c(2,2)] around_next(1) [OF c(2,3)] st(2) by simp
      ultimately have "closing b ?s scan ?n e"
        using c n st hs by (auto simp: closing_def nth_list_update)
      from Suc.IH [OF this f] obtain s' where "close_loop fuel b ?s scan ?n = Some s'" "probes b s' None" "entries s' = entries ?s"
        by blast
      then show ?thesis using entries_move [OF _ _ hs c(5) e] c(1,2) n e True assms by (simp add: Let_def eq)
    next
      case False
      have "closing b s hole ?n e" unfolding closing_def
      proof (intro conjI allI impI)
        fix i assume i: "i < 2 ^ b" "0 < ?d hole i" "?d hole i < ?d hole ?n"
        show "\<exists>k v. s ! i = Some (k, v) \<and> ?d (bucket b k) i < ?d hole i"
        proof (cases "?d hole i = ?d hole scan")
          case True
          then have "i = scan" by (rule around_inj [OF c(1) i(1) c(2)])
          then show ?thesis using e False by simp
        qed (use i st(3) Suc.prems(1) in \<open>simp add: closing_def\<close>)
      qed (use c st in simp_all)
      from Suc.IH [OF this f] show ?thesis using e False c(1,2) n assms by (simp add: Let_def eq)
    qed
  qed
qed simp


lemma entry_map_lessI:
  assumes "probes b s None" "probes b s' None" "entries s' = entries s - {(key, v)}" "entry_of_key s key = Some v"
  shows "entry_of_key s' = (entry_of_key s)(key := None)"
proof
  fix k
  have "entry_of_key s' k = Some w \<longleftrightarrow> ((entry_of_key s)(key := None)) k = Some w" for w
  proof (cases "k = key")
    case True
    have "entry_of_key s' key \<noteq> Some w"
      using assms(3,4) entry_of_key_entries [OF assms(2), of key w] entry_of_key_entries [OF assms(1), of key w] by auto
    then show ?thesis using True by simp
  next
    case False
    then show ?thesis
      using assms(3) entry_of_key_entries [OF assms(2), of k w] entry_of_key_entries [OF assms(1), of k w] by simp
  qed
  then show "entry_of_key s' k = ((entry_of_key s)(key := None)) k" by (rule option_eqI)
qed

lemma entries_drop:
  assumes "probes b s None" "hole < 2 ^ b" "s ! hole = Some (key, v)"
  shows "entries (s[hole := None]) = entries s - {(key, v)}"
proof -
  have n: "length s = 2 ^ b" using assms(1) by (simp add: probes_def)
  have "(k, w) \<in> entries (s[hole := None]) \<longleftrightarrow> (k, w) \<in> entries s - {(key, v)}" for k w
  proof -
    have slot: "s[hole := None] ! i = (if i = hole then None else s ! i)" if "i < 2 ^ b" for i
      using that n by (simp add: nth_list_update)
    have "(k, w) \<in> entries (s[hole := None]) \<longleftrightarrow> (\<exists>i < 2 ^ b. s[hole := None] ! i = Some (k, w))"
      by (auto simp: entries_def in_set_conv_nth n)
    also have "\<dots> \<longleftrightarrow> (\<exists>i < 2 ^ b. i \<noteq> hole \<and> s ! i = Some (k, w))" using slot by (auto split: if_splits)
    also have "\<dots> \<longleftrightarrow> (k, w) \<in> entries s - {(key, v)}"
    proof -
      have in_s: "(k, w) \<in> entries s \<longleftrightarrow> (\<exists>i < 2 ^ b. s ! i = Some (k, w))" by (auto simp: entries_def in_set_conv_nth n)
      have "k \<noteq> key \<or> w \<noteq> v" if "i < 2 ^ b" "i \<noteq> hole" "s ! i = Some (k, w)" for i
        using probes_inj [OF assms(1) that(1) assms(2), of k w v] that assms(3) by auto
      moreover have "i \<noteq> hole" if "s ! i = Some (k, w)" "\<not> (k = key \<and> w = v)" for i using that assms(3) by auto
      ultimately show ?thesis unfolding Diff_iff singleton_iff prod.inject in_s by blast
    qed
    finally show ?thesis .
  qed
  then show ?thesis by auto
qed

lemma closing_start:
  assumes b: "0 < b" and "probes b s None" "hole < 2 ^ b" "s ! hole = Some (key, v)" "e < 2 ^ b" "s ! e = None"
  shows "closing b (s[hole := None]) hole ((hole + 1) mod 2 ^ b) e"
proof -
  let ?s = "s[hole := None]"
  have n: "length s = 2 ^ b" using assms(2) by (simp add: probes_def)
  have slot: "?s ! i = (if i = hole then None else s ! i)" if "i < 2 ^ b" for i using that n by (simp add: nth_list_update)
  have ne: "e \<noteq> hole" using assms(4,6) by auto
  have two: "(1 :: nat) < 2 ^ b" using b by (intro one_less_power) simp_all
  have one: "around (2 ^ b) hole ((hole + 1) mod 2 ^ b) = 1"
    using around_next(2) [OF assms(3,3)] two by simp
  have "used ?s j \<or> hole = j" if "used s j" "j < 2 ^ b" for j using that slot [of j] by (auto simp: used_def)
  then have "probes b ?s (Some hole)"
    using assms(2) slot n unfolding probes_def by (auto split: if_splits)
  moreover have "0 < around (2 ^ b) hole e" using around_pos [OF assms(3,5)] ne by simp
  ultimately show ?thesis using assms(3,5,6) ne slot one by (simp add: closing_def)
qed

lemma erase_map:
  assumes b: "0 < b" "b \<le> 32" and ok: "pi_ok b p"
  shows "\<exists>r p'. pi_erase (2 ^ b) b key v p = Some (r, p') \<and> pi_ok b p' \<and> (r \<longleftrightarrow> pi_map p key = Some v) \<and>
    pi_map p' = (if r then (pi_map p)(key := None) else pi_map p)"
proof -
  let ?s = "pi_slots p"
  have pr: "probes b ?s None" and sz: "pi_size p = card (dom (pi_map p))" "pi_size p \<le> 2 ^ (b - 1)"
    using ok by (simp_all add: pi_ok_def)
  have n: "length ?s = 2 ^ b" using pr by (simp add: probes_def)
  note st = stop_at_bucket [OF b(2) n, of key]
  obtain e where e: "e < 2 ^ b" "?s ! e = None" using b(1) ok by (rule empty_slot)
  obtain j where j: "stop_at (2 ^ b) ?s key (bucket b key) = Some j"
  proof (cases "stop_at (2 ^ b) ?s key (bucket b key)")
    case None
    then show thesis using st passed_all [of ?s key "bucket b key" e] bucket_less [OF b(2), of key] e by (simp add: n)
  qed
  have jn: "j < 2 ^ b" using st j by simp
  show ?thesis
  proof (cases "?s ! j")
    case None
    then have "entry_of_key ?s key = None" using st j by (intro stop_absent [OF b(2) pr, of j]) simp_all
    then show ?thesis using None j ok
      by (intro exI [where x = False] exI [where x = p]) (simp add: pi_erase_def loops_stop pi_map_def)
  next
    case (Some x)
    then obtain w where w: "?s ! j = Some (key, w)" using st j by auto
    then have m: "entry_of_key ?s key = Some w" using entry_of_key_iff [OF pr, of key w] jn by auto
    show ?thesis
    proof (cases "w = v")
      case False
      then show ?thesis using w m j ok
        by (intro exI [where x = False] exI [where x = p]) (simp add: pi_erase_def loops_stop pi_map_def)
    next
      case True
      let ?n = "(j + 1) mod 2 ^ b"
      have "around (2 ^ b) ?n e < 2 ^ b" using e(1) by (intro around_next(1)) simp_all
      from close_loop_ok [OF b(2) closing_start [OF b(1) pr jn w e] this] obtain s' where
        s': "close_loop (2 ^ b) b (?s[j := None]) j ?n = Some s'" "probes b s' None" "entries s' = entries (?s[j := None])" by blast
      have m': "entry_of_key s' = (entry_of_key ?s)(key := None)"
        using s'(3) entries_drop [OF pr jn w] m True by (intro entry_map_lessI [OF pr s'(2)]) simp_all
      have "card (dom (entry_of_key s')) = card (dom (entry_of_key ?s)) - 1"
        using m finite_map [OF pr] by (simp add: m' card_Diff_singleton domIff)
      then have "pi_ok b \<lparr>pi_slots = s', pi_size = pi_size p - 1\<rparr>"
        using s'(2) sz by (simp add: pi_ok_def pi_map_def [abs_def])
      then show ?thesis using s'(1) w True m m' j n
        by (intro exI [where x = True] exI [where x = "\<lparr>pi_slots = s', pi_size = pi_size p - 1\<rparr>"])
          (simp add: pi_erase_def loops_stop pi_map_def [abs_def])
    qed
  qed
qed

lemma new_index: "pi_ok b (pi_new b :: 'a pindex)" "pi_map (pi_new b :: 'a pindex) = (\<lambda>_. None)"
proof -
  have p: "probes b (replicate (2 ^ b) None :: 'a slots) None" by (auto simp: probes_def)
  then have "entry_of_key (replicate (2 ^ b) None :: 'a slots) k = None" for k by (rule entry_absent) simp
  then have m: "entry_of_key (replicate (2 ^ b) None :: 'a slots) = (\<lambda>_. None)" by blast
  show "pi_map (pi_new b :: 'a pindex) = (\<lambda>_. None)" by (simp add: pi_map_def [abs_def] pi_new_def m)
  show "pi_ok b (pi_new b :: 'a pindex)" using p by (simp add: pi_ok_def pi_map_def [abs_def] pi_new_def m)
qed

subsection \<open>The driver's index of queue pairs\<close>

interpretation qp_index: bounded_map pi_map "pi_ok 9" 256 "pi_find 9" "pi_insert 9" "pi_erase 512 9"
proof (unfold_locales, goal_cases)
  case (1 t k)
  then show ?case by (intro find_map) (simp_all add: pi_ok_def)
next
  case (2 t k v b t')
  then show ?case using insert_map [of 9 t k v b t'] by simp
next
  case (3 t k v)
  then show ?case using erase_map [of 9 t k v] by simp
qed

text \<open>
  C37: the driver's index of queue pairs answers every sequence of finds, insertions and deletions as
  a map of at most 256 entries would: linear probing finds every key that is in it, an insertion
  fails only for a key that is in it or a map that is full, a deletion only where the key does not
  have the expected value, and closing the gap always ends and loses no other key.
\<close>

theorem index_is_bounded_map:
  "table_run (pi_find 9) (pi_insert 9) (pi_erase 512 9) ops (pi_new 9) = Some (map_run 256 ops (\<lambda>_. None))"
  using qp_index.table_run_map [OF new_index(1)] by (simp add: new_index(2))

end
