(* ===== verification/Nic_Qp.thy ===== *)
theory Nic_Qp
  imports Nic_Hca Nic_Cq Nic_Index
begin

section \<open>Queue pairs and completion queues of the kernel\<close>

text \<open>
  The rest of \<open>native/kernel_hca.cpp\<close>: creation, reset and destruction of queue pairs and completion
  queues, the purge of a queue pair's completions, the transitions of a queue pair, posting and the
  poll. The driver's objects (\<open>HardwareQP\<close>, \<open>HardwareCQ\<close>) are found by their addresses, here
  numbers; \<open>g_list\<close> is the list that \<open>qps_\<close> and the \<open>next\<close> pointers form and \<open>g_index\<close> the index by
  queue pair number. The poll is \<open>hca_poll\<close> on what it sees of one completion queue. Barriers are
  left out: the adapter acts between the operations (\<open>device_writes\<close>).

  The main result is that the driver's credits are exact: whatever the adapter writes and whichever
  operations fail, \<open>outstanding\<close> of a completion queue is the number of requests the kernel has
  posted that complete there, never more than 31, so a ring of 32 entries cannot overflow.
\<close>

record hardware_cq =
  hc_object :: hw_object
  hc_buffer :: buffer
  hc_consumer :: u32
  hc_references :: u32
  hc_outstanding :: u32
  hc_user_mode :: bool

record hardware_qp =
  hq_object :: hw_object
  hq_buffer :: buffer
  hq_send_cq :: nat
  hq_recv_cq :: nat
  hq_pd :: u32
  hq_state :: u32
  hq_producer :: u32
  hq_recv_producer :: u32
  hq_sends :: work_queue
  hq_receives :: work_queue
  hq_client :: "nat option"
  hq_user_posted :: bool

definition new_cq :: hardware_cq where
  "new_cq = \<lparr>hc_object = no_object, hc_buffer = no_buffer, hc_consumer = 0, hc_references = 0, hc_outstanding = 0, hc_user_mode = False\<rparr>"

definition new_qp :: hardware_qp where
  "new_qp = \<lparr>hq_object = no_object, hq_buffer = no_buffer, hq_send_cq = 0, hq_recv_cq = 0, hq_pd = 0, hq_state = 0,
     hq_producer = 0, hq_recv_producer = 0, hq_sends = new_work_queue, hq_receives = new_work_queue, hq_client = None,
     hq_user_posted = False\<rparr>"

record rig =
  g_hca :: hca
  g_cqs :: "nat \<Rightarrow> hardware_cq"
  g_qps :: "nat \<Rightarrow> hardware_qp"
  g_list :: "nat list"
  g_index :: "nat pindex"

type_synonym 'w qp_step = "rig \<times> 'w \<Rightarrow> bool \<times> rig \<times> 'w"

definition set_cq :: "nat \<Rightarrow> (hardware_cq \<Rightarrow> hardware_cq) \<Rightarrow> rig \<Rightarrow> rig" where
  "set_cq c f s = s\<lparr>g_cqs := (g_cqs s)(c := f (g_cqs s c))\<rparr>"

definition set_qp :: "nat \<Rightarrow> (hardware_qp \<Rightarrow> hardware_qp) \<Rightarrow> rig \<Rightarrow> rig" where
  "set_qp q f s = s\<lparr>g_qps := (g_qps s)(q := f (g_qps s q))\<rparr>"

definition set_hca :: "hca \<Rightarrow> rig \<Rightarrow> rig" where
  "set_hca h s = s\<lparr>g_hca := h\<rparr>"

definition isolate :: "rig \<Rightarrow> rig" where
  "isolate s = set_hca (quarantine (g_hca s)) s"

definition rig_ready :: "'w hca_ops \<Rightarrow> rig \<Rightarrow> 'w \<Rightarrow> bool \<times> 'w" where
  "rig_ready ops s w = transport_ready (io_adapter ops) (h_transport (g_hca s)) w"

abbreviation quarantined :: "rig \<Rightarrow> bool" where
  "quarantined s \<equiv> tr_quarantined (h_transport (g_hca s))"

subsection \<open>Completion queues\<close>

definition create_cq_command :: "buffer \<Rightarrow> hca \<Rightarrow> hca" where
  "create_cq_command b h =
     put_input (\<lambda>p. write_be64 (set_field 16 64 0x1c0 64 (bf_dma b + 4096) (set_field 16 64 0xa0 32 (ucast (ob_id (h_eq h)))
         (set_field 16 64 0x68 24 (ucast (ob_id (h_uar h))) (set_field 16 64 0x63 5 5 p)))) 0x110 (bf_dma b))
       (header 0x400 0 h)"

definition create_cq :: "'w hca_ops \<Rightarrow> nat \<Rightarrow> 'w qp_step" where
  "create_cq ops c sw =
     (case sw of (s, w) \<Rightarrow>
        let cq = g_cqs s c in
        if ob_live (hc_object cq) \<or> bf_memory (hc_buffer cq) \<or> \<not> ob_live (h_eq (g_hca s)) then (False, s, w)
        else (case buffer_allocate ops 8192 (hc_buffer cq) w of (e, b, w1) \<Rightarrow>
          if e \<noteq> IO_Success then (False, set_cq c (\<lambda>cq. cq\<lparr>hc_buffer := b\<rparr>) s, w1)
          else
            let b1 = b\<lparr>bf_cpu := fold (\<lambda>i m. m(i * 64 + 63 := 0xf1)) [0..<32] (bf_cpu b)\<rparr> in
            (case create ops (hc_object cq) 0x118 (create_cq_command b1 (g_hca s), w1) of
               (False, ob, h2, w2) \<Rightarrow>
                 if tr_quarantined (h_transport h2)
                 then (False, set_cq c (\<lambda>cq. cq\<lparr>hc_buffer := b1\<rparr>) (set_hca h2 s), w2)
                 else (case buffer_release ops b1 w2 of
                         (_, b2, w3) \<Rightarrow> (False, set_cq c (\<lambda>cq. cq\<lparr>hc_buffer := b2\<rparr>) (set_hca h2 s), w3))
             | (True, ob, h2, w2) \<Rightarrow>
                 (True, set_cq c (\<lambda>cq. cq\<lparr>hc_object := ob, hc_consumer := 0,
                    hc_buffer := b1\<lparr>bf_cpu := mcdma_cq_set_live (bf_cpu b1) True\<rparr>\<rparr>) (set_hca h2 s), w2))))"

definition destroy_cq :: "'w hca_ops \<Rightarrow> nat \<Rightarrow> 'w qp_step" where
  "destroy_cq ops c sw =
     (case sw of (s, w) \<Rightarrow>
        let cq = g_cqs s c in
        if hc_references cq \<noteq> 0 \<or> hc_outstanding cq \<noteq> 0 then (False, s, w)
        else (case destroy ops (hc_object cq) 0x401 (g_hca s, w) of
          (False, ob, h1, w1) \<Rightarrow> (False, set_cq c (\<lambda>cq. cq\<lparr>hc_object := ob\<rparr>) (set_hca h1 s), w1)
        | (True, ob, h1, w1) \<Rightarrow>
            let b = (if bf_memory (hc_buffer cq) then (hc_buffer cq)\<lparr>bf_cpu := mcdma_cq_set_live (bf_cpu (hc_buffer cq)) False\<rparr>
                     else hc_buffer cq) in
            (case buffer_release ops b w1 of (e, b', w2) \<Rightarrow>
               (e = IO_Success, set_cq c (\<lambda>cq. cq\<lparr>hc_object := ob, hc_buffer := b'\<rparr>) (set_hca h1 s), w2))))"

subsection \<open>Creating a queue pair\<close>

abbreviation (input) KERNEL_UAR :: u32 where "KERNEL_UAR \<equiv> 0xffffffff"

definition create_qp_command :: "buffer \<Rightarrow> u32 \<Rightarrow> u32 \<Rightarrow> u32 \<Rightarrow> u32 \<Rightarrow> hca \<Rightarrow> hca" where
  "create_qp_command b pd page send recv h =
     put_input (\<lambda>p. write_be64 (set_field 24 232 0x500 64 (bf_dma b + 4096) (set_field 24 232 0x4e8 24 (ucast recv)
         (set_field 24 232 0x3e8 24 (ucast send) (set_field 24 232 0x68 24 (ucast page)
         (set_field 24 232 0x51 4 5 (set_field 24 232 0x49 4 5 (set_field 24 232 0x43 5 30
         (set_field 24 232 0x28 24 (ucast pd) (set_field 24 232 0x13 2 3 p))))))))) 0x110 (bf_dma b))
       (header 0x500 0 h)"

text \<open>What a successful command leaves to do: the queue pair joins its queues, the list and the index.\<close>

definition enlist_qp :: "nat \<Rightarrow> u32 \<Rightarrow> nat \<Rightarrow> nat \<Rightarrow> bool \<Rightarrow> hw_object \<Rightarrow> buffer \<Rightarrow> rig \<Rightarrow> rig" where
  "enlist_qp q pd send recv user ob b s =
     (let s1 = set_qp q (\<lambda>x. x\<lparr>hq_object := ob, hq_buffer := b, hq_pd := pd, hq_send_cq := send, hq_recv_cq := recv\<rparr>) s;
          s2 = set_cq send (\<lambda>c. c\<lparr>hc_references := hc_references c + 1\<rparr>) s1;
          s3 = set_cq recv (\<lambda>c. c\<lparr>hc_references := hc_references c + 1\<rparr>) s2;
          s4 = set_qp q (\<lambda>x. x\<lparr>hq_user_posted := user\<rparr>) s3;
          s5 = (if user then set_cq recv (\<lambda>c. c\<lparr>hc_user_mode := True\<rparr>) (set_cq send (\<lambda>c. c\<lparr>hc_user_mode := True\<rparr>) s4) else s4)
      in s5\<lparr>g_list := q # g_list s5, g_hca := (g_hca s5)\<lparr>h_any_qp := True\<rparr>\<rparr>)"

definition join_qp :: "nat \<Rightarrow> u32 \<Rightarrow> nat \<Rightarrow> nat \<Rightarrow> bool \<Rightarrow> hw_object \<Rightarrow> buffer \<Rightarrow> rig \<Rightarrow> bool \<times> rig" where
  "join_qp q pd send recv user ob b s =
     (let s1 = enlist_qp q pd send recv user ob b s
      in case pi_insert 9 (ob_id ob) q (g_index s1) of
           (False, _) \<Rightarrow> (False, isolate s1)
         | (True, i) \<Rightarrow> (True, s1\<lparr>g_index := i\<rparr>))"

definition create_qp :: "'w hca_ops \<Rightarrow> nat \<Rightarrow> u32 \<Rightarrow> nat \<Rightarrow> nat \<Rightarrow> u32 \<Rightarrow> 'w qp_step" where
  "create_qp ops q pd send recv page sw =
     (case sw of (s, w) \<Rightarrow>
        let x = g_qps s q; user = (page \<noteq> KERNEL_UAR) in
        if pi_size (g_index s) = 256 \<or> ob_live (hq_object x) \<or> bf_memory (hq_buffer x) \<or>
           \<not> ob_live (hc_object (g_cqs s send)) \<or> \<not> ob_live (hc_object (g_cqs s recv)) \<or> 0xffffff < pd then (False, s, w)
        else if user \<and> (\<not> h_user_queues (g_hca s) \<or> 0xffffff < page \<or> page = ob_id (h_uar (g_hca s))) then (False, s, w)
        else (case buffer_allocate ops 8192 (hq_buffer x) w of (e, b, w1) \<Rightarrow>
          if e \<noteq> IO_Success then (False, set_qp q (\<lambda>x. x\<lparr>hq_buffer := b\<rparr>) s, w1)
          else (case create ops (hq_object x) 0x118
                  (create_qp_command b pd (if user then page else ob_id (h_uar (g_hca s)))
                     (ob_id (hc_object (g_cqs s send))) (ob_id (hc_object (g_cqs s recv))) (g_hca s), w1) of
             (False, ob, h2, w2) \<Rightarrow>
               if tr_quarantined (h_transport h2)
               then (False, set_qp q (\<lambda>x. x\<lparr>hq_buffer := b\<rparr>) (set_hca h2 s), w2)
               else (case buffer_release ops b w2 of
                       (_, b2, w3) \<Rightarrow> (False, set_qp q (\<lambda>x. x\<lparr>hq_buffer := b2\<rparr>) (set_hca h2 s), w3))
           | (True, ob, h2, w2) \<Rightarrow> (case join_qp q pd send recv user ob b (set_hca h2 s) of (ok, s') \<Rightarrow> (ok, s', w2)))))"

subsection \<open>Purging and resetting\<close>

definition count_qp :: "nat \<Rightarrow> hardware_qp \<Rightarrow> hardware_cq \<Rightarrow> hardware_cq" where
  "count_qp c x cq =
     (if \<not> ob_live (hq_object x) then cq
      else let cq1 = (if hq_send_cq x = c
                  then cq\<lparr>hc_references := hc_references cq + 1, hc_outstanding := hc_outstanding cq + wq_pending (hq_sends x)\<rparr> else cq)
           in if hq_recv_cq x = c
              then cq1\<lparr>hc_references := hc_references cq1 + 1, hc_outstanding := hc_outstanding cq1 + wq_pending (hq_receives x)\<rparr>
              else cq1)"

definition rebuild_cq_accounting :: "nat \<Rightarrow> rig \<Rightarrow> rig" where
  "rebuild_cq_accounting c s =
     set_cq c (\<lambda>cq. fold (\<lambda>q. count_qp c (g_qps s q)) (g_list s) (cq\<lparr>hc_references := 0, hc_outstanding := 0\<rparr>)) s"

text \<open>The entry at an index of the ring, and the number of published entries; None at one that cannot be decoded.\<close>

definition ring_entry :: "mem \<Rightarrow> u32 \<Rightarrow> u8 list" where
  "ring_entry m index = mem_read m (slot32 index * 64) 64"

fun purge_visible :: "nat \<Rightarrow> mem \<Rightarrow> u32 \<Rightarrow> nat \<Rightarrow> nat option" where
  "purge_visible 0 m consumer visible = Some visible"
| "purge_visible (Suc n) m consumer visible =
     (let index = consumer + of_nat visible in
      if \<not> owned (owner_at m index) index then Some visible
      else if fst (decode_cqe (ring_entry m index) index 5) = Unsupported then None
      else purge_visible n m consumer (visible + 1))"

definition move_entry :: "mem \<Rightarrow> u32 \<Rightarrow> u32 \<Rightarrow> mem" where
  "move_entry m index destination =
     (let m1 = mem_write m (slot32 destination * 64) (ring_entry m index); at = slot32 destination * 64 + 63
      in m1(at := (m1 at AND 0xfe) OR ucast (drop_bit 5 destination AND 1)))"

fun purge_compact :: "nat \<Rightarrow> u32 \<Rightarrow> u32 \<Rightarrow> nat \<Rightarrow> mem \<Rightarrow> nat \<times> mem" where
  "purge_compact 0 qpn consumer discarded m = (discarded, m)"
| "purge_compact (Suc r) qpn consumer discarded m =
     (let index = consumer + of_nat r in
      if be32 (ring_entry m index) 56 AND 0xffffff = qpn then purge_compact r qpn consumer (discarded + 1) m
      else if discarded \<noteq> 0 then purge_compact r qpn consumer discarded (move_entry m index (index + of_nat discarded))
      else purge_compact r qpn consumer discarded m)"

definition purge_qp_completions :: "'w hca_ops \<Rightarrow> nat \<Rightarrow> u32 \<Rightarrow> 'w qp_step" where
  "purge_qp_completions ops c qpn sw =
     (case sw of (s, w) \<Rightarrow>
        let cq = g_cqs s c in
        if \<not> ob_live (hc_object cq) then (False, s, w)
        else (case rig_ready ops s w of
          (False, w1) \<Rightarrow> (False, s, w1)
        | (True, w1) \<Rightarrow>
            (case purge_visible 32 (bf_cpu (hc_buffer cq)) (hc_consumer cq) 0 of
               None \<Rightarrow> (False, isolate s, w1)
             | Some visible \<Rightarrow>
                 if \<not> hc_user_mode cq \<and> hc_outstanding cq < of_nat visible then (False, isolate s, w1)
                 else (case purge_compact visible qpn (hc_consumer cq) 0 (bf_cpu (hc_buffer cq)) of (discarded, m) \<Rightarrow>
                   (True,
                    if discarded = 0 then s
                    else let consumer = hc_consumer cq + of_nat discarded in
                         set_cq c (\<lambda>cq. cq\<lparr>hc_consumer := consumer,
                           hc_buffer := (hc_buffer cq)\<lparr>bf_cpu := mcdma_cq_set_consumer m consumer\<rparr>\<rparr>) s,
                    w1)))))"

definition credits_short :: "rig \<Rightarrow> hardware_qp \<Rightarrow> bool" where
  "credits_short s x \<longleftrightarrow>
     (let send = hc_outstanding (g_cqs s (hq_send_cq x)); recv = hc_outstanding (g_cqs s (hq_recv_cq x));
          ps = wq_pending (hq_sends x); pr = wq_pending (hq_receives x)
      in send < ps \<or> recv < pr \<or> (hq_send_cq x = hq_recv_cq x \<and> send < ps + pr))"

definition reset_command :: "'w hca_ops \<Rightarrow> nat \<Rightarrow> 'w qp_step" where
  "reset_command ops q sw =
     (case sw of (s, w) \<Rightarrow>
        (case call ops 16 16 (put_input (\<lambda>p. write_be32 p 8 (ob_id (hq_object (g_qps s q)))) (header 0x50a 0 (g_hca s)), w) of
           (False, h1, w1) \<Rightarrow> (False, set_hca h1 s, w1)
         | (True, h1, w1) \<Rightarrow> (True, set_qp q (\<lambda>x. x\<lparr>hq_state := 0\<rparr>) (set_hca h1 s), w1)))"

definition purge_both :: "'w hca_ops \<Rightarrow> nat \<Rightarrow> 'w qp_step" where
  "purge_both ops q sw =
     (let x = g_qps (fst sw) q in
      case purge_qp_completions ops (hq_send_cq x) (ob_id (hq_object x)) sw of
        (False, sw1) \<Rightarrow> (False, sw1)
      | (True, sw1) \<Rightarrow>
          if hq_recv_cq x \<noteq> hq_send_cq x then purge_qp_completions ops (hq_recv_cq x) (ob_id (hq_object x)) sw1 else (True, sw1))"

definition forget_work :: "nat \<Rightarrow> rig \<Rightarrow> rig" where
  "forget_work q = set_qp q (\<lambda>x. x\<lparr>hq_sends := work_removed (hq_sends x), hq_receives := work_removed (hq_receives x)\<rparr>)"

definition return_credits :: "nat \<Rightarrow> rig \<Rightarrow> rig" where
  "return_credits q s =
     (let x = g_qps s q;
          s1 = set_cq (hq_send_cq x) (\<lambda>c. c\<lparr>hc_outstanding := hc_outstanding c - wq_pending (hq_sends x)\<rparr>) s
      in set_cq (hq_recv_cq x) (\<lambda>c. c\<lparr>hc_outstanding := hc_outstanding c - wq_pending (hq_receives x)\<rparr>) s1)"

definition rebuild_both :: "nat \<Rightarrow> nat \<Rightarrow> rig \<Rightarrow> rig" where
  "rebuild_both send recv s =
     (let s1 = rebuild_cq_accounting send s in if recv \<noteq> send then rebuild_cq_accounting recv s1 else s1)"

definition clear_rings :: "nat \<Rightarrow> rig \<Rightarrow> rig" where
  "clear_rings q = set_qp q (\<lambda>x. x\<lparr>hq_producer := 0, hq_recv_producer := 0,
     hq_buffer := (hq_buffer x)\<lparr>bf_cpu := mem_write (bf_cpu (hq_buffer x)) 0 (replicate 8192 0)\<rparr>\<rparr>)"

definition reset_qp :: "'w hca_ops \<Rightarrow> nat \<Rightarrow> 'w qp_step" where
  "reset_qp ops q sw =
     (case sw of (s, w) \<Rightarrow> (case io_detached ops w of (removed, w1) \<Rightarrow>
        let x = g_qps s q in
        if \<not> ob_live (hq_object x) then (True, s, w1)
        else if removed
        then (True, clear_rings q (rebuild_both (hq_send_cq x) (hq_recv_cq x)
               (set_qp q (\<lambda>x. x\<lparr>hq_state := 0\<rparr>) (forget_work q s))), w1)
        else if \<not> hq_user_posted x \<and> credits_short s x then (False, isolate s, w1)
        else (case (if hq_state x \<noteq> 0 then reset_command ops q (s, w1) else (True, s, w1)) of
            (False, sw2) \<Rightarrow> (False, sw2)
          | (True, sw2) \<Rightarrow> (case purge_both ops q sw2 of
              (False, sw3) \<Rightarrow> (False, sw3)
            | (True, s3, w3) \<Rightarrow> (True, clear_rings q (forget_work q (return_credits q s3)), w3)))))"

text \<open>The index erases with as many steps as it has slots; \<open>None\<close> where that is not enough.\<close>

definition leave_lists :: "nat \<Rightarrow> u32 \<Rightarrow> rig \<Rightarrow> rig option" where
  "leave_lists q qpn s =
     (let list = remove1 q (g_list s) in
      case pi_erase 512 9 qpn q (g_index s) of
        None \<Rightarrow> None
      | Some (_, i) \<Rightarrow>
          Some (rebuild_both (hq_send_cq (g_qps s q)) (hq_recv_cq (g_qps s q))
            (s\<lparr>g_list := list, g_index := i, g_hca := (g_hca s)\<lparr>h_any_qp := (list \<noteq> [])\<rparr>\<rparr>)))"

definition destroy_qp :: "'w hca_ops \<Rightarrow> nat \<Rightarrow> rig \<times> 'w \<Rightarrow> (bool \<times> rig \<times> 'w) option" where
  "destroy_qp ops q sw =
     (let was_live = ob_live (hq_object (g_qps (fst sw) q)); qpn = ob_id (hq_object (g_qps (fst sw) q)) in
      case reset_qp ops q sw of
        (False, sw1) \<Rightarrow> Some (False, sw1)
      | (True, s1, w1) \<Rightarrow>
          (case destroy ops (hq_object (g_qps s1 q)) 0x501 (g_hca s1, w1) of
             (False, ob, h2, w2) \<Rightarrow> Some (False, set_qp q (\<lambda>x. x\<lparr>hq_object := ob\<rparr>) (set_hca h2 s1), w2)
           | (True, ob, h2, w2) \<Rightarrow>
               let s2 = set_qp q (\<lambda>x. x\<lparr>hq_object := ob\<rparr>) (set_hca h2 s1) in
               (case (if was_live then leave_lists q qpn s2 else Some s2) of
                  None \<Rightarrow> None
                | Some s3 \<Rightarrow>
                    (case buffer_release ops (hq_buffer (g_qps s3 q)) w2 of (e, b, w3) \<Rightarrow>
                       Some (if e \<noteq> IO_Success then (False, set_qp q (\<lambda>x. x\<lparr>hq_buffer := b\<rparr>) s3, w3)
                             else (True, set_qp q (\<lambda>_. new_qp) s3, w3))))))"

subsection \<open>Transitions, posting and polling\<close>

definition transition :: "'w hca_ops \<Rightarrow> nat \<Rightarrow> u16 \<Rightarrow> rc_connection \<Rightarrow> 'w qp_step" where
  "transition ops q opcode requested sw =
     (case sw of (s, w) \<Rightarrow>
        let x = g_qps s q; h = g_hca s;
            conn = requested\<lparr>rc_log_ack_req_freq := (if h_ack_every h then 0 else 8)\<rparr> in
        if \<not> ob_live (hq_object x) \<or> rc_qpn conn \<noteq> ob_id (hq_object x) \<or> rc_pd conn \<noteq> hq_pd x \<or>
           rc_cq conn \<noteq> ob_id (hc_object (g_cqs s (hq_send_cq x))) \<or> rc_doorbell conn \<noteq> bf_dma (hq_buffer x) + 4096 \<or>
           (ucast opcode :: u32) \<noteq> 0x502 + hq_state x then (False, s, w)
        else (case encode_rc_transition (h_input h) 8192 opcode conn of
          None \<Rightarrow> (False, s, w)
        | Some p \<Rightarrow>
            (case call ops 272 16 (put_input (\<lambda>_. set_field 24 232 0x4e8 24 (ucast (ob_id (hc_object (g_cqs s (hq_recv_cq x))))) p) h, w) of
               (False, h1, w1) \<Rightarrow> (False, set_hca h1 s, w1)
             | (True, h1, w1) \<Rightarrow> (True, set_qp q (\<lambda>x. x\<lparr>hq_state := hq_state x + 1\<rparr>) (set_hca h1 s), w1))))"

definition ring_doorbell :: "'w hca_ops \<Rightarrow> nat \<Rightarrow> u8 list \<Rightarrow> 'w qp_step" where
  "ring_doorbell ops q wqe sw =
     (case sw of (s, w) \<Rightarrow>
        let h = g_hca s; uar = push_bit (unat (h_uar_shift h)) (ucast (ob_id (h_uar h))) :: u64;
            (posted, h1, w1) =
              (if h_bf_enabled h
               then (case write_blueflame ops (uar + 0x800 + (h_bf_posts h AND 1) * ucast (h_bf_bytes h)) wqe (h, w) of
                       (ok, h', w') \<Rightarrow> (ok, if ok then h'\<lparr>h_bf_posts := h_bf_posts h' + 1\<rparr> else h', w'))
               else write64 ops (uar + 0x800) (get_le (take 8 wqe)) (h, w))
        in if \<not> posted then (False, isolate (set_hca h1 s), w1)
           else (True, set_qp q (\<lambda>x. x\<lparr>hq_producer := hq_producer x + 1\<rparr>) (set_hca h1 s), w1))"

definition add_credit :: "nat \<Rightarrow> rig \<Rightarrow> rig" where
  "add_credit c = set_cq c (\<lambda>c. c\<lparr>hc_outstanding := hc_outstanding c + 1\<rparr>)"

definition hca_post :: "'w hca_ops \<Rightarrow> nat \<Rightarrow> u64 \<Rightarrow> send_request \<Rightarrow> 'w qp_step" where
  "hca_post ops q work_id r sw =
     (case sw of (s, w) \<Rightarrow>
        let x = g_qps s q in
        if hq_user_posted x \<or> \<not> ob_live (hq_object x) \<or> hq_state x \<noteq> 3 then (False, s, w)
        else (case rig_ready ops s w of
          (False, w1) \<Rightarrow> (False, s, w1)
        | (True, w1) \<Rightarrow>
            if sr_inline_data r \<noteq> None \<or> \<not> can_post (hq_sends x) (hq_producer x) \<or> 31 \<le> hc_outstanding (g_cqs s (hq_send_cq x))
            then (False, s, w1)
            else
              let len = request_bytes r; m = bf_cpu (hq_buffer x); at = 512 + slot32 (hq_producer x) * 64 in
              if len = 0 then (False, s, w1)
              else (case encode_send_request (\<lambda>i. m (at + i)) 64 (ob_id (hq_object x)) (ucast (hq_producer x)) r of
                None \<Rightarrow> (False, s, w1)
              | Some e \<Rightarrow>
                  let wqe = mem_read e 0 64; m1 = mem_write m at wqe;
                      put = (\<lambda>m. set_qp q (\<lambda>x. x\<lparr>hq_buffer := (hq_buffer x)\<lparr>bf_cpu := m\<rparr>\<rparr>)) in
                  (case work_post (hq_sends x) (hq_producer x) work_id (sr_opcode r) len
                          (map sge_lkey (take (unat (sr_sge_count r)) (sr_sge r))) of
                     (False, _) \<Rightarrow> (False, put m1 s, w1)
                   | (True, sends) \<Rightarrow>
                       ring_doorbell ops q wqe
                         (put (write_be32 m1 4100 (hq_producer x + 1))
                            (add_credit (hq_send_cq x) (set_qp q (\<lambda>x. x\<lparr>hq_sends := sends\<rparr>) s)), w1)))))"

definition hca_post_one :: "'w hca_ops \<Rightarrow> nat \<Rightarrow> u64 \<Rightarrow> u8 \<Rightarrow> u64 \<Rightarrow> u32 \<Rightarrow> u32 \<Rightarrow> u64 \<Rightarrow> u32 \<Rightarrow> 'w qp_step" where
  "hca_post_one ops q work_id opcode local lkey len remote rkey =
     hca_post ops q work_id (one_sge opcode local lkey len remote rkey)"

definition receive :: "'w hca_ops \<Rightarrow> nat \<Rightarrow> u64 \<Rightarrow> u64 \<Rightarrow> u32 \<Rightarrow> u32 \<Rightarrow> 'w qp_step" where
  "receive ops q work_id address len lkey sw =
     (case sw of (s, w) \<Rightarrow>
        let x = g_qps s q in
        if hq_user_posted x \<or> \<not> ob_live (hq_object x) \<or> hq_state x < 1 then (False, s, w)
        else (case rig_ready ops s w of
          (False, w1) \<Rightarrow> (False, s, w1)
        | (True, w1) \<Rightarrow>
            if len = 0 \<or> lkey = 0 \<or> UINT64_MAX - ucast len < address \<or> \<not> can_post (hq_receives x) (hq_recv_producer x) \<or>
               31 \<le> hc_outstanding (g_cqs s (hq_recv_cq x)) then (False, s, w1)
            else
              let at = slot32 (hq_recv_producer x) * 16;
                  m1 = write_be64 (write_be32 (write_be32 (bf_cpu (hq_buffer x)) at len) (at + 4) lkey) (at + 8) address;
                  put = (\<lambda>m. set_qp q (\<lambda>x. x\<lparr>hq_buffer := (hq_buffer x)\<lparr>bf_cpu := m\<rparr>\<rparr>)) in
              (case work_post (hq_receives x) (hq_recv_producer x) work_id 0x0a len [lkey] of
                 (False, _) \<Rightarrow> (False, put m1 s, w1)
               | (True, receives) \<Rightarrow>
                   (True, set_qp q (\<lambda>x. x\<lparr>hq_recv_producer := hq_recv_producer x + 1\<rparr>)
                      (put (write_be32 m1 4096 (hq_recv_producer x + 1))
                        (add_credit (hq_recv_cq x) (set_qp q (\<lambda>x. x\<lparr>hq_receives := receives\<rparr>) s))), w1))))"

text \<open>What a poll of one queue sees, and what it changes.\<close>

definition qp_view :: "nat \<Rightarrow> hardware_qp \<Rightarrow> kernel_qp" where
  "qp_view c x = \<lparr>kq_sends = hq_sends x, kq_receives = hq_receives x, kq_send_here = (hq_send_cq x = c),
     kq_recv_here = (hq_recv_cq x = c), kq_user_posted = hq_user_posted x, kq_client = (hq_client x \<noteq> None)\<rparr>"

definition cq_view :: "nat \<Rightarrow> bool \<Rightarrow> rig \<Rightarrow> kernel_cq" where
  "cq_view c ready s =
     (let cq = g_cqs s c in
      \<lparr>kc_live = ob_live (hc_object cq), kc_ready = ready, kc_quarantined = quarantined s, kc_buffer = bf_cpu (hc_buffer cq),
       kc_consumer = hc_consumer cq, kc_outstanding = hc_outstanding cq,
       kc_qps = (\<lambda>qpn. map_option (\<lambda>q. qp_view c (g_qps s q)) (pi_find 9 qpn (g_index s)))\<rparr>)"

definition viewed_qp :: "kernel_cq \<Rightarrow> rig \<Rightarrow> nat \<Rightarrow> hardware_qp" where
  "viewed_qp k s q =
     (let x = g_qps s q; qpn = ob_id (hq_object x) in
      if pi_find 9 qpn (g_index s) \<noteq> Some q then x
      else (case kc_qps k qpn of None \<Rightarrow> x | Some y \<Rightarrow> x\<lparr>hq_sends := kq_sends y, hq_receives := kq_receives y\<rparr>))"

definition poll_back :: "nat \<Rightarrow> kernel_cq \<Rightarrow> rig \<Rightarrow> rig" where
  "poll_back c k s =
     (let s1 = set_cq c (\<lambda>cq. cq\<lparr>hc_buffer := (hc_buffer cq)\<lparr>bf_cpu := kc_buffer k\<rparr>, hc_consumer := kc_consumer k,
                 hc_outstanding := kc_outstanding k\<rparr>) (s\<lparr>g_qps := viewed_qp k s\<rparr>)
      in if kc_quarantined k then isolate s1 else s1)"

definition rig_poll :: "'w hca_ops \<Rightarrow> nat \<Rightarrow> rig \<times> 'w \<Rightarrow> (cq_result \<times> completion \<times> work_record \<times> bool \<times> bool) \<times> rig \<times> 'w" where
  "rig_poll ops c sw =
     (case sw of (s, w) \<Rightarrow>
        (case (if ob_live (hc_object (g_cqs s c)) then rig_ready ops s w else (False, w)) of (ready, w1) \<Rightarrow>
          (case hca_poll (cq_view c ready s) of (out, k) \<Rightarrow> (out, poll_back c k s, w1))))"

definition mr_in_flight :: "u32 \<Rightarrow> rig \<Rightarrow> bool" where
  "mr_in_flight key s \<longleftrightarrow>
     (\<exists>q \<in> set (g_list s). work_references (hq_sends (g_qps s q)) key \<or> work_references (hq_receives (g_qps s q)) key)"

definition qp_context :: "u32 \<Rightarrow> rig \<Rightarrow> nat option" where
  "qp_context qpn s =
     (case pi_find 9 qpn (g_index s) of
        Some q \<Rightarrow> if ob_live (hq_object (g_qps s q)) then hq_client (g_qps s q) else None
      | None \<Rightarrow> None)"

definition deregister_mr :: "'w hca_ops \<Rightarrow> hw_object \<Rightarrow> u32 \<Rightarrow> rig \<times> 'w \<Rightarrow> bool \<times> hw_object \<times> rig \<times> 'w" where
  "deregister_mr ops mr key sw =
     (case sw of (s, w) \<Rightarrow>
        if \<not> ob_live mr then (True, mr, s, w)
        else if drop_bit 8 key \<noteq> ob_id mr then (False, mr, s, w)
        else (case io_detached ops w of (detached, w1) \<Rightarrow>
          if \<not> detached \<and> mr_in_flight key s then (False, mr, s, w1)
          else (case destroy ops mr 0x202 (g_hca s, w1) of (ok, mr', h', w') \<Rightarrow> (ok, mr', set_hca h' s, w'))))"


subsection \<open>The driver's books\<close>

definition queue_ok :: "work_queue \<Rightarrow> bool" where
  "queue_ok w \<longleftrightarrow> kernel_ok \<lparr>ks_queue = w, ks_producer = 0\<rparr>"

definition qp_load :: "nat \<Rightarrow> hardware_qp \<Rightarrow> nat" where
  "qp_load c x = (if hq_send_cq x = c then unat (wq_pending (hq_sends x)) else 0) +
     (if hq_recv_cq x = c then unat (wq_pending (hq_receives x)) else 0)"

definition qp_uses :: "nat \<Rightarrow> hardware_qp \<Rightarrow> nat" where
  "qp_uses c x = (if hq_send_cq x = c then 1 else 0) + (if hq_recv_cq x = c then 1 else 0)"

text \<open>The requests outstanding on a completion queue, and its users, over all queue pairs.\<close>

definition cq_load :: "nat \<Rightarrow> rig \<Rightarrow> nat" where
  "cq_load c s = (\<Sum>q \<in> set (g_list s). qp_load c (g_qps s q))"

definition cq_uses :: "nat \<Rightarrow> rig \<Rightarrow> nat" where
  "cq_uses c s = (\<Sum>q \<in> set (g_list s). qp_uses c (g_qps s q))"

definition listed_ok :: "rig \<Rightarrow> bool" where
  "listed_ok s \<longleftrightarrow> distinct (g_list s) \<and> length (g_list s) \<le> 256 \<and>
     (\<forall>q. ob_live (hq_object (g_qps s q)) \<longleftrightarrow> q \<in> set (g_list s)) \<and>
     (\<forall>q \<in> set (g_list s). ob_live (hc_object (g_cqs s (hq_send_cq (g_qps s q)))) \<and> ob_live (hc_object (g_cqs s (hq_recv_cq (g_qps s q)))))"

definition works_ok :: "rig \<Rightarrow> bool" where
  "works_ok s \<longleftrightarrow> (\<forall>q. queue_ok (hq_sends (g_qps s q)) \<and> queue_ok (hq_receives (g_qps s q)) \<and>
     (q \<in> set (g_list s) \<or> wq_pending (hq_sends (g_qps s q)) = 0 \<and> wq_pending (hq_receives (g_qps s q)) = 0))"

definition credits_ok :: "rig \<Rightarrow> bool" where
  "credits_ok s \<longleftrightarrow> (\<forall>c. unat (hc_outstanding (g_cqs s c)) = cq_load c s \<and> cq_load c s \<le> 31 \<and>
     hc_references (g_cqs s c) = of_nat (cq_uses c s))"

definition index_ok :: "rig \<Rightarrow> bool" where
  "index_ok s \<longleftrightarrow> pi_ok 9 (g_index s) \<and>
     (\<forall>k q. pi_map (g_index s) k = Some q \<longrightarrow> q \<in> set (g_list s) \<and> ob_id (hq_object (g_qps s q)) = k) \<and>
     (quarantined s \<or> (\<forall>q \<in> set (g_list s). pi_map (g_index s) (ob_id (hq_object (g_qps s q))) = Some q))"

definition rig_ok :: "rig \<Rightarrow> bool" where
  "rig_ok s \<longleftrightarrow> listed_ok s \<and> works_ok s \<and> credits_ok s \<and> index_ok s"

lemma rig_fields [simp]:
  "g_list (set_cq c f s) = g_list s" "g_index (set_cq c f s) = g_index s" "g_qps (set_cq c f s) = g_qps s"
  "g_hca (set_cq c f s) = g_hca s" "g_cqs (set_cq c f s) = (g_cqs s)(c := f (g_cqs s c))"
  "g_list (set_qp q g s) = g_list s" "g_index (set_qp q g s) = g_index s" "g_cqs (set_qp q g s) = g_cqs s"
  "g_hca (set_qp q g s) = g_hca s" "g_qps (set_qp q g s) = (g_qps s)(q := g (g_qps s q))"
  "g_list (set_hca h s) = g_list s" "g_index (set_hca h s) = g_index s" "g_cqs (set_hca h s) = g_cqs s"
  "g_qps (set_hca h s) = g_qps s" "g_hca (set_hca h s) = h"
  "g_list (isolate s) = g_list s" "g_index (isolate s) = g_index s" "g_cqs (isolate s) = g_cqs s"
  "g_qps (isolate s) = g_qps s" "quarantined (isolate s)"
  by (simp_all add: set_cq_def set_qp_def set_hca_def isolate_def quarantine_def)

text \<open>Nothing the books speak of changes, and a quarantine stays.\<close>

definition same_books :: "rig \<Rightarrow> rig \<Rightarrow> bool" where
  "same_books s s' \<longleftrightarrow> g_list s' = g_list s \<and> g_index s' = g_index s \<and> (quarantined s \<longrightarrow> quarantined s') \<and>
     (\<forall>q. hq_object (g_qps s' q) = hq_object (g_qps s q) \<and> hq_send_cq (g_qps s' q) = hq_send_cq (g_qps s q) \<and>
       hq_recv_cq (g_qps s' q) = hq_recv_cq (g_qps s q) \<and> hq_sends (g_qps s' q) = hq_sends (g_qps s q) \<and>
       hq_receives (g_qps s' q) = hq_receives (g_qps s q)) \<and>
     (\<forall>c. hc_references (g_cqs s' c) = hc_references (g_cqs s c) \<and> hc_outstanding (g_cqs s' c) = hc_outstanding (g_cqs s c) \<and>
       (ob_live (hc_object (g_cqs s c)) \<longrightarrow> ob_live (hc_object (g_cqs s' c))))"

lemma same_books_refl [simp]: "same_books s s"
  by (simp add: same_books_def)

lemma same_books_trans: "same_books s t \<Longrightarrow> same_books t u \<Longrightarrow> same_books s u"
  by (simp add: same_books_def)

lemma same_books_loads: "same_books s s' \<Longrightarrow> cq_load c s' = cq_load c s" "same_books s s' \<Longrightarrow> cq_uses c s' = cq_uses c s"
  by (simp_all add: same_books_def cq_load_def cq_uses_def qp_load_def qp_uses_def cong: if_cong)

lemma same_books_ok:
  assumes "same_books s s'" and "rig_ok s"
  shows "rig_ok s'"
proof -
  have "listed_ok s'" using assms by (simp add: rig_ok_def listed_ok_def same_books_def)
  moreover have "works_ok s'" using assms by (simp add: rig_ok_def works_ok_def same_books_def)
  moreover have "credits_ok s'"
    using assms same_books_loads [OF assms(1)] by (simp add: rig_ok_def credits_ok_def) (simp add: same_books_def)
  moreover have "index_ok s'" using assms by (auto simp: rig_ok_def index_ok_def same_books_def)
  ultimately show ?thesis by (simp add: rig_ok_def)
qed

lemma same_books_hca: "(quarantined s \<longrightarrow> tr_quarantined (h_transport h)) \<Longrightarrow> same_books s (set_hca h s)"
  by (simp add: same_books_def)

lemma same_books_isolate [simp]: "same_books s (isolate s)"
  by (simp add: same_books_def)

lemma same_books_cq:
  assumes "\<And>x. hc_references (f x) = hc_references x" "\<And>x. hc_outstanding (f x) = hc_outstanding x"
    "ob_live (hc_object (g_cqs s c)) \<longrightarrow> ob_live (hc_object (f (g_cqs s c)))"
  shows "same_books s (set_cq c f s)"
  using assms by (simp add: same_books_def)

lemma same_books_qp:
  assumes "\<And>x. hq_object (f x) = hq_object x" "\<And>x. hq_send_cq (f x) = hq_send_cq x" "\<And>x. hq_recv_cq (f x) = hq_recv_cq x"
    "\<And>x. hq_sends (f x) = hq_sends x" "\<And>x. hq_receives (f x) = hq_receives x"
  shows "same_books s (set_qp q f s)"
  using assms by (simp add: same_books_def)

subsection \<open>Commands and the quarantine\<close>

lemma execute_sticky:
  assumes "execute ops inp n out m t w = (ok, out', t', w')"
  shows "tr_quarantined t \<longrightarrow> tr_quarantined t'" and "ok \<longrightarrow> \<not> tr_quarantined t \<and> \<not> tr_quarantined t'"
proof -
  have d: "(tr_quarantined t0 \<longrightarrow> tr_quarantined t1) \<and> (ok1 \<longrightarrow> tr_quarantined t1 = tr_quarantined t0)"
    if "execute_done m out t0 = (ok1, o1, t1)" for t0 ok1 o1 t1
    using that by (auto simp: execute_done_def Let_def split: if_splits prod.splits)
  show "tr_quarantined t \<longrightarrow> tr_quarantined t'"
    using assms by (auto simp: execute_def transport_ready_def Let_def split: if_splits prod.splits bool.splits)
  show "ok \<longrightarrow> \<not> tr_quarantined t \<and> \<not> tr_quarantined t'"
    using assms by (auto simp: execute_def transport_ready_def Let_def split: if_splits prod.splits bool.splits dest!: d)
qed

lemma call_sticky:
  assumes "call ops n m (h, w) = (ok, h', w')"
  shows "tr_quarantined (h_transport h) \<longrightarrow> tr_quarantined (h_transport h')"
    and "ok \<longrightarrow> \<not> tr_quarantined (h_transport h) \<and> \<not> tr_quarantined (h_transport h')"
  using assms execute_sticky [of "io_adapter ops" "h_input h" n _ m "h_transport h" w]
  by (auto simp: call_def split: prod.splits)

lemma header_transport [simp]: "h_transport (header a b h) = h_transport h"
  by (simp add: header_def put_input_def)

lemma create_sticky:
  assumes "create ops ob n (h, w) = (ok, ob', h', w')"
  shows "(tr_quarantined (h_transport h) \<longrightarrow> tr_quarantined (h_transport h')) \<and>
    (ok \<longrightarrow> \<not> tr_quarantined (h_transport h) \<and> \<not> tr_quarantined (h_transport h') \<and> ob_live ob') \<and> (\<not> ok \<longrightarrow> ob' = ob)"
  using assms call_sticky [of ops n 16 h w]
  by (auto simp: create_def count_up_def split: if_splits prod.splits bool.splits)

lemma destroy_sticky:
  assumes "destroy ops ob n (h, w) = (ok, ob', h', w')"
  shows "tr_quarantined (h_transport h) \<longrightarrow> tr_quarantined (h_transport h')"
    and "ok \<longrightarrow> \<not> ob_live ob'" and "\<not> ok \<longrightarrow> ob' = ob" and "\<not> ob_live ob \<longrightarrow> ok \<and> ob' = ob"
  using assms call_sticky(1) [of ops 16 16 "put_input (\<lambda>p. write_be32 p 8 (ob_id ob)) (header n 0 h)"]
  by (auto simp: destroy_def count_down_def no_object_def split: if_splits prod.splits bool.splits)


subsection \<open>Changing the requests of one queue pair\<close>

lemma sum_change:
  assumes "q \<in> S" "finite S" "\<And>p. p \<in> S \<Longrightarrow> p \<noteq> q \<Longrightarrow> f p = g p"
  shows "sum f S + g q = sum g S + (f q :: nat)"
proof -
  have "sum f (S - {q}) = sum g (S - {q})" using assms(3) by (intro sum.cong) auto
  then show ?thesis using sum.remove [OF assms(2,1), of f] sum.remove [OF assms(2,1), of g] by simp
qed

text \<open>
  A state whose queue pair \<open>q\<close> has other requests is in order once the credits of every completion
  queue have changed by as much as the load.
\<close>

lemma load_change_ok:
  assumes ok: "rig_ok s" and q: "q \<in> set (g_list s)"
    and l: "g_list s' = g_list s" and i: "g_index s' = g_index s" and qu: "quarantined s \<longrightarrow> quarantined s'"
    and others: "\<And>p. p \<noteq> q \<Longrightarrow> g_qps s' p = g_qps s p"
    and same: "hq_object (g_qps s' q) = hq_object (g_qps s q)" "hq_send_cq (g_qps s' q) = hq_send_cq (g_qps s q)"
      "hq_recv_cq (g_qps s' q) = hq_recv_cq (g_qps s q)"
    and w: "queue_ok (hq_sends (g_qps s' q))" "queue_ok (hq_receives (g_qps s' q))"
    and cqs: "\<And>c. hc_references (g_cqs s' c) = hc_references (g_cqs s c)"
      "\<And>c. ob_live (hc_object (g_cqs s' c)) = ob_live (hc_object (g_cqs s c))"
    and out: "\<And>c. unat (hc_outstanding (g_cqs s' c)) + qp_load c (g_qps s q) =
        unat (hc_outstanding (g_cqs s c)) + qp_load c (g_qps s' q)"
    and le: "\<And>c. unat (hc_outstanding (g_cqs s' c)) \<le> 31"
  shows "rig_ok s'"
proof -
  have obj: "hq_object (g_qps s' p) = hq_object (g_qps s p)" "hq_send_cq (g_qps s' p) = hq_send_cq (g_qps s p)"
    "hq_recv_cq (g_qps s' p) = hq_recv_cq (g_qps s p)" for p using others [of p] same by (cases "p = q"; simp)+
  have "listed_ok s'" using ok by (simp add: rig_ok_def listed_ok_def l obj cqs)
  moreover have "works_ok s'" unfolding works_ok_def l
  proof
    fix p
    show "queue_ok (hq_sends (g_qps s' p)) \<and> queue_ok (hq_receives (g_qps s' p)) \<and>
      (p \<in> set (g_list s) \<or> wq_pending (hq_sends (g_qps s' p)) = 0 \<and> wq_pending (hq_receives (g_qps s' p)) = 0)"
      using ok others [of p] w q by (cases "p = q") (simp_all add: rig_ok_def works_ok_def)
  qed
  moreover have "credits_ok s'" unfolding credits_ok_def
  proof
    fix c
    have "cq_load c s' + qp_load c (g_qps s q) = cq_load c s + qp_load c (g_qps s' q)"
      unfolding cq_load_def l using q others by (intro sum_change) simp_all
    moreover have "unat (hc_outstanding (g_cqs s c)) = cq_load c s" "hc_references (g_cqs s c) = of_nat (cq_uses c s)"
      using ok by (simp_all add: rig_ok_def credits_ok_def)
    moreover have "cq_uses c s' = cq_uses c s" by (simp add: cq_uses_def l qp_uses_def obj)
    ultimately show "unat (hc_outstanding (g_cqs s' c)) = cq_load c s' \<and> cq_load c s' \<le> 31 \<and>
        hc_references (g_cqs s' c) = of_nat (cq_uses c s')"
      using out [of c] le [of c] cqs(1) [of c] by simp
  qed
  moreover have "index_ok s'" using ok qu by (auto simp: rig_ok_def index_ok_def l i obj)
  ultimately show ?thesis by (simp add: rig_ok_def)
qed

lemma queue_okD: "queue_ok w \<Longrightarrow> unat (wq_pending w) \<le> 32"
  using slots_card [of "kernel_slots \<lparr>ks_queue = w, ks_producer = 0\<rparr>" "wq_pending w"]
  by (auto simp: queue_ok_def kernel_ok_def slots_ok_def)

lemma queue_ok_any: "kernel_ok \<lparr>ks_queue = w, ks_producer = p\<rparr> = queue_ok w"
  using kernel_any_producer(2) [of "\<lparr>ks_queue = w, ks_producer = 0\<rparr>" p] by (simp add: queue_ok_def kernel_ok_def)

lemma work_post_pending:
  assumes "queue_ok w" and "work_post w p wid opcode len lkeys = (True, w')"
  shows "queue_ok w'" and "unat (wq_pending w') = unat (wq_pending w) + 1"
proof -
  have ko: "kernel_ok \<lparr>ks_queue = w, ks_producer = p\<rparr>" using assms(1) by (simp add: queue_ok_any)
  have "kernel_post (wid, opcode, len, lkeys) \<lparr>ks_queue = w, ks_producer = p\<rparr> = Some \<lparr>ks_queue = w', ks_producer = p + 1\<rparr>"
    using assms(2) by simp
  from kernel.post_Some [OF ko this] have "kernel_ok \<lparr>ks_queue = w', ks_producer = p + 1\<rparr>" by blast
  then show "queue_ok w'" by (simp add: queue_ok_any)
  have "wq_pending w' = wq_pending w + 1" "wq_pending w < 31"
    using assms(2) by (auto simp: work_post_def can_post_def Let_def split: if_splits)
  then show "unat (wq_pending w') = unat (wq_pending w) + 1" by (simp add: unat_add_small word_less_nat_alt)
qed

lemma work_complete_pending:
  assumes "queue_ok w" and "work_complete w c = (Some r, w')"
  shows "queue_ok w'" and "unat (wq_pending w) = unat (wq_pending w') + 1"
proof -
  let ?k = "\<lparr>ks_queue = w, ks_producer = 0\<rparr>"
  have kc: "kernel_complete c ?k = Some (work_of r, \<lparr>ks_queue = w', ks_producer = 0\<rparr>)"
    using assms(2) by (simp add: kernel_complete_def)
  then show "queue_ok w'" using kernel.complete_Some [of ?k] assms(1) by (simp add: queue_ok_def)
  have o: "wk_occupied (wq_records w ! slot16 c)" and p: "wq_pending w' = wq_pending w - 1"
    using assms(2) by (auto simp: work_complete_def Let_def split: if_splits)
  have s: "slots_ok (kernel_slots ?k) (wq_pending w)" using assms(1) by (simp add: queue_ok_def kernel_ok_def)
  have "slot16 c \<in> dom (kernel_slots ?k)" using o by (simp add: kernel_slots_def dom_def)
  then have "0 < card (dom (kernel_slots ?k))" using slots_finite [OF s] by (auto simp: card_gt_0_iff)
  then have "0 < unat (wq_pending w)" using s by (simp add: slots_ok_def)
  then show "unat (wq_pending w) = unat (wq_pending w') + 1" unfolding p by (subst unat_sub_le) (simp_all add: word_le_nat_alt)
qed

lemma work_removed_ok [simp]: "queue_ok (work_removed w)" "wq_pending (work_removed w) = 0"
  "queue_ok new_work_queue" "wq_pending new_work_queue = 0"
proof -
  have "kernel_slots \<lparr>ks_queue = \<lparr>wq_records = replicate 32 no_work, wq_pending = 0\<rparr>, ks_producer = 0\<rparr> = (\<lambda>_. None)"
    by (auto simp: kernel_slots_def no_work_def)
  then show "queue_ok (work_removed w)" "queue_ok new_work_queue"
    by (simp_all add: queue_ok_def kernel_ok_def work_removed_def new_work_queue_def slots_ok_def)
qed (simp_all add: work_removed_def new_work_queue_def)


subsection \<open>Each operation keeps the books\<close>

lemma okD:
  assumes "rig_ok s"
  shows "\<And>q. ob_live (hq_object (g_qps s q)) \<longleftrightarrow> q \<in> set (g_list s)"
    "\<And>q. queue_ok (hq_sends (g_qps s q))" "\<And>q. queue_ok (hq_receives (g_qps s q))"
    "\<And>c. unat (hc_outstanding (g_cqs s c)) = cq_load c s" "\<And>c. cq_load c s \<le> 31"
    "\<And>c. hc_references (g_cqs s c) = of_nat (cq_uses c s)"
    "distinct (g_list s)" "length (g_list s) \<le> 256" "pi_ok 9 (g_index s)"
    "\<And>k q. pi_map (g_index s) k = Some q \<Longrightarrow> q \<in> set (g_list s) \<and> ob_id (hq_object (g_qps s q)) = k"
    "\<And>q. \<not> quarantined s \<Longrightarrow> q \<in> set (g_list s) \<Longrightarrow> pi_map (g_index s) (ob_id (hq_object (g_qps s q))) = Some q"
    "\<And>q. q \<notin> set (g_list s) \<Longrightarrow> wq_pending (hq_sends (g_qps s q)) = 0 \<and> wq_pending (hq_receives (g_qps s q)) = 0"
    "\<And>q. q \<in> set (g_list s) \<Longrightarrow>
      ob_live (hc_object (g_cqs s (hq_send_cq (g_qps s q)))) \<and> ob_live (hc_object (g_cqs s (hq_recv_cq (g_qps s q))))"
  using assms unfolding rig_ok_def listed_ok_def works_ok_def credits_ok_def index_ok_def by blast+

lemma load_le: "q \<in> set (g_list s) \<Longrightarrow> qp_load c (g_qps s q) \<le> cq_load c s"
  unfolding cq_load_def by (rule member_le_sum) simp_all

lemma create_cq_ok:
  assumes "rig_ok s" and "create_cq ops c (s, w) = (ok, s', w')"
  shows "rig_ok s'"
proof (rule same_books_ok [OF _ assms(1)])
  show "same_books s s'"
    using assms(2)
    by (auto simp: create_cq_def create_cq_command_def Let_def same_books_def
        split: if_splits prod.splits bool.splits dest!: create_sticky)
qed

lemma uses_bound: "cq_uses c s \<le> 2 * length (g_list s)"
proof -
  have "cq_uses c s \<le> (\<Sum>q \<in> set (g_list s). 2)" unfolding cq_uses_def by (intro sum_mono) (simp add: qp_uses_def)
  also have "\<dots> \<le> 2 * length (g_list s)" using card_length [of "g_list s"] by simp
  finally show ?thesis .
qed

lemma unused_cq:
  assumes "rig_ok s" and "hc_references (g_cqs s c) = 0" and "q \<in> set (g_list s)"
  shows "hq_send_cq (g_qps s q) \<noteq> c \<and> hq_recv_cq (g_qps s q) \<noteq> c"
proof -
  have "cq_uses c s < 2 ^ 32" using uses_bound [of c s] okD(8) [OF assms(1)] by simp
  then have "cq_uses c s = 0" using okD(6) [OF assms(1), of c] assms(2)
    nat_dvd_not_less [of "cq_uses c s" "2 ^ 32"] by (auto simp: word_of_nat_eq_0_iff)
  then have "qp_uses c (g_qps s q) = 0" using assms(3) by (simp add: cq_uses_def)
  then show ?thesis by (simp add: qp_uses_def split: if_splits)
qed

lemma destroy_cq_ok:
  assumes "rig_ok s" and "destroy_cq ops c (s, w) = (ok, s', w')"
  shows "rig_ok s'"
proof (cases "hc_references (g_cqs s c) = 0")
  case True
  define d where "d = destroy ops (hc_object (g_cqs s c)) 0x401 (g_hca s, w)"
  obtain dok ob h1 w1 where d1: "d = (dok, ob, h1, w1)" by (metis prod_cases4)
  note st = destroy_sticky [OF d1 [unfolded d_def]]
  have "\<exists>b. s' = set_cq c (\<lambda>cq. cq\<lparr>hc_object := ob, hc_buffer := b\<rparr>) (set_hca h1 s) \<or> s' = s"
    using assms(2) d1 by (auto simp: destroy_cq_def d_def [symmetric] Let_def set_cq_def split: if_splits prod.splits bool.splits)
      (metis hardware_cq.surjective hardware_cq.update_convs)+
  then obtain b where s': "s' = set_cq c (\<lambda>cq. cq\<lparr>hc_object := ob, hc_buffer := b\<rparr>) (set_hca h1 s) \<or> s' = s" by blast
  show ?thesis
  proof (cases "s' = s")
    case False
    then have s': "s' = set_cq c (\<lambda>cq. cq\<lparr>hc_object := ob, hc_buffer := b\<rparr>) (set_hca h1 s)" using s' by blast
    have "listed_ok s'" using assms(1) unused_cq [OF assms(1) True]
      by (auto simp: s' rig_ok_def listed_ok_def)
    moreover have "works_ok s'" "credits_ok s'" using assms(1)
      by (simp_all add: s' rig_ok_def works_ok_def credits_ok_def cq_load_def cq_uses_def)
    moreover have "index_ok s'" using assms(1) st(1) by (auto simp: s' rig_ok_def index_ok_def)
    ultimately show ?thesis by (simp add: rig_ok_def)
  qed (simp add: assms(1))
qed (use assms in \<open>simp add: destroy_cq_def\<close>)


lemma list_within_index:
  assumes "rig_ok s" and "\<not> quarantined s"
  shows "length (g_list s) \<le> card (dom (pi_map (g_index s)))"
proof -
  note d = okD [OF assms(1)]
  let ?f = "\<lambda>q. ob_id (hq_object (g_qps s q))"
  have "inj_on ?f (set (g_list s))"
  proof (rule inj_onI)
    fix p q assume a: "p \<in> set (g_list s)" "q \<in> set (g_list s)" "?f p = ?f q"
    have "Some p = Some q" using d(11) [OF assms(2) a(1)] unfolding a(3) d(11) [OF assms(2) a(2)] by (rule sym)
    then show "p = q" by simp
  qed
  then have "card (?f ` set (g_list s)) = card (set (g_list s))" by (rule card_image)
  moreover have "?f ` set (g_list s) \<subseteq> dom (pi_map (g_index s))"
  proof
    fix k assume "k \<in> ?f ` set (g_list s)"
    then obtain q where "q \<in> set (g_list s)" "k = ?f q" by blast
    then show "k \<in> dom (pi_map (g_index s))" using d(11) [OF assms(2)] by blast
  qed
  moreover have "finite (dom (pi_map (g_index s)))"
    using d(9) finite_map [of 9 "pi_slots (g_index s)" None] by (simp add: pi_ok_def pi_map_def [abs_def])
  ultimately show ?thesis
    using card_mono [of "dom (pi_map (g_index s))" "?f ` set (g_list s)"] distinct_card [OF d(7)] by simp
qed

text \<open>The state in which a new queue pair has joined its queues and the list, before the index is told.\<close>

lemma join_books:
  assumes ok: "rig_ok s" and q: "q \<notin> set (g_list s)" and len: "length (g_list s) < 256" and ob: "ob_live ob"
    and live: "ob_live (hc_object (g_cqs s send))" "ob_live (hc_object (g_cqs s recv))"
    and l: "g_list s' = q # g_list s" and qps: "\<And>p. p \<noteq> q \<Longrightarrow> g_qps s' p = g_qps s p"
    and x: "hq_object (g_qps s' q) = ob" "hq_send_cq (g_qps s' q) = send" "hq_recv_cq (g_qps s' q) = recv"
      "hq_sends (g_qps s' q) = hq_sends (g_qps s q)" "hq_receives (g_qps s' q) = hq_receives (g_qps s q)"
    and cqs: "\<And>c. hc_outstanding (g_cqs s' c) = hc_outstanding (g_cqs s c)"
      "\<And>c. ob_live (hc_object (g_cqs s' c)) = ob_live (hc_object (g_cqs s c))"
      "\<And>c. hc_references (g_cqs s' c) = hc_references (g_cqs s c) + of_nat (qp_uses c (g_qps s' q))"
  shows "listed_ok s'" "works_ok s'" "credits_ok s'"
proof -
  note d = okD [OF ok]
  have lv: "ob_live (hq_object (g_qps s' p)) \<longleftrightarrow> p = q \<or> p \<in> set (g_list s)" for p
    using qps [of p] x(1) ob d(1) [of p] by (cases "p = q") simp_all
  have cq: "ob_live (hc_object (g_cqs s (hq_send_cq (g_qps s' p)))) \<and> ob_live (hc_object (g_cqs s (hq_recv_cq (g_qps s' p))))"
    if "p = q \<or> p \<in> set (g_list s)" for p
    using that qps [of p] x live d(13) [of p] by (cases "p = q") simp_all
  show "listed_ok s'" unfolding listed_ok_def l cqs(2) using lv cq q len d(7) by auto
  have "queue_ok (hq_sends (g_qps s' p)) \<and> queue_ok (hq_receives (g_qps s' p)) \<and>
     (p \<in> set (g_list s') \<or> wq_pending (hq_sends (g_qps s' p)) = 0 \<and> wq_pending (hq_receives (g_qps s' p)) = 0)" for p
    using qps [of p] x(4,5) d(2,3,12) [of p] by (cases "p = q") (auto simp: l)
  then show "works_ok s'" by (simp add: works_ok_def)
  have z: "qp_load c (g_qps s' q) = 0" for c using d(12) [OF q] x by (simp add: qp_load_def)
  have o: "(\<Sum>p \<in> set (g_list s). f (g_qps s' p)) = (\<Sum>p \<in> set (g_list s). f (g_qps s p))" for f :: "hardware_qp \<Rightarrow> nat"
    using qps q by (intro sum.cong refl) metis
  have "cq_load c s' = cq_load c s" "cq_uses c s' = cq_uses c s + qp_uses c (g_qps s' q)" for c
    using q z by (simp_all add: cq_load_def cq_uses_def l o)
  then show "credits_ok s'" using d(4,5,6) cqs by (simp add: credits_ok_def)
qed

lemma enlist_fields:
  fixes q pd send recv user ob b s
  defines "s' \<equiv> enlist_qp q pd send recv user ob b s"
  shows "g_list s' = q # g_list s" "g_index s' = g_index s" "quarantined s' = quarantined s"
    "hq_object (g_qps s' q) = ob" "hq_send_cq (g_qps s' q) = send" "hq_recv_cq (g_qps s' q) = recv"
    "hq_sends (g_qps s' q) = hq_sends (g_qps s q)" "hq_receives (g_qps s' q) = hq_receives (g_qps s q)"
    "\<And>p. p \<noteq> q \<Longrightarrow> g_qps s' p = g_qps s p"
    "\<And>c. hc_outstanding (g_cqs s' c) = hc_outstanding (g_cqs s c)"
    "\<And>c. ob_live (hc_object (g_cqs s' c)) = ob_live (hc_object (g_cqs s c))"
    "\<And>c. hc_references (g_cqs s' c) = hc_references (g_cqs s c) + of_nat (qp_uses c (g_qps s' q))"
  by (simp_all add: s'_def enlist_qp_def Let_def qp_uses_def)

lemma join_qp_ok:
  assumes ok: "rig_ok s" and nq: "\<not> quarantined s" and sz: "pi_size (g_index s) \<noteq> 256" and q: "q \<notin> set (g_list s)" and ob: "ob_live ob"
    and live: "ob_live (hc_object (g_cqs s send))" "ob_live (hc_object (g_cqs s recv))"
    and j: "join_qp q pd send recv user ob b s = (r, s')"
  shows "rig_ok s'"
proof -
  note d = okD [OF ok]
  have card: "card (dom (pi_map (g_index s))) \<noteq> 256" using sz d(9) by (simp add: pi_ok_def)
  have len: "length (g_list s) < 256"
    using list_within_index [OF ok nq] card d(9) by (simp add: pi_ok_def)
  obtain r1 i where ins: "pi_insert 9 (ob_id ob) q (g_index s) = (r1, i)" by fastforce
  note ia = qp_index.ins_abs [OF d(9) ins]
  let ?t = "enlist_qp q pd send recv user ob b s"
  note f = enlist_fields [where q = q and pd = pd and send = send and recv = recv and user = user and ob = ob and b = b and s = s]
  note t = join_books [OF ok q len ob live f(1,9) f(4-8) f(10-12)]
  have s': "s' = (if r1 then ?t\<lparr>g_index := i\<rparr> else isolate ?t)"
    using j ins by (cases r1) (simp_all add: join_qp_def Let_def f(2))
  then have b: "listed_ok s'" "works_ok s'" "credits_ok s'"
    using t by (simp_all add: listed_ok_def works_ok_def credits_ok_def cq_load_def cq_uses_def)
  have i: "pi_ok 9 (g_index s')" "pi_map (g_index s') = (if r1 then (pi_map (g_index s))(ob_id ob \<mapsto> q) else pi_map (g_index s))"
    "quarantined s' \<or> r1"
    using ia d(9) by (simp_all add: s' f(2))
  have l: "set (g_list s') = insert q (set (g_list s))" "\<And>p. g_qps s' p = g_qps ?t p" by (simp_all add: s' f(1))
  have "p \<in> set (g_list s') \<and> ob_id (hq_object (g_qps s' p)) = k" if "pi_map (g_index s') k = Some p" for k p
  proof (cases "p = q")
    case True
    then show ?thesis using that d(10) [of k q] q f(4) by (auto simp: i(2) l split: if_splits)
  next
    case False
    then show ?thesis using that d(10) [of k p] f(9) [of p] by (auto simp: i(2) l split: if_splits)
  qed
  moreover have "pi_map (g_index s') (ob_id (hq_object (g_qps s' p))) = Some p" if "r1" "p \<in> set (g_list s')" for p
    using that d(11) [OF nq, of p] ia f(4) f(9) [of p] q by (cases "p = q") (auto simp: i(2) l)
  ultimately have "index_ok s'" using i by (auto simp: index_ok_def)
  with b show ?thesis by (simp add: rig_ok_def)
qed


lemma create_qp_ok:
  assumes "rig_ok s" and "create_qp ops q pd send recv page (s, w) = (ok, s', w')"
  shows "rig_ok s'"
proof -
  consider "same_books s s'"
    | h2 user ob b where "\<not> quarantined s" "pi_size (g_index s) \<noteq> 256" "q \<notin> set (g_list s)" "ob_live ob"
        "ob_live (hc_object (g_cqs s send))" "ob_live (hc_object (g_cqs s recv))"
        "\<not> tr_quarantined (h_transport h2)" "join_qp q pd send recv user ob b (set_hca h2 s) = (ok, s')"
    using assms(2) okD(1) [OF assms(1), of q]
    by (auto simp: create_qp_def create_qp_command_def Let_def same_books_def
        split: if_splits prod.splits bool.splits dest!: create_sticky)
  then show ?thesis
  proof cases
    case 1
    then show ?thesis using assms(1) by (rule same_books_ok)
  next
    case 2
    have "rig_ok (set_hca h2 s)" using 2(1) assms(1) by (intro same_books_ok [OF same_books_hca]) simp_all
    then show ?thesis using 2 by (intro join_qp_ok [OF _ _ _ _ _ _ _ 2(8)]) simp_all
  qed
qed

lemma purge_books: "purge_qp_completions ops c qpn (s, w) = (ok, s', w') \<Longrightarrow> same_books s s'"
  by (auto simp: purge_qp_completions_def Let_def intro!: same_books_cq split: if_splits prod.splits bool.splits option.splits)

lemma purge_both_books: "purge_both ops q (s, w) = (ok, s', w') \<Longrightarrow> same_books s s'"
  by (auto simp: purge_both_def Let_def split: if_splits prod.splits bool.splits dest!: purge_books intro: same_books_trans)

lemma reset_command_books: "reset_command ops q (s, w) = (ok, s', w') \<Longrightarrow> same_books s s'"
  by (auto simp: reset_command_def same_books_def split: prod.splits bool.splits dest!: call_sticky(1))

lemma clear_rings_books: "same_books s (clear_rings q s)"
  unfolding clear_rings_def by (intro same_books_qp) simp_all

text \<open>The accounts of a completion queue made new from the list of queue pairs.\<close>

lemma fold_count:
  assumes "\<forall>q \<in> set l. ob_live (hq_object (f q))"
  shows "fold (\<lambda>q. count_qp c (f q)) l cq = cq\<lparr>hc_references := hc_references cq + of_nat (\<Sum>q\<leftarrow>l. qp_uses c (f q)),
     hc_outstanding := hc_outstanding cq + of_nat (\<Sum>q\<leftarrow>l. qp_load c (f q))\<rparr>"
  using assms
proof (induction l arbitrary: cq)
  case (Cons q l)
  have "count_qp c (f q) cq = cq\<lparr>hc_references := hc_references cq + of_nat (qp_uses c (f q)),
      hc_outstanding := hc_outstanding cq + of_nat (qp_load c (f q))\<rparr>"
    using Cons.prems by (simp add: count_qp_def qp_uses_def qp_load_def Let_def)
  then show ?case using Cons by (simp add: algebra_simps)
qed simp

lemma rebuild_accounts:
  assumes "distinct (g_list s)" and "\<forall>q \<in> set (g_list s). ob_live (hq_object (g_qps s q))"
  shows "rebuild_cq_accounting c s = set_cq c (\<lambda>cq. cq\<lparr>hc_references := of_nat (cq_uses c s), hc_outstanding := of_nat (cq_load c s)\<rparr>) s"
  using fold_count [OF assms(2), of c] assms(1)
  by (simp add: rebuild_cq_accounting_def cq_uses_def cq_load_def sum_list_distinct_conv_sum_set)

lemma rebuild_both_accounts:
  assumes "distinct (g_list s)" and "\<forall>q \<in> set (g_list s). ob_live (hq_object (g_qps s q))"
  shows "rebuild_both send recv s = s\<lparr>g_cqs := (\<lambda>c. if c = send \<or> c = recv
    then (g_cqs s c)\<lparr>hc_references := of_nat (cq_uses c s), hc_outstanding := of_nat (cq_load c s)\<rparr> else g_cqs s c)\<rparr>"
proof -
  let ?s = "rebuild_cq_accounting send s"
  have l: "cq_uses c ?s = cq_uses c s" "cq_load c ?s = cq_load c s" "g_list ?s = g_list s" "g_qps ?s = g_qps s" for c
    by (simp_all add: rebuild_cq_accounting_def cq_uses_def cq_load_def)
  have "rebuild_cq_accounting recv ?s = set_cq recv (\<lambda>cq. cq\<lparr>hc_references := of_nat (cq_uses recv s), hc_outstanding := of_nat (cq_load recv s)\<rparr>) ?s"
    using assms rebuild_accounts [of ?s recv] by (simp add: l)
  then show ?thesis using rebuild_accounts [OF assms, of send]
    by (auto simp: rebuild_both_def Let_def set_cq_def fun_eq_iff)
qed


lemma forget_fields:
  "g_list (forget_work q s) = g_list s" "g_index (forget_work q s) = g_index s" "g_cqs (forget_work q s) = g_cqs s"
  "g_hca (forget_work q s) = g_hca s"
  "g_qps (forget_work q s) = (g_qps s)(q := (g_qps s q)\<lparr>hq_sends := work_removed (hq_sends (g_qps s q)),
     hq_receives := work_removed (hq_receives (g_qps s q))\<rparr>)"
  by (simp_all add: forget_work_def)

lemma return_credits_ok:
  assumes ok: "rig_ok s" and q: "q \<in> set (g_list s)"
  shows "rig_ok (forget_work q (return_credits q s))"
proof -
  let ?s' = "forget_work q (return_credits q s)"
  have le: "qp_load c (g_qps s q) \<le> unat (hc_outstanding (g_cqs s c))" for c
    using load_le [OF q] okD(4) [OF ok] by simp
  have out: "unat (hc_outstanding (g_cqs ?s' c)) + qp_load c (g_qps s q) = unat (hc_outstanding (g_cqs s c))" for c
    using le [of c]
    by (cases "hq_send_cq (g_qps s q) = c"; cases "hq_recv_cq (g_qps s q) = c")
      (auto simp: return_credits_def forget_fields Let_def qp_load_def unat_sub_le word_le_nat_alt)
  moreover have "qp_load c (g_qps ?s' q) = 0" for c by (simp add: qp_load_def forget_fields return_credits_def Let_def)
  moreover have "unat (hc_outstanding (g_cqs ?s' c)) \<le> 31" for c
    using out [of c] okD(4,5) [OF ok, of c] by simp
  ultimately show ?thesis
    by (intro load_change_ok [OF ok q]) (simp_all add: forget_fields return_credits_def Let_def)
qed

lemma unat_of_small: "n \<le> 31 \<Longrightarrow> unat (of_nat n :: u32) = n"
  by (simp add: unat_of_nat)

lemma recover_ok:
  assumes ok: "rig_ok s" and q: "q \<in> set (g_list s)"
  shows "rig_ok (rebuild_both (hq_send_cq (g_qps s q)) (hq_recv_cq (g_qps s q)) (set_qp q (\<lambda>x. x\<lparr>hq_state := 0\<rparr>) (forget_work q s)))"
proof -
  let ?send = "hq_send_cq (g_qps s q)" and ?recv = "hq_recv_cq (g_qps s q)"
  define t where "t = set_qp q (\<lambda>x. x\<lparr>hq_state := 0\<rparr>) (forget_work q s)"
  note d = okD [OF ok]
  have t: "g_list t = g_list s" "g_index t = g_index s" "g_cqs t = g_cqs s" "g_hca t = g_hca s"
    "\<And>p. p \<noteq> q \<Longrightarrow> g_qps t p = g_qps s p" "\<And>p. hq_object (g_qps t p) = hq_object (g_qps s p)"
    "\<And>p. hq_send_cq (g_qps t p) = hq_send_cq (g_qps s p)" "\<And>p. hq_recv_cq (g_qps t p) = hq_recv_cq (g_qps s p)"
    "hq_sends (g_qps t q) = work_removed (hq_sends (g_qps s q))"
    "hq_receives (g_qps t q) = work_removed (hq_receives (g_qps s q))" by (simp_all add: t_def forget_fields)
  have z: "qp_load c (g_qps t q) = 0" for c by (simp only: qp_load_def t work_removed_ok) simp
  have load: "cq_load c t + qp_load c (g_qps s q) = cq_load c s" for c
    using sum_change [of q "set (g_list s)" "\<lambda>p. qp_load c (g_qps t p)" "\<lambda>p. qp_load c (g_qps s p)"] q t(5) z
    by (simp add: cq_load_def t(1))
  have uses: "cq_uses c t = cq_uses c s" for c by (simp only: cq_uses_def t qp_uses_def)
  have small: "unat (of_nat (cq_load c t) :: u32) = cq_load c t" for c
    using load [of c] d(5) [of c] by (intro unat_of_small) linarith
  have r: "rebuild_both ?send ?recv t = t\<lparr>g_cqs := (\<lambda>c. if c = ?send \<or> c = ?recv
      then (g_cqs s c)\<lparr>hc_references := hc_references (g_cqs s c), hc_outstanding := of_nat (cq_load c t)\<rparr> else g_cqs s c)\<rparr>"
    using rebuild_both_accounts [of t ?send ?recv] d(1,7) by (simp add: t(1,3,6) uses d(6) cong: if_cong)
  have out: "unat (hc_outstanding (g_cqs (rebuild_both ?send ?recv t) c)) + qp_load c (g_qps s q) = unat (hc_outstanding (g_cqs s c))" for c
  proof (cases "c = ?send \<or> c = ?recv")
    case True
    then show ?thesis using load [of c] by (simp add: r small d(4))
  qed (simp add: r qp_load_def)
  then have "unat (hc_outstanding (g_cqs (rebuild_both ?send ?recv t) c)) \<le> 31" for c
    using d(4,5) [of c] by (metis le_add1 le_trans)
  note le = this
  have "rig_ok (rebuild_both ?send ?recv t)"
  proof (rule load_change_ok [OF ok q])
    show "unat (hc_outstanding (g_cqs (rebuild_both ?send ?recv t) c)) + qp_load c (g_qps s q) =
        unat (hc_outstanding (g_cqs s c)) + qp_load c (g_qps (rebuild_both ?send ?recv t) q)" for c
      using out [of c] z [of c] by (simp add: r)
  qed (use le in \<open>simp_all add: r t\<close>)
  then show ?thesis unfolding t_def .
qed

lemma reset_qp_ok:
  assumes ok: "rig_ok s" and r: "reset_qp ops q (s, w) = (b, s', w')"
  shows "rig_ok s'" and "b \<Longrightarrow> wq_pending (hq_sends (g_qps s' q)) = 0 \<and> wq_pending (hq_receives (g_qps s' q)) = 0"
    and "g_list s' = g_list s" and "hq_object (g_qps s' q) = hq_object (g_qps s q)"
proof -
  obtain removed w1 where dt: "io_detached ops w = (removed, w1)" by fastforce
  let ?x = "g_qps s q"
  consider "\<not> ob_live (hq_object ?x)" "b" "s' = s"
    | "q \<in> set (g_list s)" "s' = clear_rings q (rebuild_both (hq_send_cq ?x) (hq_recv_cq ?x)
         (set_qp q (\<lambda>x. x\<lparr>hq_state := 0\<rparr>) (forget_work q s)))"
    | "\<not> b" "same_books s s'"
    | s3 where "q \<in> set (g_list s)" "same_books s s3" "s' = clear_rings q (forget_work q (return_credits q s3))"
    using r okD(1) [OF ok, of q]
    by (auto simp: reset_qp_def dt Let_def split: if_splits prod.splits bool.splits
        dest!: reset_command_books purge_both_books intro: same_books_trans)
  note cases_of = this
  show "rig_ok s'"
    using cases_of
  proof cases
    case 1 then show ?thesis using ok by simp
  next
    case 2
    then show ?thesis using same_books_ok [OF clear_rings_books recover_ok [OF ok 2(1)]] by simp
  next
    case 3 then show ?thesis using ok by (intro same_books_ok [OF 3(2)])
  next
    case 4
    have "rig_ok s3" by (rule same_books_ok [OF 4(2) ok])
    moreover have "q \<in> set (g_list s3)" using 4(1,2) by (simp add: same_books_def)
    ultimately have "rig_ok (forget_work q (return_credits q s3))" by (rule return_credits_ok)
    then show ?thesis unfolding 4(3) by (rule same_books_ok [OF clear_rings_books])
  qed
  show "b \<Longrightarrow> wq_pending (hq_sends (g_qps s' q)) = 0 \<and> wq_pending (hq_receives (g_qps s' q)) = 0"
    using cases_of okD(1,12) [OF ok, of q]
    by cases (auto simp: clear_rings_def forget_fields rebuild_both_def rebuild_cq_accounting_def Let_def)
  show "g_list s' = g_list s" "hq_object (g_qps s' q) = hq_object (g_qps s q)"
    using cases_of
    by (cases; auto simp: clear_rings_def forget_fields rebuild_both_def rebuild_cq_accounting_def return_credits_def Let_def same_books_def)+
qed


text \<open>A queue pair whose object is gone leaves the list and the index; the erasure always ends.\<close>

lemma leave_lists_ok:
  assumes ok: "rig_ok s" and q: "q \<in> set (g_list s)"
    and p: "wq_pending (hq_sends (g_qps s q)) = 0" "wq_pending (hq_receives (g_qps s q)) = 0"
    and h: "quarantined s \<longrightarrow> tr_quarantined (h_transport h)" and ob: "\<not> ob_live ob"
  shows "\<exists>s'. leave_lists q (ob_id (hq_object (g_qps s q))) (set_qp q (\<lambda>x. x\<lparr>hq_object := ob\<rparr>) (set_hca h s)) = Some s' \<and> rig_ok s' \<and>
    g_qps s' = (g_qps s)(q := (g_qps s q)\<lparr>hq_object := ob\<rparr>) \<and> q \<notin> set (g_list s')"
proof -
  note d = okD [OF ok]
  let ?send = "hq_send_cq (g_qps s q)" and ?recv = "hq_recv_cq (g_qps s q)" and ?k = "ob_id (hq_object (g_qps s q))"
  obtain r i where er: "pi_erase 512 9 ?k q (g_index s) = Some (r, i)" and i: "pi_ok 9 i" "r \<longleftrightarrow> pi_map (g_index s) ?k = Some q"
    "pi_map i = (if r then (pi_map (g_index s))(?k := None) else pi_map (g_index s))"
    using qp_index.del_abs [OF d(9), of ?k q] by blast
  define l where "l = remove1 q (g_list s)"
  have sl: "set l = set (g_list s) - {q}" "distinct l" "length l \<le> 256"
    using d(7,8) by (auto simp: l_def length_remove1)
  define t where "t = s\<lparr>g_qps := (g_qps s)(q := (g_qps s q)\<lparr>hq_object := ob\<rparr>), g_list := l, g_index := i, g_hca := h\<lparr>h_any_qp := (l \<noteq> [])\<rparr>\<rparr>"
  have t: "g_list t = l" "g_index t = i" "g_cqs t = g_cqs s" "quarantined t = tr_quarantined (h_transport h)"
    "g_qps t = (g_qps s)(q := (g_qps s q)\<lparr>hq_object := ob\<rparr>)" "\<And>p. p \<noteq> q \<Longrightarrow> g_qps t p = g_qps s p"
    by (simp_all add: t_def)
  have lives: "ob_live (hq_object (g_qps t p)) \<longleftrightarrow> p \<in> set l" for p
    using d(1) [of p] ob by (cases "p = q") (simp_all add: t(5) sl)
  have sums: "cq_load c t + qp_load c (g_qps s q) = cq_load c s" "cq_uses c t + qp_uses c (g_qps s q) = cq_uses c s" for c
    using sum.remove [OF finite_set q, of "\<lambda>p. qp_load c (g_qps s p)"] sum.remove [OF finite_set q, of "\<lambda>p. qp_uses c (g_qps s p)"]
      sum.cong [of "set l" "set l" "\<lambda>p. qp_load c (g_qps t p)" "\<lambda>p. qp_load c (g_qps s p)"]
      sum.cong [of "set l" "set l" "\<lambda>p. qp_uses c (g_qps t p)" "\<lambda>p. qp_uses c (g_qps s p)"]
    by (simp_all add: cq_load_def cq_uses_def t(1,6) sl(1))
  have z: "qp_load c (g_qps s q) = 0" for c by (simp add: qp_load_def p)
  let ?t = "rebuild_both ?send ?recv t"
  have r: "?t = t\<lparr>g_cqs := (\<lambda>c. if c = ?send \<or> c = ?recv
      then (g_cqs s c)\<lparr>hc_references := of_nat (cq_uses c t), hc_outstanding := of_nat (cq_load c t)\<rparr> else g_cqs s c)\<rparr>"
    using rebuild_both_accounts [of t ?send ?recv] lives sl(2) by (simp add: t(1,3) cong: if_cong)
  have credit: "unat (hc_outstanding (g_cqs ?t c)) = cq_load c t \<and> cq_load c t \<le> 31 \<and> hc_references (g_cqs ?t c) = of_nat (cq_uses c t)" for c
  proof (cases "c = ?send \<or> c = ?recv")
    case True
    then show ?thesis using sums(1) [of c] z d(5) [of c] by (simp add: r unat_of_small)
  next
    case False
    then have "qp_uses c (g_qps s q) = 0" by (simp add: qp_uses_def)
    then show ?thesis using False sums [of c] z d(4,5,6) [of c] by (simp add: r)
  qed
  have "listed_ok ?t" using lives sl d(13) by (auto simp: r listed_ok_def t(1,3,6))
  moreover have "works_ok ?t" using d(2,3,12) p by (auto simp: r works_ok_def t(1,5) sl(1))
  moreover have "credits_ok ?t"
    using credit by (simp add: credits_ok_def r cq_load_def cq_uses_def)
  moreover have "index_ok ?t"
  proof -
    have "p \<in> set l \<and> ob_id (hq_object (g_qps t p)) = k" if "pi_map i k = Some p" for k p
      using that d(10) [of k p] i(2) by (cases "p = q") (auto simp: i(3) sl(1) t(6) split: if_splits)
    moreover have "pi_map i (ob_id (hq_object (g_qps t p))) = Some p" if "p \<in> set l" "\<not> tr_quarantined (h_transport h)" for p
      using that d(11) [of p] d(11) [OF _ q] h by (auto simp: i(3) sl(1) t(6))
    ultimately show ?thesis using i(1) by (auto simp: r index_ok_def t(1,2,4))
  qed
  ultimately have "rig_ok ?t" by (simp add: rig_ok_def)
  moreover have "leave_lists q ?k (set_qp q (\<lambda>x. x\<lparr>hq_object := ob\<rparr>) (set_hca h s)) = Some ?t"
    by (simp add: leave_lists_def Let_def er l_def [symmetric]) (simp add: t_def set_qp_def set_hca_def)
  moreover have "g_qps ?t = g_qps t" "g_list ?t = l" by (simp_all add: r t(1))
  ultimately show ?thesis using t(5) sl(1) by auto
qed


lemma release_books: "rig_ok s \<Longrightarrow> rig_ok (set_qp q (\<lambda>x. x\<lparr>hq_buffer := b\<rparr>) s)"
  by (rule same_books_ok [OF same_books_qp]) simp_all

lemma blank_qp_ok:
  assumes "rig_ok s" and "q \<notin> set (g_list s)"
  shows "rig_ok (set_qp q (\<lambda>_. new_qp) s)"
proof -
  let ?s = "set_qp q (\<lambda>_. new_qp) s"
  have o: "(\<Sum>p \<in> set (g_list s). f (((g_qps s)(q := new_qp)) p)) = (\<Sum>p \<in> set (g_list s). f (g_qps s p))" for f :: "hardware_qp \<Rightarrow> nat"
    using assms(2) by (intro sum.cong refl) auto
  have "credits_ok ?s" using okD(4,5,6) [OF assms(1)] o by (simp add: credits_ok_def cq_load_def cq_uses_def del: fun_upd_apply)
  moreover have "listed_ok ?s" using okD(1,7,8,13) [OF assms(1)] assms(2) by (auto simp: listed_ok_def new_qp_def no_object_def)
  moreover have "works_ok ?s" using okD(2,3,12) [OF assms(1)] by (auto simp: works_ok_def new_qp_def)
  moreover have "index_ok ?s" using assms by (auto simp: rig_ok_def index_ok_def)
  ultimately show ?thesis by (simp add: rig_ok_def)
qed

text \<open>Destroying a queue pair returns, and keeps the books.\<close>

lemma destroy_qp_ok:
  assumes ok: "rig_ok s"
  shows "\<exists>b s' w'. destroy_qp ops q (s, w) = Some (b, s', w') \<and> rig_ok s'"
proof -
  obtain rb s1 w1 where rs: "reset_qp ops q (s, w) = (rb, s1, w1)" by (metis prod_cases3)
  note r = reset_qp_ok [OF ok rs]
  show ?thesis
  proof (cases rb)
    case False
    then show ?thesis using rs r(1) by (auto simp: destroy_qp_def)
  next
    case True
    obtain db ob h2 w2 where ds: "destroy ops (hq_object (g_qps s1 q)) 0x501 (g_hca s1, w1) = (db, ob, h2, w2)" by (metis prod_cases4)
    note st = destroy_sticky [OF ds]
    let ?s2 = "set_qp q (\<lambda>x. x\<lparr>hq_object := ob\<rparr>) (set_hca h2 s1)"
    have keep: "rig_ok ?s2" if "ob = hq_object (g_qps s1 q)"
    proof (rule same_books_ok [OF _ r(1)])
      show "same_books s1 ?s2" using that st(1) by (auto simp: same_books_def)
    qed
    define live where "live = ob_live (hq_object (g_qps s q))"
    have fin: "\<exists>b s' w'. destroy_qp ops q (s, w) = Some (b, s', w') \<and> rig_ok s'"
      if "(if live then leave_lists q (ob_id (hq_object (g_qps s q))) ?s2 else Some ?s2) = Some s3" "rig_ok s3" "q \<notin> set (g_list s3)" "db" for s3
      using that rs True ds release_books [OF that(2), of q] blank_qp_ok [OF that(2,3)]
      by (auto simp: destroy_qp_def Let_def live_def [symmetric] split: prod.splits)
    show ?thesis
    proof (cases db)
      case False
      then show ?thesis using rs True ds keep st(3) by (auto simp: destroy_qp_def Let_def)
    next
      case db: True
      show ?thesis
      proof (cases live)
        case True
        then have q: "q \<in> set (g_list s1)" using okD(1) [OF ok, of q] r(3) by (simp add: live_def)
        obtain s3 where "leave_lists q (ob_id (hq_object (g_qps s1 q))) ?s2 = Some s3" "rig_ok s3" "q \<notin> set (g_list s3)"
          using leave_lists_ok [OF r(1) q, of h2 ob] r(2) \<open>rb\<close> st(1,2) db by auto
        then show ?thesis using True db r(4) by (intro fin) simp_all
      next
        case False
        then have "\<not> ob_live (hq_object (g_qps s1 q))" using r(4) by (simp add: live_def)
        then have "ob = hq_object (g_qps s1 q)" using st(4) by simp
        then have "rig_ok ?s2" by (rule keep)
        moreover have "q \<notin> set (g_list ?s2)" using False okD(1) [OF ok, of q] r(3) by (simp add: live_def)
        ultimately show ?thesis using False db by (intro fin [of ?s2]) simp_all
      qed
    qed
  qed
qed

lemma transition_ok:
  assumes "rig_ok s" and "transition ops q opcode conn (s, w) = (ok, s', w')"
  shows "rig_ok s'"
proof (rule same_books_ok [OF _ assms(1)])
  show "same_books s s'" using assms(2)
    by (auto simp: transition_def Let_def same_books_def split: if_splits option.splits prod.splits bool.splits dest!: call_sticky(1))
qed

lemma doorbell_books:
  assumes "ring_doorbell ops q wqe (s, w) = (ok, s', w')"
  shows "same_books s s'"
proof -
  have "quarantined s \<longrightarrow> tr_quarantined (h_transport h')" if "write64 ops off v (g_hca s, w) = (b, h', w'')" for off v b h' w''
    using that by (auto simp: write64_def Let_def split: prod.splits option.splits if_splits)
  moreover have "quarantined s \<longrightarrow> tr_quarantined (h_transport h')"
    if "write_blueflame ops off e (g_hca s, w) = (b, h', w'')" for off e b h' w''
    using that by (auto simp: write_blueflame_def Let_def split: prod.splits option.splits if_splits)
  ultimately show ?thesis using assms
    by (auto simp: ring_doorbell_def Let_def same_books_def split: prod.splits if_splits)
qed


text \<open>A request that was posted and the credit it takes.\<close>

lemma charge_ok:
  assumes ok: "rig_ok s" and q: "q \<in> set (g_list s)" and lt: "unat (hc_outstanding (g_cqs s c)) < 31"
    and g: "\<And>x. hq_object (f x) = hq_object x" "\<And>x. hq_send_cq (f x) = hq_send_cq x" "\<And>x. hq_recv_cq (f x) = hq_recv_cq x"
      "queue_ok (hq_sends (f (g_qps s q)))" "queue_ok (hq_receives (f (g_qps s q)))"
    and one: "\<And>a. qp_load a (f (g_qps s q)) = qp_load a (g_qps s q) + (if a = c then 1 else 0)"
  shows "rig_ok (add_credit c (set_qp q f s))"
proof (rule load_change_ok [OF ok q])
  fix a
  have o: "unat (hc_outstanding (g_cqs s c) + 1) = unat (hc_outstanding (g_cqs s c)) + 1"
    using lt by (intro unat_add_small [THEN trans]) simp_all
  show "unat (hc_outstanding (g_cqs (add_credit c (set_qp q f s)) a)) + qp_load a (g_qps s q) =
      unat (hc_outstanding (g_cqs s a)) + qp_load a (g_qps (add_credit c (set_qp q f s)) q)"
    using one [of a] o by (simp add: add_credit_def)
  show "unat (hc_outstanding (g_cqs (add_credit c (set_qp q f s)) a)) \<le> 31"
    using lt o okD(4,5) [OF ok, of a] by (simp add: add_credit_def)
qed (use g in \<open>simp_all add: add_credit_def\<close>)

lemma put_books [simp]: "same_books s (set_qp q (\<lambda>x. x\<lparr>hq_buffer := (hq_buffer x)\<lparr>bf_cpu := m\<rparr>\<rparr>) s)"
  by (simp add: same_books_def)

lemma hca_post_ok:
  assumes ok: "rig_ok s" and p: "hca_post ops q wid r (s, w) = (b, s', w')"
  shows "rig_ok s'"
proof -
  let ?x = "g_qps s q"
  consider "same_books s s'"
    | sends m w1 wqe len lkeys where "q \<in> set (g_list s)" "unat (hc_outstanding (g_cqs s (hq_send_cq ?x))) < 31"
        "work_post (hq_sends ?x) (hq_producer ?x) wid (sr_opcode r) len lkeys = (True, sends)"
        "ring_doorbell ops q wqe (set_qp q (\<lambda>x. x\<lparr>hq_buffer := (hq_buffer x)\<lparr>bf_cpu := m\<rparr>\<rparr>)
           (add_credit (hq_send_cq ?x) (set_qp q (\<lambda>x. x\<lparr>hq_sends := sends\<rparr>) s)), w1) = (b, s', w')"
    using p okD(1) [OF ok, of q]
    by (auto simp: hca_post_def Let_def word_le_nat_alt not_le split: if_splits option.splits prod.splits bool.splits)
  then show ?thesis
  proof cases
    case 1 then show ?thesis using ok by (rule same_books_ok)
  next
    case 2
    note wp = work_post_pending [OF okD(2) [OF ok] 2(3)]
    have "rig_ok (add_credit (hq_send_cq ?x) (set_qp q (\<lambda>x. x\<lparr>hq_sends := sends\<rparr>) s))"
      using 2(1,2) wp okD(3) [OF ok] by (intro charge_ok [OF ok]) (simp_all add: qp_load_def)
    from same_books_ok [OF doorbell_books [OF 2(4)] same_books_ok [OF put_books this]] show ?thesis .
  qed
qed

lemma receive_books:
  "same_books s (set_qp q (\<lambda>x. x\<lparr>hq_recv_producer := hq_recv_producer x + 1\<rparr>) (set_qp q (\<lambda>x. x\<lparr>hq_buffer := (hq_buffer x)\<lparr>bf_cpu := m\<rparr>\<rparr>) s))"
  by (simp add: same_books_def)

lemma receive_ok:
  assumes ok: "rig_ok s" and p: "receive ops q wid address len lkey (s, w) = (b, s', w')"
  shows "rig_ok s'"
proof -
  let ?x = "g_qps s q"
  consider "same_books s s'"
    | receives where "q \<in> set (g_list s)" "unat (hc_outstanding (g_cqs s (hq_recv_cq ?x))) < 31"
        "work_post (hq_receives ?x) (hq_recv_producer ?x) wid 0x0a len [lkey] = (True, receives)"
        "same_books (add_credit (hq_recv_cq ?x) (set_qp q (\<lambda>x. x\<lparr>hq_receives := receives\<rparr>) s)) s'"
    using p okD(1) [OF ok, of q]
    by (auto simp: receive_def Let_def word_le_nat_alt not_le intro: receive_books
        split: if_splits option.splits prod.splits bool.splits)
  then show ?thesis
  proof cases
    case 1 then show ?thesis using ok by (rule same_books_ok)
  next
    case 2
    note wp = work_post_pending [OF okD(3) [OF ok] 2(3)]
    have "rig_ok (add_credit (hq_recv_cq ?x) (set_qp q (\<lambda>x. x\<lparr>hq_receives := receives\<rparr>) s))"
      using 2(1,2) wp okD(2) [OF ok] by (intro charge_ok [OF ok]) (simp_all add: qp_load_def)
    from same_books_ok [OF 2(4) this] show ?thesis .
  qed
qed

lemma deregister_mr_ok:
  assumes "rig_ok s" and "deregister_mr ops mr key (s, w) = (ok, mr', s', w')"
  shows "rig_ok s'"
proof (rule same_books_ok [OF _ assms(1)])
  show "same_books s s'" using assms(2)
    by (auto simp: deregister_mr_def same_books_def split: if_splits prod.splits dest!: destroy_sticky(1))
qed


lemma viewed_same: "kc_qps k = kc_qps (cq_view c ready s) \<Longrightarrow> viewed_qp k s = g_qps s"
  by (auto simp: viewed_qp_def cq_view_def qp_view_def Let_def fun_eq_iff)

lemma poll_back_books:
  assumes "kc_qps k = kc_qps (cq_view c ready s)" and "kc_outstanding k = hc_outstanding (g_cqs s c)"
  shows "same_books s (poll_back c k s)"
  by (simp add: same_books_def poll_back_def Let_def viewed_same [OF assms(1)] assms(2))

text \<open>The four ways a poll ends.\<close>

lemma poll_outcomes:
  assumes "hca_poll k = (out, k')"
  obtains "kc_qps k' = kc_qps k" "kc_outstanding k' = kc_outstanding k"
  | qpn opcode counter y work rest where "kc_qps k qpn = Some y" "if is_send opcode then kq_send_here y else kq_recv_here y"
      "kc_outstanding k \<noteq> 0" "work_complete (side opcode y) counter = (Some work, rest)"
      "k' = advance (k\<lparr>kc_qps := (kc_qps k)(qpn \<mapsto> set_side opcode rest y), kc_outstanding := kc_outstanding k - 1\<rparr>)"
proof -
  note p = assms [unfolded hca_poll_def]
  obtain result hw where d: "decode_cqe (mem_read (kc_buffer k) (slot32 (kc_consumer k) * 64) 64) (kc_consumer k) 5 = (result, hw)"
    by fastforce
  show thesis
  proof (cases "kc_qps k (cp_qpn hw)")
    case None
    then have "kc_qps k' = kc_qps k" "kc_outstanding k' = kc_outstanding k" using p by (auto simp: d split: if_split_asm)
    then show thesis by (rule that(1))
  next
    case (Some y)
    obtain r rest where w: "work_complete (side (cp_opcode hw) y) (cp_counter hw) = (r, rest)" by fastforce
    show thesis
    proof (cases r)
      case None
      then have "kc_qps k' = kc_qps k" "kc_outstanding k' = kc_outstanding k"
        using p Some w by (auto simp: d advance_def split: if_split_asm)
      then show thesis by (rule that(1))
    next
      case r: (Some work)
      let ?k = "advance (k\<lparr>kc_qps := (kc_qps k)(cp_qpn hw \<mapsto> set_side (cp_opcode hw) rest y), kc_outstanding := kc_outstanding k - 1\<rparr>)"
      have "(kc_qps k' = kc_qps k \<and> kc_outstanding k' = kc_outstanding k) \<or>
          (k' = ?k \<and> kc_outstanding k \<noteq> 0 \<and> (if is_send (cp_opcode hw) then kq_send_here y else kq_recv_here y))"
        using p Some w r by (auto simp: d advance_def split: if_split_asm)
      then show thesis using that Some w r by blast
    qed
  qed
qed

definition finish_work :: "nat \<Rightarrow> u8 \<Rightarrow> work_queue \<Rightarrow> rig \<Rightarrow> rig" where
  "finish_work q opcode rest = set_qp q (\<lambda>x. if is_send opcode then x\<lparr>hq_sends := rest\<rparr> else x\<lparr>hq_receives := rest\<rparr>)"

lemma viewed_side:
  assumes "pi_find 9 qpn (g_index s) = Some q" and "ob_id (hq_object (g_qps s q)) = qpn"
    and "kc_qps k = (kc_qps (cq_view c ready s))(qpn \<mapsto> set_side opcode rest (qp_view c (g_qps s q)))"
  shows "viewed_qp k s = g_qps (finish_work q opcode rest s)"
proof
  fix p
  show "viewed_qp k s p = g_qps (finish_work q opcode rest s) p"
  proof (cases "p = q")
    case True
    then show ?thesis using assms by (simp add: viewed_qp_def finish_work_def set_side_def qp_view_def Let_def)
  next
    case False
    then show ?thesis using assms by (auto simp: viewed_qp_def finish_work_def cq_view_def qp_view_def Let_def)
  qed
qed

lemma rig_poll_ok:
  assumes ok: "rig_ok s" and p: "rig_poll ops c (s, w) = (out, s', w')"
  shows "rig_ok s'"
proof -
  obtain ready k' where h: "hca_poll (cq_view c ready s) = (out, k')" and s': "s' = poll_back c k' s"
    using p by (auto simp: rig_poll_def split: prod.splits)
  from h show ?thesis
  proof (cases rule: poll_outcomes)
    case 1
    then have "same_books s s'" unfolding s' by (intro poll_back_books [of _ _ ready]) (simp_all add: cq_view_def Let_def)
    then show ?thesis using ok by (rule same_books_ok)
  next
    case (2 qpn opcode counter y work rest)
    then obtain q where f: "pi_find 9 qpn (g_index s) = Some q" and y: "y = qp_view c (g_qps s q)"
      by (auto simp: cq_view_def Let_def)
    let ?x = "g_qps s q"
    have "pi_map (g_index s) qpn = Some q" using f qp_index.find_abs [OF okD(9) [OF ok]] by simp
    then have q: "q \<in> set (g_list s)" and i: "ob_id (hq_object ?x) = qpn" using okD(10) [OF ok] by blast+
    have kq: "kc_qps k' = (kc_qps (cq_view c ready s))(qpn \<mapsto> set_side opcode rest (qp_view c ?x))"
      and ko: "kc_outstanding k' = hc_outstanding (g_cqs s c) - 1" and o: "hc_outstanding (g_cqs s c) \<noteq> 0"
      using 2(3,5) y by (simp_all add: advance_def cq_view_def Let_def)
    have wc: "work_complete (if is_send opcode then hq_sends ?x else hq_receives ?x) counter = (Some work, rest)"
      using 2(4) by (cases "is_send opcode") (simp_all add: y side_def qp_view_def)
    have qok: "queue_ok (if is_send opcode then hq_sends ?x else hq_receives ?x)" using okD(2,3) [OF ok] by simp
    note w = work_complete_pending [OF qok wc]
    have here: "if is_send opcode then hq_send_cq ?x = c else hq_recv_cq ?x = c" using 2(2) by (cases "is_send opcode") (simp_all add: y qp_view_def)
    have v: "g_qps s' = g_qps (finish_work q opcode rest s)"
      using viewed_side [OF f i kq] by (simp add: s' poll_back_def Let_def)
    have l: "qp_load a ?x = qp_load a (g_qps s' q) + (if a = c then 1 else 0)" for a
      using here w by (auto simp: v finish_work_def qp_load_def split: if_splits)
    have u: "unat (hc_outstanding (g_cqs s c) - 1) + 1 = unat (hc_outstanding (g_cqs s c))"
      using o by (simp add: unat_sub_le word_le_nat_alt unat_eq_0 Suc_leI unat_gt_0)
    have os: "hc_outstanding (g_cqs s' a) = (if a = c then hc_outstanding (g_cqs s c) - 1 else hc_outstanding (g_cqs s a))" for a
      by (simp add: s' poll_back_def Let_def ko)
    show ?thesis
    proof (rule load_change_ok [OF ok q])
      show "unat (hc_outstanding (g_cqs s' a)) + qp_load a (g_qps s q) = unat (hc_outstanding (g_cqs s a)) + qp_load a (g_qps s' q)" for a
        using l [of a] u by (simp add: os)
      show "unat (hc_outstanding (g_cqs s' a)) \<le> 31" for a using u okD(4,5) [OF ok, of a] by (auto simp: os)
      show "queue_ok (hq_sends (g_qps s' q))" "queue_ok (hq_receives (g_qps s' q))"
        using w(1) okD(2,3) [OF ok, of q] by (simp_all add: v finish_work_def)
      show "hq_object (g_qps s' q) = hq_object ?x" "hq_send_cq (g_qps s' q) = hq_send_cq ?x" "hq_recv_cq (g_qps s' q) = hq_recv_cq ?x"
        by (simp_all add: v finish_work_def)
      show "g_qps s' p = g_qps s p" if "p \<noteq> q" for p using that by (simp add: v finish_work_def)
    qed (simp_all add: s' poll_back_def Let_def)
  qed
qed

end
