(* ===== verification/Nic_Qp_Props.thy ===== *)
theory Nic_Qp_Props
  imports Nic_Qp
begin

section \<open>Properties of the kernel's queue pairs\<close>

text \<open>
  Any sequence of operations on the driver's queue pairs and completion queues, in between which the
  adapter writes what it likes into the rings, keeps the credits exact; and purging the completions
  of one queue pair leaves those of the others in the ring, in order.
\<close>

subsection \<open>Sequences of operations\<close>

text \<open>
  \<open>Adapter_Writes\<close> is the adapter changing the memory of a ring, \<open>Set_Client\<close> the provider attaching
  its context, and \<open>Other\<close> any other operation of the adapter object; none of those that are modelled
  in \<open>Nic_Hca\<close> lifts a quarantine while objects exist.
\<close>

datatype 'w rig_call =
    Create_CQ nat
  | Destroy_CQ nat
  | Create_QP nat u32 nat nat u32
  | Reset_QP nat
  | Destroy_QP nat
  | Transition nat u16 rc_connection
  | Post_Send nat u64 send_request
  | Post_Receive nat u64 u64 u32 u32
  | Poll nat
  | Deregister hw_object u32
  | Adapter_Writes nat mem
  | Set_Client nat "nat option"
  | Other "hca \<times> 'w \<Rightarrow> hca \<times> 'w"

fun rig_do :: "'w hca_ops \<Rightarrow> 'w rig_call \<Rightarrow> rig \<times> 'w \<Rightarrow> (rig \<times> 'w) option" where
  "rig_do ops (Create_CQ c) s = Some (snd (create_cq ops c s))"
| "rig_do ops (Destroy_CQ c) s = Some (snd (destroy_cq ops c s))"
| "rig_do ops (Create_QP q pd send recv page) s = Some (snd (create_qp ops q pd send recv page s))"
| "rig_do ops (Reset_QP q) s = Some (snd (reset_qp ops q s))"
| "rig_do ops (Destroy_QP q) s = map_option snd (destroy_qp ops q s)"
| "rig_do ops (Transition q opcode conn) s = Some (snd (transition ops q opcode conn s))"
| "rig_do ops (Post_Send q wid r) s = Some (snd (hca_post ops q wid r s))"
| "rig_do ops (Post_Receive q wid address len lkey) s = Some (snd (receive ops q wid address len lkey s))"
| "rig_do ops (Poll c) s = Some (snd (rig_poll ops c s))"
| "rig_do ops (Deregister mr key) s = Some (snd (snd (deregister_mr ops mr key s)))"
| "rig_do ops (Adapter_Writes c m) s = Some (set_cq c (\<lambda>x. x\<lparr>hc_buffer := (hc_buffer x)\<lparr>bf_cpu := m\<rparr>\<rparr>) (fst s), snd s)"
| "rig_do ops (Set_Client q x) s = Some (set_qp q (\<lambda>y. y\<lparr>hq_client := x\<rparr>) (fst s), snd s)"
| "rig_do ops (Other f) s =
     (case f (g_hca (fst s), snd s) of
        (h, w) \<Rightarrow> Some (set_hca (if quarantined (fst s) then quarantine h else h) (fst s), w))"

fun rig_run :: "'w hca_ops \<Rightarrow> 'w rig_call list \<Rightarrow> rig \<times> 'w \<Rightarrow> (rig \<times> 'w) option" where
  "rig_run ops [] s = Some s"
| "rig_run ops (a # calls) s = (case rig_do ops a s of None \<Rightarrow> None | Some s' \<Rightarrow> rig_run ops calls s')"

definition new_rig :: "hca \<Rightarrow> rig" where
  "new_rig h = \<lparr>g_hca = h, g_cqs = (\<lambda>_. new_cq), g_qps = (\<lambda>_. new_qp), g_list = [], g_index = pi_new 9\<rparr>"

text \<open>The requests the kernel has on record, over all queue pairs, that complete on a queue.\<close>

definition queue_requests :: "work_queue \<Rightarrow> nat" where
  "queue_requests w = length (filter wk_occupied (wq_records w))"

definition requests_on :: "nat \<Rightarrow> rig \<Rightarrow> nat" where
  "requests_on c s =
     (\<Sum>q\<leftarrow>g_list s. (if hq_send_cq (g_qps s q) = c then queue_requests (hq_sends (g_qps s q)) else 0) +
        (if hq_recv_cq (g_qps s q) = c then queue_requests (hq_receives (g_qps s q)) else 0))"

lemma queue_requests_pending:
  assumes "queue_ok w"
  shows "unat (wq_pending w) = queue_requests w"
proof -
  let ?k = "\<lparr>ks_queue = w, ks_producer = 0\<rparr>"
  have k: "length (wq_records w) = 32" "slots_ok (kernel_slots ?k) (wq_pending w)" using assms by (simp_all add: queue_ok_def kernel_ok_def)
  have "dom (kernel_slots ?k) = {i. i < length (wq_records w) \<and> wk_occupied (wq_records w ! i)}"
    using k(1) by (auto simp: kernel_slots_def split: if_splits)
  then show ?thesis using k(2) by (simp add: slots_ok_def queue_requests_def length_filter_conv_card)
qed

lemma requests_load:
  assumes "rig_ok s"
  shows "requests_on c s = cq_load c s"
  using okD(2,3,7) [OF assms]
  by (simp add: requests_on_def cq_load_def qp_load_def queue_requests_pending sum_list_distinct_conv_sum_set cong: if_cong)

lemma new_rig_ok: "rig_ok (new_rig h)"
  by (simp add: rig_ok_def listed_ok_def works_ok_def credits_ok_def index_ok_def new_rig_def new_cq_def new_qp_def no_object_def
      cq_load_def cq_uses_def new_index)

lemma rig_do_ok:
  assumes ok: "rig_ok (fst s)"
  shows "\<exists>s'. rig_do ops a s = Some s' \<and> rig_ok (fst s')"
proof -
  obtain r w where s: "s = (r, w)" by fastforce
  then have ok: "rig_ok r" using ok by simp
  have fst3: "rig_ok (fst (snd (f (r, w))))" if "\<And>b r' w'. f (r, w) = (b, r', w') \<Longrightarrow> rig_ok r'" for f :: "rig \<times> 'a \<Rightarrow> 'b \<times> rig \<times> 'a"
    using that by (cases "f (r, w)") simp
  show ?thesis
  proof (cases a)
    case (Destroy_QP q)
    then show ?thesis using destroy_qp_ok [OF ok, of ops q w] by (auto simp: s)
  next
    case (Deregister mr key)
    then show ?thesis using deregister_mr_ok [OF ok, of ops mr key w] by (cases "deregister_mr ops mr key (r, w)") (simp add: s)
  next
    case (Adapter_Writes c m)
    then show ?thesis using ok by (auto simp: s intro: same_books_ok [OF same_books_cq])
  next
    case (Set_Client q x)
    then show ?thesis using ok by (auto simp: s intro: same_books_ok [OF same_books_qp])
  next
    case (Other f)
    have "rig_ok (set_hca (if quarantined r then quarantine h else h) r)" for h
      using ok by (intro same_books_ok [OF same_books_hca]) (simp_all add: quarantine_def)
    then show ?thesis using Other by (cases "f (g_hca r, w)") (simp add: s)
  qed (use ok in \<open>auto simp: s intro!: fst3 intro: create_cq_ok destroy_cq_ok create_qp_ok reset_qp_ok(1) transition_ok
      hca_post_ok receive_ok rig_poll_ok\<close>)
qed

lemma rig_run_ok: "rig_ok (fst s) \<Longrightarrow> \<exists>s'. rig_run ops calls s = Some s' \<and> rig_ok (fst s')"
proof (induction calls arbitrary: s)
  case (Cons a calls)
  obtain s1 where "rig_do ops a s = Some s1" "rig_ok (fst s1)" using rig_do_ok [OF Cons.prems] by blast
  then show ?case using Cons.IH by simp
qed simp

text \<open>
  C38: the kernel's credits are exact. From an adapter without queues, after any operations on queue
  pairs and completion queues, successful or not, whatever the firmware answers and the adapter writes
  into the rings: every operation returns; \<open>outstanding\<close> of each completion queue is the number of
  requests on record that will complete there, and at most 31, so that a ring of 32 entries does not
  overflow; the queues of every live queue pair are live; and there are at most 256 queue pairs.
\<close>

theorem credits_exact:
  "\<exists>s w'. rig_run ops calls (new_rig h, w) = Some (s, w') \<and>
    (\<forall>c. unat (hc_outstanding (g_cqs s c)) = requests_on c s \<and> requests_on c s \<le> 31) \<and>
    {q. ob_live (hq_object (g_qps s q))} = set (g_list s) \<and> length (g_list s) \<le> 256 \<and>
    set (g_list s) \<subseteq> {q. ob_live (hc_object (g_cqs s (hq_send_cq (g_qps s q)))) \<and> ob_live (hc_object (g_cqs s (hq_recv_cq (g_qps s q))))}"
proof -
  obtain s w' where r: "rig_run ops calls (new_rig h, w) = Some (s, w')" and ok: "rig_ok s"
    using rig_run_ok [of "(new_rig h, w)" ops calls] new_rig_ok by auto
  show ?thesis using r okD(1,4,5,8,13) [OF ok] by (auto simp: requests_load [OF ok])
qed


subsection \<open>Purging keeps the other queue pairs' completions\<close>

text \<open>
  What an entry says, without the bit that tells on which turn of the ring it was written; the
  entries that are published at the consumer index, in order.
\<close>

definition entry_body :: "u8 list \<Rightarrow> u8 list \<times> u8" where
  "entry_body e = (take 63 e, drop_bit 1 (e ! 63))"

definition body_qpn :: "u8 list \<times> u8 \<Rightarrow> u32" where
  "body_qpn b = be32 (fst b) 56 AND 0xffffff"

definition published :: "mem \<Rightarrow> u32 \<Rightarrow> nat \<Rightarrow> bool" where
  "published m consumer i = owned (owner_at m (consumer + of_nat i)) (consumer + of_nat i)"

definition body_at :: "mem \<Rightarrow> u32 \<Rightarrow> nat \<Rightarrow> u8 list \<times> u8" where
  "body_at m consumer i = entry_body (ring_entry m (consumer + of_nat i))"

definition published_bodies :: "mem \<Rightarrow> u32 \<Rightarrow> (u8 list \<times> u8) list" where
  "published_bodies m consumer = map (body_at m consumer) (takeWhile (published m consumer) [0..<32])"

lemma slot32_add: "slot32 (c + of_nat j) = (unat c + j) mod 32"
proof -
  have "unat (c + of_nat j) = (unat c + j) mod 4294967296"
    by (simp add: unat_word_ariths unat_of_nat mod_add_right_eq)
  then show ?thesis by (simp add: slot32_def and_31 mod_mod_cancel)
qed

lemma mod_32_less: "i < j \<Longrightarrow> j < 32 \<Longrightarrow> (u + j) mod 32 \<noteq> (u + i) mod 32" for i j u :: nat
  using mod_eq_dvd_iff_nat [of "u + i" "u + j" 32] nat_dvd_not_less [of "j - i" 32] by auto

lemma slots_differ: "i < 32 \<Longrightarrow> j < 32 \<Longrightarrow> i \<noteq> j \<Longrightarrow> slot32 (c + of_nat i) \<noteq> slot32 (c + of_nat j)"
  unfolding slot32_add using mod_32_less [of i j "unat c"] mod_32_less [of j i "unat c"] by (cases "i < j") auto

lemma body_at_qpn: "be32 (ring_entry m (consumer + of_nat i)) 56 AND 0xffffff = body_qpn (body_at m consumer i)"
  by (simp add: body_qpn_def body_at_def entry_body_def be32_def drop_take)

text \<open>A moved entry says the same at its new place and is published there; every other slot keeps its entry.\<close>

lemma move_other: "slot32 j \<noteq> slot32 d \<Longrightarrow> ring_entry (move_entry m i d) j = ring_entry m j"
  unfolding ring_entry_def move_entry_def Let_def
  by (rule nth_equalityI) (auto simp: mem_write_apply)

lemma move_here:
  "ring_entry (move_entry m i d) d = (ring_entry m i)[63 := (ring_entry m i ! 63 AND 0xfe) OR ucast (drop_bit 5 d AND 1)]"
  unfolding ring_entry_def move_entry_def Let_def
  by (rule nth_equalityI) (auto simp: mem_write_apply nth_list_update)

lemma owner_entry: "owner_at m i = ring_entry m i ! 63"
  by (simp add: owner_at_def ring_entry_def)

lemma owner_bits:
  "drop_bit 1 ((b AND 0xfe) OR ucast (drop_bit 5 d AND 1)) = drop_bit 1 (b :: u8)"
  "drop_bit 4 ((b AND 0xfe) OR ucast (drop_bit 5 d AND 1)) = drop_bit 4 (b :: u8)"
  "ucast (((b AND 0xfe) OR ucast (drop_bit 5 d AND 1)) AND 1) = drop_bit 5 (d :: u32) AND 1"
proof -
  have fe: "bit (0xfe :: u8) n \<longleftrightarrow> 0 < n \<and> n < 8" for n
  proof -
    have "(0xfe :: u8) = push_bit 1 (mask 7)" by (simp add: mask_eq_exp_minus_1)
    show ?thesis unfolding \<open>0xfe = push_bit 1 (mask 7)\<close> by (simp only: bit_push_bit_iff bit_mask_iff) auto
  qed
  show "drop_bit 1 ((b AND 0xfe) OR ucast (drop_bit 5 d AND 1)) = drop_bit 1 b"
    by (rule bit_word_eqI; simp only: bit_drop_bit_eq bit_and_iff bit_or_iff comp_def fe) (auto simp: bit_simps dest: bit_imp_le_length)
  show "drop_bit 4 ((b AND 0xfe) OR ucast (drop_bit 5 d AND 1)) = drop_bit 4 b"
    by (rule bit_word_eqI; simp only: bit_drop_bit_eq bit_and_iff bit_or_iff comp_def fe) (auto simp: bit_simps dest: bit_imp_le_length)
  show "ucast (((b AND 0xfe) OR ucast (drop_bit 5 d AND 1)) AND 1) = drop_bit 5 d AND 1"
    by (rule bit_word_eqI; simp only: bit_and_iff bit_or_iff bit_unsigned_iff fe) (auto simp: bit_simps)
qed


lemma set_owner: "(ring_entry m i)[63 := x] ! 63 = x" "take 63 ((ring_entry m i)[63 := x]) = take 63 (ring_entry m i)"
  by (simp_all add: ring_entry_def)

lemma move_body: "entry_body (ring_entry (move_entry m i d) d) = entry_body (ring_entry m i)"
  unfolding move_here entry_body_def by (simp only: set_owner owner_bits)

lemma move_owned: "owned (owner_at m i) i \<Longrightarrow> owned (owner_at (move_entry m i d) d) d"
  unfolding owned_def owner_entry move_here by (simp only: set_owner owner_bits) simp

text \<open>The survivors of the first \<open>r\<close> entries end up packed at the top, everything from \<open>r + disc\<close> on is left alone.\<close>

lemma compact_result:
  assumes "purge_compact r qpn consumer disc m = (d, m')" and "r + disc \<le> 32"
  shows "d = disc + length (filter (\<lambda>i. body_qpn (body_at m consumer i) = qpn) [0..<r])"
    and "map (body_at m' consumer) [d..<r + disc] =
      map (body_at m consumer) (filter (\<lambda>i. body_qpn (body_at m consumer i) \<noteq> qpn) [0..<r])"
    and "\<And>j. j < 32 \<Longrightarrow> r + disc \<le> j \<or> j < d \<Longrightarrow> ring_entry m' (consumer + of_nat j) = ring_entry m (consumer + of_nat j)"
    and "(\<And>i. i < r \<Longrightarrow> published m consumer i) \<Longrightarrow> d \<le> j \<Longrightarrow> j < r + disc \<Longrightarrow> published m' consumer j"
proof -
  have "d = disc + length (filter (\<lambda>i. body_qpn (body_at m consumer i) = qpn) [0..<r]) \<and>
    map (body_at m' consumer) [d..<r + disc] =
      map (body_at m consumer) (filter (\<lambda>i. body_qpn (body_at m consumer i) \<noteq> qpn) [0..<r]) \<and>
    (\<forall>j < 32. r + disc \<le> j \<or> j < d \<longrightarrow> ring_entry m' (consumer + of_nat j) = ring_entry m (consumer + of_nat j)) \<and>
    ((\<forall>i < r. published m consumer i) \<longrightarrow> (\<forall>j. d \<le> j \<longrightarrow> j < r + disc \<longrightarrow> published m' consumer j))"
    using assms
  proof (induction r arbitrary: disc m)
    case (Suc r)
    have r32: "r < 32" "r + disc < 32" using Suc.prems(2) by simp_all
    let ?i = "consumer + of_nat r :: u32"
    show ?case
    proof (cases "body_qpn (body_at m consumer r) = qpn")
      case True
      then have "purge_compact r qpn consumer (disc + 1) m = (d, m')"
        using Suc.prems(1) by (simp add: Let_def body_at_qpn)
      moreover have "r + (disc + 1) \<le> 32" using Suc.prems(2) by simp
      ultimately have ih: "d = disc + 1 + length (filter (\<lambda>i. body_qpn (body_at m consumer i) = qpn) [0..<r]) \<and>
          map (body_at m' consumer) [d..<r + (disc + 1)] =
            map (body_at m consumer) (filter (\<lambda>i. body_qpn (body_at m consumer i) \<noteq> qpn) [0..<r]) \<and>
          (\<forall>j < 32. r + (disc + 1) \<le> j \<or> j < d \<longrightarrow> ring_entry m' (consumer + of_nat j) = ring_entry m (consumer + of_nat j)) \<and>
          ((\<forall>i < r. published m consumer i) \<longrightarrow> (\<forall>j. d \<le> j \<longrightarrow> j < r + (disc + 1) \<longrightarrow> published m' consumer j))"
        by (rule Suc.IH)
      have e: "Suc r + disc = r + (disc + 1)" by simp
      have f: "filter (\<lambda>i. body_qpn (body_at m consumer i) = qpn) [0..<Suc r] =
            filter (\<lambda>i. body_qpn (body_at m consumer i) = qpn) [0..<r] @ [r]"
          "filter (\<lambda>i. body_qpn (body_at m consumer i) \<noteq> qpn) [0..<Suc r] =
            filter (\<lambda>i. body_qpn (body_at m consumer i) \<noteq> qpn) [0..<r]" using True by simp_all
      have "(\<forall>i < Suc r. published m consumer i) \<longrightarrow> (\<forall>j. d \<le> j \<longrightarrow> j < r + (disc + 1) \<longrightarrow> published m' consumer j)"
        using ih by (metis less_SucI)
      then show ?thesis unfolding e f using ih by (elim conjE) (intro conjI, simp, assumption+)
    next
      case False
      define m1 where "m1 = (if disc \<noteq> 0 then move_entry m ?i (consumer + of_nat (r + disc)) else m)"
      have c: "purge_compact r qpn consumer disc m1 = (d, m')"
        using Suc.prems(1) False by (simp add: Let_def body_at_qpn m1_def add.assoc split: if_splits)
      have le: "r + disc \<le> 32" using r32 by simp
      note i = Suc.IH [OF c le]
      have ih: "d = disc + length (filter (\<lambda>i. body_qpn (body_at m1 consumer i) = qpn) [0..<r])"
          "map (body_at m' consumer) [d..<r + disc] = map (body_at m1 consumer) (filter (\<lambda>i. body_qpn (body_at m1 consumer i) \<noteq> qpn) [0..<r])"
        using i by blast+
      have unch: "ring_entry m' (consumer + of_nat j) = ring_entry m1 (consumer + of_nat j)" if "j < 32" "r + disc \<le> j \<or> j < d" for j
        using i that by blast
      have low: "published m' consumer j" if "\<forall>i < r. published m1 consumer i" "d \<le> j" "j < r + disc" for j
        using i that by blast
      have same: "ring_entry m1 (consumer + of_nat j) = ring_entry m (consumer + of_nat j)" if "j < 32" "j \<noteq> r + disc" for j
        using that r32 slots_differ [of j "r + disc" consumer] by (simp add: m1_def move_other)
      have here: "body_at m1 consumer (r + disc) = body_at m consumer r"
        by (simp add: m1_def body_at_def move_body del: of_nat_add)
      have pub: "published m1 consumer (r + disc)" if "published m consumer r"
        using that move_owned by (simp add: m1_def published_def del: of_nat_add)
      have bodies: "body_at m1 consumer i = body_at m consumer i" "published m1 consumer i = published m consumer i" if "i < r" for i
        using that same [of i] r32 by (cases "disc = 0"; simp add: m1_def body_at_def published_def owner_entry)+
      have fl: "filter (\<lambda>i. P (body_at m1 consumer i)) [0..<r] = filter (\<lambda>i. P (body_at m consumer i)) [0..<r]" for P
        using bodies by (intro filter_cong) simp_all
      have mp: "map (body_at m1 consumer) (filter P [0..<r]) = map (body_at m consumer) (filter P [0..<r])" for P
        using bodies by simp
      have d: "d = disc + length (filter (\<lambda>i. body_qpn (body_at m consumer i) = qpn) [0..<r])"
        using ih(1) fl [of "\<lambda>b. body_qpn b = qpn"] by simp
      then have dle: "d \<le> r + disc" using length_filter_le [of _ "[0..<r]"] by (simp add: add.commute)
      have top: "ring_entry m' (consumer + of_nat (r + disc)) = ring_entry m1 (consumer + of_nat (r + disc))"
        using r32 by (intro unch) simp_all
      have "map (body_at m' consumer) [d..<Suc r + disc] =
          map (body_at m consumer) (filter (\<lambda>i. body_qpn (body_at m consumer i) \<noteq> qpn) [0..<Suc r])"
      proof -
        have "body_at m' consumer (r + disc) = body_at m consumer r" using here top by (simp add: body_at_def)
        then show ?thesis using ih(2) dle False fl [of "\<lambda>b. body_qpn b \<noteq> qpn"] mp by simp
      qed
      moreover have "\<forall>j < 32. Suc r + disc \<le> j \<or> j < d \<longrightarrow> ring_entry m' (consumer + of_nat j) = ring_entry m (consumer + of_nat j)"
      proof (intro allI impI)
        fix j assume j: "j < 32" "Suc r + disc \<le> j \<or> j < d"
        then have "j \<noteq> r + disc" using dle by auto
        then show "ring_entry m' (consumer + of_nat j) = ring_entry m (consumer + of_nat j)"
          using j unch [of j] same [of j] by auto
      qed
      moreover have "published m' consumer j" if "\<forall>i < Suc r. published m consumer i" "d \<le> j" "j < Suc r + disc" for j
      proof (cases "j = r + disc")
        case True
        then show ?thesis using pub that(1) top by (simp add: published_def owner_entry)
      next
        case False
        then show ?thesis using that bodies by (intro low) simp_all
      qed
      ultimately show ?thesis using d False by simp
    qed
  qed simp
  then show "d = disc + length (filter (\<lambda>i. body_qpn (body_at m consumer i) = qpn) [0..<r])"
    and "map (body_at m' consumer) [d..<r + disc] =
      map (body_at m consumer) (filter (\<lambda>i. body_qpn (body_at m consumer i) \<noteq> qpn) [0..<r])"
    and "\<And>j. j < 32 \<Longrightarrow> r + disc \<le> j \<or> j < d \<Longrightarrow> ring_entry m' (consumer + of_nat j) = ring_entry m (consumer + of_nat j)"
    and "(\<And>i. i < r \<Longrightarrow> published m consumer i) \<Longrightarrow> d \<le> j \<Longrightarrow> j < r + disc \<Longrightarrow> published m' consumer j"
    by blast+
qed


lemma visible_result:
  assumes "purge_visible n m consumer v = Some k"
  shows "v \<le> k \<and> k \<le> v + n \<and> (\<forall>i. v \<le> i \<longrightarrow> i < k \<longrightarrow> published m consumer i) \<and> (k < v + n \<longrightarrow> \<not> published m consumer k)"
  using assms
proof (induction n arbitrary: v)
  case (Suc n)
  show ?case
  proof (cases "published m consumer v")
    case True
    then have p: "purge_visible n m consumer (v + 1) = Some k" using Suc.prems by (simp add: Let_def published_def split: if_splits)
    from Suc.IH [OF this] True show ?thesis
      by (auto simp: Suc_le_eq le_less) (metis Suc_leI le_neq_implies_less)+
  next
    case False
    then show ?thesis using Suc.prems by (simp add: Let_def published_def)
  qed
qed simp

lemma takeWhile_upt:
  assumes "k \<le> n" "\<And>i. i < k \<Longrightarrow> P i" "k < n \<Longrightarrow> \<not> P k"
  shows "takeWhile P [0..<n] = [0..<k]"
proof -
  have "[0..<n] = [0..<k] @ [k..<n]" using upt_add_eq_append [of 0 k "n - k"] assms(1) by simp
  moreover have "takeWhile P ([0..<k] @ [k..<n]) = [0..<k] @ takeWhile P [k..<n]" using assms(2) by (intro takeWhile_append2) simp
  moreover have "takeWhile P [k..<n] = []" using assms(3) by (cases "k < n") (simp_all add: upt_conv_Cons)
  ultimately show ?thesis by simp
qed

lemma turn_flips: "drop_bit 5 (i + 32 :: u32) AND 1 \<noteq> drop_bit 5 i AND 1"
proof
  assume a: "drop_bit 5 (i + 32) AND 1 = drop_bit 5 i AND 1"
  have t: "unat (drop_bit 5 x AND 1) = unat x div 32 mod 2" for x :: u32
    using unat_drop_bit [of 5 x] by (simp only: and_one_eq unat_mod) simp
  have "unat (i + 32) div 32 mod 2 = (unat i + 32) mod (32 * 134217728) div 32 mod 2" by (simp add: unat_word_ariths)
  also have "\<dots> = (unat i + 32) div 32 mod 134217728 mod 2" unfolding mod_mult2_eq by simp
  also have "\<dots> = (unat i + 32) div 32 mod 2" by (simp add: mod_mod_cancel)
  also have "(unat i + 32) div 32 = unat i div 32 + 1" by (rule div_add_self2) simp
  finally have "(unat i div 32 + 1) mod 2 = unat i div 32 mod 2" using a t [of i] t [of "i + 32"] by simp
  then show False by presburger
qed

text \<open>An entry of this turn is not published on the next.\<close>

lemma next_turn: "published m consumer i \<Longrightarrow> \<not> published m consumer (i + 32)"
proof -
  have s: "slot32 (consumer + of_nat (i + 32)) = slot32 (consumer + of_nat i)" unfolding slot32_add by (simp flip: add.assoc)
  assume "published m consumer i"
  moreover have "drop_bit 5 (consumer + of_nat (i + 32)) AND 1 \<noteq> drop_bit 5 (consumer + of_nat i :: u32) AND 1"
    using turn_flips [of "consumer + of_nat i"] by (simp add: add.assoc)
  ultimately show ?thesis unfolding published_def owned_def owner_at_def s by metis
qed


lemma purge_ring:
  assumes v: "purge_visible 32 m consumer 0 = Some n" and c: "purge_compact n qpn consumer 0 m = (d, m')"
  shows "published_bodies m' (consumer + of_nat d) = filter (\<lambda>b. body_qpn b \<noteq> qpn) (published_bodies m consumer)"
proof -
  note vr = visible_result [OF v]
  have n: "n \<le> 32" and p: "\<And>i. i < n \<Longrightarrow> published m consumer i" and stop: "n < 32 \<Longrightarrow> \<not> published m consumer n" using vr by simp_all
  have n0: "n + 0 \<le> 32" using n by simp
  note cr = compact_result [OF c n0]
  have dn: "d \<le> n" using cr(1) length_filter_le [of "\<lambda>i. body_qpn (body_at m consumer i) = qpn" "[0..<n]"] by simp
  have old: "published_bodies m consumer = map (body_at m consumer) [0..<n]"
    unfolding published_bodies_def using n p stop by (subst takeWhile_upt) simp_all
  have shift: "published m' (consumer + of_nat d) i = published m' consumer (d + i)"
    "body_at m' (consumer + of_nat d) i = body_at m' consumer (d + i)" for i
    by (simp_all add: published_def body_at_def add.assoc)
  have top: "\<not> published m' (consumer + of_nat d) (n - d)" if "n - d < 32"
  proof (cases "n < 32")
    case True
    then have "ring_entry m' (consumer + of_nat n) = ring_entry m (consumer + of_nat n)" using cr(3) [of n] by simp
    then show ?thesis using stop [OF True] dn shift(1) [of "n - d"] by (simp add: published_def owner_entry)
  next
    case False
    then have n32: "n = 32" and d0: "0 < d" using n that by simp_all
    have "ring_entry m' (consumer + of_nat 0) = ring_entry m (consumer + of_nat 0)" using d0 by (intro cr(3)) simp_all
    then have "published m' consumer 0" using p [of 0] n32 by (simp add: published_def owner_entry)
    from next_turn [OF this] show ?thesis using shift(1) [of "n - d"] dn n32 by simp
  qed
  have new: "published_bodies m' (consumer + of_nat d) = map (body_at m' (consumer + of_nat d)) [0..<n - d]"
    unfolding published_bodies_def
  proof (subst takeWhile_upt)
    show "published m' (consumer + of_nat d) i" if "i < n - d" for i
      using cr(4) [OF p, of "d + i"] that by (simp add: shift)
  qed (use n top in simp_all)
  have "map (body_at m' (consumer + of_nat d)) [0..<n - d] = map (body_at m' consumer) [d..<n]"
    using dn by (intro nth_equalityI) (simp_all add: shift)
  then show ?thesis using new cr(2) by (simp add: old filter_map comp_def)
qed


lemma purge_nothing: "purge_compact r qpn consumer disc m = (0, m') \<Longrightarrow> m' = m"
proof (induction r arbitrary: disc m)
  case (Suc r)
  have "disc \<le> d" if "purge_compact k qpn consumer disc a = (d, b)" for k disc a d b
    using that by (induction k arbitrary: disc a) (fastforce simp: Let_def split: if_splits)+
  then show ?case using Suc by (fastforce simp: Let_def split: if_splits)
qed simp

definition cq_completions :: "nat \<Rightarrow> rig \<Rightarrow> (u8 list \<times> u8) list" where
  "cq_completions c s = published_bodies (bf_cpu (hc_buffer (g_cqs s c))) (hc_consumer (g_cqs s c))"

lemma set_consumer_bodies: "published_bodies (mcdma_cq_set_consumer m v) consumer = published_bodies m consumer"
proof -
  have b: "slot32 i * 64 + 64 \<le> 4096" for i using slot32_less [of i] by linarith
  have e: "ring_entry (mcdma_cq_set_consumer m v) i = ring_entry m i" for i
    unfolding ring_entry_def mcdma_cq_set_consumer_def by (rule mem_read_write_disjoint [OF disjI1]) (rule b)
  show ?thesis by (simp add: published_bodies_def body_at_def [abs_def] published_def [abs_def] owner_entry e)
qed

text \<open>
  C39: purging the completions of a queue pair loses none of another one. When it succeeds, the
  completions published in the ring are those that were there before without the queue pair's own, in
  the same order, also where the ring wraps around; other completion queues are untouched.
\<close>

theorem purge_keeps_others:
  assumes "purge_qp_completions ops c qpn (s, w) = (True, s', w')"
  shows "cq_completions c s' = filter (\<lambda>b. body_qpn b \<noteq> qpn) (cq_completions c s) \<and> (\<forall>a. a \<noteq> c \<longrightarrow> g_cqs s' a = g_cqs s a)"
proof -
  let ?m = "bf_cpu (hc_buffer (g_cqs s c))" and ?i = "hc_consumer (g_cqs s c)"
  obtain n where v: "purge_visible 32 ?m ?i 0 = Some n"
    using assms by (auto simp: purge_qp_completions_def Let_def split: if_splits prod.splits bool.splits option.splits)
  obtain d m' where p: "purge_compact n qpn ?i 0 ?m = (d, m')" by fastforce
  note r = purge_ring [OF v p]
  have s': "s' = (if d = 0 then s else set_cq c (\<lambda>cq. cq\<lparr>hc_consumer := ?i + of_nat d,
      hc_buffer := (hc_buffer cq)\<lparr>bf_cpu := mcdma_cq_set_consumer m' (?i + of_nat d)\<rparr>\<rparr>) s)"
    using assms v p by (auto simp: purge_qp_completions_def Let_def split: if_splits prod.splits bool.splits)
  show ?thesis
  proof (cases "d = 0")
    case True
    have "m' = ?m" using p purge_nothing unfolding True by blast
    then show ?thesis using True r by (simp add: s' cq_completions_def)
  next
    case False
    then show ?thesis using r by (simp add: s' cq_completions_def set_consumer_bodies)
  qed
qed


text \<open>A ring with a completion of queue pair 5 followed by one of queue pair 7.\<close>

definition two_ring :: mem where
  "two_ring i = (if i = 59 then 5 else if i = 123 then 7 else if i mod 64 = 63 \<and> i \<noteq> 63 \<and> i \<noteq> 127 then 0xf1 else 0)"

definition two_rig :: rig where
  "two_rig = set_cq 0 (\<lambda>c. c\<lparr>hc_object := \<lparr>ob_id = 1, ob_live = True\<rparr>, hc_outstanding := 2,
     hc_buffer := \<lparr>bf_memory = True, bf_cpu = two_ring, bf_dma = 0x8000, bf_size = 16384\<rparr>\<rparr>) (new_rig sample_hca)"

lemma two_ring_slots: "slot32 0 = 0" "slot32 1 = 1" "slot32 2 = 2"
  by (simp_all add: slot32_def)

lemma two_ring_owned: "owned (owner_at two_ring 0) 0" "owned (owner_at two_ring 1) 1" "\<not> owned (owner_at two_ring 2) 2"
  by (simp_all add: owned_def owner_at_def two_ring_slots two_ring_def)

lemma two_ring_bytes: "mem_read two_ring 56 4 = [0, 0, 0, 5]" "mem_read two_ring 120 4 = [0, 0, 0, 7]"
  by (simp_all add: mem_read_def two_ring_def upt_rec)

lemma two_ring_qpn: "be32 (ring_entry two_ring 0) 56 AND 0xffffff = 5" "be32 (ring_entry two_ring 1) 56 AND 0xffffff = 7"
  by (simp_all add: be32_def ring_entry_def two_ring_slots drop_mem_read take_mem_read two_ring_bytes get_be_def)

lemma two_ring_decodes: "fst (decode_cqe (ring_entry two_ring 0) 0 5) \<noteq> Unsupported" "fst (decode_cqe (ring_entry two_ring 1) 1 5) \<noteq> Unsupported"
  by (simp_all add: decode_cqe_def cqe_opcode_def ring_entry_def two_ring_slots two_ring_def Let_def)

lemma two_ring_visible: "purge_visible 32 two_ring 0 0 = Some 2"
  using two_ring_owned two_ring_decodes by (simp add: numeral_eq_Suc Let_def)


theorem purge_keeps_others_witness:
  "\<exists>s'. purge_qp_completions silent_ops 0 5 (two_rig, ()) = (True, s', ()) \<and>
    map body_qpn (cq_completions 0 two_rig) = [5, 7] \<and> map body_qpn (cq_completions 0 s') = [7]"
proof -
  have t: "bf_cpu (hc_buffer (g_cqs two_rig 0)) = two_ring" "hc_consumer (g_cqs two_rig 0) = 0" "hc_outstanding (g_cqs two_rig 0) = 2"
    "ob_live (hc_object (g_cqs two_rig 0))" "rig_ready silent_ops two_rig () = (True, ())"
    by (simp_all add: two_rig_def new_rig_def new_cq_def rig_ready_def transport_ready_def silent_ops_def sample_hca_def sample_transport_def)
  have "takeWhile (published two_ring 0) [0..<32] = [0..<2]"
    using two_ring_owned by (intro takeWhile_upt) (auto simp: published_def less_2_cases_iff)
  then have b: "map body_qpn (cq_completions 0 two_rig) = [5, 7]"
    using two_ring_qpn body_at_qpn [of two_ring 0 0] body_at_qpn [of two_ring 0 1]
    by (simp add: cq_completions_def t published_bodies_def upt_rec)
  have "\<exists>s'. purge_qp_completions silent_ops 0 5 (two_rig, ()) = (True, s', ())"
    by (simp add: purge_qp_completions_def t two_ring_visible Let_def split: prod.splits)
  then obtain s' where s': "purge_qp_completions silent_ops 0 5 (two_rig, ()) = (True, s', ())" by blast
  have "map body_qpn (cq_completions 0 s') = filter (\<lambda>q. q \<noteq> 5) (map body_qpn (cq_completions 0 two_rig))"
    using purge_keeps_others [OF s'] by (simp add: filter_map comp_def)
  then show ?thesis using s' b by simp
qed

end
