(* ===== verification/Spec2Isabelle.thy ===== *)
theory Spec2Isabelle
  imports Link_Verbs Link_Tb_Props Link_Xchg Rpc_Lines Rpc_Connect Bond_Conc Bond_Ranges Bond_Plan Fabric_Setup Nic_Provider Nic_Qp_Props
begin

text \<open>
  \<^bold>\<open>Verification of MCDMA.\<close>

  MCDMA moves memory between machines by RDMA, over RoCE (a ConnectX-5 adapter) and over Thunderbolt. It
  has two halves.

  \<^item> The transport library and its daemon (\<open>src/rpc\<close>). A \<^emph>\<open>link\<close> is one queue pair with registered memory: the
    shared endpoint code is \<open>link_verbs.c\<close>, the message protocol that stands in for RDMA on Thunderbolt is
    \<open>link_tb.c\<close>, and the datagrams by which two ends find each other are \<open>link_xchg.c\<close>. The fabric library
    (\<open>libmcdma_fabric.c\<close> with \<open>fabric_bond_n.h\<close> and \<open>fabric_open_qps.h\<close>) opens peers and joins several links
    into a \<^emph>\<open>bond\<close>, which writes over all of them and orders signals after the writes they cover. The daemon
    \<open>mcdma-rpcd\<close> (\<open>rpcd_listen.c\<close>, \<open>rpcd_connect.c\<close> on \<open>rpcd_verbs.c\<close> and \<open>rpcd_common.c\<close>) carries requests and
    replies between mailboxes of applications over one link each.

  \<^item> The driver of the adapter on macOS (\<open>src/include\<close>, \<open>src/core\<close>, \<open>src/native\<close>). The kernel's adapter object
    (\<open>kernel_hca.cpp\<close> on \<open>kernel_transport.cpp\<close>) talks to the firmware by commands and owns queue pairs,
    completion queues and memory keys; the provider in the process (\<open>user_provider.c\<close>) posts work and decodes
    completions in pages it shares with the kernel (\<open>cx5_user_post.h\<close>, \<open>cx5_user_completion.h\<close>).

  A write of an application goes down as: the fabric library plans which link takes which part
  (\<open>Bond_Plan\<close>) and what it must wait for (\<open>Bond_Ranges\<close>); the link cuts it into requests (\<open>Link_Cut\<close>,
  \<open>Link_Verbs\<close>) or messages (\<open>Link_Tb_Send\<close>); the verbs library hands a request to the provider or the
  kernel, which encode it (\<open>Nic_Wqe\<close>), remember it (\<open>Nic_Queue\<close>) and report its completion (\<open>Nic_Cq\<close>,
  \<open>Nic_Provider\<close>). On the other side the receive ring places the messages (\<open>Link_Tb\<close>, \<open>Link_Tb_Rx\<close>) and the
  bond's hooks publish the signals (\<open>Bond_Rx\<close>, \<open>Bond_Conc\<close>).

  \<^bold>\<open>Conventions.\<close> A C structure is a record, an enumeration or a tagged choice a datatype; machine integers
  are words of their width, and an \<open>int\<close> that cannot overflow is an \<open>int\<close>. The bytes of an object are a
  function from offsets (theory \<open>Prelude\<close>). An operation returns its C result and the new state; \<open>None\<close> is
  NULL, a refused request, or a loop whose fuel ran out, as the text at the definition says. Code outside
  the repository is a parameter: the verbs library, the clock, the sockets, IOKit and the firmware answer
  from oracles that are fields of the state or arguments, and a theorem holds for all of their answers
  unless it names a hypothesis. Log lines and tracing are left out.

  \<^bold>\<open>Theories.\<close>

  \<^item> \<open>Prelude\<close>: byte memory, byte order (locale \<open>byte_codec\<close>, interpreted for each width), bounded queues
    (locale \<open>bounded_queue\<close>), the transfer of words to natural numbers.

  \<^item> \<open>Link_Types\<close>, \<open>Link_Cut\<close>: \<open>link.h\<close>, and the one rule by which every transfer loop takes its next piece
    (locales \<open>cutter\<close>, \<open>transfer_limits\<close>): the pieces tile the range.

  \<^item> \<open>Link_Verbs\<close>: \<open>link_verbs.c\<close>. A registered region is tiled by its registrations; each request stays inside
    one local and one remote registration and carries its keys; posting is ordered, within the window, and
    ends. A table that passes \<open>table_valid\<close> has a key for every byte unless the sum in the check wraps
    (\<open>table_valid_wraps\<close> shows that it can).

  \<^item> \<open>Link_Tb\<close>, \<open>Link_Tb_Send\<close>, \<open>Link_Tb_Flow\<close>, \<open>Link_Tb_Rx\<close>, \<open>Link_Tb_Props\<close>: \<open>link_tb.c\<close>. The operations, then the
    invariant of flow control (the counters agree with the sends in flight, staged messages stay intact),
    then what a peer's bytes can do (locale \<open>rx_hooks\<close> for the hooks of a bond), then the link as a step
    relation over all operations with the properties of its reachable states.

  \<^item> \<open>Link_Xchg\<close>: \<open>link_xchg.c\<close>. Round trips of the datagrams both ways (an error's last text byte excepted,
    which only the encoder makes the terminator), what an end admits, that an end only ever sends onto its
    link, and that what it sends, of any kind, arrives at the other as what the message carries.

  \<^item> \<open>Bond_Rx\<close>, \<open>Bond_Conc\<close>: the receiving side of a bond, as functions and as interleaved threads: signals
    come out in sequence, after their writes, and none is lost.

  \<^item> \<open>Bond_Ranges\<close>, \<open>Bond_Plan\<close>, \<open>Fabric_Setup\<close>: the sender's bounded memory of ranges refines an unbounded
    history; plans can be carried by the links and parts add up; names, ports and the budget of queue pairs.

  \<^item> \<open>Rpc_Lines\<close>, \<open>Rpc_Box\<close>, \<open>Rpc_Listen\<close>, \<open>Rpc_Connect\<close>: the daemon, and the queue pairs of \<open>link_verbs.c\<close> from
    creation to destruction. Lines come through the local sockets; a mailbox transfer stays inside both
    mailboxes and writes its word last, for any offer that is accepted; that it has enough requests, and a
    key of the peer for each, needs an offered table whose length plus segment fits 64 bits (\<open>table_fits\<close>),
    which \<open>table_valid\<close> does not ensure. Both ends are step relations
    over datagrams, timers, failures and writes into the mailbox, whose reachable states have a queue pair at
    RTS only on one checked offer and post only between the halves that belong together; an attempt to
    connect returns within its deadline.

  \<^item> \<open>Nic_Wqe\<close>, \<open>Nic_Queue\<close>, \<open>Nic_Cq\<close>, \<open>Nic_Provider\<close>: work entries, the records of outstanding work (locale
    \<open>work_tracker\<close>, interpreted for the kernel's queue and the process's mirror), completions, and reporting
    ahead of the kernel. Each shows the process and the kernel to agree. Taking posts back restores the mirror
    unless its 32-bit index came round meanwhile, when the code stops early (\<open>rollback_undoes_posts\<close>).

  \<^item> \<open>Nic_Keys\<close>, \<open>Nic_Cmd\<close>: \<open>core/cx5_verbs.cpp\<close>, \<open>core/cx5_protocol.cpp\<close>, \<open>command_wait.hpp\<close> and
    \<open>Transport::execute\<close>: memory keys translate as their segments do, the adapter reads the command that was
    built, a command of unknown outcome quarantines the adapter.

  \<^item> \<open>Nic_Hca\<close>, \<open>Nic_Index\<close>, \<open>Nic_Qp\<close>, \<open>Nic_Qp_Props\<close>: \<open>kernel_hca.cpp\<close> with the object index (locale
    \<open>bounded_map\<close>): the pages the firmware has are counted and held, the index is a map, the credits of a
    completion queue are exact, and purging one queue pair keeps the others' completions. What the firmware
    has is a record beside the driver's state, filled from the bytes of the commands that give pages and of
    the answers that return them; it is compared with the bitmaps and the extents of the buffers, on a device
    that is not detached (when it is, the code releases the pools without asking for the pages).

  \<^bold>\<open>Fuel and bounds.\<close> Loops that end by their data are total functions with a measure (\<open>chop\<close>, \<open>reg_loop\<close>,
  \<open>can_loop\<close>). Loops that wait for the device or the clock (\<open>reap_loop\<close>, \<open>pieces_loop\<close>, \<open>wait_loop\<close>,
  \<open>write_loop\<close>) take fuel, one unit a pass, with \<open>None\<close> for a loop that has not returned; \<open>transfer_in_order\<close>
  shows that enough fuel exists once the clock passes the timeout. The daemon's waits (\<open>wait_answer\<close>,
  \<open>ready_loop\<close>, \<open>take_line\<close>) recurse over the list of what the system answered, one entry a pass, and
  \<open>None\<close> is a wait that is not over; \<open>connect_attempt\<close> and \<open>lines_come_through\<close> say when it is. The probes of
  the object index take the number of slots as fuel, which \<open>index_is_bounded_map\<close> shows to be enough; the wait for a command polls the
  5040 times the code does.

  \<^bold>\<open>Not modelled.\<close> The posting loops of \<open>libmcdma_fabric.c\<close> and its threads' sleeping and waking; the kernel's
  glue to IOKit and Apple's verbs (\<open>apple_provider.cpp\<close>, \<open>apple_umem.cpp\<close>, \<open>registered_memory.cpp\<close>,
  \<open>cq_mapping.cpp\<close>, \<open>MCDMACX5Native.cpp\<close>), which is calls into frameworks whose code is not here; posting by
  the process in \<open>user_provider.c\<close>, which adds system calls to the encoders of \<open>Nic_Wqe\<close>; the daemon's main
  program with its arguments, lock files, shared memory and the text of STATUS; the programs that measure and
  test (\<open>client\<close>, \<open>peer\<close>, \<open>benchmarks\<close>, \<open>fabric_check.c\<close>, \<open>mesh_check.c\<close>), the GPU helpers, and
  everything that is not C or C++.
\<close>

end
